(* ===== verification/Sigma_Prelude.thy ===== *)
theory Sigma_Prelude
  imports Main "HOL-Library.Word" "HOL-Library.Monad_Syntax"
begin

text \<open>
  Shared vocabulary of the development: the machine types of the C code (bytes and the
  fixed-width unsigned integers), byte strings written as string literals, the
  little-endian byte encoding every on-disk integer uses, and the generic list lemmas the
  component theories rely on.

  A C buffer \<open>(ptr, len)\<close> is a byte list whose length is \<open>len\<close>; \<open>size_t\<close> indices into
  such a buffer are \<open>nat\<close> (they are bounded by the buffer's length), while the
  integers stored in structures keep their width as words.
\<close>

unbundle bit_operations_syntax

type_synonym u8 = "8 word"
type_synonym u16 = "16 word"
type_synonym u32 = "32 word"
type_synonym u64 = "64 word"
type_synonym bytes = "u8 list"

named_theorems codec_simps "length and decoding facts of the on-disk structures"

text \<open>The bytes of an ASCII literal of the C code.\<close>

definition lit :: "string \<Rightarrow> bytes" where
  "lit s = map of_char s"

text \<open>\<open>UINT32_MAX\<close>, the sentinel for "no index".\<close>

abbreviation u32_max :: u32 where
  "u32_max \<equiv> 0xFFFFFFFF"

section \<open>Little-endian integers\<close>

fun le_enc :: "nat \<Rightarrow> nat \<Rightarrow> bytes" where
  "le_enc 0 x = []"
| "le_enc (Suc n) x = of_nat (x mod 256) # le_enc n (x div 256)"

fun le_dec :: "bytes \<Rightarrow> nat" where
  "le_dec [] = 0"
| "le_dec (b # bs) = unat b + 256 * le_dec bs"

lemma length_le_enc [simp, codec_simps]: "length (le_enc n x) = n"
  by (induction n arbitrary: x) auto

lemma unat_byte_of_nat: "unat (of_nat (x mod 256) :: u8) = x mod 256"
  by (simp add: unat_of_nat)

lemma le_dec_enc: "le_dec (le_enc n x) = x mod 256 ^ n"
proof (induction n arbitrary: x)
  case 0
  then show ?case by simp
next
  case (Suc n)
  show ?case
    by (simp add: Suc unat_byte_of_nat mod_mult2_eq del: of_nat_mod)
qed

lemma u8_bound: "unat (b :: u8) < 256"
  by (rule order.strict_trans2 [OF unsigned_less]) simp

lemma le_dec_bound: "le_dec bs < 256 ^ length bs"
proof (induction bs)
  case Nil
  then show ?case by simp
next
  case (Cons b bs)
  have "unat b < 256"
    by (rule u8_bound)
  with Cons show ?case by simp
qed

lemma le_enc_dec: "length bs = n \<Longrightarrow> le_enc n (le_dec bs) = bs"
proof (induction n arbitrary: bs)
  case 0
  then show ?case by simp
next
  case (Suc n)
  then obtain b cs where "bs = b # cs" "length cs = n" by (cases bs) auto
  with Suc.IH [of cs] u8_bound [of b] show ?case by simp
qed

text \<open>Reading \<open>n\<close> bytes at offset \<open>o\<close> (a \<open>memcpy\<close> out of a buffer).\<close>

definition rd :: "bytes \<Rightarrow> nat \<Rightarrow> nat \<Rightarrow> bytes" where
  "rd buf off n = take n (drop off buf)"

lemma length_rd: "off + n \<le> length buf \<Longrightarrow> length (rd buf off n) = n"
  by (simp add: rd_def)

section \<open>Lists\<close>

lemma nth_eq_iff_map_take:
  assumes "i + length ys \<le> length xs"
  shows "map f (take (length ys) (drop i xs)) = map f ys
    \<longleftrightarrow> (\<forall>j < length ys. f (xs ! (i + j)) = f (ys ! j))"
  using assms by (auto simp: list_eq_iff_nth_eq)

lemma take_append_len: "length xs = n \<Longrightarrow> take n (xs @ ys) = xs"
  by simp

lemma drop_append_len: "length xs = n \<Longrightarrow> drop n (xs @ ys) = ys"
  by simp

lemma list_all_nthI: "(\<And>i. i < length xs \<Longrightarrow> P (xs ! i)) \<Longrightarrow> list_all P xs"
  by (simp add: list_all_length)

text \<open>A list without its repeats, first occurrences kept.\<close>

definition first_occ :: "'a list \<Rightarrow> 'a list" where
  "first_occ xs = rev (remdups (rev xs))"

lemma first_occ_snoc: "first_occ (xs @ [x]) = (if x \<in> set xs then first_occ xs else first_occ xs @ [x])"
  by (simp add: first_occ_def)

lemma first_occ_Nil [simp]: "first_occ [] = []"
  by (simp add: first_occ_def)

lemma set_first_occ [simp]: "set (first_occ xs) = set xs"
  by (simp add: first_occ_def)

lemma first_occ_distinct: "distinct xs \<Longrightarrow> first_occ xs = xs"
  by (simp add: first_occ_def distinct_remdups_id)

lemma set_tl_subset: "set (tl xs) \<subseteq> set xs"
  by (cases xs) auto

section \<open>Undefined behaviour as failure\<close>

text \<open>
  An array read is checked: \<open>None\<close> stands for a read past the end, which is undefined
  behaviour in C. Code that performs such reads runs in the option monad, and a theorem
  that it returns \<open>Some\<close> says that it stays inside its arrays.
\<close>

definition idx :: "'a list \<Rightarrow> nat \<Rightarrow> 'a option" where
  "idx xs i = (if i < length xs then Some (xs ! i) else None)"

lemma idx_Some [simp]: "i < length xs \<Longrightarrow> idx xs i = Some (xs ! i)"
  by (simp add: idx_def)

lemma idx_eq_Some: "idx xs i = Some x \<longleftrightarrow> i < length xs \<and> xs ! i = x"
  by (auto simp: idx_def)

text \<open>A checked array write.\<close>

definition upd :: "'a list \<Rightarrow> nat \<Rightarrow> 'a \<Rightarrow> 'a list option" where
  "upd xs i x = (if i < length xs then Some (xs[i := x]) else None)"

lemma upd_Some [simp]: "i < length xs \<Longrightarrow> upd xs i x = Some (xs[i := x])"
  by (simp add: upd_def)

text \<open>A loop over a list of indices whose body may fail.\<close>

fun mfold :: "('a \<Rightarrow> 's \<Rightarrow> 's option) \<Rightarrow> 'a list \<Rightarrow> 's \<Rightarrow> 's option" where
  "mfold f [] s = Some s"
| "mfold f (x # xs) s = do { s' \<leftarrow> f x s; mfold f xs s' }"

lemma mfold_append: "mfold f (xs @ ys) s = do { s' \<leftarrow> mfold f xs s; mfold f ys s' }"
  by (induction xs arbitrary: s) (simp_all split: bind_split)

text \<open>An invariant that every iteration keeps, and that makes every iteration succeed.\<close>

lemma mfold_inv:
  assumes "I [] s"
    "\<And>ys x zs s. xs = ys @ x # zs \<Longrightarrow> I ys s \<Longrightarrow> \<exists>s'. f x s = Some s' \<and> I (ys @ [x]) s'"
  shows "\<exists>s'. mfold f xs s = Some s' \<and> I xs s'"
proof -
  have "k \<le> length xs \<Longrightarrow> \<exists>s'. mfold f (take k xs) s = Some s' \<and> I (take k xs) s'" for k
  proof (induction k)
    case 0
    with assms(1) show ?case by simp
  next
    case (Suc k)
    then obtain s' where s': "mfold f (take k xs) s = Some s'" "I (take k xs) s'" by auto
    have "xs = take k xs @ xs ! k # drop (Suc k) xs"
      using Suc.prems by (simp add: id_take_nth_drop)
    from assms(2) [OF this s'(2)] s'(1) Suc.prems show ?case
      by (auto simp: take_Suc_conv_app_nth mfold_append)
  qed
  from this [of "length xs"] show ?thesis by simp
qed

text \<open>
  A loop that only adds to its state: \<open>le\<close> orders the states by what has been added, and
  what one iteration establishes (\<open>P x\<close>) later iterations keep.
\<close>

lemma mfold_grow:
  assumes le: "\<And>s. le s s" "\<And>s t u. le s t \<Longrightarrow> le t u \<Longrightarrow> le s u"
    and keep: "\<And>x s t. P x s \<Longrightarrow> le s t \<Longrightarrow> P x t"
    and step: "\<And>x s. x \<in> set xs \<Longrightarrow> I s \<Longrightarrow> \<exists>t. f x s = Some t \<and> I t \<and> le s t \<and> P x t"
    and init: "I s"
  shows "\<exists>t. mfold f xs s = Some t \<and> I t \<and> le s t \<and> (\<forall>x \<in> set xs. P x t)"
proof (rule mfold_inv [where I = "\<lambda>ys t. I t \<and> le s t \<and> (\<forall>x \<in> set ys. P x t)"])
  show "I s \<and> le s s \<and> (\<forall>x \<in> set []. P x s)" using init le(1) by simp
  fix ys x zs t assume xs: "xs = ys @ x # zs" and t: "I t \<and> le s t \<and> (\<forall>x \<in> set ys. P x t)"
  then obtain u where u: "f x t = Some u" "I u" "le t u" "P x u" using step [of x t] by auto
  then have "\<forall>x \<in> set (ys @ [x]). P x u" using t keep by auto
  with u t le(2) show "\<exists>u. f x t = Some u \<and> I u \<and> le s u \<and> (\<forall>x \<in> set (ys @ [x]). P x u)" by blast
qed

end
