(* ===== verification/Field_Numbers.thy ===== *)
theory Field_Numbers
  imports Sigma_Prelude
begin

text \<open>
  Numeric and network reads of a field value in \<open>src/src/sigma_match.c\<close>: the saturating
  integer parse \<open>sg_to_i64\<close> and the CIDR membership test (\<open>prefix_match\<close>,
  \<open>ip_in_cidr\<close>). A read past the end of an array is \<open>None\<close>.
\<close>

section \<open>Integer parse\<close>

definition is_digit :: "u8 \<Rightarrow> bool" where
  "is_digit c \<longleftrightarrow> 48 \<le> c \<and> c \<le> 57"

abbreviation int64_max :: u64 where "int64_max \<equiv> 0x7FFFFFFFFFFFFFFF"
abbreviation int64_min :: u64 where "int64_min \<equiv> 0x8000000000000000"
abbreviation uint64_max :: u64 where "uint64_max \<equiv> 0xFFFFFFFFFFFFFFFF"

text \<open>The digit loop: the magnitude so far, and whether it saturated.\<close>

fun i64_digits :: "bytes \<Rightarrow> u64 \<Rightarrow> u64 \<times> bool" where
  "i64_digits [] mag = (mag, False)"
| "i64_digits (c # cs) mag =
     (if is_digit c then
        (if mag > (uint64_max - 9) div 10 then (mag, True)
         else i64_digits cs (mag * 10 + ucast (c - 48)))
      else (mag, False))"

definition sg_to_i64 :: "bytes \<Rightarrow> u64 option" where
  "sg_to_i64 s =
     (let (neg, r) =
        (case s of
           c # cs \<Rightarrow> if c = 45 \<or> c = 43 then (c = 45, cs) else (False, s)
         | [] \<Rightarrow> (False, s))
      in case r of
           [] \<Rightarrow> None
         | d # _ \<Rightarrow>
             if d < 48 \<or> d > 57 then None
             else let (mag, sat) = i64_digits r 0 in
               Some (if neg then (if sat \<or> mag \<ge> int64_max + 1 then int64_min else - mag)
                     else (if sat \<or> mag > int64_max then int64_max else mag)))"

text \<open>The reference: the unbounded integer the leading digits denote.\<close>

definition digits_val :: "nat \<Rightarrow> bytes \<Rightarrow> nat" where
  "digits_val v ds = foldl (\<lambda>a c. 10 * a + (unat c - 48)) v ds"

definition decimal_prefix :: "bytes \<Rightarrow> int option" where
  "decimal_prefix s =
     (let neg = (s \<noteq> [] \<and> hd s = 45);
          r = (if s \<noteq> [] \<and> (hd s = 45 \<or> hd s = 43) then tl s else s);
          ds = takeWhile is_digit r
      in if ds = [] then None
         else Some ((if neg then -1 else 1) * int (digits_val 0 ds)))"

definition clamp_i64 :: "int \<Rightarrow> int" where
  "clamp_i64 x = max (- (2 ^ 63)) (min (2 ^ 63 - 1) x)"

lemma digits_val_ge: "v * 10 ^ length ds \<le> digits_val v ds"
proof (induction ds arbitrary: v)
  case Nil
  then show ?case by (simp add: digits_val_def)
next
  case (Cons c ds)
  have "v * 10 ^ length (c # ds) \<le> (10 * v + (unat c - 48)) * 10 ^ length ds"
    by (simp add: algebra_simps)
  also have "\<dots> \<le> digits_val (10 * v + (unat c - 48)) ds" by (rule Cons.IH)
  finally show ?case by (simp add: digits_val_def)
qed

lemma digits_val_Cons [simp]:
  "digits_val v (c # ds) = digits_val (10 * v + (unat c - 48)) ds"
  by (simp add: digits_val_def)

lemma digits_val_Nil [simp]: "digits_val v [] = v"
  by (simp add: digits_val_def)

lemma is_digit_unat: "is_digit c \<longleftrightarrow> 48 \<le> unat c \<and> unat c \<le> 57"
  by (simp add: is_digit_def word_le_nat_alt)

lemma digit_minus: "is_digit c \<Longrightarrow> unat (c - 48) = unat c - 48"
  by (simp add: is_digit_unat unat_sub word_le_nat_alt)

lemma sat_limit: "unat ((uint64_max - 9) div 10) = 1844674407370955160"
  by simp

lemma i64_step:
  assumes "is_digit c" "\<not> mag > (uint64_max - 9) div 10"
  shows "unat (mag * 10 + ucast (c - 48)) = 10 * unat mag + (unat c - 48)"
proof -
  have m: "unat mag \<le> 1844674407370955160"
    using assms(2) by (simp add: word_less_nat_alt)
  have u: "unat (ucast (c - 48) :: u64) = unat c - 48"
    using assms(1) u8_bound [of "c - 48"]
    by (simp add: unsigned_ucast_eq take_bit_nat_def digit_minus)
  have "unat c - 48 \<le> 9" using assms(1) unfolding is_digit_unat by linarith
  with m u show ?thesis by (simp add: unat_word_ariths)
qed

lemma i64_digits_correct:
  "i64_digits cs mag = (mag', sat) \<Longrightarrow>
   (if sat then 18446744073709551600 \<le> digits_val (unat mag) (takeWhile is_digit cs)
    else unat mag' = digits_val (unat mag) (takeWhile is_digit cs))"
proof (induction cs arbitrary: mag)
  case Nil
  then show ?case by simp
next
  case (Cons c cs)
  show ?case
  proof (cases "is_digit c")
    case False
    with Cons.prems show ?thesis by auto
  next
    case d: True
    show ?thesis
    proof (cases "mag > (uint64_max - 9) div 10")
      case True
      then have m: "1844674407370955161 \<le> unat mag" by (simp add: word_less_nat_alt)
      let ?ds = "takeWhile is_digit (c # cs)"
      have "10 \<le> (10::nat) ^ length ?ds" using d by simp
      then have "1844674407370955161 * 10 \<le> unat mag * 10 ^ length ?ds"
        using m by (intro mult_le_mono)
      also have "\<dots> \<le> digits_val (unat mag) ?ds" by (rule digits_val_ge)
      finally show ?thesis using Cons.prems d True by simp
    next
      case False
      with Cons.prems d have "i64_digits cs (mag * 10 + ucast (c - 48)) = (mag', sat)" by simp
      from Cons.IH [OF this] show ?thesis unfolding i64_step [OF d False] using d by simp
    qed
  qed
qed

lemma shift_mod_i64:
  "0 \<le> u \<Longrightarrow> u < 2 ^ 64 \<Longrightarrow>
   ((u :: int) + 2 ^ 63) mod 2 ^ 64 - 2 ^ 63 = (if u < 2 ^ 63 then u else u - 2 ^ 64)"
  by (auto simp: mod_pos_geq mod_pos_pos_trivial)

lemma uint_lt_64: "uint (w :: u64) < 2 ^ 64"
  by (rule order.strict_trans2 [OF unsigned_less]) simp

lemma sint_i64_uint: "sint (w :: u64) = (if uint w < 2 ^ 63 then uint w else uint w - 2 ^ 64)"
  using shift_mod_i64 [of "uint w"] uint_lt_64 [of w]
  by (simp add: sint_uint signed_take_bit_eq_take_bit_shift take_bit_eq_mod)

lemma unat_uint_lt: "unat (w :: u64) < 2 ^ 63 \<longleftrightarrow> uint w < 2 ^ 63"
proof -
  have "unat w < 2 ^ 63 \<longleftrightarrow> int (unat w) < int (2 ^ 63)" by (simp only: of_nat_less_iff)
  then show ?thesis by simp
qed

lemma sint_i64: "sint (w :: u64) = (if unat w < 2 ^ 63 then int (unat w) else int (unat w) - 2 ^ 64)"
  unfolding unat_uint_lt sint_i64_uint by simp

lemma uint_neg_mag: "uint (w :: u64) \<noteq> 0 \<Longrightarrow> uint (- w) = 2 ^ 64 - uint w"
  using uint_lt_64 [of w] by (simp add: uint_word_ariths zmod_zminus1_eq_if mod_pos_pos_trivial)

lemma sint_neg_mag:
  assumes "unat (w :: u64) < 2 ^ 63"
  shows "sint (- w) = - int (unat w)"
proof (cases "uint w = 0")
  case True
  then have "w = 0" by (simp add: word_uint_eq_iff)
  then show ?thesis by simp
next
  case False
  have "uint w < 2 ^ 63" "0 \<le> uint w" using assms unat_uint_lt by auto
  with False uint_neg_mag [OF False] have "sint (- w) = - uint w"
    unfolding sint_i64_uint by auto
  then show ?thesis by simp
qed

text \<open>
  The parse is the clamp of the unbounded value, for every input and with no overflow on
  the way.
\<close>

lemma sg_to_i64_clamp:
  "map_option sint (sg_to_i64 s) = map_option clamp_i64 (decimal_prefix s)"
proof -
  define r where "r = (if s \<noteq> [] \<and> (hd s = 45 \<or> hd s = 43) then tl s else s)"
  define neg where "neg = (s \<noteq> [] \<and> hd s = 45)"
  obtain mag sat where l: "i64_digits r 0 = (mag, sat)" by fastforce
  let ?ds = "takeWhile is_digit r"
  have split: "(case s of c # cs \<Rightarrow> if c = 45 \<or> c = 43 then (c = 45, cs) else (False, s)
     | [] \<Rightarrow> (False, s)) = (neg, r)"
    by (auto simp: r_def neg_def split: list.split)
  have dig: "sg_to_i64 s = (case r of [] \<Rightarrow> None | d # _ \<Rightarrow> if \<not> is_digit d then None
    else Some (if neg then (if sat \<or> mag \<ge> int64_max + 1 then int64_min else - mag)
               else (if sat \<or> mag > int64_max then int64_max else mag)))"
    unfolding sg_to_i64_def split by (auto simp: l is_digit_def not_le split: list.split)
  have ref: "decimal_prefix s = (if ?ds = [] then None
    else Some ((if neg then -1 else 1) * int (digits_val 0 ?ds)))"
    by (simp add: decimal_prefix_def Let_def r_def neg_def)
  have val: "if sat then 18446744073709551600 \<le> digits_val 0 ?ds else unat mag = digits_val 0 ?ds"
    using i64_digits_correct [OF l] unfolding unsigned_0 .
  show ?thesis
  proof (cases "?ds = []")
    case True
    then have "sg_to_i64 s = None"
      unfolding dig by (cases r) (auto split: if_splits)
    with True ref show ?thesis by simp
  next
    case False
    then obtain d ds where r: "r = d # ds" "is_digit d" by (cases r) (auto split: if_splits)
    show ?thesis
      using val sint_i64 [of mag] sint_neg_mag [of mag]
      by (auto simp: dig r(1) r(2) ref False [unfolded r(1)] clamp_i64_def word_le_nat_alt
          word_less_nat_alt sint_i64 [of int64_max] sint_i64 [of int64_min]
          simp del: of_nat_unat split: if_splits)
  qed
qed

section \<open>CIDR membership\<close>

text \<open>
  A pre-parsed network operand (\<open>sigma_cidr_t\<close>). \<open>net\<close> has 16 bytes; an IPv4 network
  uses the first four.
\<close>

record sigma_cidr =
  cidr_family :: u8
  cidr_prefix :: u8
  cidr_net :: bytes

text \<open>A byte read of an array; past the end it is undefined behaviour in C.\<close>

definition byte_at :: "bytes \<Rightarrow> nat \<Rightarrow> u8 option" where
  "byte_at xs i = (if i < length xs then Some (xs ! i) else None)"

text \<open>
  \<open>prefix_match (addr, net, prefix, nbytes)\<close>: \<open>None\<close> when the compare reads past the end
  of \<open>addr\<close> or \<open>net\<close>.
\<close>

definition prefix_match :: "bytes \<Rightarrow> bytes \<Rightarrow> u8 \<Rightarrow> nat \<Rightarrow> bool option" where
  "prefix_match addr net prefix nbytes =
     (let full = unat prefix div 8; rm = unat prefix mod 8 in
      if full > nbytes then Some False
      else if full \<noteq> 0 \<and> take full addr \<noteq> take full net then Some False
      else if rm \<noteq> 0 then
        (let mk = push_bit (8 - rm) (0xFF :: u8) in
         case (byte_at addr full, byte_at net full) of
           (Some a, Some b) \<Rightarrow> Some ((a AND mk) = (b AND mk))
         | _ \<Rightarrow> None)
      else Some True)"

text \<open>
  \<open>inet_pton\<close> (POSIX, not part of this repository) is a parameter for each family: the
  network-order address of a C string, or nothing. The value is copied to a 46-byte buffer
  and ends there at its first NUL.
\<close>

definition c_string :: "bytes \<Rightarrow> bytes" where
  "c_string v = takeWhile (\<lambda>c. c \<noteq> 0) v"

definition ip_in_cidr ::
  "(bytes \<Rightarrow> bytes option) \<Rightarrow> (bytes \<Rightarrow> bytes option) \<Rightarrow> bytes \<Rightarrow> sigma_cidr \<Rightarrow> bool option" where
  "ip_in_cidr pton4 pton6 val c =
     (if length val = 0 \<or> length val \<ge> 46 then Some False
      else if cidr_family c = 4 then
        (case pton4 (c_string val) of
           None \<Rightarrow> Some False
         | Some addr \<Rightarrow> prefix_match addr (cidr_net c) (cidr_prefix c) 4)
      else if cidr_family c = 6 then
        (case pton6 (c_string val) of
           None \<Rightarrow> Some False
         | Some addr \<Rightarrow> prefix_match addr (cidr_net c) (cidr_prefix c) 16)
      else Some False)"

text \<open>
  The reference: the first \<open>prefix\<close> bits of both addresses agree, bits numbered from the
  most significant bit of the first byte.
\<close>

definition addr_bit :: "bytes \<Rightarrow> nat \<Rightarrow> bool" where
  "addr_bit a i = bit (a ! (i div 8)) (7 - i mod 8)"

definition same_prefix :: "bytes \<Rightarrow> bytes \<Rightarrow> nat \<Rightarrow> bool" where
  "same_prefix a b n \<longleftrightarrow> (\<forall>i < n. addr_bit a i = addr_bit b i)"

lemma prefix_mask_bit: "bit (push_bit (8 - r) 0xFF :: u8) j \<longleftrightarrow> 8 - r \<le> j \<and> j < 8"
proof -
  have "(0xFF :: u8) = - 1" by simp
  then show ?thesis by (simp only: bit_push_bit_iff bit_minus_1_iff) (auto simp: possible_bit_word)
qed

lemma mask_and_eq:
  assumes "r \<le> 8"
  shows "((a :: u8) AND push_bit (8 - r) 0xFF) = (b AND push_bit (8 - r) 0xFF) \<longleftrightarrow>
    (\<forall>k < r. bit a (7 - k) = bit b (7 - k))"
proof -
  have "(a AND push_bit (8 - r) 0xFF) = (b AND push_bit (8 - r) 0xFF) \<longleftrightarrow>
    (\<forall>j. 8 - r \<le> j \<and> j < 8 \<longrightarrow> bit a j = bit b j)"
    by (auto simp: bit_eq_iff bit_and_iff prefix_mask_bit simp del: push_bit_numeral)
  also have "\<dots> \<longleftrightarrow> (\<forall>k < r. bit a (7 - k) = bit b (7 - k))"
  proof (rule iffI; intro allI impI)
    fix k assume "\<forall>j. 8 - r \<le> j \<and> j < 8 \<longrightarrow> bit a j = bit b j" "k < r"
    moreover from this assms have "8 - r \<le> 7 - k \<and> 7 - k < 8" by auto
    ultimately show "bit a (7 - k) = bit b (7 - k)" by blast
  next
    fix j assume h: "\<forall>k < r. bit a (7 - k) = bit b (7 - k)" "8 - r \<le> j \<and> j < 8"
    then have "7 - j < r" "7 - (7 - j) = j" using assms by auto
    with h(1) show "bit a j = bit b j" by metis
  qed
  finally show ?thesis .
qed

lemma byte_eq_bits: "(a :: u8) = b \<longleftrightarrow> (\<forall>k < 8. bit a (7 - k) = bit b (7 - k))"
proof -
  have "(0xFF :: u8) = - 1" by simp
  from mask_and_eq [of 8 a b, unfolded this] show ?thesis by simp
qed

lemma same_prefix_byte:
  "same_prefix a b (8 * Suc n) \<longleftrightarrow> same_prefix a b (8 * n) \<and> a ! n = b ! n"
proof -
  have "(\<forall>k < 8. bit (a ! n) (7 - k) = bit (b ! n) (7 - k)) \<longleftrightarrow>
    (\<forall>i. 8 * n \<le> i \<and> i < 8 * Suc n \<longrightarrow> addr_bit a i = addr_bit b i)"
  proof (rule iffI; intro allI impI)
    fix i assume "\<forall>k < 8. bit (a ! n) (7 - k) = bit (b ! n) (7 - k)" "8 * n \<le> i \<and> i < 8 * Suc n"
    moreover from this have "i div 8 = n" by auto
    ultimately show "addr_bit a i = addr_bit b i" by (simp add: addr_bit_def)
  next
    fix k :: nat assume h: "\<forall>i. 8 * n \<le> i \<and> i < 8 * Suc n \<longrightarrow> addr_bit a i = addr_bit b i" "k < 8"
    then have "addr_bit a (8 * n + k) = addr_bit b (8 * n + k)" by auto
    with h(2) show "bit (a ! n) (7 - k) = bit (b ! n) (7 - k)" by (simp add: addr_bit_def)
  qed
  then show ?thesis
    unfolding same_prefix_def byte_eq_bits [of "a ! n"]
    by (metis add_lessD1 le_add1 linorder_not_le mult_Suc_right trans_less_add2)
qed

lemma same_prefix_bytes:
  "n \<le> length a \<Longrightarrow> n \<le> length b \<Longrightarrow> same_prefix a b (8 * n) \<longleftrightarrow> take n a = take n b"
proof (induction n)
  case 0
  then show ?case by (simp add: same_prefix_def)
next
  case (Suc n)
  then have "take (Suc n) a = take n a @ [a ! n]" "take (Suc n) b = take n b @ [b ! n]"
    by (simp_all add: take_Suc_conv_app_nth)
  with Suc show ?case by (simp add: same_prefix_byte del: mult_Suc_right)
qed

lemma same_prefix_rest:
  assumes "r < 8"
  shows "same_prefix a b (8 * n + r) \<longleftrightarrow>
    same_prefix a b (8 * n) \<and> (\<forall>k < r. bit (a ! n) (7 - k) = bit (b ! n) (7 - k))"
proof (rule iffI; (intro conjI allI impI)?)
  assume h: "same_prefix a b (8 * n + r)"
  then show "same_prefix a b (8 * n)" by (simp add: same_prefix_def)
  fix k assume "k < r"
  with h have "addr_bit a (8 * n + k) = addr_bit b (8 * n + k)" by (simp add: same_prefix_def)
  with \<open>k < r\<close> assms show "bit (a ! n) (7 - k) = bit (b ! n) (7 - k)" by (simp add: addr_bit_def)
next
  assume h: "same_prefix a b (8 * n) \<and> (\<forall>k < r. bit (a ! n) (7 - k) = bit (b ! n) (7 - k))"
  show "same_prefix a b (8 * n + r)"
    unfolding same_prefix_def
  proof (intro allI impI)
    fix i assume i: "i < 8 * n + r"
    show "addr_bit a i = addr_bit b i"
    proof (cases "i < 8 * n")
      case True
      with h show ?thesis by (simp add: same_prefix_def)
    next
      case False
      then obtain k where k: "i = 8 * n + k" by (metis le_iff_add not_less)
      with i assms have "i div 8 = n" "i mod 8 < r" by auto
      with h show ?thesis by (simp add: addr_bit_def)
    qed
  qed
qed

lemma prefix_match_same_prefix:
  assumes "length addr = nbytes" "nbytes \<le> length net" "unat prefix \<le> 8 * nbytes"
  shows "prefix_match addr net prefix nbytes = Some (same_prefix addr net (unat prefix))"
proof -
  define full r where "full = unat prefix div 8" and "r = unat prefix mod 8"
  have p: "unat prefix = 8 * full + r" "r < 8" by (simp_all add: full_def r_def)
  have full: "full \<le> nbytes" "r \<noteq> 0 \<Longrightarrow> full < nbytes" using assms(3) p by auto
  have "take full addr = take full net \<longleftrightarrow> same_prefix addr net (8 * full)"
    using assms full by (simp add: same_prefix_bytes)
  moreover have "full = 0 \<Longrightarrow> same_prefix addr net (8 * full)" by (simp add: same_prefix_def)
  moreover have "same_prefix addr net (unat prefix) \<longleftrightarrow> same_prefix addr net (8 * full) \<and>
      (\<forall>k < r. bit (addr ! full) (7 - k) = bit (net ! full) (7 - k))"
    unfolding p(1) by (rule same_prefix_rest [OF p(2)])
  moreover have "(\<forall>k < r. bit (addr ! full) (7 - k) = bit (net ! full) (7 - k)) \<longleftrightarrow>
      ((addr ! full) AND push_bit (8 - r) 0xFF) = ((net ! full) AND push_bit (8 - r) 0xFF)"
    using p(2) by (simp only: mask_and_eq less_imp_le)
  moreover have "r \<noteq> 0 \<Longrightarrow> full < length addr \<and> full < length net" using full assms(1,2) by simp
  ultimately show ?thesis
    using full(1)
    unfolding prefix_match_def Let_def full_def [symmetric] r_def [symmetric]
    by (cases "r = 0") (simp_all add: byte_at_def not_less del: push_bit_numeral)
qed

text \<open>
  A prefix length that the address family does not have is not refused: with 33 to 39 and
  an IPv4 address that agrees on all four bytes, the compare reads the byte after the
  address.
\<close>

lemma prefix_match_overread:
  assumes "length addr = 4" "take 4 addr = take 4 net" "32 < unat prefix" "unat prefix < 40"
  shows "prefix_match addr net prefix 4 = None"
proof -
  have "unat prefix div 8 = 4" "unat prefix mod 8 \<noteq> 0" using assms(3,4) by presburger+
  with assms(1,2) show ?thesis
    by (simp add: prefix_match_def byte_at_def split: option.splits)
qed

section \<open>Properties of the numeric and network operands\<close>

text \<open>
  C23. A numeric field is read as the value of its optional sign and longest run of leading
  digits, clamped to the signed 64-bit range, and is refused exactly when there is no
  digit; no digit string overflows or changes sign.
\<close>

theorem sg_to_i64_correct:
  "map_option sint (sg_to_i64 s) = map_option clamp_i64 (decimal_prefix s)"
  by (rule sg_to_i64_clamp)

text \<open>
  C24. Membership in a network whose prefix length fits the address family reads only
  inside the two addresses and holds exactly when the first \<open>prefix\<close> bits agree.
\<close>

theorem prefix_match_correct:
  "length addr = nbytes \<Longrightarrow> nbytes \<le> length net \<Longrightarrow> unat prefix \<le> 8 * nbytes \<Longrightarrow>
   prefix_match addr net prefix nbytes = Some (same_prefix addr net (unat prefix))"
  by (rule prefix_match_same_prefix)

theorem prefix_match_correct_witness:
  "prefix_match [10, 1, 2, 3] [10, 0, 0, 0] 8 4 = Some (same_prefix [10, 1, 2, 3] [10, 0, 0, 0] 8)"
  using prefix_match_correct [of "[10, 1, 2, 3]" 4 "[10, 0, 0, 0]" 8] by simp

end
