(* ===== verification/Sigma_Db.thy ===== *)
theory Sigma_Db
  imports Field_Numbers
begin

text \<open>
  The compiled rule model of \<open>src/src/sigma_match.h\<close>: the operators and flags, the
  on-disk structures as records, and the rule database. A table \<open>(pointer, count)\<close> is a
  list whose length is the count; padding bytes of the C structures carry no information
  and are left out. The \<open>rule_clauses\<close> table is the one whose presence matters on its
  own, so it is optional. Members derived by \<open>sigma_db_finalize\<close> are not part of this
  record (theory Finalize).
\<close>

section \<open>Operators, flags and token kinds\<close>

abbreviation OP_EQ :: u8 where "OP_EQ \<equiv> 0"
abbreviation OP_CONTAINS :: u8 where "OP_CONTAINS \<equiv> 1"
abbreviation OP_STARTSWITH :: u8 where "OP_STARTSWITH \<equiv> 2"
abbreviation OP_ENDSWITH :: u8 where "OP_ENDSWITH \<equiv> 3"
abbreviation OP_EXISTS :: u8 where "OP_EXISTS \<equiv> 4"
abbreviation OP_GT :: u8 where "OP_GT \<equiv> 5"
abbreviation OP_GTE :: u8 where "OP_GTE \<equiv> 6"
abbreviation OP_LT :: u8 where "OP_LT \<equiv> 7"
abbreviation OP_LTE :: u8 where "OP_LTE \<equiv> 8"
abbreviation OP_RE :: u8 where "OP_RE \<equiv> 9"
abbreviation OP_CIDR :: u8 where "OP_CIDR \<equiv> 10"
abbreviation OP_NUMEQ :: u8 where "OP_NUMEQ \<equiv> 11"

abbreviation PF_CASE :: u8 where "PF_CASE \<equiv> 1"
abbreviation PF_NEGATE :: u8 where "PF_NEGATE \<equiv> 2"
abbreviation PF_FIELDREF :: u8 where "PF_FIELDREF \<equiv> 4"

abbreviation C_SEL :: u8 where "C_SEL \<equiv> 0"
abbreviation C_AND :: u8 where "C_AND \<equiv> 1"
abbreviation C_OR :: u8 where "C_OR \<equiv> 2"
abbreviation C_NOT :: u8 where "C_NOT \<equiv> 3"

abbreviation NO_VALUE :: u32 where "NO_VALUE \<equiv> 0xFFFFFFFF"
abbreviation ANY_FIELD :: u16 where "ANY_FIELD \<equiv> 0xFFFF"
abbreviation MAX_CLAUSES :: nat where "MAX_CLAUSES \<equiv> 32"

definition has_flag :: "u8 \<Rightarrow> u8 \<Rightarrow> bool" where
  "has_flag flags f \<longleftrightarrow> flags AND f \<noteq> 0"

section \<open>Structures\<close>

record sigma_str =
  st_off :: u32
  st_len :: u32

record sigma_pred =
  p_field :: u16
  p_group :: u16
  p_op :: u8
  p_flags :: u8
  p_value :: u32
  p_ival :: u64

record sigma_sel =
  s_start :: u32
  s_count :: u32

record sigma_ctok =
  c_kind :: u8
  c_sel :: u32

record sigma_rule =
  r_id :: u32
  r_sel_start :: u32
  r_sel_count :: u32
  r_cond_start :: u32
  r_cond_count :: u32
  r_verdict :: u8
  r_severity :: u8
  r_score :: u16
  r_name :: u32
  r_mitre :: u32

record sigma_bucket =
  b_start :: u32
  b_count :: u32

record sigma_litpost =
  lp_start :: u32
  lp_count :: u32

record sigma_litref =
  l_rule :: u32
  l_field :: u16
  l_clause :: u8

record sigma_fwit =
  w_rule :: u32
  w_field :: u16
  w_clause :: u8
  w_op :: u8
  w_ival :: u64

record sigma_db =
  db_fields :: "sigma_str list"
  db_values :: "sigma_str list"
  db_preds :: "sigma_pred list"
  db_sels :: "sigma_sel list"
  db_cond :: "sigma_ctok list"
  db_rules :: "sigma_rule list"
  db_cidrs :: "sigma_cidr list"
  db_strpool :: bytes
  db_bucket_keys :: "sigma_str list"
  db_buckets :: "sigma_bucket list"
  db_bucket_idx :: "u32 list"
  db_av_bucket :: u32
  db_cat_field_id :: u32
  db_litndl :: "sigma_str list"
  db_litpost :: "sigma_litpost list"
  db_litpost_ref :: "sigma_litref list"
  db_litav :: "u32 list"
  db_rule_clauses :: "bytes option"
  db_fwit :: "sigma_fwit list"

text \<open>The bytes a string reference names: \<open>strpool[off .. off + len)\<close>.\<close>

definition str_bytes :: "bytes \<Rightarrow> sigma_str \<Rightarrow> bytes" where
  "str_bytes pool s = rd pool (unat (st_off s)) (unat (st_len s))"

section \<open>Well-formed references\<close>

text \<open>
  What the loader checks of each table entry. Offsets and counts are summed as \<open>size_t\<close>,
  so the sums do not wrap.
\<close>

definition str_ok :: "sigma_db \<Rightarrow> sigma_str \<Rightarrow> bool" where
  "str_ok d s \<longleftrightarrow> unat (st_off s) + unat (st_len s) \<le> length (db_strpool d)"

definition field_ok :: "sigma_db \<Rightarrow> sigma_str \<Rightarrow> bool" where
  "field_ok d f \<longleftrightarrow>
     (let e = unat (st_off f) + unat (st_len f) in
      e + 1 \<le> length (db_strpool d) \<and> db_strpool d ! e = 0)"

definition pred_ok :: "sigma_db \<Rightarrow> sigma_pred \<Rightarrow> bool" where
  "pred_ok d p \<longleftrightarrow>
     unat (p_field p) < length (db_fields d) \<and>
     (if has_flag (p_flags p) PF_FIELDREF then unat (p_value p) < length (db_fields d)
      else if p_op p = OP_CIDR then unat (p_value p) < length (db_cidrs d)
      else p_value p = NO_VALUE \<or> unat (p_value p) < length (db_values d))"

definition sel_ok :: "sigma_db \<Rightarrow> sigma_sel \<Rightarrow> bool" where
  "sel_ok d s \<longleftrightarrow> unat (s_start s) + unat (s_count s) \<le> length (db_preds d)"

definition rule_ok :: "sigma_db \<Rightarrow> sigma_rule \<Rightarrow> bool" where
  "rule_ok d r \<longleftrightarrow>
     unat (r_sel_start r) + unat (r_sel_count r) \<le> length (db_sels d) \<and>
     unat (r_cond_start r) + unat (r_cond_count r) \<le> length (db_cond d) \<and>
     (r_name r = NO_VALUE \<or> unat (r_name r) < length (db_values d)) \<and>
     (r_mitre r = NO_VALUE \<or> unat (r_mitre r) < length (db_values d))"

definition ctok_ok :: "sigma_ctok \<Rightarrow> bool" where
  "ctok_ok t \<longleftrightarrow> c_kind t \<le> C_NOT"

definition bucket_ok :: "sigma_db \<Rightarrow> sigma_str \<Rightarrow> sigma_bucket \<Rightarrow> bool" where
  "bucket_ok d k b \<longleftrightarrow>
     str_ok d k \<and> unat (b_start b) + unat (b_count b) \<le> length (db_bucket_idx d)"

definition rule_idx_ok :: "sigma_db \<Rightarrow> u32 \<Rightarrow> bool" where
  "rule_idx_ok d ri \<longleftrightarrow> unat ri < length (db_rules d)"

definition needle_ok :: "sigma_db \<Rightarrow> sigma_str \<Rightarrow> sigma_litpost \<Rightarrow> bool" where
  "needle_ok d n p \<longleftrightarrow>
     str_ok d n \<and> st_len n \<noteq> 0 \<and>
     unat (lp_start p) + unat (lp_count p) \<le> length (db_litpost_ref d)"

text \<open>The clause a posting names must exist: below the limit and below the rule's count.\<close>

definition clause_ok :: "sigma_db \<Rightarrow> u32 \<Rightarrow> u8 \<Rightarrow> bool" where
  "clause_ok d ri c \<longleftrightarrow>
     unat c < MAX_CLAUSES \<and>
     (case db_rule_clauses d of None \<Rightarrow> False | Some rc \<Rightarrow> c < rc ! unat ri)"

definition litref_ok :: "sigma_db \<Rightarrow> sigma_litref \<Rightarrow> bool" where
  "litref_ok d r \<longleftrightarrow>
     rule_idx_ok d (l_rule r) \<and>
     (l_field r = ANY_FIELD \<or> unat (l_field r) < length (db_fields d)) \<and>
     clause_ok d (l_rule r) (l_clause r)"

definition litav_ok :: "sigma_db \<Rightarrow> u32 \<Rightarrow> bool" where
  "litav_ok d ri \<longleftrightarrow>
     rule_idx_ok d ri \<and>
     (case db_rule_clauses d of None \<Rightarrow> True | Some rc \<Rightarrow> rc ! unat ri = 0)"

definition clause_count_ok :: "u8 \<Rightarrow> bool" where
  "clause_count_ok n \<longleftrightarrow> unat n \<le> MAX_CLAUSES"

definition fwit_ok :: "sigma_db \<Rightarrow> sigma_fwit \<Rightarrow> bool" where
  "fwit_ok d w \<longleftrightarrow>
     rule_idx_ok d (w_rule w) \<and>
     \<not> (w_field w = ANY_FIELD \<or> unat (w_field w) \<ge> length (db_fields d)) \<and>
     clause_ok d (w_rule w) (w_clause w) \<and>
     (if w_op w = OP_CIDR then unat (w_ival w) < length (db_cidrs d)
      else w_op w \<in> {OP_GT, OP_GTE, OP_LT, OP_LTE, OP_NUMEQ})"

end
