(* ===== verification/Text_Search.thy ===== *)
theory Text_Search
  imports Sigma_Prelude
begin

text \<open>
  The text primitives of the matcher: the ASCII case fold and the string predicates of
  \<open>src/src/sigma_match.c\<close> (\<open>sg_eq\<close>, \<open>sg_contains\<close>, \<open>sg_starts\<close>, \<open>sg_ends\<close>), and the
  case-insensitive substring search of \<open>src/src/sigma_simd.h\<close> in its scalar, SSE and NEON
  forms. A pointer result is the position it points at, \<open>NULL\<close> is \<open>None\<close>.
\<close>

section \<open>Case folding\<close>

definition sigma_lc :: "u8 \<Rightarrow> u8" where
  "sigma_lc c = (if 65 \<le> c \<and> c \<le> 90 then c + 32 else c)"

definition sg_lower :: "u8 \<Rightarrow> u8" where
  "sg_lower c = (if 65 \<le> c \<and> c \<le> 90 then c + 32 else c)"

lemma sg_lower_sigma_lc: "sg_lower = sigma_lc"
  by (rule ext) (simp add: sg_lower_def sigma_lc_def)

text \<open>The inverse case used for the two-case first-byte compare of the vector code.\<close>

definition upper_of :: "u8 \<Rightarrow> u8" where
  "upper_of n0l = (if 97 \<le> n0l \<and> n0l \<le> 122 then n0l - 32 else n0l)"

lemma sigma_lc_two_case: "sigma_lc b = sigma_lc c \<longleftrightarrow> b = sigma_lc c \<or> b = upper_of (sigma_lc c)"
proof -
  have l: "unat (sigma_lc x) = (if 65 \<le> unat x \<and> unat x \<le> 90 then unat x + 32 else unat x)" for x
    by (auto simp: sigma_lc_def word_le_nat_alt unat_word_ariths)
  have u: "unat (upper_of x) = (if 97 \<le> unat x \<and> unat x \<le> 122 then unat x - 32 else unat x)" for x
    by (auto simp: upper_of_def word_le_nat_alt unat_sub)
  show ?thesis
    unfolding word_unat_eq_iff l u by (auto split: if_splits)
qed

section \<open>Occurrences\<close>

text \<open>
  The reference notion: \<open>ndl\<close> occurs in \<open>hay\<close> at position \<open>i\<close> up to the fold \<open>f\<close>.
\<close>

definition occurs_at :: "(u8 \<Rightarrow> u8) \<Rightarrow> bytes \<Rightarrow> bytes \<Rightarrow> nat \<Rightarrow> bool" where
  "occurs_at f hay ndl i \<longleftrightarrow>
     i + length ndl \<le> length hay \<and> map f (take (length ndl) (drop i hay)) = map f ndl"

definition occurs :: "(u8 \<Rightarrow> u8) \<Rightarrow> bytes \<Rightarrow> bytes \<Rightarrow> bool" where
  "occurs f hay ndl \<longleftrightarrow> (\<exists>i \<le> length hay. occurs_at f hay ndl i)"

lemma occurs_at_nth:
  "occurs_at f hay ndl i \<longleftrightarrow>
     i + length ndl \<le> length hay \<and> (\<forall>j < length ndl. f (hay ! (i + j)) = f (ndl ! j))"
  unfolding occurs_at_def using nth_eq_iff_map_take [of i ndl hay f] by blast

lemma occurs_atI_occurs: "occurs_at f hay ndl i \<Longrightarrow> occurs f hay ndl"
  unfolding occurs_def occurs_at_def by (intro exI [of _ i]) auto

lemma occurs_iff: "occurs f hay ndl \<longleftrightarrow> (\<exists>i. occurs_at f hay ndl i)"
  using occurs_atI_occurs by (auto simp: occurs_def)

text \<open>Occurrences as factors of the folded text.\<close>

lemma occurs_at_factor:
  "occurs_at f a b i \<longleftrightarrow> (\<exists>p q. map f a = p @ map f b @ q \<and> length p = i)"
proof
  assume o: "occurs_at f a b i"
  have "map f a = take i (map f a) @ take (length b) (drop i (map f a)) @ drop (i + length b) (map f a)"
    by (metis append_take_drop_id drop_drop add.commute)
  with o show "\<exists>p q. map f a = p @ map f b @ q \<and> length p = i"
    by (intro exI [of _ "take i (map f a)"] exI [of _ "drop (i + length b) (map f a)"])
      (auto simp: occurs_at_def take_map drop_map)
next
  assume "\<exists>p q. map f a = p @ map f b @ q \<and> length p = i"
  then obtain p q where e: "map f a = p @ map f b @ q" and i: "length p = i" by blast
  have "length (map f a) = i + length b + length q" by (simp add: e i)
  moreover have "take (length b) (drop i (map f a)) = map f b" by (simp add: e i [symmetric])
  ultimately show "occurs_at f a b i" by (simp add: occurs_at_def take_map drop_map)
qed

lemma occurs_factor: "occurs f a b \<longleftrightarrow> (\<exists>p q. map f a = p @ map f b @ q)"
  by (auto simp: occurs_iff occurs_at_factor)

lemma occurs_prefix: "occurs_at f a b 0 \<longleftrightarrow> (\<exists>q. map f a = map f b @ q)"
  by (auto simp: occurs_at_factor)

lemma occurs_suffix:
  "length b \<le> length a \<and> occurs_at f a b (length a - length b) \<longleftrightarrow> (\<exists>p. map f a = p @ map f b)"
proof
  assume h: "length b \<le> length a \<and> occurs_at f a b (length a - length b)"
  then obtain p q where e: "map f a = p @ map f b @ q" and p: "length p = length a - length b"
    by (auto simp: occurs_at_factor)
  have "length (map f a) = length p + length b + length q" by (simp add: e)
  with p h have "q = []" by simp
  with e show "\<exists>p. map f a = p @ map f b" by auto
next
  assume "\<exists>p. map f a = p @ map f b"
  then obtain p where e: "map f a = p @ map f b" by blast
  then have "length (map f a) = length p + length b" by simp
  then have "length p = length a - length b" "length b \<le> length a" by simp_all
  then show "length b \<le> length a \<and> occurs_at f a b (length a - length b)"
    unfolding occurs_at_factor using e by (intro conjI exI [of _ p] exI [of _ "[]"]) simp_all
qed

section \<open>The compare-forward loop\<close>

text \<open>\<open>while (j < nlen && lc(hay[i + j]) == lc(ndl[j])) j++\<close>\<close>

function run_len :: "(u8 \<Rightarrow> u8) \<Rightarrow> bytes \<Rightarrow> nat \<Rightarrow> bytes \<Rightarrow> nat \<Rightarrow> nat" where
  "run_len f hay i ndl j =
     (if j < length ndl \<and> f (hay ! (i + j)) = f (ndl ! j) then run_len f hay i ndl (Suc j) else j)"
  by pat_completeness auto
termination
  by (relation "measure (\<lambda>(f, hay, i, ndl, j). length ndl - j)") auto

declare run_len.simps [simp del]

lemma run_len_full:
  "j \<le> length ndl \<Longrightarrow>
   run_len f hay i ndl j = length ndl \<longleftrightarrow>
     (\<forall>k. j \<le> k \<and> k < length ndl \<longrightarrow> f (hay ! (i + k)) = f (ndl ! k))"
proof (induction f hay i ndl j rule: run_len.induct)
  case (1 f hay i ndl j)
  show ?case
  proof (cases "j < length ndl \<and> f (hay ! (i + j)) = f (ndl ! j)")
    case True
    then have "run_len f hay i ndl j = run_len f hay i ndl (Suc j)"
      by (simp add: run_len.simps [of f hay i ndl j])
    moreover have "(\<forall>k. j \<le> k \<and> k < length ndl \<longrightarrow> f (hay ! (i + k)) = f (ndl ! k)) \<longleftrightarrow>
      (\<forall>k. Suc j \<le> k \<and> k < length ndl \<longrightarrow> f (hay ! (i + k)) = f (ndl ! k))"
      using True by (metis Suc_leD Suc_leI le_neq_implies_less)
    ultimately show ?thesis
      using 1 True by simp
  next
    case False
    with 1 show ?thesis
      by (subst run_len.simps) auto
  qed
qed

lemma run_len_occurs_at:
  "i + length ndl \<le> length hay \<Longrightarrow>
   run_len f hay i ndl 0 = length ndl \<longleftrightarrow> occurs_at f hay ndl i"
  by (simp add: run_len_full occurs_at_nth)

text \<open>Starting at 1 is enough where the first byte already matched.\<close>

lemma run_len_1_occurs_at:
  assumes "i + length ndl \<le> length hay" "0 < length ndl" "f (hay ! i) = f (ndl ! 0)"
  shows "run_len f hay i ndl 1 = length ndl \<longleftrightarrow> occurs_at f hay ndl i"
proof -
  have "(\<forall>k. 1 \<le> k \<and> k < length ndl \<longrightarrow> f (hay ! (i + k)) = f (ndl ! k)) \<longleftrightarrow>
    (\<forall>k < length ndl. f (hay ! (i + k)) = f (ndl ! k))"
    using assms(3) by (metis One_nat_def Suc_leI add.right_neutral neq0_conv)
  then show ?thesis
    using assms by (simp only: run_len_full [OF Suc_leI [OF assms(2)], folded One_nat_def]
        occurs_at_nth simp_thms)
qed

section \<open>The string predicates of the matcher\<close>

definition sg_eq :: "bytes \<Rightarrow> bytes \<Rightarrow> bool \<Rightarrow> bool" where
  "sg_eq a b cs =
     (if length a \<noteq> length b then False
      else if cs then a = b
      else list_all2 (\<lambda>x y. sg_lower x = sg_lower y) a b)"

text \<open>
  \<open>sg_contains\<close>: the outer loop over the start positions \<open>0 .. hlen - nlen\<close>; the inner
  loop compares exactly when \<open>cs\<close> and folded otherwise.
\<close>

definition sg_cmp :: "bool \<Rightarrow> u8 \<Rightarrow> u8" where
  "sg_cmp cs = (if cs then (\<lambda>c. c) else sg_lower)"

function sg_contains_from :: "bytes \<Rightarrow> bytes \<Rightarrow> bool \<Rightarrow> nat \<Rightarrow> nat \<Rightarrow> bool" where
  "sg_contains_from hay ndl cs lst i =
     (if i \<le> lst then
        (if run_len (sg_cmp cs) hay i ndl 0 = length ndl then True
         else sg_contains_from hay ndl cs lst (Suc i))
      else False)"
  by pat_completeness auto
termination
  by (relation "measure (\<lambda>(hay, ndl, cs, lst, i). Suc lst - i)") auto

declare sg_contains_from.simps [simp del]

definition sg_contains :: "bytes \<Rightarrow> bytes \<Rightarrow> bool \<Rightarrow> bool" where
  "sg_contains hay ndl cs =
     (if length ndl = 0 then True
      else if length ndl > length hay then False
      else sg_contains_from hay ndl cs (length hay - length ndl) 0)"

definition sg_starts :: "bytes \<Rightarrow> bytes \<Rightarrow> bool \<Rightarrow> bool" where
  "sg_starts s p cs =
     (if length p > length s then False else sg_eq (take (length p) s) p cs)"

definition sg_ends :: "bytes \<Rightarrow> bytes \<Rightarrow> bool \<Rightarrow> bool" where
  "sg_ends s p cs =
     (if length p > length s then False else sg_eq (drop (length s - length p) s) p cs)"

lemma sg_eq_map: "sg_eq a b cs \<longleftrightarrow> map (sg_cmp cs) a = map (sg_cmp cs) b"
  by (auto simp: sg_eq_def sg_cmp_def list_all2_conv_all_nth list_eq_iff_nth_eq)

lemma sg_contains_from_iff:
  "lst = length hay - length ndl \<Longrightarrow> length ndl \<le> length hay \<Longrightarrow>
   sg_contains_from hay ndl cs lst i \<longleftrightarrow> (\<exists>k. i \<le> k \<and> occurs_at (sg_cmp cs) hay ndl k)"
proof (induction hay ndl cs lst i rule: sg_contains_from.induct)
  case (1 hay ndl cs lst i)
  show ?case
  proof (cases "i \<le> lst")
    case True
    then have "i + length ndl \<le> length hay" using "1.prems" by simp
    then have r: "run_len (sg_cmp cs) hay i ndl 0 = length ndl \<longleftrightarrow> occurs_at (sg_cmp cs) hay ndl i"
      by (rule run_len_occurs_at)
    show ?thesis
    proof (cases "occurs_at (sg_cmp cs) hay ndl i")
      case occ: True
      with True r show ?thesis by (subst sg_contains_from.simps) auto
    next
      case False
      with True r "1.IH" "1.prems" have
        "sg_contains_from hay ndl cs lst i \<longleftrightarrow> (\<exists>k. Suc i \<le> k \<and> occurs_at (sg_cmp cs) hay ndl k)"
        by (subst sg_contains_from.simps) auto
      with False show ?thesis by (metis Suc_leD le_antisym not_less_eq_eq)
    qed
  next
    case False
    with "1.prems" show ?thesis
      by (subst sg_contains_from.simps) (auto simp: occurs_at_def)
  qed
qed

lemma sg_contains_occurs: "sg_contains hay ndl cs \<longleftrightarrow> occurs (sg_cmp cs) hay ndl"
proof (cases "length ndl = 0 \<or> length hay < length ndl")
  case True
  then show ?thesis by (auto simp: sg_contains_def occurs_def occurs_at_def)
next
  case False
  then have "sg_contains hay ndl cs \<longleftrightarrow> (\<exists>k. occurs_at (sg_cmp cs) hay ndl k)"
    using sg_contains_from_iff [of "length hay - length ndl" hay ndl cs 0]
    by (simp add: sg_contains_def)
  then show ?thesis by (simp add: occurs_iff)
qed

lemma sg_starts_occurs: "sg_starts s p cs \<longleftrightarrow> occurs_at (sg_cmp cs) s p 0"
  by (auto simp: sg_starts_def sg_eq_map occurs_at_def)

lemma sg_ends_occurs:
  "sg_ends s p cs \<longleftrightarrow> length p \<le> length s \<and> occurs_at (sg_cmp cs) s p (length s - length p)"
  by (auto simp: sg_ends_def sg_eq_map occurs_at_def)

section \<open>Case-insensitive substring search\<close>

text \<open>
  The interface the matcher uses: the position of the first occurrence, or nothing.
\<close>

locale ci_search =
  fixes memmem :: "bytes \<Rightarrow> bytes \<Rightarrow> nat option"
  assumes memmem_Some: "memmem hay ndl = Some p \<Longrightarrow>
      occurs_at sigma_lc hay ndl p \<and> (\<forall>i < p. \<not> occurs_at sigma_lc hay ndl i)"
    and memmem_None: "memmem hay ndl = None \<Longrightarrow> \<not> occurs_at sigma_lc hay ndl i"
begin

lemma memmem_iff: "memmem hay ndl \<noteq> None \<longleftrightarrow> occurs sigma_lc hay ndl"
proof (cases "memmem hay ndl")
  case None
  then show ?thesis using memmem_None by (auto simp: occurs_def)
next
  case (Some p)
  then show ?thesis using memmem_Some occurs_atI_occurs by blast
qed

lemma memmem_least:
  "memmem hay ndl =
     (if occurs sigma_lc hay ndl then Some (LEAST i. occurs_at sigma_lc hay ndl i) else None)"
proof (cases "memmem hay ndl")
  case None
  then show ?thesis using memmem_iff [of hay ndl] by simp
next
  case (Some p)
  then have p: "occurs_at sigma_lc hay ndl p" "\<And>i. i < p \<Longrightarrow> \<not> occurs_at sigma_lc hay ndl i"
    using memmem_Some by blast+
  then have "(LEAST i. occurs_at sigma_lc hay ndl i) = p"
    by (intro Least_equality) (auto simp: not_less [symmetric])
  with p Some show ?thesis by (auto dest: occurs_atI_occurs)
qed

end

subsection \<open>Scalar form\<close>

function memmem_scan :: "bytes \<Rightarrow> bytes \<Rightarrow> nat \<Rightarrow> nat \<Rightarrow> nat option" where
  "memmem_scan hay ndl lst i =
     (if i \<le> lst then
        (if sigma_lc (hay ! i) \<noteq> sigma_lc (ndl ! 0) then memmem_scan hay ndl lst (Suc i)
         else if run_len sigma_lc hay i ndl 1 = length ndl then Some i
         else memmem_scan hay ndl lst (Suc i))
      else None)"
  by pat_completeness auto
termination
  by (relation "measure (\<lambda>(hay, ndl, lst, i). Suc lst - i)") auto

declare memmem_scan.simps [simp del]

definition memmem_ci_scalar :: "bytes \<Rightarrow> bytes \<Rightarrow> nat option" where
  "memmem_ci_scalar hay ndl =
     (if length ndl = 0 then Some 0
      else if length ndl > length hay then None
      else memmem_scan hay ndl (length hay - length ndl) 0)"

subsection \<open>SSE form\<close>

text \<open>
  One 16-byte block is compared against both cases of the needle's first byte; the bits of
  the resulting mask are visited from the lowest to the highest (\<open>ctz\<close>, then
  \<open>mask &= mask - 1\<close>), so the mask is the ascending list of its set bits. The inner
  function returns \<open>None\<close> when the mask is exhausted and \<open>Some r\<close> when the C code
  returns \<open>r\<close> from the middle of the loop.
\<close>

definition sse_mask :: "bytes \<Rightarrow> nat \<Rightarrow> u8 \<Rightarrow> u8 \<Rightarrow> nat list" where
  "sse_mask hay i n0l n0u = filter (\<lambda>b. hay ! (i + b) = n0l \<or> hay ! (i + b) = n0u) [0..<16]"

fun sse_mask_loop :: "bytes \<Rightarrow> bytes \<Rightarrow> nat \<Rightarrow> nat \<Rightarrow> nat list \<Rightarrow> nat option option" where
  "sse_mask_loop hay ndl lst i [] = None"
| "sse_mask_loop hay ndl lst i (b # ms) =
     (let pos = i + b in
      if pos > lst then Some None
      else if run_len sigma_lc hay pos ndl 1 = length ndl then Some (Some pos)
      else sse_mask_loop hay ndl lst i ms)"

function sse_blocks :: "bytes \<Rightarrow> bytes \<Rightarrow> nat \<Rightarrow> nat \<Rightarrow> nat option" where
  "sse_blocks hay ndl lst i =
     (if i + 16 \<le> length hay then
        (let n0l = sigma_lc (ndl ! 0) in
         case sse_mask_loop hay ndl lst i (sse_mask hay i n0l (upper_of n0l)) of
           Some r \<Rightarrow> r
         | None \<Rightarrow> sse_blocks hay ndl lst (i + 16))
      else if i \<le> lst then map_option (\<lambda>p. i + p) (memmem_ci_scalar (drop i hay) ndl)
      else None)"
  by pat_completeness auto
termination
  by (relation "measure (\<lambda>(hay, ndl, lst, i). length hay - i)") auto

declare sse_blocks.simps [simp del]

definition memmem_ci_sse :: "bytes \<Rightarrow> bytes \<Rightarrow> nat option" where
  "memmem_ci_sse hay ndl =
     (if length ndl = 0 then Some 0
      else if length ndl > length hay then None
      else sse_blocks hay ndl (length hay - length ndl) 0)"

subsection \<open>NEON form\<close>

text \<open>The NEON code has no move-mask: a block with any hit is rescanned byte by byte.\<close>

fun neon_bytes :: "bytes \<Rightarrow> bytes \<Rightarrow> nat \<Rightarrow> nat \<Rightarrow> nat list \<Rightarrow> nat option option" where
  "neon_bytes hay ndl lst i [] = None"
| "neon_bytes hay ndl lst i (b # bs) =
     (let pos = i + b in
      if pos > lst then Some None
      else if sigma_lc (hay ! pos) \<noteq> sigma_lc (ndl ! 0) then neon_bytes hay ndl lst i bs
      else if run_len sigma_lc hay pos ndl 1 = length ndl then Some (Some pos)
      else neon_bytes hay ndl lst i bs)"

function neon_blocks :: "bytes \<Rightarrow> bytes \<Rightarrow> nat \<Rightarrow> nat \<Rightarrow> nat option" where
  "neon_blocks hay ndl lst i =
     (if i + 16 \<le> length hay then
        (let n0l = sigma_lc (ndl ! 0) in
         if sse_mask hay i n0l (upper_of n0l) = [] then neon_blocks hay ndl lst (i + 16)
         else case neon_bytes hay ndl lst i [0..<16] of
           Some r \<Rightarrow> r
         | None \<Rightarrow> neon_blocks hay ndl lst (i + 16))
      else if i \<le> lst then map_option (\<lambda>p. i + p) (memmem_ci_scalar (drop i hay) ndl)
      else None)"
  by pat_completeness auto
termination
  by (relation "measure (\<lambda>(hay, ndl, lst, i). length hay - i)") auto

declare neon_blocks.simps [simp del]

definition memmem_ci_neon :: "bytes \<Rightarrow> bytes \<Rightarrow> nat option" where
  "memmem_ci_neon hay ndl =
     (if length ndl = 0 then Some 0
      else if length ndl > length hay then None
      else neon_blocks hay ndl (length hay - length ndl) 0)"

text \<open>The build selects one of the three.\<close>

datatype simd_arch = SSE42 | NEON | SCALAR

fun sigma_memmem_ci :: "simd_arch \<Rightarrow> bytes \<Rightarrow> bytes \<Rightarrow> nat option" where
  "sigma_memmem_ci SSE42 hay ndl = memmem_ci_sse hay ndl"
| "sigma_memmem_ci NEON hay ndl = memmem_ci_neon hay ndl"
| "sigma_memmem_ci SCALAR hay ndl = memmem_ci_scalar hay ndl"

subsection \<open>Correctness of the three forms\<close>

text \<open>A result from position \<open>i\<close> on is right when it is the least occurrence at or after \<open>i\<close>.\<close>

definition first_from :: "bytes \<Rightarrow> bytes \<Rightarrow> nat \<Rightarrow> nat option \<Rightarrow> bool" where
  "first_from hay ndl i r \<longleftrightarrow>
     (case r of
        None \<Rightarrow> \<forall>q \<ge> i. \<not> occurs_at sigma_lc hay ndl q
      | Some p \<Rightarrow> i \<le> p \<and> occurs_at sigma_lc hay ndl p \<and>
          (\<forall>q. i \<le> q \<and> q < p \<longrightarrow> \<not> occurs_at sigma_lc hay ndl q))"

lemma first_from_skip:
  "first_from hay ndl j r \<Longrightarrow> i \<le> j \<Longrightarrow>
   (\<forall>q. i \<le> q \<and> q < j \<longrightarrow> \<not> occurs_at sigma_lc hay ndl q) \<Longrightarrow> first_from hay ndl i r"
  by (auto simp: first_from_def not_less [symmetric] split: option.splits)

lemma first_from_Suc:
  "first_from hay ndl (Suc i) r \<Longrightarrow> \<not> occurs_at sigma_lc hay ndl i \<Longrightarrow> first_from hay ndl i r"
  by (erule first_from_skip) (auto simp: less_Suc_eq_le dest: antisym)

lemma first_from_here: "occurs_at sigma_lc hay ndl i \<Longrightarrow> first_from hay ndl i (Some i)"
  by (auto simp: first_from_def)

lemma first_from_end:
  "length hay < i + length ndl \<Longrightarrow> first_from hay ndl i None"
  by (auto simp: first_from_def occurs_at_def)

lemma occurs_at_first_byte:
  "occurs_at f hay ndl i \<Longrightarrow> 0 < length ndl \<Longrightarrow> f (hay ! i) = f (ndl ! 0)"
  by (auto simp: occurs_at_nth dest!: spec [of _ 0])

lemma occurs_at_drop:
  "i \<le> length hay \<Longrightarrow> occurs_at f (drop i hay) ndl p \<longleftrightarrow> occurs_at f hay ndl (i + p)"
  by (auto simp: occurs_at_def add.commute)

lemma first_from_drop:
  assumes "first_from (drop i hay) ndl 0 r" "i \<le> length hay"
  shows "first_from hay ndl i (map_option (\<lambda>p. i + p) r)"
proof (cases r)
  case None
  have "\<not> occurs_at sigma_lc hay ndl q" if "i \<le> q" for q
    using assms None that occurs_at_drop [OF assms(2), of sigma_lc ndl "q - i"]
    by (simp add: first_from_def)
  with None show ?thesis by (simp add: first_from_def)
next
  case (Some p)
  have "\<not> occurs_at sigma_lc hay ndl q" if "i \<le> q" "q < i + p" for q
    using assms Some that occurs_at_drop [OF assms(2), of sigma_lc ndl "q - i"]
    by (simp add: first_from_def less_diff_conv2)
  with Some assms show ?thesis by (simp add: first_from_def occurs_at_drop)
qed

lemma memmem_scan_first:
  "lst = length hay - length ndl \<Longrightarrow> 0 < length ndl \<Longrightarrow> length ndl \<le> length hay \<Longrightarrow>
   first_from hay ndl i (memmem_scan hay ndl lst i)"
proof (induction hay ndl lst i rule: memmem_scan.induct)
  case (1 hay ndl lst i)
  show ?case
  proof (cases "i \<le> lst")
    case True
    with "1.prems" have i: "i + length ndl \<le> length hay" by simp
    consider (diff) "sigma_lc (hay ! i) \<noteq> sigma_lc (ndl ! 0)" "\<not> occurs_at sigma_lc hay ndl i"
      | (hit) "sigma_lc (hay ! i) = sigma_lc (ndl ! 0)" "run_len sigma_lc hay i ndl 1 = length ndl"
          "occurs_at sigma_lc hay ndl i"
      | (miss) "sigma_lc (hay ! i) = sigma_lc (ndl ! 0)" "run_len sigma_lc hay i ndl 1 \<noteq> length ndl"
          "\<not> occurs_at sigma_lc hay ndl i"
      using run_len_1_occurs_at [OF i "1.prems"(2), of sigma_lc] occurs_at_first_byte "1.prems"(2)
      by blast
    then show ?thesis
    proof cases
      case diff
      then show ?thesis
        using True "1.IH"(1) "1.prems" by (subst memmem_scan.simps) (simp add: first_from_Suc)
    next
      case hit
      then show ?thesis
        using True by (subst memmem_scan.simps) (simp add: first_from_here)
    next
      case miss
      then show ?thesis
        using True "1.IH"(2) "1.prems" by (subst memmem_scan.simps) (simp add: first_from_Suc)
    qed
  next
    case False
    with "1.prems" show ?thesis by (subst memmem_scan.simps) (simp add: first_from_end)
  qed
qed

lemma memmem_ci_scalar_first: "first_from hay ndl 0 (memmem_ci_scalar hay ndl)"
proof -
  have "occurs_at sigma_lc hay [] 0" by (simp add: occurs_at_def)
  then show ?thesis
    by (auto simp: memmem_ci_scalar_def memmem_scan_first first_from_end intro: first_from_here)
qed

text \<open>
  One block: when the loop runs off the block no occurrence starts in it, and when the code
  returns from it the result is right for the rest of the text.
\<close>

definition block_ok :: "bytes \<Rightarrow> bytes \<Rightarrow> nat \<Rightarrow> nat \<Rightarrow> nat option option \<Rightarrow> bool" where
  "block_ok hay ndl i a res \<longleftrightarrow>
     (case res of
        None \<Rightarrow> \<forall>q. i + a \<le> q \<and> q < i + 16 \<longrightarrow> \<not> occurs_at sigma_lc hay ndl q
      | Some r \<Rightarrow> first_from hay ndl (i + a) r)"

lemma block_ok_empty: "16 \<le> a \<Longrightarrow> block_ok hay ndl i a None"
  by (auto simp: block_ok_def)

lemma block_ok_Some: "first_from hay ndl (i + a) r \<Longrightarrow> block_ok hay ndl i a (Some r)"
  by (simp add: block_ok_def)

lemma block_ok_skip:
  assumes "block_ok hay ndl i (Suc a) res" "\<not> occurs_at sigma_lc hay ndl (i + a)"
  shows "block_ok hay ndl i a res"
proof (cases res)
  case None
  show ?thesis
    unfolding block_ok_def None option.case
  proof (intro allI impI)
    fix q assume "i + a \<le> q \<and> q < i + 16"
    then have "q = i + a \<or> i + Suc a \<le> q \<and> q < i + 16" by auto
    then show "\<not> occurs_at sigma_lc hay ndl q"
      using assms None by (auto simp: block_ok_def)
  qed
next
  case (Some r)
  with assms show ?thesis by (simp add: block_ok_def first_from_Suc)
qed

lemma sse_mask_loop_ok:
  assumes "lst = length hay - length ndl" "0 < length ndl" "length ndl \<le> length hay"
    and P: "\<And>b. b < 16 \<Longrightarrow> P b \<longleftrightarrow> sigma_lc (hay ! (i + b)) = sigma_lc (ndl ! 0)"
  shows "block_ok hay ndl i a (sse_mask_loop hay ndl lst i (filter P [a..<16]))"
proof (induction "16 - a" arbitrary: a)
  case 0
  then show ?case by (simp add: block_ok_empty)
next
  case (Suc n)
  then have a: "a < 16" "[a..<16] = a # [Suc a..<16]" by (auto simp: upt_conv_Cons)
  have IH: "block_ok hay ndl i (Suc a) (sse_mask_loop hay ndl lst i (filter P [Suc a..<16]))"
    using Suc by simp
  show ?case
  proof (cases "P a")
    case False
    then have "\<not> occurs_at sigma_lc hay ndl (i + a)"
      using P a occurs_at_first_byte assms(2) by blast
    with IH False a show ?thesis by (simp add: block_ok_skip)
  next
    case True
    show ?thesis
    proof (cases "i + a \<le> lst")
      case le: True
      then have b: "i + a + length ndl \<le> length hay" using assms by simp
      then have "run_len sigma_lc hay (i + a) ndl 1 = length ndl \<longleftrightarrow> occurs_at sigma_lc hay ndl (i + a)"
        using P True a assms(2) by (intro run_len_1_occurs_at) auto
      with IH True le a show ?thesis
        by (simp add: Let_def block_ok_skip block_ok_Some first_from_here del: One_nat_def)
    next
      case False
      with True a assms show ?thesis
        by (simp add: Let_def block_ok_Some first_from_end del: One_nat_def)
    qed
  qed
qed

lemma neon_bytes_ok:
  assumes "lst = length hay - length ndl" "0 < length ndl" "length ndl \<le> length hay"
  shows "block_ok hay ndl i a (neon_bytes hay ndl lst i [a..<16])"
proof (induction "16 - a" arbitrary: a)
  case 0
  then show ?case by (simp add: block_ok_empty)
next
  case (Suc n)
  then have a: "a < 16" "[a..<16] = a # [Suc a..<16]" by (auto simp: upt_conv_Cons)
  have IH: "block_ok hay ndl i (Suc a) (neon_bytes hay ndl lst i [Suc a..<16])"
    using Suc by simp
  show ?case
  proof (cases "i + a \<le> lst")
    case False
    with a assms show ?thesis by (simp add: Let_def block_ok_Some first_from_end del: One_nat_def)
  next
    case True
    then have b: "i + a + length ndl \<le> length hay" using assms by simp
    then have
      "sigma_lc (hay ! (i + a)) = sigma_lc (ndl ! 0) \<Longrightarrow>
       run_len sigma_lc hay (i + a) ndl 1 = length ndl \<longleftrightarrow> occurs_at sigma_lc hay ndl (i + a)"
      using assms(2) by (intro run_len_1_occurs_at) auto
    with IH True a assms(2) show ?thesis
      using occurs_at_first_byte [of sigma_lc hay ndl "i + a"]
      by (auto simp: Let_def block_ok_Some first_from_here intro: block_ok_skip simp del: One_nat_def)
  qed
qed

lemma sse_mask_first_byte:
  "b \<in> set (sse_mask hay i (sigma_lc c) (upper_of (sigma_lc c))) \<longleftrightarrow>
     b < 16 \<and> sigma_lc (hay ! (i + b)) = sigma_lc c"
  by (auto simp: sse_mask_def sigma_lc_two_case [of _ c])

lemma block_tail_first:
  assumes "lst = length hay - length ndl" "length ndl \<le> length hay"
  shows "first_from hay ndl i
    (if i \<le> lst then map_option (\<lambda>p. i + p) (memmem_ci_scalar (drop i hay) ndl) else None)"
  using assms first_from_drop [OF memmem_ci_scalar_first, of i hay ndl]
  by (auto simp: first_from_end)

lemma block_step_first:
  assumes "block_ok hay ndl i 0 res" "res = None \<Longrightarrow> first_from hay ndl (i + 16) rest"
  shows "first_from hay ndl i (case res of Some r \<Rightarrow> r | None \<Rightarrow> rest)"
proof (cases res)
  case None
  with assms have "first_from hay ndl (i + 16) rest" "\<forall>q. i \<le> q \<and> q < i + 16 \<longrightarrow> \<not> occurs_at sigma_lc hay ndl q"
    by (auto simp: block_ok_def)
  with None show ?thesis using first_from_skip [of hay ndl "i + 16" rest i] by simp
next
  case (Some r)
  with assms(1) show ?thesis by (simp add: block_ok_def)
qed

lemma sse_blocks_first:
  "lst = length hay - length ndl \<Longrightarrow> 0 < length ndl \<Longrightarrow> length ndl \<le> length hay \<Longrightarrow>
   first_from hay ndl i (sse_blocks hay ndl lst i)"
proof (induction hay ndl lst i rule: sse_blocks.induct)
  case (1 hay ndl lst i)
  let ?m = "sse_mask hay i (sigma_lc (ndl ! 0)) (upper_of (sigma_lc (ndl ! 0)))"
  have "block_ok hay ndl i 0 (sse_mask_loop hay ndl lst i ?m)"
    unfolding sse_mask_def using "1.prems"
    by (intro sse_mask_loop_ok) (auto simp: sigma_lc_two_case [of _ "ndl ! 0"])
  note blk = block_step_first [OF this, of "sse_blocks hay ndl lst (i + 16)"]
  show ?case
  proof (cases "i + 16 \<le> length hay")
    case True
    then have "sse_mask_loop hay ndl lst i ?m = None \<Longrightarrow>
        first_from hay ndl (i + 16) (sse_blocks hay ndl lst (i + 16))"
      using "1.IH" "1.prems" by (simp add: Let_def)
    from blk [OF this] True show ?thesis
      by (simp add: sse_blocks.simps [of hay ndl lst i] Let_def split: option.splits)
  next
    case False
    with block_tail_first [OF "1.prems"(1,3), of i] show ?thesis
      by (simp add: sse_blocks.simps [of hay ndl lst i])
  qed
qed

lemma neon_blocks_first:
  "lst = length hay - length ndl \<Longrightarrow> 0 < length ndl \<Longrightarrow> length ndl \<le> length hay \<Longrightarrow>
   first_from hay ndl i (neon_blocks hay ndl lst i)"
proof (induction hay ndl lst i rule: neon_blocks.induct)
  case (1 hay ndl lst i)
  let ?m = "sse_mask hay i (sigma_lc (ndl ! 0)) (upper_of (sigma_lc (ndl ! 0)))"
  have blk: "block_ok hay ndl i 0 (neon_bytes hay ndl lst i [0..<16])"
    using "1.prems" by (intro neon_bytes_ok)
  have skip: "\<not> occurs_at sigma_lc hay ndl q" if "?m = []" "i \<le> q \<and> q < i + 16" for q
    using sse_mask_first_byte [of "q - i" hay i "ndl ! 0"] that
      occurs_at_first_byte [of sigma_lc hay ndl q] "1.prems"(2) by auto
  show ?case
  proof (cases "i + 16 \<le> length hay")
    case True
    show ?thesis
    proof (cases "?m = []")
      case m: True
      with True "1.IH"(1) "1.prems" have "first_from hay ndl (i + 16) (neon_blocks hay ndl lst (i + 16))"
        by simp
      then have "first_from hay ndl i (neon_blocks hay ndl lst (i + 16))"
        by (rule first_from_skip) (use skip [OF m] in auto)
      with True m show ?thesis
        by (simp only: neon_blocks.simps [of hay ndl lst i] Let_def if_True simp_thms)
    next
      case False
      with True "1.IH"(2) "1.prems" have
        "neon_bytes hay ndl lst i [0..<16] = None \<Longrightarrow>
         first_from hay ndl (i + 16) (neon_blocks hay ndl lst (i + 16))"
        by (simp add: Let_def)
      from block_step_first [OF blk this] True False show ?thesis
        by (simp add: neon_blocks.simps [of hay ndl lst i] Let_def split: option.splits)
    qed
  next
    case False
    with block_tail_first [OF "1.prems"(1,3), of i] show ?thesis
      by (simp add: neon_blocks.simps [of hay ndl lst i])
  qed
qed

lemma occurs_at_nil_0: "occurs_at f hay [] 0"
  by (simp add: occurs_at_def)

lemma memmem_ci_sse_first: "first_from hay ndl 0 (memmem_ci_sse hay ndl)"
  by (auto simp: memmem_ci_sse_def sse_blocks_first first_from_end occurs_at_nil_0 intro: first_from_here)

lemma memmem_ci_neon_first: "first_from hay ndl 0 (memmem_ci_neon hay ndl)"
  by (auto simp: memmem_ci_neon_def neon_blocks_first first_from_end occurs_at_nil_0 intro: first_from_here)

lemma first_from_ci_search:
  "(\<And>hay ndl. first_from hay ndl 0 (f hay ndl)) \<Longrightarrow> ci_search f"
  by unfold_locales
    (metis (no_types, lifting) first_from_def le0 option.case(1) option.case(2))+

interpretation scalar_search: ci_search memmem_ci_scalar
  by (rule first_from_ci_search) (rule memmem_ci_scalar_first)

interpretation sse_search: ci_search memmem_ci_sse
  by (rule first_from_ci_search) (rule memmem_ci_sse_first)

interpretation neon_search: ci_search memmem_ci_neon
  by (rule first_from_ci_search) (rule memmem_ci_neon_first)

lemma sigma_memmem_ci_occurs: "sigma_memmem_ci arch hay ndl \<noteq> None \<longleftrightarrow> occurs sigma_lc hay ndl"
  by (cases arch) (simp_all only: sigma_memmem_ci.simps scalar_search.memmem_iff
      sse_search.memmem_iff neon_search.memmem_iff)

section \<open>Properties of the text primitives\<close>

text \<open>
  C18. On every architecture the case-insensitive search returns the first position at which
  the needle occurs up to ASCII case, and nothing exactly when there is none: the SSE and
  NEON loops agree with the scalar one on every input.
\<close>

theorem sigma_memmem_ci_correct:
  "sigma_memmem_ci arch hay ndl =
     (if occurs sigma_lc hay ndl then Some (LEAST i. occurs_at sigma_lc hay ndl i) else None)"
  by (cases arch) (simp_all only: sigma_memmem_ci.simps scalar_search.memmem_least
      sse_search.memmem_least neon_search.memmem_least)

text \<open>
  C21. The four string predicates mean what Sigma's modifiers say: equality, substring,
  prefix and suffix of the byte strings, after the ASCII case fold unless the predicate is
  case-sensitive.
\<close>

theorem string_predicates_correct:
  "sg_eq a b cs = (map (sg_cmp cs) a = map (sg_cmp cs) b) \<and>
   sg_contains a b cs = (\<exists>p q. map (sg_cmp cs) a = p @ map (sg_cmp cs) b @ q) \<and>
   sg_starts a b cs = (\<exists>q. map (sg_cmp cs) a = map (sg_cmp cs) b @ q) \<and>
   sg_ends a b cs = (\<exists>p. map (sg_cmp cs) a = p @ map (sg_cmp cs) b)"
  using occurs_factor [of "sg_cmp cs" a b] occurs_prefix [of "sg_cmp cs" a b]
    occurs_suffix [of b a "sg_cmp cs"]
  by (simp add: sg_eq_map sg_contains_occurs sg_starts_occurs sg_ends_occurs)

end
