(* ===== verification/Teddy.thy ===== *)
theory Teddy
  imports Sigma_Db Text_Search
begin

text \<open>
  The literal prefilter of \<open>src/src/sigma_teddy.h\<close>: fingerprint hash chains over the
  needles, the coarse first-byte lookup tables, and the confirm pass that calls back once
  for every needle present in a text.

  The two chain-head tables are functions on the masked hash; the per-needle arrays are
  lists of length \<open>n_needles\<close>. A chain walk follows \<open>next\<close> until \<open>UINT32_MAX\<close>; it runs on
  fuel \<open>n_needles + 1\<close>, which is enough because chains are strictly descending (lemma
  \<open>walk_chain\<close>). The callback is a state transformer on an arbitrary state.
\<close>

section \<open>Fingerprints\<close>

definition teddy_fp16 :: "u8 \<Rightarrow> u8 \<Rightarrow> u32" where
  "teddy_fp16 a b = ucast (sigma_lc a) OR push_bit 8 (ucast (sigma_lc b))"

definition teddy_fp24 :: "u8 \<Rightarrow> u8 \<Rightarrow> u8 \<Rightarrow> u32" where
  "teddy_fp24 a b c = teddy_fp16 a b OR push_bit 16 (ucast (sigma_lc c))"

definition teddy_hash :: "u32 \<Rightarrow> u32" where
  "teddy_hash fp = drop_bit 18 (fp * 2654435761) AND 16383"

section \<open>The matcher\<close>

abbreviation TEDDY_NO_C2 :: u16 where "TEDDY_NO_C2 \<equiv> 0xFFFF"

record sigma_teddy =
  t_lo_lut :: bytes
  t_hi_lut :: bytes
  t_n_needles :: nat
  t_fp_head :: "u32 \<Rightarrow> u32"
  t_fp_next :: "u32 list"
  t_fp2_head :: "u32 \<Rightarrow> u32"
  t_fp2_next :: "u32 list"
  t_fp_c2 :: "u16 list"
  t_n_short :: nat
  t_litndl :: "sigma_str list"
  t_strpool :: bytes

definition teddy_mark_byte :: "u8 \<Rightarrow> sigma_teddy \<Rightarrow> sigma_teddy" where
  "teddy_mark_byte c t =
     t\<lparr>t_lo_lut := (t_lo_lut t)[unat (c AND 0x0F) := 1],
       t_hi_lut := (t_hi_lut t)[unat (drop_bit 4 c) := 1]\<rparr>"

text \<open>The allocated matcher: zeroed tables, chain heads empty, per-needle arrays filled with
  the given values.\<close>

definition teddy_alloc :: "sigma_str list \<Rightarrow> bytes \<Rightarrow> u32 \<Rightarrow> u16 \<Rightarrow> sigma_teddy" where
  "teddy_alloc ndl pool nx c2 =
     (let n = length ndl in
      \<lparr>t_lo_lut = replicate 16 0, t_hi_lut = replicate 16 0, t_n_needles = n,
       t_fp_head = (\<lambda>_. u32_max), t_fp_next = replicate n nx,
       t_fp2_head = (\<lambda>_. u32_max), t_fp2_next = replicate n nx,
       t_fp_c2 = replicate n c2, t_n_short = 0, t_litndl = ndl, t_strpool = pool\<rparr>)"

text \<open>Chain needle \<open>i\<close>: the body the two build loops share.\<close>

definition teddy_insert :: "nat \<Rightarrow> sigma_teddy \<Rightarrow> sigma_teddy option" where
  "teddy_insert i t =
     do { n \<leftarrow> idx (t_litndl t) i;
          let off = unat (st_off n);
          p0 \<leftarrow> idx (t_strpool t) off;
          p1 \<leftarrow> idx (t_strpool t) (off + 1);
          t1 \<leftarrow>
            (if 3 \<le> st_len n then
               do { p2 \<leftarrow> idx (t_strpool t) (off + 2);
                    let h = teddy_hash (teddy_fp24 p0 p1 p2);
                    Some (t\<lparr>t_fp_next := (t_fp_next t)[i := t_fp_head t h],
                            t_fp_head := (t_fp_head t)(h := of_nat i),
                            t_fp_c2 := (t_fp_c2 t)[i := ucast (sigma_lc p2)]\<rparr>) }
             else
               (let h = teddy_hash (teddy_fp16 p0 p1) in
                Some (t\<lparr>t_fp2_next := (t_fp2_next t)[i := t_fp2_head t h],
                        t_fp2_head := (t_fp2_head t)(h := of_nat i),
                        t_fp_c2 := (t_fp_c2 t)[i := TEDDY_NO_C2],
                        t_n_short := t_n_short t + 1\<rparr>)));
          let cl = sigma_lc p0;
          Some (teddy_mark_byte (upper_of cl) (teddy_mark_byte cl t1)) }"

text \<open>
  The full build resets the links of each needle as it reaches it (they are uninitialised
  memory before, here \<open>0\<close>); the subset build resets all of them first and skips ids out of
  range.
\<close>

definition teddy_reset_links :: "nat \<Rightarrow> sigma_teddy \<Rightarrow> sigma_teddy" where
  "teddy_reset_links i t =
     t\<lparr>t_fp_next := (t_fp_next t)[i := u32_max], t_fp2_next := (t_fp2_next t)[i := u32_max]\<rparr>"

definition sigma_teddy_build :: "sigma_str list \<Rightarrow> bytes \<Rightarrow> sigma_teddy option option" where
  "sigma_teddy_build ndl pool =
     (if ndl = [] then Some None
      else map_option Some
        (mfold (\<lambda>i t. teddy_insert i (teddy_reset_links i t)) [0..<length ndl] (teddy_alloc ndl pool 0 0)))"

definition sigma_teddy_build_subset ::
  "sigma_str list \<Rightarrow> bytes \<Rightarrow> nat list \<Rightarrow> sigma_teddy option option" where
  "sigma_teddy_build_subset ndl pool ids =
     (if ndl = [] \<or> ids = [] then Some None
      else map_option Some
        (mfold (\<lambda>i t. if i \<ge> length ndl then Some t else teddy_insert i t) ids
          (teddy_alloc ndl pool u32_max TEDDY_NO_C2)))"

section \<open>The confirm pass\<close>

record teddy_scratch =
  ts_ndl_gen :: "u32 list"
  ts_gen :: u32
  ts_chain_steps :: u64

definition sigma_teddy_scratch_init :: "nat \<Rightarrow> teddy_scratch" where
  "sigma_teddy_scratch_init n = \<lparr>ts_ndl_gen = replicate n 0, ts_gen = 0, ts_chain_steps = 0\<rparr>"

definition sigma_teddy_scratch_next :: "teddy_scratch \<Rightarrow> teddy_scratch" where
  "sigma_teddy_scratch_next s =
     (let g = ts_gen s + 1 in
      if g = 0 then s\<lparr>ts_gen := 1, ts_ndl_gen := map (\<lambda>_. 0) (ts_ndl_gen s)\<rparr>
      else s\<lparr>ts_gen := g\<rparr>)"

text \<open>The SIMD pre-test of a 16-byte chunk: some byte has both nibbles marked.\<close>

definition teddy_chunk_interesting :: "sigma_teddy \<Rightarrow> bytes \<Rightarrow> nat \<Rightarrow> bool" where
  "teddy_chunk_interesting t buf i \<longleftrightarrow>
     list_ex (\<lambda>b. (t_lo_lut t ! unat (buf ! (i + b) AND 0x0F)) AND
                  (t_hi_lut t ! unat (drop_bit 4 (buf ! (i + b)))) \<noteq> 0) [0..<16]"

fun teddy_eq_ci :: "bytes \<Rightarrow> nat \<Rightarrow> bytes \<Rightarrow> nat \<Rightarrow> nat \<Rightarrow> bool option" where
  "teddy_eq_ci p po n no 0 = Some True"
| "teddy_eq_ci p po n no (Suc k) =
     do { a \<leftarrow> idx p po; b \<leftarrow> idx n no;
          if sigma_lc a \<noteq> sigma_lc b then Some False
          else teddy_eq_ci p (Suc po) n (Suc no) k }"

text \<open>One chain entry: what the loop body does with needle \<open>k\<close>; \<open>True\<close> when it confirms.\<close>

definition teddy_test :: "sigma_teddy \<Rightarrow> bytes \<Rightarrow> nat \<Rightarrow> nat \<Rightarrow> teddy_scratch \<Rightarrow> nat \<Rightarrow> bool option" where
  "teddy_test t buf avail pos scr k =
     do { g \<leftarrow> idx (ts_ndl_gen scr) k;
          if g = ts_gen scr then Some False
          else do { n \<leftarrow> idx (t_litndl t) k;
            if avail < unat (st_len n) then Some False
            else do { c2 \<leftarrow> idx (t_fp_c2 t) k;
              skip \<leftarrow> (if c2 = TEDDY_NO_C2 then Some False
                      else do { b \<leftarrow> idx buf (pos + 2); Some ((ucast (sigma_lc b) :: u16) \<noteq> c2) });
              if skip then Some False
              else teddy_eq_ci buf pos (t_strpool t) (unat (st_off n)) (unat (st_len n)) } } }"

definition count_step :: "teddy_scratch \<Rightarrow> teddy_scratch" where
  "count_step scr = scr\<lparr>ts_chain_steps := ts_chain_steps scr + 1\<rparr>"

fun teddy_walk ::
  "nat \<Rightarrow> sigma_teddy \<Rightarrow> bytes \<Rightarrow> nat \<Rightarrow> nat \<Rightarrow> u32 list \<Rightarrow> (nat \<Rightarrow> 's \<Rightarrow> 's option) \<Rightarrow> u32
     \<Rightarrow> teddy_scratch \<times> 's \<Rightarrow> (teddy_scratch \<times> 's) option" where
  "teddy_walk 0 t buf avail pos nxt mark k (scr, s) = None"
| "teddy_walk (Suc fuel) t buf avail pos nxt mark k (scr, s) =
     (if k = u32_max then Some (scr, s)
      else do {
        let scr = count_step scr;
        hit \<leftarrow> teddy_test t buf avail pos scr (unat k);
        (scr', s') \<leftarrow>
          (if hit then
             do { g \<leftarrow> upd (ts_ndl_gen scr) (unat k) (ts_gen scr);
                  s1 \<leftarrow> mark (unat k) s;
                  Some (scr\<lparr>ts_ndl_gen := g\<rparr>, s1) }
           else Some (scr, s));
        k' \<leftarrow> idx nxt (unat k);
        teddy_walk fuel t buf avail pos nxt mark k' (scr', s') })"

definition teddy_probe_at ::
  "sigma_teddy \<Rightarrow> bytes \<Rightarrow> (nat \<Rightarrow> 's \<Rightarrow> 's option) \<Rightarrow> nat
     \<Rightarrow> teddy_scratch \<times> 's \<Rightarrow> (teddy_scratch \<times> 's) option" where
  "teddy_probe_at t buf mark pos st =
     (let avail = length buf - pos; fuel = t_n_needles t + 1 in
      do { b0 \<leftarrow> idx buf pos;
           b1 \<leftarrow> idx buf (pos + 1);
           st1 \<leftarrow>
             (if avail \<ge> 3 then
                do { b2 \<leftarrow> idx buf (pos + 2);
                     let h = teddy_hash (teddy_fp24 b0 b1 b2);
                     teddy_walk fuel t buf avail pos (t_fp_next t) mark (t_fp_head t h) st }
              else Some st);
           if t_n_short t \<noteq> 0 then
             (let h2 = teddy_hash (teddy_fp16 b0 b1) in
              teddy_walk fuel t buf avail pos (t_fp2_next t) mark (t_fp2_head t h2) st1)
           else Some st1 })"

text \<open>The chunk sweep of the SIMD builds; the scalar build starts the tail at 0.\<close>

function teddy_sweep ::
  "sigma_teddy \<Rightarrow> bytes \<Rightarrow> (nat \<Rightarrow> 's \<Rightarrow> 's option) \<Rightarrow> nat
     \<Rightarrow> teddy_scratch \<times> 's \<Rightarrow> (nat \<times> teddy_scratch \<times> 's) option" where
  "teddy_sweep t buf mark i st =
     (if i + 16 \<le> length buf then
        (if \<not> teddy_chunk_interesting t buf i then teddy_sweep t buf mark (i + 16) st
         else
           do { st' \<leftarrow> mfold (teddy_probe_at t buf mark) [i..<min (i + 16) (length buf - 1)] st;
                teddy_sweep t buf mark (i + 16) st' })
      else Some (i, st))"
  by pat_completeness auto
termination
  by (relation "measure (\<lambda>(t, buf, mark, i, st). length buf - i)") auto

declare teddy_sweep.simps [simp del]

definition teddy_confirm ::
  "simd_arch \<Rightarrow> sigma_teddy \<Rightarrow> bytes \<Rightarrow> (nat \<Rightarrow> 's \<Rightarrow> 's option)
     \<Rightarrow> teddy_scratch \<times> 's \<Rightarrow> (teddy_scratch \<times> 's) option" where
  "teddy_confirm arch t buf mark st =
     (if length buf < 2 \<or> ts_ndl_gen (fst st) = [] then Some st
      else
        (let st0 = (sigma_teddy_scratch_next (fst st), snd st) in
         do { (i, st1) \<leftarrow> (if arch = SCALAR then Some (0, st0) else teddy_sweep t buf mark 0 st0);
              mfold (teddy_probe_at t buf mark) [i..<length buf - 1] st1 }))"

end
