(* ===== verification/Sigma_Match.thy ===== *)
theory Sigma_Match
  imports Teddy
begin

text \<open>
  Rule evaluation of \<open>src/src/sigma_match.c\<close>: the per-event memo of field values, single
  predicates, selections and the condition evaluator with its deferred selection cells.

  The code runs in the option monad over the evaluation scratch: \<open>None\<close> is an
  out-of-bounds read. The event is the function \<open>ev\<close> from field names to values (the field
  callback; its documented contract is that it resolves the current event's fields). The
  functions of the C library and of PCRE2 are the record \<open>sigma_lib\<close>.
\<close>

section \<open>Parameters and state\<close>

record 're sigma_lib =
  x_arch :: simd_arch
  x_pton4 :: "bytes \<Rightarrow> bytes option"
  x_pton6 :: "bytes \<Rightarrow> bytes option"
  x_re_compile :: "bool \<Rightarrow> bytes \<Rightarrow> 're option"
  x_re_match :: "'re \<Rightarrow> bytes \<Rightarrow> bool"

text \<open>The members \<open>sigma_db_finalize\<close> derives; the regex table has an entry per predicate.\<close>

record 're sigma_derived =
  v_teddy :: "sigma_teddy option"
  v_field_teddy :: "sigma_teddy option list option"
  v_bucket_fields :: "bytes option"
  v_bucket_fields_stride :: nat
  v_lit_any_field :: bool
  v_re :: "'re option list option"
  v_n_re_skipped :: u32

record sigma_eval_stats =
  q_events :: u64
  q_rules_in_scope :: u64
  q_rules_verified :: u64
  q_prefilter_runs :: u64
  q_needles_confirmed :: u64
  q_chain_steps :: u64
  q_haystack_bytes :: u64

text \<open>
  The scratch. \<open>e_memo\<close> is \<open>vstate\<close>, \<open>vptr\<close> and \<open>vlen\<close> in one: \<open>None\<close> for a field not yet
  resolved. An array that was not allocated is \<open>None\<close>. \<open>e_calls\<close> is not part of the code's
  state: it records the names the field callback was asked for.
\<close>

record sigma_eval =
  e_memo :: "bytes option option list"
  e_rule_mask :: "u32 list option"
  e_rule_gen :: "u32 list option"
  e_eval_done :: "u32 list option"
  e_gen :: u32
  e_cur_field :: u16
  e_tscr :: teddy_scratch
  e_st :: sigma_eval_stats
  e_prefilter_on :: nat
  e_calls :: "bytes list"

section \<open>Fields\<close>

text \<open>A string reference into the pool, as a checked read.\<close>

definition pool_ref :: "sigma_db \<Rightarrow> sigma_str \<Rightarrow> bytes option" where
  "pool_ref d s = (if str_ok d s then Some (str_bytes (db_strpool d) s) else None)"

definition resolve_field ::
  "sigma_db \<Rightarrow> (bytes \<Rightarrow> bytes option) \<Rightarrow> u16 \<Rightarrow> sigma_eval \<Rightarrow> (bytes option \<times> sigma_eval) option" where
  "resolve_field d ev fid e =
     (if unat fid \<ge> length (db_fields d) then Some (None, e)
      else do {
        m \<leftarrow> idx (e_memo e) (unat fid);
        case m of
          Some v \<Rightarrow> Some (v, e)
        | None \<Rightarrow> do {
            f \<leftarrow> idx (db_fields d) (unat fid);
            name \<leftarrow> pool_ref d f;
            let v = ev name;
            memo \<leftarrow> upd (e_memo e) (unat fid) (Some v);
            Some (v, e\<lparr>e_memo := memo, e_calls := e_calls e @ [name]\<rparr>) } })"

section \<open>Predicates\<close>

text \<open>The comparison of two \<open>int64_t\<close> values.\<close>

definition num_cmp :: "u8 \<Rightarrow> u64 \<Rightarrow> u64 \<Rightarrow> bool" where
  "num_cmp op iv rhs =
     (if op = OP_GT then sint iv > sint rhs
      else if op = OP_GTE then sint iv \<ge> sint rhs
      else if op = OP_LT then sint iv < sint rhs
      else if op = OP_LTE then sint iv \<le> sint rhs
      else if op = OP_NUMEQ then iv = rhs
      else False)"

definition str_test :: "'re sigma_lib \<Rightarrow> u8 \<Rightarrow> bool \<Rightarrow> bytes \<Rightarrow> bytes \<Rightarrow> bool" where
  "str_test x op cs val opnd =
     (if op = OP_EQ then sg_eq val opnd cs
      else if op = OP_CONTAINS then
        (if cs then sg_contains val opnd True else sigma_memmem_ci (x_arch x) val opnd \<noteq> None)
      else if op = OP_STARTSWITH then sg_starts val opnd cs
      else if op = OP_ENDSWITH then sg_ends val opnd cs
      else False)"

text \<open>The operand of a string predicate: another field's value, or an entry of \<open>values\<close>.\<close>

definition pred_operand ::
  "sigma_db \<Rightarrow> (bytes \<Rightarrow> bytes option) \<Rightarrow> sigma_pred \<Rightarrow> sigma_eval \<Rightarrow> (bytes option \<times> sigma_eval) option" where
  "pred_operand d ev p e =
     (if has_flag (p_flags p) PF_FIELDREF then
        (if unat (p_value p) \<ge> length (db_fields d) \<or> p_value p > 0xFFFF then Some (None, e)
         else resolve_field d ev (ucast (p_value p)) e)
      else if unat (p_value p) < length (db_values d) then
        do { s \<leftarrow> idx (db_values d) (unat (p_value p)); b \<leftarrow> pool_ref d s; Some (Some b, e) }
      else Some (None, e))"

definition pred_value ::
  "'re sigma_lib \<Rightarrow> sigma_db \<Rightarrow> 're sigma_derived \<Rightarrow> (bytes \<Rightarrow> bytes option) \<Rightarrow> sigma_pred \<Rightarrow> nat \<Rightarrow> bytes
     \<Rightarrow> sigma_eval \<Rightarrow> (bool \<times> sigma_eval) option" where
  "pred_value x d dv ev p i val e =
     (if p_op p \<in> {OP_GT, OP_GTE, OP_LT, OP_LTE, OP_NUMEQ} then
        Some ((case sg_to_i64 val of None \<Rightarrow> False | Some iv \<Rightarrow> num_cmp (p_op p) iv (p_ival p)), e)
      else if p_op p = OP_CIDR then
        (if unat (p_value p) < length (db_cidrs d) then
           do { c \<leftarrow> idx (db_cidrs d) (unat (p_value p));
                r \<leftarrow> ip_in_cidr (x_pton4 x) (x_pton6 x) val c;
                Some (r, e) }
         else Some (False, e))
      else if p_op p = OP_RE then
        (case v_re dv of
           None \<Rightarrow> Some (False, e)
         | Some arr \<Rightarrow>
             (if i \<ge> length (db_preds d) then Some (False, e)
              else do { en \<leftarrow> idx arr i;
                        Some ((case en of None \<Rightarrow> False | Some re \<Rightarrow> x_re_match x re val), e) }))
      else
        do { (opnd, e') \<leftarrow> pred_operand d ev p e;
             Some ((case opnd of None \<Rightarrow> False
                    | Some b \<Rightarrow> str_test x (p_op p) (has_flag (p_flags p) PF_CASE) val b), e') })"

definition pred_match ::
  "'re sigma_lib \<Rightarrow> sigma_db \<Rightarrow> 're sigma_derived \<Rightarrow> (bytes \<Rightarrow> bytes option) \<Rightarrow> sigma_pred \<Rightarrow> nat
     \<Rightarrow> sigma_eval \<Rightarrow> (bool \<times> sigma_eval) option" where
  "pred_match x d dv ev p i e =
     do { (val, e1) \<leftarrow> resolve_field d ev (p_field p) e;
          (res, e2) \<leftarrow>
            (if p_op p = OP_EXISTS then
               Some ((case val of None \<Rightarrow> False | Some v \<Rightarrow> 0 < length v), e1)
             else case val of None \<Rightarrow> Some (False, e1) | Some v \<Rightarrow> pred_value x d dv ev p i v e1);
          Some ((if has_flag (p_flags p) PF_NEGATE then \<not> res else res), e2) }"

section \<open>Selections\<close>

text \<open>
  The loop over the predicates at positions \<open>is\<close>: AND across groups, OR within a group, the
  rest of a group that is already true is skipped.
\<close>

fun sel_loop ::
  "'re sigma_lib \<Rightarrow> sigma_db \<Rightarrow> 're sigma_derived \<Rightarrow> (bytes \<Rightarrow> bytes option) \<Rightarrow> nat list \<Rightarrow> u16 \<Rightarrow> bool
     \<Rightarrow> sigma_eval \<Rightarrow> (bool \<times> sigma_eval) option" where
  "sel_loop x d dv ev [] cur group_or e = Some (group_or, e)"
| "sel_loop x d dv ev (i # is) cur group_or e =
     do { p \<leftarrow> idx (db_preds d) i;
          if p_group p \<noteq> cur \<and> \<not> group_or then Some (False, e)
          else
            (let go = (if p_group p \<noteq> cur then False else group_or) in
             do { (go', e') \<leftarrow> (if \<not> go then pred_match x d dv ev p i e else Some (go, e));
                  sel_loop x d dv ev is (p_group p) go' e' }) }"

definition sel_match ::
  "'re sigma_lib \<Rightarrow> sigma_db \<Rightarrow> 're sigma_derived \<Rightarrow> (bytes \<Rightarrow> bytes option) \<Rightarrow> sigma_sel
     \<Rightarrow> sigma_eval \<Rightarrow> (bool \<times> sigma_eval) option" where
  "sel_match x d dv ev sel e =
     (if s_count sel = 0 then Some (False, e)
      else do {
        p0 \<leftarrow> idx (db_preds d) (unat (s_start sel));
        sel_loop x d dv ev [unat (s_start sel)..<unat (s_start sel) + unat (s_count sel)]
          (p_group p0) False e })"

section \<open>Conditions\<close>

text \<open>
  A stack cell: a known truth value, a selection that has not run yet, or the deferred
  negation of one.
\<close>

datatype rpn_cell = RPN_BOOL bool | RPN_SEL u32 | RPN_NOTSEL u32

abbreviation COND_STACK_MAX :: nat where "COND_STACK_MAX \<equiv> 64"

fun rpn_not :: "rpn_cell \<Rightarrow> rpn_cell" where
  "rpn_not (RPN_SEL i) = RPN_NOTSEL i"
| "rpn_not (RPN_NOTSEL i) = RPN_SEL i"
| "rpn_not (RPN_BOOL v) = RPN_BOOL (\<not> v)"

fun rpn_force ::
  "'re sigma_lib \<Rightarrow> sigma_db \<Rightarrow> 're sigma_derived \<Rightarrow> (bytes \<Rightarrow> bytes option) \<Rightarrow> sigma_rule \<Rightarrow> rpn_cell
     \<Rightarrow> sigma_eval \<Rightarrow> (bool \<times> sigma_eval) option" where
  "rpn_force x d dv ev r (RPN_BOOL v) e = Some (v, e)"
| "rpn_force x d dv ev r (RPN_SEL i) e =
     (if i \<ge> r_sel_count r then Some (False, e)
      else do { s \<leftarrow> idx (db_sels d) (unat (r_sel_start r + i)); sel_match x d dv ev s e })"
| "rpn_force x d dv ev r (RPN_NOTSEL i) e =
     (if i \<ge> r_sel_count r then Some (False, e)
      else do { s \<leftarrow> idx (db_sels d) (unat (r_sel_start r + i));
                (hit, e') \<leftarrow> sel_match x d dv ev s e; Some (\<not> hit, e') })"

text \<open>The token loop; the top of the stack is the head of the list.\<close>

fun rpn_loop ::
  "'re sigma_lib \<Rightarrow> sigma_db \<Rightarrow> 're sigma_derived \<Rightarrow> (bytes \<Rightarrow> bytes option) \<Rightarrow> sigma_rule \<Rightarrow> nat list
     \<Rightarrow> rpn_cell list \<Rightarrow> sigma_eval \<Rightarrow> (bool \<times> sigma_eval) option" where
  "rpn_loop x d dv ev r [] stack e =
     (case stack of [c] \<Rightarrow> rpn_force x d dv ev r c e | _ \<Rightarrow> Some (False, e))"
| "rpn_loop x d dv ev r (i # is) stack e =
     do { t \<leftarrow> idx (db_cond d) i;
          if c_kind t = C_SEL then
            (if length stack \<ge> COND_STACK_MAX then Some (False, e)
             else if c_sel t \<ge> r_sel_count r then Some (False, e)
             else rpn_loop x d dv ev r is (RPN_SEL (c_sel t) # stack) e)
          else if c_kind t = C_NOT then
            (case stack of
               c # st \<Rightarrow> rpn_loop x d dv ev r is (rpn_not c # st) e
             | _ \<Rightarrow> Some (False, e))
          else if c_kind t = C_AND then
            (case stack of
               b # a # st \<Rightarrow>
                 do { (av, e1) \<leftarrow> rpn_force x d dv ev r a e;
                      (v, e2) \<leftarrow> (if av then rpn_force x d dv ev r b e1 else Some (False, e1));
                      rpn_loop x d dv ev r is (RPN_BOOL v # st) e2 }
             | _ \<Rightarrow> Some (False, e))
          else if c_kind t = C_OR then
            (case stack of
               b # a # st \<Rightarrow>
                 do { (av, e1) \<leftarrow> rpn_force x d dv ev r a e;
                      (v, e2) \<leftarrow> (if av then Some (True, e1) else rpn_force x d dv ev r b e1);
                      rpn_loop x d dv ev r is (RPN_BOOL v # st) e2 }
             | _ \<Rightarrow> Some (False, e))
          else Some (False, e) }"

text \<open>Without a condition every selection must match, and there must be one.\<close>

fun all_sels ::
  "'re sigma_lib \<Rightarrow> sigma_db \<Rightarrow> 're sigma_derived \<Rightarrow> (bytes \<Rightarrow> bytes option) \<Rightarrow> nat list
     \<Rightarrow> sigma_eval \<Rightarrow> (bool \<times> sigma_eval) option" where
  "all_sels x d dv ev [] e = Some (True, e)"
| "all_sels x d dv ev (i # is) e =
     do { s \<leftarrow> idx (db_sels d) i;
          (hit, e') \<leftarrow> sel_match x d dv ev s e;
          if \<not> hit then Some (False, e') else all_sels x d dv ev is e' }"

definition rule_match ::
  "'re sigma_lib \<Rightarrow> sigma_db \<Rightarrow> 're sigma_derived \<Rightarrow> (bytes \<Rightarrow> bytes option) \<Rightarrow> sigma_rule
     \<Rightarrow> sigma_eval \<Rightarrow> (bool \<times> sigma_eval) option" where
  "rule_match x d dv ev r e =
     (if r_cond_count r = 0 then
        do { (h, e') \<leftarrow> all_sels x d dv ev
               [unat (r_sel_start r)..<unat (r_sel_start r) + unat (r_sel_count r)] e;
             Some (h \<and> r_sel_count r > 0, e') }
      else rpn_loop x d dv ev r
        [unat (r_cond_start r)..<unat (r_cond_start r) + unat (r_cond_count r)] [] e)"

end
