(* ===== verification/Codec.thy ===== *)
theory Codec
  imports Sigma_Db
begin

text \<open>
  The little-endian byte layout of each on-disk structure (\<open>src/src/sigma_format.h\<close> locks
  the sizes with static assertions, \<open>src/src/sigma_match.h\<close> declares the members). The C
  code moves whole structures with \<open>memcpy\<close> and pointer casts; here each structure has an
  encoder and a decoder of fixed width, and one locale carries the array lemmas for all of
  them.
\<close>

section \<open>Fixed-width codecs\<close>

locale codec =
  fixes enc :: "'a \<Rightarrow> bytes" and dec :: "bytes \<Rightarrow> 'a" and sz :: nat
    and ok :: "'a \<Rightarrow> bool"
  assumes enc_len: "length (enc x) = sz"
    and dec_enc: "ok x \<Longrightarrow> dec (enc x) = x"
begin

lemma length_concat_enc: "length (concat (map enc xs)) = length xs * sz"
  by (induction xs) (simp_all add: enc_len)

lemma rd_concat_enc:
  "i < length xs \<Longrightarrow> rd (concat (map enc xs)) (i * sz) sz = enc (xs ! i)"
proof (induction xs arbitrary: i)
  case Nil
  then show ?case by simp
next
  case (Cons x xs)
  show ?case
  proof (cases i)
    case 0
    then show ?thesis by (simp add: rd_def enc_len)
  next
    case (Suc j)
    with Cons.IH [of j] Cons.prems show ?thesis
      by (simp add: rd_def enc_len add.commute [of sz])
  qed
qed

text \<open>An array read out of a buffer is the array that was written there.\<close>

lemma array_dec_enc:
  assumes "rd buf off (n * sz) = concat (map enc xs)" "length xs = n" "list_all ok xs"
  shows "map (\<lambda>i. dec (rd buf (off + i * sz) sz)) [0..<n] = xs"
proof (rule nth_equalityI)
  show "length (map (\<lambda>i. dec (rd buf (off + i * sz) sz)) [0..<n]) = length xs"
    using assms(2) by simp
  fix i assume "i < length (map (\<lambda>i. dec (rd buf (off + i * sz) sz)) [0..<n])"
  then have i: "i < n" by simp
  then have "i * sz + sz \<le> n * sz" by (metis Suc_leI add.commute mult_Suc mult_le_mono1)
  then have "rd buf (off + i * sz) sz = rd (rd buf off (n * sz)) (i * sz) sz"
    by (simp add: rd_def drop_take min_def add.commute)
  also have "\<dots> = enc (xs ! i)" using assms i by (simp add: rd_concat_enc)
  finally show "map (\<lambda>i. dec (rd buf (off + i * sz) sz)) [0..<n] ! i = xs ! i"
    using i assms(2,3) by (simp add: dec_enc list_all_length)
qed

end

definition dec_array :: "(bytes \<Rightarrow> 'a) \<Rightarrow> nat \<Rightarrow> bytes \<Rightarrow> nat \<Rightarrow> nat \<Rightarrow> 'a list" where
  "dec_array dec sz buf off n = map (\<lambda>i. dec (rd buf (off + i * sz) sz)) [0..<n]"

section \<open>Integers\<close>

definition enc_u8 :: "u8 \<Rightarrow> bytes" where "enc_u8 w = le_enc 1 (unat w)"
definition enc_u16 :: "u16 \<Rightarrow> bytes" where "enc_u16 w = le_enc 2 (unat w)"
definition enc_u32 :: "u32 \<Rightarrow> bytes" where "enc_u32 w = le_enc 4 (unat w)"
definition enc_u64 :: "u64 \<Rightarrow> bytes" where "enc_u64 w = le_enc 8 (unat w)"

definition u8_at :: "bytes \<Rightarrow> nat \<Rightarrow> u8" where "u8_at b off = of_nat (le_dec (rd b off 1))"
definition u16_at :: "bytes \<Rightarrow> nat \<Rightarrow> u16" where "u16_at b off = of_nat (le_dec (rd b off 2))"
definition u32_at :: "bytes \<Rightarrow> nat \<Rightarrow> u32" where "u32_at b off = of_nat (le_dec (rd b off 4))"
definition u64_at :: "bytes \<Rightarrow> nat \<Rightarrow> u64" where "u64_at b off = of_nat (le_dec (rd b off 8))"

lemma length_enc_int [simp]:
  "length (enc_u8 a) = 1" "length (enc_u16 b) = 2" "length (enc_u32 c) = 4" "length (enc_u64 d) = 8"
  by (simp_all add: enc_u8_def enc_u16_def enc_u32_def enc_u64_def)

lemma word_mod_len: "of_nat (unat w mod 2 ^ LENGTH('a)) = (w :: 'a::len word)"
  by (simp add: unsigned_less)

lemma int_at_0 [simp]:
  "u8_at (enc_u8 a @ xs) 0 = a" "u16_at (enc_u16 b @ xs) 0 = b"
  "u32_at (enc_u32 c @ xs) 0 = c" "u64_at (enc_u64 d @ xs) 0 = d"
  using word_mod_len [of a] word_mod_len [of b] word_mod_len [of c] word_mod_len [of d]
  by (simp_all add: u8_at_def u16_at_def u32_at_def u64_at_def rd_def enc_u8_def enc_u16_def
      enc_u32_def enc_u64_def le_dec_enc del: of_nat_mod)

text \<open>Reading further on skips whole leading fields.\<close>

lemma int_at_skip:
  "length p \<le> off \<Longrightarrow> u8_at (p @ xs) off = u8_at xs (off - length p)"
  "length p \<le> off \<Longrightarrow> u16_at (p @ xs) off = u16_at xs (off - length p)"
  "length p \<le> off \<Longrightarrow> u32_at (p @ xs) off = u32_at xs (off - length p)"
  "length p \<le> off \<Longrightarrow> u64_at (p @ xs) off = u64_at xs (off - length p)"
  by (simp_all add: u8_at_def u16_at_def u32_at_def u64_at_def rd_def)

section \<open>Structures\<close>

definition pad :: "nat \<Rightarrow> bytes" where "pad n = replicate n 0"

lemma length_pad [simp]: "length (pad n) = n" by (simp add: pad_def)

definition enc_str :: "sigma_str \<Rightarrow> bytes" where
  "enc_str s = enc_u32 (st_off s) @ enc_u32 (st_len s)"
definition dec_str :: "bytes \<Rightarrow> sigma_str" where
  "dec_str b = \<lparr>st_off = u32_at b 0, st_len = u32_at b 4\<rparr>"

definition enc_pred :: "sigma_pred \<Rightarrow> bytes" where
  "enc_pred p = enc_u16 (p_field p) @ enc_u16 (p_group p) @ enc_u8 (p_op p) @ enc_u8 (p_flags p)
     @ pad 2 @ enc_u32 (p_value p) @ pad 4 @ enc_u64 (p_ival p)"
definition dec_pred :: "bytes \<Rightarrow> sigma_pred" where
  "dec_pred b = \<lparr>p_field = u16_at b 0, p_group = u16_at b 2, p_op = u8_at b 4, p_flags = u8_at b 5,
     p_value = u32_at b 8, p_ival = u64_at b 16\<rparr>"

definition enc_sel :: "sigma_sel \<Rightarrow> bytes" where
  "enc_sel s = enc_u32 (s_start s) @ enc_u32 (s_count s)"
definition dec_sel :: "bytes \<Rightarrow> sigma_sel" where
  "dec_sel b = \<lparr>s_start = u32_at b 0, s_count = u32_at b 4\<rparr>"

definition enc_ctok :: "sigma_ctok \<Rightarrow> bytes" where
  "enc_ctok t = enc_u8 (c_kind t) @ pad 3 @ enc_u32 (c_sel t)"
definition dec_ctok :: "bytes \<Rightarrow> sigma_ctok" where
  "dec_ctok b = \<lparr>c_kind = u8_at b 0, c_sel = u32_at b 4\<rparr>"

definition enc_rule :: "sigma_rule \<Rightarrow> bytes" where
  "enc_rule r = enc_u32 (r_id r) @ enc_u32 (r_sel_start r) @ enc_u32 (r_sel_count r)
     @ enc_u32 (r_cond_start r) @ enc_u32 (r_cond_count r) @ enc_u8 (r_verdict r)
     @ enc_u8 (r_severity r) @ enc_u16 (r_score r) @ enc_u32 (r_name r) @ enc_u32 (r_mitre r)"
definition dec_rule :: "bytes \<Rightarrow> sigma_rule" where
  "dec_rule b = \<lparr>r_id = u32_at b 0, r_sel_start = u32_at b 4, r_sel_count = u32_at b 8,
     r_cond_start = u32_at b 12, r_cond_count = u32_at b 16, r_verdict = u8_at b 20,
     r_severity = u8_at b 21, r_score = u16_at b 22, r_name = u32_at b 24, r_mitre = u32_at b 28\<rparr>"

text \<open>The network of a CIDR operand is a 16-byte array: a shorter list is zero-extended.\<close>

definition net16 :: "bytes \<Rightarrow> bytes" where
  "net16 n = take 16 (n @ pad 16)"

definition enc_cidr :: "sigma_cidr \<Rightarrow> bytes" where
  "enc_cidr c = enc_u8 (cidr_family c) @ enc_u8 (cidr_prefix c) @ pad 2 @ net16 (cidr_net c)"
definition dec_cidr :: "bytes \<Rightarrow> sigma_cidr" where
  "dec_cidr b = \<lparr>cidr_family = u8_at b 0, cidr_prefix = u8_at b 1, cidr_net = rd b 4 16\<rparr>"

definition enc_bucket :: "sigma_bucket \<Rightarrow> bytes" where
  "enc_bucket b = enc_u32 (b_start b) @ enc_u32 (b_count b)"
definition dec_bucket :: "bytes \<Rightarrow> sigma_bucket" where
  "dec_bucket b = \<lparr>b_start = u32_at b 0, b_count = u32_at b 4\<rparr>"

definition enc_litpost :: "sigma_litpost \<Rightarrow> bytes" where
  "enc_litpost p = enc_u32 (lp_start p) @ enc_u32 (lp_count p)"
definition dec_litpost :: "bytes \<Rightarrow> sigma_litpost" where
  "dec_litpost b = \<lparr>lp_start = u32_at b 0, lp_count = u32_at b 4\<rparr>"

definition enc_litref :: "sigma_litref \<Rightarrow> bytes" where
  "enc_litref r = enc_u32 (l_rule r) @ enc_u16 (l_field r) @ enc_u8 (l_clause r) @ pad 1"
definition dec_litref :: "bytes \<Rightarrow> sigma_litref" where
  "dec_litref b = \<lparr>l_rule = u32_at b 0, l_field = u16_at b 4, l_clause = u8_at b 6\<rparr>"

definition enc_fwit :: "sigma_fwit \<Rightarrow> bytes" where
  "enc_fwit w = enc_u32 (w_rule w) @ enc_u16 (w_field w) @ enc_u8 (w_clause w) @ enc_u8 (w_op w)
     @ enc_u64 (w_ival w)"
definition dec_fwit :: "bytes \<Rightarrow> sigma_fwit" where
  "dec_fwit b = \<lparr>w_rule = u32_at b 0, w_field = u16_at b 4, w_clause = u8_at b 6, w_op = u8_at b 7,
     w_ival = u64_at b 8\<rparr>"

lemmas enc_defs = enc_str_def enc_pred_def enc_sel_def enc_ctok_def enc_rule_def enc_cidr_def
  enc_bucket_def enc_litpost_def enc_litref_def enc_fwit_def
lemmas dec_defs = dec_str_def dec_pred_def dec_sel_def dec_ctok_def dec_rule_def dec_cidr_def
  dec_bucket_def dec_litpost_def dec_litref_def dec_fwit_def

text \<open>The last field of a structure is read with nothing behind it.\<close>

lemma int_at_end [simp]:
  "u8_at (enc_u8 a) 0 = a" "u16_at (enc_u16 b) 0 = b" "u32_at (enc_u32 c) 0 = c" "u64_at (enc_u64 d) 0 = d"
  using int_at_0 [where xs = "[]"] by simp_all

interpretation str_codec: codec enc_str dec_str 8 "\<lambda>_. True"
  by unfold_locales (simp_all add: enc_str_def dec_str_def int_at_skip)
interpretation pred_codec: codec enc_pred dec_pred 24 "\<lambda>_. True"
  by unfold_locales (simp_all add: enc_pred_def dec_pred_def int_at_skip)
interpretation sel_codec: codec enc_sel dec_sel 8 "\<lambda>_. True"
  by unfold_locales (simp_all add: enc_sel_def dec_sel_def int_at_skip)
interpretation ctok_codec: codec enc_ctok dec_ctok 8 "\<lambda>_. True"
  by unfold_locales (simp_all add: enc_ctok_def dec_ctok_def int_at_skip)
interpretation rule_codec: codec enc_rule dec_rule 32 "\<lambda>_. True"
  by unfold_locales (simp_all add: enc_rule_def dec_rule_def int_at_skip)
interpretation bucket_codec: codec enc_bucket dec_bucket 8 "\<lambda>_. True"
  by unfold_locales (simp_all add: enc_bucket_def dec_bucket_def int_at_skip)
interpretation litpost_codec: codec enc_litpost dec_litpost 8 "\<lambda>_. True"
  by unfold_locales (simp_all add: enc_litpost_def dec_litpost_def int_at_skip)
interpretation litref_codec: codec enc_litref dec_litref 8 "\<lambda>_. True"
  by unfold_locales (simp_all add: enc_litref_def dec_litref_def int_at_skip)
interpretation fwit_codec: codec enc_fwit dec_fwit 16 "\<lambda>_. True"
  by unfold_locales (simp_all add: enc_fwit_def dec_fwit_def int_at_skip)
interpretation cidr_codec: codec enc_cidr dec_cidr 20 "\<lambda>c. length (cidr_net c) = 16"
  by unfold_locales (simp_all add: enc_cidr_def dec_cidr_def int_at_skip net16_def rd_def)
interpretation u32_codec: codec enc_u32 "\<lambda>b. u32_at b 0" 4 "\<lambda>_. True"
  by unfold_locales simp_all

end
