(* ===== verification/Crc32c.thy ===== *)
theory Crc32c
  imports Sigma_Prelude
begin

text \<open>
  CRC32C of \<open>src/src/sigma_simd.h\<close>: the software loop and the hardware loops, which
  consume eight, four and one bytes per instruction. The three CRC instructions are
  parameters; the laws below are their documented behaviour (accumulate the bytes of the
  little-endian operand, lowest first).
\<close>

section \<open>The software loop\<close>

definition crc32c_bit :: "u32 \<Rightarrow> u32" where
  "crc32c_bit crc = (drop_bit 1 crc) XOR (0x82F63B78 AND (- (crc AND 1)))"

definition crc32c_byte :: "u32 \<Rightarrow> u8 \<Rightarrow> u32" where
  "crc32c_byte crc b = (crc32c_bit ^^ 8) (crc XOR ucast b)"

definition crc32c_sw :: "u32 \<Rightarrow> bytes \<Rightarrow> u32" where
  "crc32c_sw crc data = NOT (foldl crc32c_byte (NOT crc) data)"

section \<open>The hardware loops\<close>

text \<open>\<open>while (len >= 8)\<close> with 64-bit loads.\<close>

function crc_loop64 :: "(u32 \<Rightarrow> u64 \<Rightarrow> u32) \<Rightarrow> u32 \<Rightarrow> bytes \<Rightarrow> u32 \<times> bytes" where
  "crc_loop64 c64 crc p =
     (if 8 \<le> length p then crc_loop64 c64 (c64 crc (of_nat (le_dec (take 8 p)))) (drop 8 p)
      else (crc, p))"
  by pat_completeness auto
termination
  by (relation "measure (\<lambda>(c64, crc, p). length p)") auto

declare crc_loop64.simps [simp del]

definition crc32c_hw ::
  "(u32 \<Rightarrow> u8 \<Rightarrow> u32) \<Rightarrow> (u32 \<Rightarrow> u32 \<Rightarrow> u32) \<Rightarrow> (u32 \<Rightarrow> u64 \<Rightarrow> u32) \<Rightarrow> u32 \<Rightarrow> bytes \<Rightarrow> u32" where
  "crc32c_hw c8 c32 c64 crc data =
     (let (crc1, p1) = crc_loop64 c64 (NOT crc) data;
          (crc2, p2) = (if 4 \<le> length p1 then (c32 crc1 (of_nat (le_dec (take 4 p1))), drop 4 p1)
                        else (crc1, p1))
      in NOT (foldl c8 crc2 p2))"

text \<open>
  The function that a build has: the loop over the SSE4.2 or the ARMv8 instructions, which are
  the same loop, or the software loop on an ARM core without them and on any other target.
\<close>

datatype crc_build = CRC_SSE42 | CRC_ARM | CRC_ARM_PLAIN | CRC_PORTABLE

definition sigma_crc32c ::
  "crc_build \<Rightarrow> (u32 \<Rightarrow> u8 \<Rightarrow> u32) \<Rightarrow> (u32 \<Rightarrow> u32 \<Rightarrow> u32) \<Rightarrow> (u32 \<Rightarrow> u64 \<Rightarrow> u32) \<Rightarrow> u32 \<Rightarrow> bytes \<Rightarrow> u32" where
  "sigma_crc32c build c8 c32 c64 crc data =
     (case build of
        CRC_SSE42 \<Rightarrow> crc32c_hw c8 c32 c64 crc data
      | CRC_ARM \<Rightarrow> crc32c_hw c8 c32 c64 crc data
      | CRC_ARM_PLAIN \<Rightarrow> crc32c_sw crc data
      | CRC_PORTABLE \<Rightarrow> crc32c_sw crc data)"

locale crc_instructions =
  fixes c8 :: "u32 \<Rightarrow> u8 \<Rightarrow> u32"
    and c32 :: "u32 \<Rightarrow> u32 \<Rightarrow> u32"
    and c64 :: "u32 \<Rightarrow> u64 \<Rightarrow> u32"
  assumes c8_byte: "c8 crc b = crc32c_byte crc b"
    and c32_bytes: "length p = 4 \<Longrightarrow> c32 crc (of_nat (le_dec p)) = foldl crc32c_byte crc p"
    and c64_bytes: "length p = 8 \<Longrightarrow> c64 crc (of_nat (le_dec p)) = foldl crc32c_byte crc p"
begin

lemma crc_loop64_fold:
  "crc_loop64 c64 crc p = (crc', p') \<Longrightarrow> foldl crc32c_byte crc' p' = foldl crc32c_byte crc p"
proof (induction "length p" arbitrary: crc p rule: less_induct)
  case less
  show ?case
  proof (cases "8 \<le> length p")
    case True
    have "foldl crc32c_byte crc p = foldl crc32c_byte (foldl crc32c_byte crc (take 8 p)) (drop 8 p)"
      by (simp flip: foldl_append)
    also have "foldl crc32c_byte crc (take 8 p) = c64 crc (of_nat (le_dec (take 8 p)))"
      using True by (simp add: c64_bytes)
    also have "foldl crc32c_byte \<dots> (drop 8 p) = foldl crc32c_byte crc' p'"
      using less.prems True less.hyps [of "drop 8 p"]
      by (simp add: crc_loop64.simps [of c64 crc p])
    finally show ?thesis by simp
  next
    case False
    with less.prems show ?thesis by (simp add: crc_loop64.simps [of c64 crc p])
  qed
qed

lemma crc32c_hw_sw: "crc32c_hw c8 c32 c64 crc data = crc32c_sw crc data"
proof -
  obtain crc1 p1 where l: "crc_loop64 c64 (NOT crc) data = (crc1, p1)" by fastforce
  have c8: "c8 = crc32c_byte" by (intro ext c8_byte)
  have "4 \<le> length p1 \<Longrightarrow>
      foldl crc32c_byte (c32 crc1 (of_nat (le_dec (take 4 p1)))) (drop 4 p1) = foldl crc32c_byte crc1 p1"
    by (simp add: c32_bytes flip: foldl_append)
  with l crc_loop64_fold [OF l] show ?thesis
    by (simp add: crc32c_hw_def crc32c_sw_def c8)
qed

lemma sigma_crc32c_sw: "sigma_crc32c build c8 c32 c64 crc data = crc32c_sw crc data"
  by (cases build) (simp_all add: sigma_crc32c_def crc32c_hw_sw)

end

text \<open>The instructions as the processor manuals define them satisfy the laws.\<close>

definition crc_u8 :: "u32 \<Rightarrow> u8 \<Rightarrow> u32" where
  "crc_u8 crc b = crc32c_byte crc b"

definition crc_u32 :: "u32 \<Rightarrow> u32 \<Rightarrow> u32" where
  "crc_u32 crc v = foldl crc32c_byte crc (le_enc 4 (unat v))"

definition crc_u64 :: "u32 \<Rightarrow> u64 \<Rightarrow> u32" where
  "crc_u64 crc v = foldl crc32c_byte crc (le_enc 8 (unat v))"

interpretation x86_crc: crc_instructions crc_u8 crc_u32 crc_u64
proof
  fix p :: bytes and crc
  show "length p = 4 \<Longrightarrow> crc_u32 crc (of_nat (le_dec p)) = foldl crc32c_byte crc p"
    using le_dec_bound [of p] by (simp add: crc_u32_def unat_of_nat le_enc_dec)
  show "length p = 8 \<Longrightarrow> crc_u64 crc (of_nat (le_dec p)) = foldl crc32c_byte crc p"
    using le_dec_bound [of p] by (simp add: crc_u64_def unat_of_nat le_enc_dec)
qed (simp add: crc_u8_def)

section \<open>Composition and error detection\<close>

lemma crc32c_sw_append: "crc32c_sw (crc32c_sw crc a) b = crc32c_sw crc (a @ b)"
  by (simp add: crc32c_sw_def)

text \<open>
  One step of the shift register can be undone, because the reflected polynomial has its
  top bit set: the top bit of the result is the bit that was shifted out.
\<close>

definition crc32c_unbit :: "u32 \<Rightarrow> u32" where
  "crc32c_unbit y =
     (if bit y 31 then (push_bit 1 (y XOR 0x82F63B78)) OR 1 else push_bit 1 y)"

lemma crc32c_bit_odd: "odd x \<Longrightarrow> crc32c_bit x = drop_bit 1 x XOR 0x82F63B78"
  by (simp add: crc32c_bit_def and_one_eq mod_2_eq_odd)

lemma crc32c_bit_even: "even x \<Longrightarrow> crc32c_bit x = drop_bit 1 x"
  by (simp add: crc32c_bit_def and_one_eq mod_2_eq_odd)

lemma poly_top: "bit (0x82F63B78 :: u32) 31"
  by simp

lemma drop_top: "\<not> bit (drop_bit 1 (x :: u32)) 31"
  using bit_imp_le_length [of x 32] by (auto simp: bit_drop_bit_eq)

lemma push_drop_odd: "odd x \<Longrightarrow> push_bit 1 (drop_bit 1 x) OR 1 = (x :: u32)"
  using mult_div_mod_eq [of 2 x]
  by (simp add: drop_bit_Suc or_one_eq mult.commute odd_iff_mod_2_eq_one)

lemma push_drop_even: "even x \<Longrightarrow> push_bit 1 (drop_bit 1 x) = (x :: u32)"
  using mult_div_mod_eq [of 2 x] by (simp add: drop_bit_Suc mult.commute even_iff_mod_2_eq_zero)

lemma crc32c_unbit_bit: "crc32c_unbit (crc32c_bit x) = x"
proof (cases "odd x")
  case True
  then show ?thesis
    using poly_top drop_top [of x] push_drop_odd [OF True]
    by (simp add: crc32c_bit_odd crc32c_unbit_def bit_xor_iff xor.assoc del: bit_numeral_simps)
next
  case False
  then show ?thesis
    using drop_top [of x] push_drop_even [of x]
    by (simp add: crc32c_bit_even crc32c_unbit_def)
qed

lemma inj_crc32c_bit: "inj crc32c_bit"
  by (rule inj_on_inverseI) (rule crc32c_unbit_bit)

lemma crc32c_byte_inj_crc: "crc32c_byte c b = crc32c_byte c' b \<Longrightarrow> c = c'"
proof -
  assume "crc32c_byte c b = crc32c_byte c' b"
  then have "c XOR ucast b = c' XOR (ucast b :: u32)"
    unfolding crc32c_byte_def by (rule injD [OF inj_fn [OF inj_crc32c_bit, of 8]])
  then have "(c XOR ucast b) XOR ucast b = (c' XOR (ucast b :: u32)) XOR ucast b" by simp
  then show "c = c'" by (simp add: xor.assoc)
qed

lemma crc32c_byte_inj_byte: "crc32c_byte c b = crc32c_byte c b' \<Longrightarrow> b = b'"
proof -
  assume "crc32c_byte c b = crc32c_byte c b'"
  then have "c XOR ucast b = c XOR (ucast b' :: u32)"
    unfolding crc32c_byte_def by (rule injD [OF inj_fn [OF inj_crc32c_bit, of 8]])
  then have "c XOR (c XOR ucast b) = c XOR (c XOR (ucast b' :: u32))" by simp
  then have "(ucast b :: u32) = ucast b'" by (simp flip: xor.assoc)
  then have "unat (ucast b :: u32) = unat (ucast b' :: u32)" by simp
  then show "b = b'"
    using u8_bound [of b] u8_bound [of b'] by (simp add: unsigned_ucast_eq take_bit_nat_def word_unat_eq_iff)
qed

lemma crc32c_fold_inj: "foldl crc32c_byte c p = foldl crc32c_byte c' p \<Longrightarrow> c = c'"
  by (induction p arbitrary: c c') (auto dest: crc32c_byte_inj_crc)

text \<open>Two buffers that differ in exactly one byte have different checksums.\<close>

lemma crc32c_sw_one_byte:
  assumes "i < length p" "b \<noteq> p ! i"
  shows "crc32c_sw crc (p[i := b]) \<noteq> crc32c_sw crc p"
proof
  assume "crc32c_sw crc (p[i := b]) = crc32c_sw crc p"
  then have "foldl crc32c_byte (NOT crc) (p[i := b]) = foldl crc32c_byte (NOT crc) p"
    by (simp add: crc32c_sw_def)
  moreover have "p[i := b] = take i p @ b # drop (Suc i) p" "p = take i p @ p ! i # drop (Suc i) p"
    using assms(1) by (simp_all add: upd_conv_take_nth_drop id_take_nth_drop)
  ultimately have "foldl crc32c_byte (NOT crc) (take i p @ b # drop (Suc i) p) =
    foldl crc32c_byte (NOT crc) (take i p @ p ! i # drop (Suc i) p)" by metis
  then have "crc32c_byte (foldl crc32c_byte (NOT crc) (take i p)) b =
    crc32c_byte (foldl crc32c_byte (NOT crc) (take i p)) (p ! i)"
    by (auto dest: crc32c_fold_inj)
  with assms(2) crc32c_byte_inj_byte show False by blast
qed

section \<open>Properties of the checksum\<close>

text \<open>
  C22. Every build computes the same CRC-32C from every start value and for every buffer: the
  accelerated loops (eight bytes at a time, then at most one group of four, then byte by byte)
  agree with the bitwise software loop, which is the function where the instructions are missing.
\<close>

theorem crc32c_hw_equals_sw:
  "sigma_crc32c build crc_u8 crc_u32 crc_u64 crc data = crc32c_sw crc data"
  by (rule x86_crc.sigma_crc32c_sw)

end
