(* ===== verification/Sigma_Format.thy ===== *)
theory Sigma_Format
  imports Codec Crc32c
begin

text \<open>
  The \<open>.sigmac\<close> artifact of \<open>src/src/sigma_format.c\<close>: the header, the serializer and the
  validating loader up to the point where it hands the tables to \<open>sigma_db_finalize\<close>.
  Allocation is assumed to succeed; the null checks of the C entry points have no
  counterpart. The checksum is \<open>crc32c_sw\<close>, which theory Crc32c proves equal to the
  hardware loops.
\<close>

datatype sigma_status = ERR_NOMEM | ERR_IO | ERR_MAGIC | ERR_VERSION | ERR_SIZE | ERR_CRC
  | ERR_RANGE | ERR_REGEX

abbreviation SIGMA_MAGIC :: u32 where "SIGMA_MAGIC \<equiv> 0x53474D41"
abbreviation FORMAT_VERSION :: u32 where "FORMAT_VERSION \<equiv> 5"
abbreviation FORMAT_VERSION_MIN :: u32 where "FORMAT_VERSION_MIN \<equiv> 4"
abbreviation HDR_V4_SIZE :: nat where "HDR_V4_SIZE \<equiv> 136"
abbreviation HDR_SIZE :: nat where "HDR_SIZE \<equiv> 144"

section \<open>Header\<close>

record sigma_hdr =
  h_magic :: u32
  h_version :: u32
  h_total_size :: u64
  h_n_fields :: u32
  h_off_fields :: u32
  h_n_values :: u32
  h_off_values :: u32
  h_n_preds :: u32
  h_off_preds :: u32
  h_n_sels :: u32
  h_off_sels :: u32
  h_n_cond :: u32
  h_off_cond :: u32
  h_n_rules :: u32
  h_off_rules :: u32
  h_strpool_len :: u32
  h_off_strpool :: u32
  h_n_cidrs :: u32
  h_off_cidrs :: u32
  h_flags :: u32
  h_n_buckets :: u32
  h_off_bkeys :: u32
  h_off_buckets :: u32
  h_n_bucket_idx :: u32
  h_off_bucket_idx :: u32
  h_n_litndl :: u32
  h_off_litndl :: u32
  h_off_litpost :: u32
  h_n_litpost_ref :: u32
  h_off_litpost_ref :: u32
  h_n_litav :: u32
  h_off_litav :: u32
  h_off_rule_clauses :: u32
  h_n_fwit :: u32
  h_off_fwit :: u32

definition enc_hdr :: "sigma_hdr \<Rightarrow> bytes" where
  "enc_hdr h = enc_u32 (h_magic h) @ enc_u32 (h_version h) @ enc_u64 (h_total_size h)
     @ concat (map enc_u32
      [
       h_n_fields h, h_off_fields h, h_n_values h, h_off_values h, h_n_preds h, h_off_preds h,
       h_n_sels h, h_off_sels h, h_n_cond h, h_off_cond h, h_n_rules h, h_off_rules h,
       h_strpool_len h, h_off_strpool h, h_n_cidrs h, h_off_cidrs h, h_flags h, h_n_buckets h,
       h_off_bkeys h, h_off_buckets h, h_n_bucket_idx h, h_off_bucket_idx h, h_n_litndl h,
       h_off_litndl h, h_off_litpost h, h_n_litpost_ref h, h_off_litpost_ref h, h_n_litav h,
       h_off_litav h, h_off_rule_clauses h, h_n_fwit h, h_off_fwit h])"

definition dec_hdr :: "bytes \<Rightarrow> sigma_hdr" where
  "dec_hdr b = \<lparr>h_magic = u32_at b 0, h_version = u32_at b 4, h_total_size = u64_at b 8,
     h_n_fields = u32_at b 16, h_off_fields = u32_at b 20, h_n_values = u32_at b 24,
     h_off_values = u32_at b 28, h_n_preds = u32_at b 32, h_off_preds = u32_at b 36,
     h_n_sels = u32_at b 40, h_off_sels = u32_at b 44, h_n_cond = u32_at b 48,
     h_off_cond = u32_at b 52, h_n_rules = u32_at b 56, h_off_rules = u32_at b 60,
     h_strpool_len = u32_at b 64, h_off_strpool = u32_at b 68, h_n_cidrs = u32_at b 72,
     h_off_cidrs = u32_at b 76, h_flags = u32_at b 80, h_n_buckets = u32_at b 84,
     h_off_bkeys = u32_at b 88, h_off_buckets = u32_at b 92, h_n_bucket_idx = u32_at b 96,
     h_off_bucket_idx = u32_at b 100, h_n_litndl = u32_at b 104, h_off_litndl = u32_at b 108,
     h_off_litpost = u32_at b 112, h_n_litpost_ref = u32_at b 116,
     h_off_litpost_ref = u32_at b 120, h_n_litav = u32_at b 124, h_off_litav = u32_at b 128,
     h_off_rule_clauses = u32_at b 132, h_n_fwit = u32_at b 136, h_off_fwit = u32_at b 140\<rparr>"

interpretation hdr_codec: codec enc_hdr dec_hdr 144 "\<lambda>_. True"
  by unfold_locales (simp_all add: enc_hdr_def dec_hdr_def int_at_skip)

section \<open>Serializer\<close>

text \<open>\<open>(x + 7) & ~7\<close>: the next multiple of eight.\<close>

definition align8 :: "nat \<Rightarrow> nat" where
  "align8 x = (x + 7) div 8 * 8"

lemma align8_ge: "x \<le> align8 x"
  by (simp add: align8_def)

lemma align8_dvd: "8 dvd align8 x"
  by (simp add: align8_def)

record layout =
  lo_fields :: nat
  lo_values :: nat
  lo_preds :: nat
  lo_sels :: nat
  lo_cond :: nat
  lo_rules :: nat
  lo_cidrs :: nat
  lo_bkeys :: nat
  lo_buckets :: nat
  lo_bidx :: nat
  lo_litndl :: nat
  lo_litpost :: nat
  lo_litpost_ref :: nat
  lo_litav :: nat
  lo_rule_clauses :: nat
  lo_fwit :: nat
  lo_strpool :: nat
  lo_body_end :: nat
  lo_total :: nat

definition db_layout :: "sigma_db \<Rightarrow> layout" where
  "db_layout d =
     (let f = align8 HDR_SIZE;
          v = align8 (f + length (db_fields d) * 8);
          p = align8 (v + length (db_values d) * 8);
          s = align8 (p + length (db_preds d) * 24);
          c = align8 (s + length (db_sels d) * 8);
          r = align8 (c + length (db_cond d) * 8);
          ci = align8 (r + length (db_rules d) * 32);
          bk = align8 (ci + length (db_cidrs d) * 20);
          bu = align8 (bk + length (db_bucket_keys d) * 8);
          bi = align8 (bu + length (db_bucket_keys d) * 8);
          ln = align8 (bi + length (db_bucket_idx d) * 4);
          lp = align8 (ln + length (db_litndl d) * 8);
          lr = align8 (lp + length (db_litndl d) * 8);
          la = align8 (lr + length (db_litpost_ref d) * 8);
          rc = align8 (la + length (db_litav d) * 4);
          fw = align8 (rc + (if db_rule_clauses d \<noteq> None then length (db_rules d) else 0));
          sp = align8 (fw + length (db_fwit d) * 16);
          be = sp + length (db_strpool d)
      in \<lparr>lo_fields = f, lo_values = v, lo_preds = p, lo_sels = s, lo_cond = c, lo_rules = r,
          lo_cidrs = ci, lo_bkeys = bk, lo_buckets = bu, lo_bidx = bi, lo_litndl = ln,
          lo_litpost = lp, lo_litpost_ref = lr, lo_litav = la, lo_rule_clauses = rc, lo_fwit = fw,
          lo_strpool = sp, lo_body_end = be, lo_total = be + 4\<rparr>)"

text \<open>\<open>n ? (uint32_t)off : 0u\<close>\<close>

definition off_if :: "bool \<Rightarrow> nat \<Rightarrow> u32" where
  "off_if b off = (if b then of_nat off else 0)"

definition db_header :: "sigma_db \<Rightarrow> layout \<Rightarrow> sigma_hdr" where
  "db_header d l =
     (let nb = length (db_bucket_keys d); nl = length (db_litndl d) in
      \<lparr>h_magic = SIGMA_MAGIC, h_version = FORMAT_VERSION, h_total_size = of_nat (lo_total l),
       h_n_fields = of_nat (length (db_fields d)), h_off_fields = of_nat (lo_fields l),
       h_n_values = of_nat (length (db_values d)), h_off_values = of_nat (lo_values l),
       h_n_preds = of_nat (length (db_preds d)), h_off_preds = of_nat (lo_preds l),
       h_n_sels = of_nat (length (db_sels d)), h_off_sels = of_nat (lo_sels l),
       h_n_cond = of_nat (length (db_cond d)), h_off_cond = of_nat (lo_cond l),
       h_n_rules = of_nat (length (db_rules d)), h_off_rules = of_nat (lo_rules l),
       h_strpool_len = of_nat (length (db_strpool d)), h_off_strpool = of_nat (lo_strpool l),
       h_n_cidrs = of_nat (length (db_cidrs d)), h_off_cidrs = of_nat (lo_cidrs l),
       h_flags = 0,
       h_n_buckets = of_nat nb, h_off_bkeys = off_if (nb \<noteq> 0) (lo_bkeys l),
       h_off_buckets = off_if (nb \<noteq> 0) (lo_buckets l),
       h_n_bucket_idx = of_nat (length (db_bucket_idx d)),
       h_off_bucket_idx = off_if (db_bucket_idx d \<noteq> []) (lo_bidx l),
       h_n_litndl = of_nat nl, h_off_litndl = off_if (nl \<noteq> 0) (lo_litndl l),
       h_off_litpost = off_if (nl \<noteq> 0) (lo_litpost l),
       h_n_litpost_ref = of_nat (length (db_litpost_ref d)),
       h_off_litpost_ref = off_if (db_litpost_ref d \<noteq> []) (lo_litpost_ref l),
       h_n_litav = of_nat (length (db_litav d)),
       h_off_litav = off_if (db_litav d \<noteq> []) (lo_litav l),
       h_off_rule_clauses =
         off_if (db_rule_clauses d \<noteq> None \<and> db_rules d \<noteq> []) (lo_rule_clauses l),
       h_n_fwit = of_nat (length (db_fwit d)),
       h_off_fwit = off_if (db_fwit d \<noteq> []) (lo_fwit l)\<rparr>)"

text \<open>
  The copies into the zeroed buffer, in the order of the code. A copy guarded by a non-zero
  count copies nothing when the count is zero.
\<close>

definition enc_array :: "('a \<Rightarrow> bytes) \<Rightarrow> 'a list \<Rightarrow> bytes" where
  "enc_array enc xs = concat (map enc xs)"

definition db_copies :: "sigma_db \<Rightarrow> layout \<Rightarrow> (nat \<times> bytes) list" where
  "db_copies d l =
     [(0, enc_hdr (db_header d l)),
      (lo_fields l, enc_array enc_str (db_fields d)),
      (lo_values l, enc_array enc_str (db_values d)),
      (lo_preds l, enc_array enc_pred (db_preds d)),
      (lo_sels l, enc_array enc_sel (db_sels d)),
      (lo_cond l, enc_array enc_ctok (db_cond d)),
      (lo_rules l, enc_array enc_rule (db_rules d)),
      (lo_cidrs l, enc_array enc_cidr (db_cidrs d)),
      (lo_bkeys l, enc_array enc_str (db_bucket_keys d)),
      (lo_buckets l, enc_array enc_bucket (db_buckets d)),
      (lo_bidx l, enc_array enc_u32 (db_bucket_idx d)),
      (lo_litndl l, enc_array enc_str (db_litndl d)),
      (lo_litpost l, enc_array enc_litpost (db_litpost d)),
      (lo_litpost_ref l, enc_array enc_litref (db_litpost_ref d)),
      (lo_litav l, enc_array enc_u32 (db_litav d)),
      (lo_rule_clauses l,
        (case db_rule_clauses d of None \<Rightarrow> [] | Some rc \<Rightarrow> take (length (db_rules d)) rc)),
      (lo_fwit l, enc_array enc_fwit (db_fwit d)),
      (lo_strpool l, db_strpool d)]"

definition blit :: "bytes \<Rightarrow> nat \<times> bytes \<Rightarrow> bytes" where
  "blit buf c = take (fst c) buf @ snd c @ drop (fst c + length (snd c)) buf"

definition sigma_db_serialize :: "sigma_db \<Rightarrow> bytes" where
  "sigma_db_serialize d =
     (let l = db_layout d;
          buf = foldl blit (replicate (lo_total l) 0) (db_copies d l);
          crc = crc32c_sw 0 (take (lo_total l - 4) buf)
      in blit buf (lo_total l - 4, enc_u32 crc))"

end
