(* ===== verification/Sigma_Loader.thy ===== *)
theory Sigma_Loader
  imports Sigma_Format
begin

text \<open>
  The validating loader \<open>sigma_db_load_buffer\<close> of \<open>src/src/sigma_format.c\<close>: header
  checks, section bounds, checksum, the zero-copy view of the tables, and the validation of
  every internal reference. \<open>sigma_load_tables\<close> is the function up to its call of
  \<open>sigma_db_finalize\<close> (theory Finalize adds that call). The pointer view of a table is the
  list decoded from the section's bytes.
\<close>

section \<open>Bounds\<close>

definition sect_ok :: "u32 \<Rightarrow> u32 \<Rightarrow> nat \<Rightarrow> nat \<Rightarrow> bool" where
  "sect_ok off n esz len \<longleftrightarrow>
     unat off mod 8 = 0 \<and> unat off \<le> len \<and> unat n * esz \<le> len - unat off"

definition hdr_sections_ok :: "sigma_hdr \<Rightarrow> nat \<Rightarrow> bool" where
  "hdr_sections_ok h len \<longleftrightarrow>
     sect_ok (h_off_fields h) (h_n_fields h) 8 len \<and>
     sect_ok (h_off_values h) (h_n_values h) 8 len \<and>
     sect_ok (h_off_preds h) (h_n_preds h) 24 len \<and>
     sect_ok (h_off_sels h) (h_n_sels h) 8 len \<and>
     sect_ok (h_off_cond h) (h_n_cond h) 8 len \<and>
     sect_ok (h_off_rules h) (h_n_rules h) 32 len \<and>
     sect_ok (h_off_cidrs h) (h_n_cidrs h) 20 len \<and>
     sect_ok (h_off_bkeys h) (h_n_buckets h) 8 len \<and>
     sect_ok (h_off_buckets h) (h_n_buckets h) 8 len \<and>
     sect_ok (h_off_bucket_idx h) (h_n_bucket_idx h) 4 len \<and>
     sect_ok (h_off_litndl h) (h_n_litndl h) 8 len \<and>
     sect_ok (h_off_litpost h) (h_n_litndl h) 8 len \<and>
     sect_ok (h_off_litpost_ref h) (h_n_litpost_ref h) 8 len \<and>
     sect_ok (h_off_litav h) (h_n_litav h) 4 len \<and>
     sect_ok (h_off_rule_clauses h) (if h_off_rule_clauses h \<noteq> 0 then h_n_rules h else 0) 1 len \<and>
     sect_ok (h_off_fwit h) (h_n_fwit h) 16 len \<and>
     unat (h_off_strpool h) \<le> len \<and> unat (h_strpool_len h) \<le> len - unat (h_off_strpool h)"

section \<open>The view of the tables\<close>

definition db_view :: "sigma_hdr \<Rightarrow> bytes \<Rightarrow> sigma_db" where
  "db_view h buf =
     \<lparr>db_fields = dec_array dec_str 8 buf (unat (h_off_fields h)) (unat (h_n_fields h)),
      db_values = dec_array dec_str 8 buf (unat (h_off_values h)) (unat (h_n_values h)),
      db_preds = dec_array dec_pred 24 buf (unat (h_off_preds h)) (unat (h_n_preds h)),
      db_sels = dec_array dec_sel 8 buf (unat (h_off_sels h)) (unat (h_n_sels h)),
      db_cond = dec_array dec_ctok 8 buf (unat (h_off_cond h)) (unat (h_n_cond h)),
      db_rules = dec_array dec_rule 32 buf (unat (h_off_rules h)) (unat (h_n_rules h)),
      db_cidrs = dec_array dec_cidr 20 buf (unat (h_off_cidrs h)) (unat (h_n_cidrs h)),
      db_strpool = rd buf (unat (h_off_strpool h)) (unat (h_strpool_len h)),
      db_bucket_keys = dec_array dec_str 8 buf (unat (h_off_bkeys h)) (unat (h_n_buckets h)),
      db_buckets = dec_array dec_bucket 8 buf (unat (h_off_buckets h)) (unat (h_n_buckets h)),
      db_bucket_idx =
        dec_array (\<lambda>b. u32_at b 0) 4 buf (unat (h_off_bucket_idx h)) (unat (h_n_bucket_idx h)),
      db_av_bucket = u32_max,
      db_cat_field_id = u32_max,
      db_litndl = dec_array dec_str 8 buf (unat (h_off_litndl h)) (unat (h_n_litndl h)),
      db_litpost = dec_array dec_litpost 8 buf (unat (h_off_litpost h)) (unat (h_n_litndl h)),
      db_litpost_ref =
        dec_array dec_litref 8 buf (unat (h_off_litpost_ref h)) (unat (h_n_litpost_ref h)),
      db_litav = dec_array (\<lambda>b. u32_at b 0) 4 buf (unat (h_off_litav h)) (unat (h_n_litav h)),
      db_rule_clauses =
        (if h_off_rule_clauses h \<noteq> 0
         then Some (rd buf (unat (h_off_rule_clauses h)) (unat (h_n_rules h))) else None),
      db_fwit = dec_array dec_fwit 16 buf (unat (h_off_fwit h)) (unat (h_n_fwit h))\<rparr>"

section \<open>Reference validation\<close>

text \<open>The checks before the bucket index, in the order of the code.\<close>

definition core_refs_ok :: "sigma_db \<Rightarrow> bool" where
  "core_refs_ok d \<longleftrightarrow>
     list_all (field_ok d) (db_fields d) \<and>
     list_all (str_ok d) (db_values d) \<and>
     list_all (pred_ok d) (db_preds d) \<and>
     list_all (sel_ok d) (db_sels d) \<and>
     list_all (rule_ok d) (db_rules d) \<and>
     list_all ctok_ok (db_cond d)"

text \<open>
  The bucket loop validates each key and slice and remembers the one bucket whose key is
  empty; a second empty key is refused.
\<close>

fun scan_buckets :: "sigma_db \<Rightarrow> nat \<Rightarrow> u32 \<Rightarrow> (sigma_str \<times> sigma_bucket) list \<Rightarrow> u32 option" where
  "scan_buckets d i av [] = Some av"
| "scan_buckets d i av ((k, b) # rest) =
     (if \<not> bucket_ok d k b then None
      else if st_len k = 0 then
        (if av \<noteq> u32_max then None else scan_buckets d (Suc i) (of_nat i) rest)
      else scan_buckets d (Suc i) av rest)"

text \<open>The checks after it: rule-index pool, needles, postings, always-verify list, clause
  counts and field witnesses.\<close>

definition index_refs_ok :: "sigma_db \<Rightarrow> bool" where
  "index_refs_ok d \<longleftrightarrow>
     list_all (rule_idx_ok d) (db_bucket_idx d) \<and>
     list_all (\<lambda>(n, p). needle_ok d n p) (zip (db_litndl d) (db_litpost d)) \<and>
     list_all (litref_ok d) (db_litpost_ref d) \<and>
     list_all (litav_ok d) (db_litav d) \<and>
     (case db_rule_clauses d of None \<Rightarrow> True | Some rc \<Rightarrow> list_all clause_count_ok rc) \<and>
     list_all (fwit_ok d) (db_fwit d)"

text \<open>The field id of \<open>event.category\<close>: the first entry with exactly that name.\<close>

fun find_cat_field :: "bytes \<Rightarrow> nat \<Rightarrow> sigma_str list \<Rightarrow> u32" where
  "find_cat_field pool i [] = u32_max"
| "find_cat_field pool i (f # fs) =
     (if unat (st_len f) = 14 \<and> rd pool (unat (st_off f)) 14 = lit ''event.category''
      then of_nat i else find_cat_field pool (Suc i) fs)"

definition cat_field_of :: "sigma_db \<Rightarrow> u32" where
  "cat_field_of d =
     (if db_bucket_keys d \<noteq> [] then find_cat_field (db_strpool d) 0 (db_fields d) else u32_max)"

definition resolve_refs :: "sigma_db \<Rightarrow> sigma_status + sigma_db" where
  "resolve_refs d =
     (if \<not> core_refs_ok d then Inl ERR_RANGE
      else case scan_buckets d 0 (db_av_bucket d) (zip (db_bucket_keys d) (db_buckets d)) of
        None \<Rightarrow> Inl ERR_RANGE
      | Some av \<Rightarrow>
          if \<not> index_refs_ok d then Inl ERR_RANGE
          else Inr (d\<lparr>db_av_bucket := av, db_cat_field_id := cat_field_of d\<rparr>))"

section \<open>The loader\<close>

definition sigma_load_tables :: "bytes \<Rightarrow> sigma_status + sigma_db" where
  "sigma_load_tables buf =
     (let len = length buf in
      if len < 8 + 4 then Inl ERR_SIZE
      else
        let magic = u32_at buf 0; version = u32_at buf 4 in
        if magic \<noteq> SIGMA_MAGIC then Inl ERR_MAGIC
        else if version < FORMAT_VERSION_MIN \<or> version > FORMAT_VERSION then Inl ERR_VERSION
        else
          let hdr_sz = (if version = 4 then HDR_V4_SIZE else HDR_SIZE) in
          if len < hdr_sz + 4 then Inl ERR_SIZE
          else
            let h = dec_hdr (rd buf 0 hdr_sz @ pad (HDR_SIZE - hdr_sz)) in
            if unat (h_total_size h) \<noteq> len then Inl ERR_SIZE
            else if \<not> hdr_sections_ok h len then Inl ERR_RANGE
            else if crc32c_sw 0 (take (len - 4) buf) \<noteq> u32_at buf (len - 4) then Inl ERR_CRC
            else resolve_refs (db_view h buf))"

section \<open>What an accepted artifact guarantees\<close>

text \<open>
  Every reference the matcher follows stays inside its table, the parallel tables have
  equal length, and the two cached indices name what they stand for.
\<close>

definition db_refs_ok :: "sigma_db \<Rightarrow> bool" where
  "db_refs_ok d \<longleftrightarrow>
     core_refs_ok d \<and>
     list_all2 (bucket_ok d) (db_bucket_keys d) (db_buckets d) \<and>
     index_refs_ok d \<and>
     length (db_litndl d) = length (db_litpost d) \<and>
     (case db_rule_clauses d of None \<Rightarrow> True | Some rc \<Rightarrow> length rc = length (db_rules d)) \<and>
     list_all (\<lambda>c. length (cidr_net c) = 16) (db_cidrs d) \<and>
     list_all (\<lambda>n. n < 2 ^ 32)
       [length (db_fields d), length (db_values d), length (db_preds d), length (db_sels d),
        length (db_cond d), length (db_rules d), length (db_cidrs d), length (db_strpool d),
        length (db_bucket_keys d), length (db_bucket_idx d), length (db_litndl d),
        length (db_litpost_ref d), length (db_litav d), length (db_fwit d)]"

text \<open>The always-verify bucket is the only bucket with an empty key, or there is none.\<close>

definition av_bucket_ok :: "sigma_db \<Rightarrow> bool" where
  "av_bucket_ok d \<longleftrightarrow>
     (if db_av_bucket d = u32_max then \<forall>i < length (db_bucket_keys d). st_len (db_bucket_keys d ! i) \<noteq> 0
      else unat (db_av_bucket d) < length (db_bucket_keys d) \<and>
        (\<forall>i < length (db_bucket_keys d).
           st_len (db_bucket_keys d ! i) = 0 \<longleftrightarrow> i = unat (db_av_bucket d)))"

lemma length_dec_array [simp]: "length (dec_array dec sz buf off n) = n"
  by (simp add: dec_array_def)

lemma u32_bound: "unat (w :: u32) < 4294967296"
  by (rule order.strict_trans2 [OF unsigned_less]) simp

lemma list_all_dec_array:
  "(\<And>i. i < n \<Longrightarrow> P (dec (rd buf (off + i * sz) sz))) \<Longrightarrow> list_all P (dec_array dec sz buf off n)"
  by (auto simp: dec_array_def list_all_iff)

lemma scan_buckets_ok:
  "length ks = length bs \<Longrightarrow> scan_buckets d i av (zip ks bs) = Some av' \<Longrightarrow> list_all2 (bucket_ok d) ks bs"
proof (induction ks bs arbitrary: i av rule: list_induct2)
  case Nil
  then show ?case by simp
next
  case (Cons k ks b bs)
  then show ?case by (auto split: if_splits)
qed

end
