(* ===== verification/Finalize.thy ===== *)
theory Finalize
  imports Sigma_Match Sigma_Loader
begin

text \<open>
  \<open>sigma_db_finalize\<close> of \<open>src/src/sigma_match.c\<close>: the full Teddy matcher, the per-bucket
  field bitmaps, one Teddy matcher per field, and the compiled regex table; and with it the
  whole of \<open>sigma_db_load_buffer\<close>.
\<close>

section \<open>Bucket field bitmaps\<close>

definition set_field_bit :: "nat \<Rightarrow> nat \<Rightarrow> bytes \<Rightarrow> bytes option" where
  "set_field_bit row f bm =
     do { b \<leftarrow> idx bm (row + f div 8); upd bm (row + f div 8) (b OR push_bit (f mod 8) 1) }"

definition mark_sel_fields :: "sigma_db \<Rightarrow> nat \<Rightarrow> sigma_sel \<Rightarrow> bytes \<Rightarrow> bytes option" where
  "mark_sel_fields d row s =
     mfold (\<lambda>pi bm. do { p \<leftarrow> idx (db_preds d) pi;
                         let f = unat (p_field p);
                         if f < length (db_fields d) then set_field_bit row f bm else Some bm })
       [unat (s_start s)..<unat (s_start s) + unat (s_count s)]"

definition mark_rule_fields :: "sigma_db \<Rightarrow> nat \<Rightarrow> sigma_rule \<Rightarrow> bytes \<Rightarrow> bytes option" where
  "mark_rule_fields d row r =
     mfold (\<lambda>si bm. do { s \<leftarrow> idx (db_sels d) si; mark_sel_fields d row s bm })
       [unat (r_sel_start r)..<unat (r_sel_start r) + unat (r_sel_count r)]"

definition mark_bucket_fields :: "sigma_db \<Rightarrow> nat \<Rightarrow> sigma_bucket \<Rightarrow> bytes \<Rightarrow> bytes option" where
  "mark_bucket_fields d row b =
     mfold (\<lambda>i bm. do { ri \<leftarrow> idx (db_bucket_idx d) i;
                        if unat ri \<ge> length (db_rules d) then Some bm
                        else do { r \<leftarrow> idx (db_rules d) (unat ri); mark_rule_fields d row r bm } })
       [unat (b_start b)..<unat (b_start b) + unat (b_count b)]"

text \<open>\<open>(n_fields + 7u) / 8u\<close> in 32-bit arithmetic.\<close>

definition fields_stride :: "sigma_db \<Rightarrow> nat" where
  "fields_stride d = (length (db_fields d) + 7) mod 2 ^ 32 div 8"

definition build_bucket_fields :: "sigma_db \<Rightarrow> 're sigma_derived \<Rightarrow> 're sigma_derived option" where
  "build_bucket_fields d dv =
     (if db_bucket_keys d = [] \<or> db_fields d = [] then Some dv
      else if list_ex (\<lambda>r. l_field r = ANY_FIELD) (db_litpost_ref d)
        then Some (dv\<lparr>v_lit_any_field := True\<rparr>)
      else
        (let stride = fields_stride d in
         do { bm \<leftarrow> mfold (\<lambda>b bm. do { bk \<leftarrow> idx (db_buckets d) b; mark_bucket_fields d (b * stride) bk bm })
                [0..<length (db_bucket_keys d)] (replicate (length (db_bucket_keys d) * stride) 0);
              Some (dv\<lparr>v_bucket_fields := Some bm, v_bucket_fields_stride := stride\<rparr>) }))"

section \<open>Per-field matchers\<close>

text \<open>The postings of one needle, for one field: the needle is listed at the first match.\<close>

fun posted_to :: "sigma_db \<Rightarrow> nat \<Rightarrow> nat list \<Rightarrow> bool option" where
  "posted_to d f [] = Some False"
| "posted_to d f (k # ks) =
     do { r \<leftarrow> idx (db_litpost_ref d) k;
          if unat (l_field r) \<noteq> f then posted_to d f ks else Some True }"

definition field_needles :: "sigma_db \<Rightarrow> nat \<Rightarrow> nat list option" where
  "field_needles d f =
     mfold (\<lambda>i ids. do { p \<leftarrow> idx (db_litpost d) i;
                         hit \<leftarrow> posted_to d f [unat (lp_start p)..<unat (lp_start p) + unat (lp_count p)];
                         Some (if hit then ids @ [i] else ids) })
       [0..<length (db_litndl d)] []"

definition build_field_teddy :: "sigma_db \<Rightarrow> 're sigma_derived \<Rightarrow> 're sigma_derived option" where
  "build_field_teddy d dv =
     (if db_fields d = [] \<or> db_litndl d = [] \<or> db_litpost_ref d = [] then Some dv
      else if v_lit_any_field dv then Some dv
      else
        do { arr \<leftarrow> mfold (\<lambda>f arr. do {
                ids \<leftarrow> field_needles d f;
                if ids = [] then Some arr
                else do { t \<leftarrow> sigma_teddy_build_subset (db_litndl d) (db_strpool d) ids;
                          upd arr f t } })
               [0..<length (db_fields d)] (replicate (length (db_fields d)) None);
             Some (dv\<lparr>v_field_teddy := Some arr\<rparr>) })"

section \<open>Regex table\<close>

text \<open>
  The compile loop: the table with one entry per predicate and the number of patterns that
  do not compile, or \<open>Inl\<close> of the count where the code jumps to \<open>fail\<close>.
\<close>

fun compile_re ::
  "'re sigma_lib \<Rightarrow> sigma_db \<Rightarrow> sigma_pred list \<Rightarrow> u32 \<Rightarrow> (u32 + 're option list \<times> u32) option" where
  "compile_re x d [] skipped = Some (Inr ([], skipped))"
| "compile_re x d (p # ps) skipped =
     (if p_op p \<noteq> OP_RE then
        map_option (map_sum id (\<lambda>(arr, n). (None # arr, n))) (compile_re x d ps skipped)
      else if unat (p_value p) \<ge> length (db_values d) then Some (Inl skipped)
      else do {
        s \<leftarrow> idx (db_values d) (unat (p_value p));
        pat \<leftarrow> pool_ref d s;
        let code = x_re_compile x (\<not> has_flag (p_flags p) PF_CASE) pat;
        map_option (map_sum id (\<lambda>(arr, n). (code # arr, n)))
          (compile_re x d ps (if code = None then skipped + 1 else skipped)) })"

section \<open>Finalize\<close>

text \<open>
  The return code and the derived members: \<open>0\<close>, or \<open>-1\<close> when a regex predicate has no
  pattern; then the matchers built in this call are freed.
\<close>

definition sigma_db_finalize ::
  "'re sigma_lib \<Rightarrow> sigma_db \<Rightarrow> 're sigma_derived \<Rightarrow> (int \<times> 're sigma_derived) option" where
  "sigma_db_finalize x d dv =
     (let built = v_teddy dv = None \<and> db_litndl d \<noteq> [] in
      do { dv1 \<leftarrow>
             (if built then
                do { t \<leftarrow> sigma_teddy_build (db_litndl d) (db_strpool d);
                     dv' \<leftarrow> build_bucket_fields d (dv\<lparr>v_teddy := t\<rparr>);
                     build_field_teddy d dv' }
              else Some dv);
           if v_re dv1 \<noteq> None then Some (0, dv1)
           else if \<not> list_ex (\<lambda>p. p_op p = OP_RE) (db_preds d) then Some (0, dv1)
           else do {
             res \<leftarrow> compile_re x d (db_preds d) (v_n_re_skipped dv1);
             case res of
               Inr (arr, n) \<Rightarrow> Some (0, dv1\<lparr>v_re := Some arr, v_n_re_skipped := n\<rparr>)
             | Inl n \<Rightarrow>
                 (let dv2 = dv1\<lparr>v_n_re_skipped := n\<rparr> in
                  Some (-1, if built then dv2\<lparr>v_teddy := None, v_field_teddy := None\<rparr> else dv2)) } })"

definition no_derived :: "'re sigma_derived" where
  "no_derived =
     \<lparr>v_teddy = None, v_field_teddy = None, v_bucket_fields = None, v_bucket_fields_stride = 0,
      v_lit_any_field = False, v_re = None, v_n_re_skipped = 0\<rparr>"

text \<open>The whole loader: tables, then finalize.\<close>

definition sigma_db_load_buffer ::
  "'re sigma_lib \<Rightarrow> bytes \<Rightarrow> (sigma_status + sigma_db \<times> 're sigma_derived) option" where
  "sigma_db_load_buffer x buf =
     (case sigma_load_tables buf of
        Inl err \<Rightarrow> Some (Inl err)
      | Inr d \<Rightarrow>
          do { (rc, dv) \<leftarrow> sigma_db_finalize x d no_derived;
               if rc \<noteq> 0 then Some (Inl ERR_REGEX) else Some (Inr (d, dv)) })"

end
