(* ===== verification/Sigma_Eval.thy ===== *)
theory Sigma_Eval
  imports Finalize
begin

text \<open>
  The per-event driver of \<open>src/src/sigma_match.c\<close>: the evaluation scratch, the emission of
  hits, the literal prefilter, and the two entry points \<open>sigma_eval_run\<close> (buckets and
  prefilter) and \<open>sigma_eval_run_linear\<close>.

  The output buffer is the list of hits written so far together with the running count;
  \<open>cap\<close> is \<open>max_hits\<close>, or \<open>None\<close> when the caller passes no buffer. Counters are 64-bit
  words as in the code.
\<close>

section \<open>Scratch\<close>

definition zero_stats :: sigma_eval_stats where
  "zero_stats = \<lparr>q_events = 0, q_rules_in_scope = 0, q_rules_verified = 0, q_prefilter_runs = 0,
     q_needles_confirmed = 0, q_chain_steps = 0, q_haystack_bytes = 0\<rparr>"

definition sigma_eval_create :: "sigma_db \<Rightarrow> 're sigma_derived \<Rightarrow> sigma_eval" where
  "sigma_eval_create d dv =
     (let nr = length (db_rules d);
          pf = nr \<noteq> 0 \<and> (v_teddy dv \<noteq> None \<or> db_fwit d \<noteq> []) in
      \<lparr>e_memo = replicate (length (db_fields d)) None,
       e_rule_mask = (if pf then Some (replicate nr 0) else None),
       e_rule_gen = (if pf then Some (replicate nr 0) else None),
       e_eval_done = (if nr \<noteq> 0 then Some (replicate nr 0) else None),
       e_gen = 0, e_cur_field = 0,
       e_tscr = sigma_teddy_scratch_init (if pf \<and> v_teddy dv \<noteq> None then length (db_litndl d) else 0),
       e_st = zero_stats, e_prefilter_on = 1, e_calls = []\<rparr>)"

definition sigma_eval_get_stats :: "sigma_eval \<Rightarrow> sigma_eval_stats" where
  "sigma_eval_get_stats e = e_st e"

definition sigma_eval_reset_stats :: "sigma_eval \<Rightarrow> sigma_eval" where
  "sigma_eval_reset_stats e = e\<lparr>e_st := zero_stats\<rparr>"

definition sigma_eval_set_prefilter :: "int \<Rightarrow> sigma_eval \<Rightarrow> sigma_eval" where
  "sigma_eval_set_prefilter enabled e =
     e\<lparr>e_prefilter_on := (if enabled < 0 then 0 else if enabled > 2 then 2 else nat enabled)\<rparr>"

text \<open>Generation 0 is never current: at the wrap both stamp arrays are cleared.\<close>

definition bump_eval_gen :: "sigma_eval \<Rightarrow> sigma_eval" where
  "bump_eval_gen e =
     (let g = e_gen e + 1 in
      if g = 0 then
        e\<lparr>e_rule_gen := map_option (map (\<lambda>_. 0)) (e_rule_gen e),
          e_eval_done := map_option (map (\<lambda>_. 0)) (e_eval_done e), e_gen := 1\<rparr>
      else e\<lparr>e_gen := g\<rparr>)"

text \<open>\<open>memset (e->vstate, 0, n_fields)\<close>\<close>

definition reset_memo :: "sigma_eval \<Rightarrow> sigma_eval" where
  "reset_memo e = e\<lparr>e_memo := map (\<lambda>_. None) (e_memo e)\<rparr>"

section \<open>One rule\<close>

record sigma_hit =
  hit_rule_id :: u32
  hit_verdict :: u8
  hit_severity :: u8
  hit_score :: u16
  hit_mitre :: "bytes option"

type_synonym run_state = "sigma_eval \<times> sigma_hit list \<times> nat"

definition make_hit :: "sigma_db \<Rightarrow> sigma_rule \<Rightarrow> sigma_hit option" where
  "make_hit d r =
     do { mitre \<leftarrow>
            (if r_mitre r \<noteq> NO_VALUE \<and> unat (r_mitre r) < length (db_values d) then
               do { s \<leftarrow> idx (db_values d) (unat (r_mitre r)); b \<leftarrow> pool_ref d s; Some (Some b) }
             else Some None);
          Some \<lparr>hit_rule_id = r_id r, hit_verdict = r_verdict r, hit_severity = r_severity r,
                hit_score = r_score r, hit_mitre = mitre\<rparr> }"

definition eval_one_rule ::
  "'re sigma_lib \<Rightarrow> sigma_db \<Rightarrow> 're sigma_derived \<Rightarrow> (bytes \<Rightarrow> bytes option) \<Rightarrow> int option \<Rightarrow> nat
     \<Rightarrow> run_state \<Rightarrow> run_state option" where
  "eval_one_rule x d dv ev cap ri st =
     (case st of (e, hits, fired) \<Rightarrow>
       do { (seen, e1) \<leftarrow>
              (case e_eval_done e of
                 None \<Rightarrow> Some (False, e)
               | Some done_ \<Rightarrow>
                   do { g \<leftarrow> idx done_ ri;
                        if g = e_gen e then Some (True, e)
                        else do { done' \<leftarrow> upd done_ ri (e_gen e); Some (False, e\<lparr>e_eval_done := Some done'\<rparr>) } });
            if seen then Some (e1, hits, fired)
            else do {
              r \<leftarrow> idx (db_rules d) ri;
              (m, e2) \<leftarrow> rule_match x d dv ev r e1;
              if \<not> m then Some (e2, hits, fired)
              else do {
                hits' \<leftarrow>
                  (case cap of
                     None \<Rightarrow> Some hits
                   | Some max_hits \<Rightarrow>
                       if int fired < max_hits then do { h \<leftarrow> make_hit d r; Some (hits @ [h]) } else Some hits);
                Some (e2, hits', fired + 1) } } })"

section \<open>Prefilter\<close>

definition rule_full_mask :: "sigma_db \<Rightarrow> nat \<Rightarrow> u32 option" where
  "rule_full_mask d ri =
     do { n \<leftarrow> (case db_rule_clauses d of None \<Rightarrow> Some 0 | Some rc \<Rightarrow> idx rc ri);
          Some (if n = 0 then 0 else if unat n \<ge> 32 then 0xFFFFFFFF else push_bit (unat n) 1 - 1) }"

definition pf_is_candidate :: "sigma_db \<Rightarrow> sigma_eval \<Rightarrow> nat \<Rightarrow> bool option" where
  "pf_is_candidate d e ri =
     do { gens \<leftarrow> e_rule_gen e;
          g \<leftarrow> idx gens ri;
          if g \<noteq> e_gen e then Some False
          else do { masks \<leftarrow> e_rule_mask e; m \<leftarrow> idx masks ri; full \<leftarrow> rule_full_mask d ri; Some (m = full) } }"

text \<open>Stamp a rule and set its clause mask (the always-verify rules).\<close>

definition pf_set :: "nat \<Rightarrow> u32 \<Rightarrow> sigma_eval \<Rightarrow> sigma_eval option" where
  "pf_set ri m e =
     do { gens \<leftarrow> e_rule_gen e; gens' \<leftarrow> upd gens ri (e_gen e);
          masks \<leftarrow> e_rule_mask e; masks' \<leftarrow> upd masks ri m;
          Some (e\<lparr>e_rule_gen := Some gens', e_rule_mask := Some masks'\<rparr>) }"

definition pf_touch :: "nat \<Rightarrow> sigma_eval \<Rightarrow> sigma_eval option" where
  "pf_touch ri e =
     do { gens \<leftarrow> e_rule_gen e; g \<leftarrow> idx gens ri;
          if g \<noteq> e_gen e then pf_set ri 0 e else Some e }"

text \<open>\<open>pf_touch\<close> followed by \<open>rule_mask[ri] |= 1u << clause\<close>; a shift by 32 or more is undefined.\<close>

definition pf_credit :: "nat \<Rightarrow> u8 \<Rightarrow> sigma_eval \<Rightarrow> sigma_eval option" where
  "pf_credit ri c e =
     do { e' \<leftarrow> pf_touch ri e;
          masks \<leftarrow> e_rule_mask e'; m \<leftarrow> idx masks ri;
          if unat c \<ge> 32 then None
          else Some (e'\<lparr>e_rule_mask := Some (masks[ri := m OR push_bit (unat c) 1])\<rparr>) }"

definition mark_postings :: "sigma_db \<Rightarrow> nat \<Rightarrow> sigma_eval \<Rightarrow> sigma_eval option" where
  "mark_postings d needle e =
     (let e1 = e\<lparr>e_st := (e_st e)\<lparr>q_needles_confirmed := q_needles_confirmed (e_st e) + 1\<rparr>\<rparr> in
      do { post \<leftarrow> idx (db_litpost d) needle;
           mfold (\<lambda>k e. do { r \<leftarrow> idx (db_litpost_ref d) k;
                             if l_field r \<noteq> ANY_FIELD \<and> l_field r \<noteq> e_cur_field e then Some e
                             else pf_credit (unat (l_rule r)) (l_clause r) e })
             [unat (lp_start post)..<unat (lp_start post) + unat (lp_count post)] e1 })"

definition bucket_uses_field :: "sigma_db \<Rightarrow> 're sigma_derived \<Rightarrow> nat \<Rightarrow> nat \<Rightarrow> bool option" where
  "bucket_uses_field d dv b f =
     (case v_bucket_fields dv of
        None \<Rightarrow> Some True
      | Some bm \<Rightarrow>
          if b \<ge> length (db_bucket_keys d) then Some True
          else do { c \<leftarrow> idx bm (b * v_bucket_fields_stride dv + f div 8); Some (bit c (f mod 8)) })"

fun any_uses_field :: "sigma_db \<Rightarrow> 're sigma_derived \<Rightarrow> nat list \<Rightarrow> nat \<Rightarrow> bool option" where
  "any_uses_field d dv [] f = Some False"
| "any_uses_field d dv (b # bs) f =
     do { u \<leftarrow> bucket_uses_field d dv b f; if u then Some True else any_uses_field d dv bs f }"

definition scan_field :: "sigma_db \<Rightarrow> 're sigma_derived \<Rightarrow> nat list \<Rightarrow> nat \<Rightarrow> bool option" where
  "scan_field d dv bs f =
     (if v_lit_any_field dv \<or> v_bucket_fields dv = None then Some True
      else if bs = [] then Some True
      else any_uses_field d dv bs f)"

definition fwit_holds ::
  "'re sigma_lib \<Rightarrow> sigma_db \<Rightarrow> (bytes \<Rightarrow> bytes option) \<Rightarrow> sigma_fwit \<Rightarrow> sigma_eval \<Rightarrow> (bool \<times> sigma_eval) option" where
  "fwit_holds x d ev w e =
     do { (val, e') \<leftarrow> resolve_field d ev (w_field w) e;
          case val of
            None \<Rightarrow> Some (False, e')
          | Some v \<Rightarrow>
              if v = [] then Some (False, e')
              else if w_op w = OP_CIDR then
                (let cid = ucast (w_ival w) :: u32 in
                 if unat cid \<ge> length (db_cidrs d) then Some (False, e')
                 else do { c \<leftarrow> idx (db_cidrs d) (unat cid);
                           r \<leftarrow> ip_in_cidr (x_pton4 x) (x_pton6 x) v c; Some (r, e') })
              else Some ((case sg_to_i64 v of None \<Rightarrow> False | Some iv \<Rightarrow> num_cmp (w_op w) iv (w_ival w)), e') }"

text \<open>One field of the scan: skipped when no bucket needs it or no needle is posted to it.\<close>

definition scan_one_field ::
  "'re sigma_lib \<Rightarrow> sigma_db \<Rightarrow> 're sigma_derived \<Rightarrow> (bytes \<Rightarrow> bytes option) \<Rightarrow> sigma_teddy \<Rightarrow> nat list \<Rightarrow> nat
     \<Rightarrow> sigma_eval \<times> u64 \<Rightarrow> (sigma_eval \<times> u64) option" where
  "scan_one_field x d dv ev t bs f st =
     (case st of (e, scanned) \<Rightarrow>
       do { go \<leftarrow> scan_field d dv bs f;
            if \<not> go then Some (e, scanned)
            else do {
              tf \<leftarrow> (case v_field_teddy dv of
                       Some arr \<Rightarrow> if \<not> v_lit_any_field dv then idx arr f else Some (Some t)
                     | None \<Rightarrow> Some (Some t));
              case tf of
                None \<Rightarrow> Some (e, scanned)
              | Some tf \<Rightarrow>
                  do { (val, e1) \<leftarrow> resolve_field d ev (of_nat f) e;
                       case val of
                         None \<Rightarrow> Some (e1, scanned)
                       | Some v \<Rightarrow>
                           if length v < 2 then Some (e1, scanned)
                           else
                             (let e2 = e1\<lparr>e_cur_field := of_nat f\<rparr> in
                              do { (scr, e3) \<leftarrow> teddy_confirm (x_arch x) tf v (mark_postings d) (e_tscr e2, e2);
                                   Some (e3\<lparr>e_tscr := scr\<rparr>, scanned + of_nat (length v)) }) } } })"

definition prefilter_candidates ::
  "'re sigma_lib \<Rightarrow> sigma_db \<Rightarrow> 're sigma_derived \<Rightarrow> (bytes \<Rightarrow> bytes option) \<Rightarrow> nat list
     \<Rightarrow> sigma_eval \<Rightarrow> (bool \<times> sigma_eval) option" where
  "prefilter_candidates x d dv ev bs e =
     (if e_rule_mask e = None \<or> e_prefilter_on e = 0 then Some (False, e)
      else if v_teddy dv = None \<and> db_fwit d = [] then Some (False, e)
      else do {
        e1 \<leftarrow> mfold (\<lambda>ri e. do { m \<leftarrow> rule_full_mask d (unat ri); pf_set (unat ri) m e }) (db_litav d) e;
        e2 \<leftarrow> mfold (\<lambda>w e. do { (h, e') \<leftarrow> fwit_holds x d ev w e;
                                if h then pf_credit (unat (w_rule w)) (w_clause w) e' else Some e' })
                (db_fwit d) e1;
        (e3, scanned) \<leftarrow>
          (case v_teddy dv of
             None \<Rightarrow> Some (e2, 0)
           | Some t \<Rightarrow> mfold (scan_one_field x d dv ev t bs) [0..<length (db_fields d)] (e2, 0));
        let st = e_st e3;
        Some (True, e3\<lparr>e_st := st\<lparr>q_chain_steps := ts_chain_steps (e_tscr e3),
          q_haystack_bytes := q_haystack_bytes st + scanned,
          q_prefilter_runs := q_prefilter_runs st + 1\<rparr>\<rparr>) })"

section \<open>Buckets\<close>

abbreviation PREFILTER_MIN_BUCKET :: nat where "PREFILTER_MIN_BUCKET \<equiv> 256"
abbreviation MAX_ROUTE_BUCKETS :: nat where "MAX_ROUTE_BUCKETS \<equiv> 16"

definition add_scope :: "u64 \<Rightarrow> sigma_eval \<Rightarrow> sigma_eval" where
  "add_scope n e = e\<lparr>e_st := (e_st e)\<lparr>q_rules_in_scope := q_rules_in_scope (e_st e) + n\<rparr>\<rparr>"

definition add_verified :: "u64 \<Rightarrow> sigma_eval \<Rightarrow> sigma_eval" where
  "add_verified n e = e\<lparr>e_st := (e_st e)\<lparr>q_rules_verified := q_rules_verified (e_st e) + n\<rparr>\<rparr>"

definition eval_bucket_prefiltered ::
  "'re sigma_lib \<Rightarrow> sigma_db \<Rightarrow> 're sigma_derived \<Rightarrow> (bytes \<Rightarrow> bytes option) \<Rightarrow> int option \<Rightarrow> bool \<Rightarrow> nat
     \<Rightarrow> run_state \<Rightarrow> run_state option" where
  "eval_bucket_prefiltered x d dv ev cap pf b st =
     do { bk \<leftarrow> idx (db_buckets d) b;
          mfold (\<lambda>i (e, hits, fired).
              do { ri \<leftarrow> idx (db_bucket_idx d) i;
                   cand \<leftarrow> (if pf then pf_is_candidate d e (unat ri) else Some True);
                   if \<not> cand then Some (e, hits, fired)
                   else eval_one_rule x d dv ev cap (unat ri) (add_verified 1 e, hits, fired) })
            [unat (b_start bk)..<unat (b_start bk) + unat (b_count bk)]
            (add_scope (ucast (b_count bk)) (fst st), snd st) }"

fun find_bucket_from :: "sigma_db \<Rightarrow> bytes \<Rightarrow> nat \<Rightarrow> sigma_str list \<Rightarrow> u32 option" where
  "find_bucket_from d cat i [] = Some u32_max"
| "find_bucket_from d cat i (k # ks) =
     (if unat (st_len k) = length cat \<and> length cat > 0 then
        do { key \<leftarrow> pool_ref d k; if key = cat then Some (of_nat i) else find_bucket_from d cat (Suc i) ks }
      else find_bucket_from d cat (Suc i) ks)"

definition find_category_bucket :: "sigma_db \<Rightarrow> bytes \<Rightarrow> u32 option" where
  "find_category_bucket d cat = find_bucket_from d cat 0 (db_bucket_keys d)"

section \<open>Entry points\<close>

definition eval_all ::
  "'re sigma_lib \<Rightarrow> sigma_db \<Rightarrow> 're sigma_derived \<Rightarrow> (bytes \<Rightarrow> bytes option) \<Rightarrow> int option
     \<Rightarrow> sigma_eval \<Rightarrow> run_state option" where
  "eval_all x d dv ev cap e = mfold (eval_one_rule x d dv ev cap) [0..<length (db_rules d)] (e, [], 0)"

definition sigma_eval_run_linear ::
  "'re sigma_lib \<Rightarrow> sigma_db \<Rightarrow> 're sigma_derived \<Rightarrow> (bytes \<Rightarrow> bytes option) \<Rightarrow> int option
     \<Rightarrow> sigma_eval \<Rightarrow> run_state option" where
  "sigma_eval_run_linear x d dv ev cap e = eval_all x d dv ev cap (bump_eval_gen (reset_memo e))"

definition routes :: "bytes list" where
  "routes = map lit [''event.category'', ''techno'', ''product'', ''technology'', ''observer.product'',
     ''event.provider'', ''event.module'', ''event.dataset'', ''log.syslog.appname'']"

definition add_bucket :: "u32 \<Rightarrow> u32 list \<Rightarrow> u32 list" where
  "add_bucket b sel = (if b \<notin> set sel \<and> length sel < MAX_ROUTE_BUCKETS then sel @ [b] else sel)"

text \<open>One route token: the value, whether there was one, and the buckets chosen so far.\<close>

definition route_step ::
  "sigma_db \<Rightarrow> (bytes \<Rightarrow> bytes option) \<Rightarrow> nat \<Rightarrow> u32 list \<times> bool \<times> sigma_eval
     \<Rightarrow> (u32 list \<times> bool \<times> sigma_eval) option" where
  "route_step d ev i st =
     (case st of (sel, had, e) \<Rightarrow>
       do { (v, e1) \<leftarrow>
              (if i = 0 \<and> db_cat_field_id d \<noteq> u32_max then resolve_field d ev (ucast (db_cat_field_id d)) e
               else Some (ev (routes ! i), e\<lparr>e_calls := e_calls e @ [routes ! i]\<rparr>));
            case v of
              None \<Rightarrow> Some (sel, had, e1)
            | Some v \<Rightarrow>
                if v = [] then Some (sel, had, e1)
                else do { b \<leftarrow> find_category_bucket d v;
                          if b = u32_max then Some (sel, True, e1) else Some (add_bucket b sel, True, e1) } })"

text \<open>Some selected bucket other than the always-verify one is worth the prefilter.\<close>

fun any_big :: "sigma_db \<Rightarrow> sigma_eval \<Rightarrow> u32 list \<Rightarrow> bool option" where
  "any_big d e [] = Some False"
| "any_big d e (b # bs) =
     (if b = db_av_bucket d then any_big d e bs
      else if e_prefilter_on e = 2 then Some True
      else do { bk \<leftarrow> idx (db_buckets d) (unat b);
                if unat (b_count bk) \<ge> PREFILTER_MIN_BUCKET then Some True else any_big d e bs })"

definition sigma_eval_run ::
  "'re sigma_lib \<Rightarrow> sigma_db \<Rightarrow> 're sigma_derived \<Rightarrow> (bytes \<Rightarrow> bytes option) \<Rightarrow> int option
     \<Rightarrow> sigma_eval \<Rightarrow> run_state option" where
  "sigma_eval_run x d dv ev cap e0 =
     (let e1 = reset_memo e0;
          e2 = bump_eval_gen (e1\<lparr>e_st := (e_st e1)\<lparr>q_events := q_events (e_st e1) + 1\<rparr>\<rparr>);
          full = (\<lambda>e. let n = of_nat (length (db_rules d)) in
                      eval_all x d dv ev cap (add_verified n (add_scope n e))) in
      if db_bucket_keys d = [] then full e2
      else do {
        (sel, had, e3) \<leftarrow> mfold (route_step d ev) [0..<length routes] ([], False, e2);
        let sel' = (if db_av_bucket d \<noteq> u32_max then add_bucket (db_av_bucket d) sel else sel);
        if \<not> had then full e3
        else do {
          big \<leftarrow> any_big d e3 sel';
          (pf, e4) \<leftarrow> (if big then prefilter_candidates x d dv ev (map unat sel') e3 else Some (False, e3));
          mfold (eval_bucket_prefiltered x d dv ev cap pf) (map unat sel') (e4, [], 0) } })"

end
