(* ===== verification/Loader_Safety.thy ===== *)
theory Loader_Safety
  imports Sigma_Loader
begin

text \<open>
  What acceptance by \<open>sigma_db_load_buffer\<close> guarantees: every internal reference of the
  loaded tables is in range, the always-verify bucket is unique, and no altered or
  truncated copy of an accepted artifact is accepted.
\<close>

section \<open>Accepted tables are well formed\<close>

lemma scan_buckets_av:
  "length ks = length bs \<Longrightarrow> scan_buckets d i av (zip ks bs) = Some av' \<Longrightarrow>
   i + length ks < 2 ^ 32 \<Longrightarrow>
   (av \<noteq> u32_max \<longrightarrow> av' = av \<and> (\<forall>k < length ks. st_len (ks ! k) \<noteq> 0)) \<and>
   (av = u32_max \<longrightarrow>
      (av' = u32_max \<and> (\<forall>k < length ks. st_len (ks ! k) \<noteq> 0)) \<or>
      (\<exists>j < length ks. av' = of_nat (i + j) \<and> (\<forall>k < length ks. st_len (ks ! k) = 0 \<longleftrightarrow> k = j)))"
proof (induction ks bs arbitrary: i av rule: list_induct2)
  case Nil
  then show ?case by auto
next
  case (Cons k ks b bs)
  have nz: "of_nat i \<noteq> (u32_max :: u32)"
  proof
    assume "of_nat i = (u32_max :: u32)"
    then have "unat (of_nat i :: u32) = unat (u32_max :: u32)" by simp
    with Cons.prems(2) show False by (simp add: unat_of_nat)
  qed
  show ?case
  proof (cases "st_len k = 0")
    case True
    with Cons.prems(1) have av: "av = u32_max"
      and s: "scan_buckets d (Suc i) (of_nat i) (zip ks bs) = Some av'"
      by (auto split: if_splits)
    from Cons.IH [OF s] Cons.prems(2) nz
    have "av' = of_nat i" "\<forall>k < length ks. st_len (ks ! k) \<noteq> 0" by auto
    then have "\<forall>m < length (k # ks). st_len ((k # ks) ! m) = 0 \<longleftrightarrow> m = 0"
      using True by (auto simp: nth_Cons split: nat.split)
    with av \<open>av' = of_nat i\<close> show ?thesis by (metis add.right_neutral length_Cons zero_less_Suc)
  next
    case False
    with Cons.prems(1) have s: "scan_buckets d (Suc i) av (zip ks bs) = Some av'"
      by (auto split: if_splits)
    note h = Cons.IH [OF s]
    have h2: "\<forall>m < length (k # ks). st_len ((k # ks) ! m) \<noteq> 0"
      if "\<forall>k < length ks. st_len (ks ! k) \<noteq> 0"
      using that False by (auto simp: nth_Cons split: nat.split)
    have h3: "\<exists>j < length (k # ks). av' = of_nat (i + j) \<and>
        (\<forall>m < length (k # ks). st_len ((k # ks) ! m) = 0 \<longleftrightarrow> m = j)"
      if "j < length ks" "av' = of_nat (Suc i + j)" "\<forall>k < length ks. st_len (ks ! k) = 0 \<longleftrightarrow> k = j" for j
      using that False by (intro exI [of _ "Suc j"]) (auto simp: nth_Cons split: nat.split)
    show ?thesis using h h2 h3 Cons.prems(2) by (metis add_Suc add_Suc_right length_Cons)
  qed
qed

lemma refs_ok_update [simp]:
  "core_refs_ok (d\<lparr>db_av_bucket := a, db_cat_field_id := c\<rparr>) = core_refs_ok d"
  "index_refs_ok (d\<lparr>db_av_bucket := a, db_cat_field_id := c\<rparr>) = index_refs_ok d"
  "bucket_ok (d\<lparr>db_av_bucket := a, db_cat_field_id := c\<rparr>) = bucket_ok d"
  by (simp_all add: core_refs_ok_def index_refs_ok_def fun_eq_iff field_ok_def str_ok_def pred_ok_def
      sel_ok_def rule_ok_def bucket_ok_def rule_idx_ok_def needle_ok_def litref_ok_def clause_ok_def
      litav_ok_def fwit_ok_def cong: list.pred_cong option.case_cong)

lemma resolve_refs_Inr:
  assumes "resolve_refs d = Inr d'"
  obtains av where "core_refs_ok d" "index_refs_ok d"
    "scan_buckets d 0 (db_av_bucket d) (zip (db_bucket_keys d) (db_buckets d)) = Some av"
    "d' = d\<lparr>db_av_bucket := av, db_cat_field_id := cat_field_of d\<rparr>"
  using assms by (auto simp: resolve_refs_def split: if_splits option.splits)

lemma sect_ok_end: "sect_ok off n esz len \<Longrightarrow> unat off + unat n * esz \<le> len"
  unfolding sect_ok_def by linarith

text \<open>The decoded tables of a header whose sections are in range.\<close>

lemma db_view_shape:
  assumes "hdr_sections_ok h (length buf)"
  shows "length (db_litndl (db_view h buf)) = length (db_litpost (db_view h buf))"
    and "length (db_bucket_keys (db_view h buf)) = length (db_buckets (db_view h buf))"
    and "case db_rule_clauses (db_view h buf) of None \<Rightarrow> True
         | Some rc \<Rightarrow> length rc = length (db_rules (db_view h buf))"
    and "list_all (\<lambda>c. length (cidr_net c) = 16) (db_cidrs (db_view h buf))"
    and "list_all (\<lambda>n. n < 2 ^ 32)
       [length (db_fields (db_view h buf)), length (db_values (db_view h buf)),
        length (db_preds (db_view h buf)), length (db_sels (db_view h buf)),
        length (db_cond (db_view h buf)), length (db_rules (db_view h buf)),
        length (db_cidrs (db_view h buf)), length (db_strpool (db_view h buf)),
        length (db_bucket_keys (db_view h buf)), length (db_bucket_idx (db_view h buf)),
        length (db_litndl (db_view h buf)), length (db_litpost_ref (db_view h buf)),
        length (db_litav (db_view h buf)), length (db_fwit (db_view h buf))]"
proof -
  have rc: "unat (h_off_rule_clauses h) + unat (h_n_rules h) \<le> length buf" if "h_off_rule_clauses h \<noteq> 0"
    using assms that sect_ok_end [of "h_off_rule_clauses h" "h_n_rules h" 1]
    by (simp add: hdr_sections_ok_def)
  have ci: "unat (h_off_cidrs h) + unat (h_n_cidrs h) * 20 \<le> length buf"
    using assms by (intro sect_ok_end) (simp add: hdr_sections_ok_def)
  have sp: "unat (h_off_strpool h) + unat (h_strpool_len h) \<le> length buf"
  proof -
    have "unat (h_off_strpool h) \<le> length buf \<and> unat (h_strpool_len h) \<le> length buf - unat (h_off_strpool h)"
      using assms by (simp add: hdr_sections_ok_def)
    then show ?thesis by linarith
  qed
  show "length (db_litndl (db_view h buf)) = length (db_litpost (db_view h buf))"
    "length (db_bucket_keys (db_view h buf)) = length (db_buckets (db_view h buf))"
    by (simp_all add: db_view_def)
  show "case db_rule_clauses (db_view h buf) of None \<Rightarrow> True
      | Some rc \<Rightarrow> length rc = length (db_rules (db_view h buf))"
    using rc by (simp add: db_view_def length_rd)
  show "list_all (\<lambda>c. length (cidr_net c) = 16) (db_cidrs (db_view h buf))"
    unfolding db_view_def sigma_db.simps
  proof (rule list_all_dec_array)
    fix i assume "i < unat (h_n_cidrs h)"
    then have "i * 20 + 20 \<le> unat (h_n_cidrs h) * 20" by simp
    with ci show "length (cidr_net (dec_cidr (rd buf (unat (h_off_cidrs h) + i * 20) 20))) = 16"
      by (simp add: dec_cidr_def rd_def)
  qed
  show "list_all (\<lambda>n. n < 2 ^ 32)
       [length (db_fields (db_view h buf)), length (db_values (db_view h buf)),
        length (db_preds (db_view h buf)), length (db_sels (db_view h buf)),
        length (db_cond (db_view h buf)), length (db_rules (db_view h buf)),
        length (db_cidrs (db_view h buf)), length (db_strpool (db_view h buf)),
        length (db_bucket_keys (db_view h buf)), length (db_bucket_idx (db_view h buf)),
        length (db_litndl (db_view h buf)), length (db_litpost_ref (db_view h buf)),
        length (db_litav (db_view h buf)), length (db_fwit (db_view h buf))]"
    using sp by (simp add: db_view_def u32_bound length_rd)
qed

lemma sigma_load_tables_Inr:
  assumes "sigma_load_tables buf = Inr d"
  obtains h where "hdr_sections_ok h (length buf)" "resolve_refs (db_view h buf) = Inr d"
    "12 \<le> length buf" "crc32c_sw 0 (take (length buf - 4) buf) = u32_at buf (length buf - 4)"
    "unat (h_total_size h) = length buf"
  using assms unfolding sigma_load_tables_def Let_def by (auto split: if_splits)

lemma load_refs_ok:
  assumes "sigma_load_tables buf = Inr d"
  shows "db_refs_ok d" "av_bucket_ok d"
proof -
  obtain h where h: "hdr_sections_ok h (length buf)" "resolve_refs (db_view h buf) = Inr d"
    using assms by (rule sigma_load_tables_Inr)
  note shape = db_view_shape [OF h(1)]
  from h(2) obtain av where r: "core_refs_ok (db_view h buf)" "index_refs_ok (db_view h buf)"
    and s: "scan_buckets (db_view h buf) 0 (db_av_bucket (db_view h buf))
      (zip (db_bucket_keys (db_view h buf)) (db_buckets (db_view h buf))) = Some av"
    and d: "d = (db_view h buf)\<lparr>db_av_bucket := av, db_cat_field_id := cat_field_of (db_view h buf)\<rparr>"
    by (rule resolve_refs_Inr)
  show "db_refs_ok d"
    using r shape scan_buckets_ok [OF shape(2) s]
    by (simp add: d db_refs_ok_def split: option.splits)
  have a: "db_av_bucket (db_view h buf) = u32_max" by (simp add: db_view_def)
  have b: "length (db_bucket_keys (db_view h buf)) < 2 ^ 32" using shape(5) by simp
  then have c: "unat (of_nat j :: u32) = j" if "j < length (db_bucket_keys (db_view h buf))" for j
    using that by (simp add: unat_of_nat)
  have e: "of_nat j \<noteq> (u32_max :: u32)" if "j < length (db_bucket_keys (db_view h buf))" for j
  proof
    assume "of_nat j = (u32_max :: u32)"
    with c [OF that] have "j = 4294967295" by simp
    with that b u32_bound [of "h_n_buckets h"] show False by (simp add: db_view_def)
  qed
  from scan_buckets_av [OF shape(2) s] a b c e show "av_bucket_ok d"
    by (auto simp: d av_bucket_ok_def)
qed

section \<open>Damaged artifacts\<close>

lemma le_dec_inj: "length a = length b \<Longrightarrow> le_dec a = le_dec b \<Longrightarrow> a = b"
  by (metis le_enc_dec)

lemma le_dec_4: "length a = 4 \<Longrightarrow> unat (of_nat (le_dec a) :: u32) = le_dec a"
  using le_dec_bound [of a] by (simp add: unat_of_nat)

lemma le_dec_8: "length a = 8 \<Longrightarrow> unat (of_nat (le_dec a) :: u64) = le_dec a"
  using le_dec_bound [of a] by (simp add: unat_of_nat)

lemma u32_at_inj:
  assumes "off + 4 \<le> length a" "off + 4 \<le> length b" "u32_at a off = u32_at b off"
  shows "rd a off 4 = rd b off 4"
proof -
  have "unat (u32_at a off) = unat (u32_at b off)" using assms(3) by simp
  with assms(1,2) have "le_dec (rd a off 4) = le_dec (rd b off 4)"
    by (simp only: u32_at_def le_dec_4 length_rd)
  then show ?thesis using assms(1,2) by (intro le_dec_inj) (simp_all add: length_rd)
qed

text \<open>One changed byte: in the checksummed part it changes the sum, in the trailer the
  stored value.\<close>

lemma load_one_byte:
  assumes "sigma_load_tables buf = Inr d" "i < length buf" "b \<noteq> buf ! i"
  shows "\<exists>err. sigma_load_tables (buf[i := b]) = Inl err"
proof (rule ccontr)
  assume "\<nexists>err. sigma_load_tables (buf[i := b]) = Inl err"
  then obtain d' where d': "sigma_load_tables (buf[i := b]) = Inr d'"
    by (cases "sigma_load_tables (buf[i := b])") auto
  define n where "n = length buf - 4"
  obtain h where "12 \<le> length buf" and c: "crc32c_sw 0 (take n buf) = u32_at buf n"
    using sigma_load_tables_Inr [OF assms(1)] n_def by metis
  then have n: "n + 4 = length buf" by (simp add: n_def)
  have c': "crc32c_sw 0 (take n (buf[i := b])) = u32_at (buf[i := b]) n"
    using sigma_load_tables_Inr [OF d'] n_def by (metis length_list_update)
  show False
  proof (cases "i < n")
    case True
    then have "take n (buf[i := b]) = (take n buf)[i := b]" "u32_at (buf[i := b]) n = u32_at buf n"
      by (simp_all add: take_update_swap u32_at_def rd_def drop_update_cancel)
    with c c' crc32c_sw_one_byte [of i "take n buf" b 0] True assms n show False by simp
  next
    case False
    then have "take n (buf[i := b]) = take n buf" by simp
    with c c' have "u32_at (buf[i := b]) n = u32_at buf n" by simp
    then have "rd (buf[i := b]) n 4 = rd buf n 4" using n by (intro u32_at_inj) simp_all
    then have "rd (buf[i := b]) n 4 ! (i - n) = rd buf n 4 ! (i - n)" by simp
    with False assms n show False by (simp add: rd_def)
  qed
qed

text \<open>A truncated copy disagrees with the size its own header states.\<close>

lemma load_total_size:
  assumes "sigma_load_tables buf = Inr d"
  shows "16 \<le> length buf" "unat (u64_at buf 8) = length buf"
proof -
  from assms have l: "HDR_V4_SIZE + 4 \<le> length buf"
    by (auto simp: sigma_load_tables_def Let_def not_less split: if_splits)
  then show "16 \<le> length buf" by simp
  have "unat (h_total_size (dec_hdr (rd buf 0 n @ pad m))) = length buf \<Longrightarrow> 16 \<le> n \<Longrightarrow>
      unat (u64_at buf 8) = length buf" for n m
    using l by (simp add: dec_hdr_def u64_at_def rd_def take_drop)
  with assms show "unat (u64_at buf 8) = length buf"
    unfolding sigma_load_tables_def Let_def by (auto split: if_splits)
qed

lemma load_truncated:
  assumes "sigma_load_tables buf = Inr d" "n < length buf"
  shows "\<exists>err. sigma_load_tables (take n buf) = Inl err"
proof (rule ccontr)
  assume "\<nexists>err. sigma_load_tables (take n buf) = Inl err"
  then obtain d' where d': "sigma_load_tables (take n buf) = Inr d'"
    by (cases "sigma_load_tables (take n buf)") auto
  from load_total_size [OF d'] assms(2)
  have "16 \<le> n" "unat (u64_at (take n buf) 8) = n" by simp_all
  then have "unat (u64_at buf 8) = n" by (simp add: u64_at_def rd_def take_drop min_def)
  with load_total_size(2) [OF assms(1)] assms(2) show False by simp
qed

end
