(* ===== verification/Match_Spec.thy ===== *)
theory Match_Spec
  imports Sigma_Match Loader_Safety
begin

text \<open>
  The meaning of a rule on an event, stated without memo, short-circuits, deferred cells or
  byte loops, and the proof that the matcher of theory Sigma_Match computes it on every
  database whose references are in range.
\<close>

section \<open>Meaning of a predicate\<close>

definition field_name :: "sigma_db \<Rightarrow> nat \<Rightarrow> bytes" where
  "field_name d f = str_bytes (db_strpool d) (db_fields d ! f)"

definition field_val :: "sigma_db \<Rightarrow> (bytes \<Rightarrow> bytes option) \<Rightarrow> nat \<Rightarrow> bytes option" where
  "field_val d ev f = (if f < length (db_fields d) then ev (field_name d f) else None)"

definition num_sem :: "u8 \<Rightarrow> int \<Rightarrow> int \<Rightarrow> bool" where
  "num_sem op v rhs =
     (if op = OP_GT then v > rhs else if op = OP_GTE then v \<ge> rhs
      else if op = OP_LT then v < rhs else if op = OP_LTE then v \<le> rhs
      else op = OP_NUMEQ \<and> v = rhs)"

definition numeric_sem :: "u8 \<Rightarrow> u64 \<Rightarrow> bytes \<Rightarrow> bool" where
  "numeric_sem op rhs val =
     (case decimal_prefix val of None \<Rightarrow> False | Some v \<Rightarrow> num_sem op (clamp_i64 v) (sint rhs))"

definition string_sem :: "u8 \<Rightarrow> bool \<Rightarrow> bytes \<Rightarrow> bytes \<Rightarrow> bool" where
  "string_sem op cs val opnd =
     (let f = map (sg_cmp cs) in
      if op = OP_EQ then f val = f opnd
      else if op = OP_CONTAINS then occurs (sg_cmp cs) val opnd
      else if op = OP_STARTSWITH then length opnd \<le> length val \<and> f (take (length opnd) val) = f opnd
      else if op = OP_ENDSWITH then
        length opnd \<le> length val \<and> f (drop (length val - length opnd) val) = f opnd
      else False)"

definition cidr_sem :: "'re sigma_lib \<Rightarrow> bytes \<Rightarrow> sigma_cidr \<Rightarrow> bool" where
  "cidr_sem x val c =
     (val \<noteq> [] \<and> length val < 46 \<and>
      (case (if cidr_family c = 4 then x_pton4 x (c_string val)
             else if cidr_family c = 6 then x_pton6 x (c_string val) else None) of
         None \<Rightarrow> False
       | Some a \<Rightarrow> same_prefix a (cidr_net c) (unat (cidr_prefix c))))"

text \<open>The pattern of a regex predicate, compiled with its case flag.\<close>

definition pred_regex :: "'re sigma_lib \<Rightarrow> sigma_db \<Rightarrow> sigma_pred \<Rightarrow> 're option" where
  "pred_regex x d p =
     x_re_compile x (\<not> has_flag (p_flags p) PF_CASE)
       (str_bytes (db_strpool d) (db_values d ! unat (p_value p)))"

definition operand_sem :: "sigma_db \<Rightarrow> (bytes \<Rightarrow> bytes option) \<Rightarrow> sigma_pred \<Rightarrow> bytes option" where
  "operand_sem d ev p =
     (if has_flag (p_flags p) PF_FIELDREF then
        (if p_value p > 0xFFFF then None else field_val d ev (unat (p_value p)))
      else if unat (p_value p) < length (db_values d)
        then Some (str_bytes (db_strpool d) (db_values d ! unat (p_value p)))
      else None)"

definition value_sem ::
  "'re sigma_lib \<Rightarrow> sigma_db \<Rightarrow> (bytes \<Rightarrow> bytes option) \<Rightarrow> sigma_pred \<Rightarrow> bytes \<Rightarrow> bool" where
  "value_sem x d ev p val =
     (if p_op p \<in> {OP_GT, OP_GTE, OP_LT, OP_LTE, OP_NUMEQ} then numeric_sem (p_op p) (p_ival p) val
      else if p_op p = OP_CIDR then
        unat (p_value p) < length (db_cidrs d) \<and> cidr_sem x val (db_cidrs d ! unat (p_value p))
      else if p_op p = OP_RE then
        (case pred_regex x d p of None \<Rightarrow> False | Some re \<Rightarrow> x_re_match x re val)
      else case operand_sem d ev p of
        None \<Rightarrow> False | Some o' \<Rightarrow> string_sem (p_op p) (has_flag (p_flags p) PF_CASE) val o')"

definition pred_sem ::
  "'re sigma_lib \<Rightarrow> sigma_db \<Rightarrow> (bytes \<Rightarrow> bytes option) \<Rightarrow> sigma_pred \<Rightarrow> bool" where
  "pred_sem x d ev p =
     (has_flag (p_flags p) PF_NEGATE \<noteq>
       (case field_val d ev (unat (p_field p)) of
          None \<Rightarrow> False
        | Some v \<Rightarrow> if p_op p = OP_EXISTS then v \<noteq> [] else value_sem x d ev p v))"

section \<open>Meaning of selections and conditions\<close>

text \<open>Maximal runs of equal group ids.\<close>

fun group_runs :: "sigma_pred list \<Rightarrow> sigma_pred list list" where
  "group_runs [] = []"
| "group_runs (p # ps) =
     (case group_runs ps of
        (q # qs) # gs \<Rightarrow> if p_group p = p_group q then (p # q # qs) # gs else [p] # (q # qs) # gs
      | _ \<Rightarrow> [[p]])"

definition sel_preds :: "sigma_db \<Rightarrow> sigma_sel \<Rightarrow> sigma_pred list" where
  "sel_preds d s = take (unat (s_count s)) (drop (unat (s_start s)) (db_preds d))"

definition sel_sem ::
  "'re sigma_lib \<Rightarrow> sigma_db \<Rightarrow> (bytes \<Rightarrow> bytes option) \<Rightarrow> sigma_sel \<Rightarrow> bool" where
  "sel_sem x d ev s \<longleftrightarrow>
     sel_preds d s \<noteq> [] \<and> (\<forall>g \<in> set (group_runs (sel_preds d s)). \<exists>p \<in> set g. pred_sem x d ev p)"

datatype sigma_cond = CSel nat | CNot sigma_cond | CAnd sigma_cond sigma_cond | COr sigma_cond sigma_cond

fun cond_sem :: "(nat \<Rightarrow> bool) \<Rightarrow> sigma_cond \<Rightarrow> bool" where
  "cond_sem sel (CSel i) = sel i"
| "cond_sem sel (CNot a) = (\<not> cond_sem sel a)"
| "cond_sem sel (CAnd a b) = (cond_sem sel a \<and> cond_sem sel b)"
| "cond_sem sel (COr a b) = (cond_sem sel a \<or> cond_sem sel b)"

text \<open>The condition a token list denotes, if it is well formed for \<open>n\<close> selections.\<close>

fun rpn_parse :: "nat \<Rightarrow> sigma_ctok list \<Rightarrow> sigma_cond list \<Rightarrow> sigma_cond option" where
  "rpn_parse n [] st = (case st of [c] \<Rightarrow> Some c | _ \<Rightarrow> None)"
| "rpn_parse n (t # ts) st =
     (if c_kind t = C_SEL then
        (if length st \<ge> COND_STACK_MAX \<or> unat (c_sel t) \<ge> n then None
         else rpn_parse n ts (CSel (unat (c_sel t)) # st))
      else if c_kind t = C_NOT then (case st of a # st \<Rightarrow> rpn_parse n ts (CNot a # st) | _ \<Rightarrow> None)
      else if c_kind t = C_AND then (case st of b # a # st \<Rightarrow> rpn_parse n ts (CAnd a b # st) | _ \<Rightarrow> None)
      else if c_kind t = C_OR then (case st of b # a # st \<Rightarrow> rpn_parse n ts (COr a b # st) | _ \<Rightarrow> None)
      else None)"

definition rule_sels :: "sigma_db \<Rightarrow> sigma_rule \<Rightarrow> sigma_sel list" where
  "rule_sels d r = take (unat (r_sel_count r)) (drop (unat (r_sel_start r)) (db_sels d))"

definition rule_toks :: "sigma_db \<Rightarrow> sigma_rule \<Rightarrow> sigma_ctok list" where
  "rule_toks d r = take (unat (r_cond_count r)) (drop (unat (r_cond_start r)) (db_cond d))"

definition rule_sem ::
  "'re sigma_lib \<Rightarrow> sigma_db \<Rightarrow> (bytes \<Rightarrow> bytes option) \<Rightarrow> sigma_rule \<Rightarrow> bool" where
  "rule_sem x d ev r =
     (let sels = map (sel_sem x d ev) (rule_sels d r) in
      if r_cond_count r = 0 then sels \<noteq> [] \<and> list_all (\<lambda>b. b) sels
      else case rpn_parse (length sels) (rule_toks d r) [] of
        None \<Rightarrow> False
      | Some c \<Rightarrow> cond_sem (\<lambda>i. sels ! i) c)"

section \<open>Runs that only read the event\<close>

text \<open>
  A run resolves some fields it had not resolved before, each once, and changes nothing
  else of the scratch.
\<close>

definition memo_ok :: "sigma_db \<Rightarrow> (bytes \<Rightarrow> bytes option) \<Rightarrow> sigma_eval \<Rightarrow> bool" where
  "memo_ok d ev e \<longleftrightarrow>
     length (e_memo e) = length (db_fields d) \<and>
     (\<forall>f < length (db_fields d). e_memo e ! f = None \<or> e_memo e ! f = Some (ev (field_name d f)))"

definition resolved :: "sigma_eval \<Rightarrow> nat set" where
  "resolved e = {f. f < length (e_memo e) \<and> e_memo e ! f \<noteq> None}"

definition evolves :: "sigma_db \<Rightarrow> sigma_eval \<Rightarrow> sigma_eval \<Rightarrow> bool" where
  "evolves d e e' \<longleftrightarrow>
     resolved e \<subseteq> resolved e' \<and>
     (\<exists>fs. distinct fs \<and> set fs = resolved e' - resolved e \<and>
        e' = e\<lparr>e_memo := e_memo e', e_calls := e_calls e @ map (field_name d) fs\<rparr>)"

definition reads ::
  "sigma_db \<Rightarrow> (bytes \<Rightarrow> bytes option) \<Rightarrow> ('a \<times> sigma_eval) option \<Rightarrow> sigma_eval \<Rightarrow> 'a \<Rightarrow> bool" where
  "reads d ev m e v \<longleftrightarrow> (\<exists>e'. m = Some (v, e') \<and> memo_ok d ev e' \<and> evolves d e e')"

lemma evolves_refl [simp]: "evolves d e e"
  unfolding evolves_def by (auto intro!: exI [of _ "[]"])

lemma evolves_trans:
  assumes "evolves d e e1" "evolves d e1 e2"
  shows "evolves d e e2"
proof -
  obtain fs1 where 1: "distinct fs1" "set fs1 = resolved e1 - resolved e"
    "e1 = e\<lparr>e_memo := e_memo e1, e_calls := e_calls e @ map (field_name d) fs1\<rparr>"
    using assms(1) unfolding evolves_def by blast
  obtain fs2 where 2: "distinct fs2" "set fs2 = resolved e2 - resolved e1"
    "e2 = e1\<lparr>e_memo := e_memo e2, e_calls := e_calls e1 @ map (field_name d) fs2\<rparr>"
    using assms(2) unfolding evolves_def by blast
  have sub: "resolved e \<subseteq> resolved e1" "resolved e1 \<subseteq> resolved e2" using assms by (auto simp: evolves_def)
  have c: "e_calls e1 = e_calls e @ map (field_name d) fs1" by (subst 1(3)) simp
  have "e1\<lparr>e_memo := m, e_calls := c\<rparr> = e\<lparr>e_memo := m, e_calls := c\<rparr>" for m c
    by (subst 1(3)) simp
  with 2(3) c have "e2 = e\<lparr>e_memo := e_memo e2, e_calls := e_calls e @ map (field_name d) (fs1 @ fs2)\<rparr>"
    by simp
  moreover have "distinct (fs1 @ fs2)" "set (fs1 @ fs2) = resolved e2 - resolved e"
    using 1 2 sub by auto
  ultimately show ?thesis unfolding evolves_def using sub by blast
qed

lemma reads_return: "memo_ok d ev e \<Longrightarrow> reads d ev (Some (v, e)) e v"
  by (simp add: reads_def)

lemma reads_bind:
  assumes "reads d ev m e v" "\<And>e'. memo_ok d ev e' \<Longrightarrow> evolves d e e' \<Longrightarrow> reads d ev (f (v, e')) e' w"
  shows "reads d ev (m \<bind> f) e w"
  using assms evolves_trans unfolding reads_def by fastforce

section \<open>Hypotheses\<close>

text \<open>What the code relies on of \<open>inet_pton\<close>: addresses have the length of their family.\<close>

definition lib_ok :: "'re sigma_lib \<Rightarrow> bool" where
  "lib_ok x \<longleftrightarrow> (\<forall>s a. x_pton4 x s = Some a \<longrightarrow> length a = 4) \<and> (\<forall>s a. x_pton6 x s = Some a \<longrightarrow> length a = 16)"

text \<open>The documented range of \<open>sigma_cidr_t.prefix\<close>; the loader does not check it.\<close>

definition cidr_prefix_ok :: "sigma_cidr \<Rightarrow> bool" where
  "cidr_prefix_ok c \<longleftrightarrow>
     (cidr_family c = 4 \<longrightarrow> unat (cidr_prefix c) \<le> 32) \<and> (cidr_family c = 6 \<longrightarrow> unat (cidr_prefix c) \<le> 128)"

definition re_table_ok :: "'re sigma_lib \<Rightarrow> sigma_db \<Rightarrow> 're sigma_derived \<Rightarrow> bool" where
  "re_table_ok x d dv \<longleftrightarrow>
     (case v_re dv of
        None \<Rightarrow> \<forall>i < length (db_preds d). p_op (db_preds d ! i) \<noteq> OP_RE
      | Some arr \<Rightarrow> length arr = length (db_preds d) \<and>
          (\<forall>i < length (db_preds d). p_op (db_preds d ! i) = OP_RE \<longrightarrow>
             arr ! i = pred_regex x d (db_preds d ! i)))"

definition match_env :: "'re sigma_lib \<Rightarrow> sigma_db \<Rightarrow> 're sigma_derived \<Rightarrow> bool" where
  "match_env x d dv \<longleftrightarrow>
     lib_ok x \<and> db_refs_ok d \<and> list_all cidr_prefix_ok (db_cidrs d) \<and> re_table_ok x d dv"

section \<open>Fields and predicates\<close>

lemma field_pool_ref:
  assumes "db_refs_ok d" "f < length (db_fields d)"
  shows "pool_ref d (db_fields d ! f) = Some (field_name d f)"
proof -
  have "field_ok d (db_fields d ! f)"
    using assms by (simp add: db_refs_ok_def core_refs_ok_def list_all_length)
  then have "str_ok d (db_fields d ! f)" by (simp add: field_ok_def str_ok_def Let_def)
  then show ?thesis by (simp add: pool_ref_def field_name_def)
qed

lemma evolves_resolve:
  assumes "length (e_memo e) = n" "f < n" "e_memo e ! f = None" "name = field_name d f"
  shows "evolves d e (e\<lparr>e_memo := (e_memo e)[f := Some v], e_calls := e_calls e @ [name]\<rparr>)"
proof -
  have r: "resolved (e\<lparr>e_memo := (e_memo e)[f := Some v], e_calls := e_calls e @ [name]\<rparr>) = insert f (resolved e)"
    using assms(1,2) by (auto simp: resolved_def nth_list_update)
  have "f \<notin> resolved e" using assms(3) by (simp add: resolved_def)
  then show ?thesis
    unfolding evolves_def r using assms(4) by (auto intro!: exI [of _ "[f]"])
qed

lemma resolve_field_reads:
  assumes "db_refs_ok d" "memo_ok d ev e"
  shows "reads d ev (resolve_field d ev fid e) e (field_val d ev (unat fid))"
proof (cases "unat fid < length (db_fields d)")
  case False
  with assms(2) show ?thesis by (simp add: resolve_field_def field_val_def reads_return)
next
  case True
  have m: "length (e_memo e) = length (db_fields d)"
    "e_memo e ! unat fid = None \<or> e_memo e ! unat fid = Some (ev (field_name d (unat fid)))"
    using assms(2) True by (auto simp: memo_ok_def)
  show ?thesis
  proof (cases "e_memo e ! unat fid")
    case None
    let ?e = "e\<lparr>e_memo := (e_memo e)[unat fid := Some (ev (field_name d (unat fid)))],
      e_calls := e_calls e @ [field_name d (unat fid)]\<rparr>"
    have "resolve_field d ev fid e = Some (ev (field_name d (unat fid)), ?e)"
      using None True m field_pool_ref [OF assms(1) True] by (simp add: resolve_field_def Let_def)
    moreover have "memo_ok d ev ?e" using assms(2) True by (auto simp: memo_ok_def nth_list_update)
    moreover have "evolves d e ?e" by (rule evolves_resolve [OF m(1) True None]) simp
    ultimately show ?thesis using True by (simp add: reads_def field_val_def)
  next
    case (Some v)
    with m True assms(2) show ?thesis by (simp add: resolve_field_def field_val_def reads_return)
  qed
qed

lemma sg_cmp_fold: "sg_cmp False = sigma_lc"
  by (simp add: sg_cmp_def sg_lower_sigma_lc)

lemma str_test_sem: "str_test x op cs val opnd = string_sem op cs val opnd"
  by (auto simp: str_test_def string_sem_def Let_def sg_eq_map sg_contains_occurs
      sigma_memmem_ci_occurs [unfolded not_None_eq] sg_cmp_fold sg_starts_def sg_ends_def)

lemma num_test_sem:
  "(case sg_to_i64 val of None \<Rightarrow> False | Some iv \<Rightarrow> num_cmp op iv rhs) = numeric_sem op rhs val"
  using sg_to_i64_clamp [of val]
  by (auto simp: numeric_sem_def num_cmp_def num_sem_def dest: signed_word_eqI split: option.splits)

lemma ip_in_cidr_sem:
  assumes "lib_ok x" "length (cidr_net c) = 16" "cidr_prefix_ok c"
  shows "ip_in_cidr (x_pton4 x) (x_pton6 x) val c = Some (cidr_sem x val c)"
proof -
  have "prefix_match a (cidr_net c) (cidr_prefix c) 4 = Some (same_prefix a (cidr_net c) (unat (cidr_prefix c)))"
    if "x_pton4 x (c_string val) = Some a" "cidr_family c = 4" for a
    using that assms by (intro prefix_match_same_prefix) (auto simp: lib_ok_def cidr_prefix_ok_def)
  moreover have "prefix_match a (cidr_net c) (cidr_prefix c) 16 = Some (same_prefix a (cidr_net c) (unat (cidr_prefix c)))"
    if "x_pton6 x (c_string val) = Some a" "cidr_family c = 6" for a
    using that assms by (intro prefix_match_same_prefix) (auto simp: lib_ok_def cidr_prefix_ok_def)
  ultimately show ?thesis
    by (auto simp: ip_in_cidr_def cidr_sem_def not_le split: option.splits)
qed

lemma pred_at_ok:
  assumes "db_refs_ok d" "i < length (db_preds d)"
  shows "pred_ok d (db_preds d ! i)"
  using assms by (simp add: db_refs_ok_def core_refs_ok_def list_all_length)

lemma value_pool_ref:
  assumes "db_refs_ok d" "i < length (db_values d)"
  shows "pool_ref d (db_values d ! i) = Some (str_bytes (db_strpool d) (db_values d ! i))"
  using assms by (simp add: db_refs_ok_def core_refs_ok_def list_all_length pool_ref_def)

lemma cidr_at_ok:
  assumes "match_env x d dv" "i < length (db_cidrs d)"
  shows "length (cidr_net (db_cidrs d ! i)) = 16" "cidr_prefix_ok (db_cidrs d ! i)" "lib_ok x"
  using assms by (simp_all add: match_env_def db_refs_ok_def list_all_length)

lemma ucast_u16: "w \<le> (0xFFFF :: u32) \<Longrightarrow> unat (ucast w :: u16) = unat w"
  by (simp add: unsigned_ucast_eq word_le_nat_alt take_bit_nat_eq_self)

lemma pred_operand_reads:
  assumes "db_refs_ok d" "memo_ok d ev e"
  shows "reads d ev (pred_operand d ev p e) e (operand_sem d ev p)"
proof -
  have "reads d ev (resolve_field d ev (ucast (p_value p)) e) e (field_val d ev (unat (p_value p)))"
    if "\<not> p_value p > 0xFFFF"
    using resolve_field_reads [OF assms, of "ucast (p_value p)"] that by (simp add: ucast_u16 not_less)
  then show ?thesis
    using assms by (auto simp: pred_operand_def operand_sem_def field_val_def value_pool_ref reads_return)
qed

lemma pred_value_reads:
  assumes env: "match_env x d dv" and i: "i < length (db_preds d)" "p = db_preds d ! i" and m: "memo_ok d ev e"
  shows "reads d ev (pred_value x d dv ev p i val e) e (value_sem x d ev p val)"
proof -
  have refs: "db_refs_ok d" and re: "re_table_ok x d dv" using env by (simp_all add: match_env_def)
  consider (num) "p_op p \<in> {OP_GT, OP_GTE, OP_LT, OP_LTE, OP_NUMEQ}" | (cidr) "p_op p = OP_CIDR"
    | (re) "p_op p = OP_RE" | (str) "p_op p \<notin> {OP_GT, OP_GTE, OP_LT, OP_LTE, OP_NUMEQ, OP_CIDR, OP_RE}" by auto
  then show ?thesis
  proof cases
    case num
    with m show ?thesis by (simp add: pred_value_def value_sem_def num_test_sem reads_return)
  next
    case cidr
    have "ip_in_cidr (x_pton4 x) (x_pton6 x) val (db_cidrs d ! unat (p_value p))
        = Some (cidr_sem x val (db_cidrs d ! unat (p_value p)))" if "unat (p_value p) < length (db_cidrs d)"
      using ip_in_cidr_sem cidr_at_ok [OF env that] by blast
    with cidr m show ?thesis by (simp add: pred_value_def value_sem_def reads_return)
  next
    case re': re
    show ?thesis
    proof (cases "v_re dv")
      case None
      with re i re' show ?thesis by (auto simp: re_table_ok_def)
    next
      case (Some arr)
      with re i re' have "idx arr i = Some (pred_regex x d p)" by (simp add: re_table_ok_def)
      with Some re' m i show ?thesis by (simp add: pred_value_def value_sem_def reads_return)
    qed
  next
    case str
    then have "pred_value x d dv ev p i val e = do { (opnd, e') \<leftarrow> pred_operand d ev p e;
        Some ((case opnd of None \<Rightarrow> False
               | Some b \<Rightarrow> str_test x (p_op p) (has_flag (p_flags p) PF_CASE) val b), e') }"
      by (simp add: pred_value_def)
    moreover have "value_sem x d ev p val = (case operand_sem d ev p of None \<Rightarrow> False
        | Some b \<Rightarrow> str_test x (p_op p) (has_flag (p_flags p) PF_CASE) val b)"
      using str by (simp add: value_sem_def str_test_sem split: option.split)
    ultimately show ?thesis
      by (simp only:) (rule reads_bind [OF pred_operand_reads [OF refs m]], simp add: reads_return)
  qed
qed

lemma pred_match_reads:
  assumes env: "match_env x d dv" and i: "i < length (db_preds d)" and m: "memo_ok d ev e"
  shows "reads d ev (pred_match x d dv ev (db_preds d ! i) i e) e (pred_sem x d ev (db_preds d ! i))"
proof -
  let ?p = "db_preds d ! i"
  have refs: "db_refs_ok d" using env by (simp add: match_env_def)
  let ?val = "field_val d ev (unat (p_field ?p))"
  let ?res = "case ?val of None \<Rightarrow> False | Some v \<Rightarrow>
    if p_op ?p = OP_EXISTS then v \<noteq> [] else value_sem x d ev ?p v"
  have "reads d ev (if p_op ?p = OP_EXISTS then
               Some ((case ?val of None \<Rightarrow> False | Some v \<Rightarrow> 0 < length v), e1)
             else case ?val of None \<Rightarrow> Some (False, e1) | Some v \<Rightarrow> pred_value x d dv ev ?p i v e1) e1 ?res"
    if "memo_ok d ev e1" for e1
    using that pred_value_reads [OF env i refl that]
    by (auto simp: reads_return split: option.splits)
  note read = reads_bind [OF this, of _ "\<lambda>(res, e2). Some ((if has_flag (p_flags ?p) PF_NEGATE then \<not> res else res), e2)"]
  have "pred_sem x d ev ?p = (if has_flag (p_flags ?p) PF_NEGATE then \<not> ?res else ?res)"
    by (auto simp: pred_sem_def)
  with read show ?thesis
    unfolding pred_match_def
    by (intro reads_bind [OF resolve_field_reads [OF refs m]]) (simp add: reads_return)
qed

section \<open>Selections\<close>

text \<open>The loop with the predicates' truth values already known.\<close>

fun group_loop :: "(sigma_pred \<Rightarrow> bool) \<Rightarrow> sigma_pred list \<Rightarrow> u16 \<Rightarrow> bool \<Rightarrow> bool" where
  "group_loop S [] cur go = go"
| "group_loop S (p # ps) cur go =
     (if p_group p \<noteq> cur \<and> \<not> go then False
      else group_loop S ps (p_group p) ((p_group p = cur \<and> go) \<or> S p))"

lemma group_runs_Nil [simp]: "group_runs ps = [] \<longleftrightarrow> ps = []"
  by (cases ps) (auto split: list.splits)

lemma group_runs_hd: "\<exists>qs gs. group_runs (p # ps) = (p # qs) # gs"
  by (auto split: list.splits)

lemma group_runs_Cons:
  assumes "group_runs ps = (q # qs) # gs"
  shows "group_runs (p # ps) =
    (if p_group p = p_group q then (p # q # qs) # gs else [p] # (q # qs) # gs)"
  using assms by simp

lemma group_loop_runs:
  "group_loop S ps cur go =
     (case group_runs ps of
        [] \<Rightarrow> go
      | g # gs \<Rightarrow> (if p_group (hd g) = cur then go \<or> (\<exists>p \<in> set g. S p) else go \<and> (\<exists>p \<in> set g. S p)) \<and>
          (\<forall>g \<in> set gs. \<exists>p \<in> set g. S p))"
proof (induction ps arbitrary: cur go)
  case Nil
  then show ?case by simp
next
  case (Cons p ps)
  show ?case
  proof (cases ps)
    case Nil
    then show ?thesis by auto
  next
    case (Cons q qs')
    obtain qs gs where g: "group_runs ps = (q # qs) # gs" using group_runs_hd [of q qs'] Cons by auto
    show ?thesis
      unfolding group_runs_Cons [OF g] using Cons.IH g by auto
  qed
qed

lemma sel_loop_reads:
  assumes env: "match_env x d dv"
  shows "\<forall>i \<in> set is. i < length (db_preds d) \<Longrightarrow> memo_ok d ev e \<Longrightarrow>
    reads d ev (sel_loop x d dv ev is cur go e) e (group_loop (pred_sem x d ev) (map (\<lambda>i. db_preds d ! i) is) cur go)"
proof (induction "is" arbitrary: cur go e)
  case Nil
  then show ?case by (simp add: reads_return)
next
  case (Cons i "is")
  then have i: "i < length (db_preds d)" by simp
  let ?p = "db_preds d ! i"
  let ?go = "if p_group ?p \<noteq> cur then False else go"
  have one: "reads d ev (if \<not> ?go then pred_match x d dv ev ?p i e else Some (?go, e)) e
      ((p_group ?p = cur \<and> go) \<or> pred_sem x d ev ?p)"
    using pred_match_reads [OF env i Cons.prems(2)] Cons.prems(2)
    by (cases "?go") (auto simp: reads_return split: if_splits)
  have rest: "reads d ev ((if \<not> ?go then pred_match x d dv ev ?p i e else Some (?go, e)) \<bind>
      (\<lambda>(go', e'). sel_loop x d dv ev is (p_group ?p) go' e')) e
      (group_loop (pred_sem x d ev) (map (\<lambda>i. db_preds d ! i) is) (p_group ?p)
        ((p_group ?p = cur \<and> go) \<or> pred_sem x d ev ?p))"
    using Cons.IH Cons.prems(1) by (intro reads_bind [OF one]) auto
  show ?case
  proof (cases "p_group ?p \<noteq> cur \<and> \<not> go")
    case True
    with i Cons.prems(2) show ?thesis by (simp add: reads_return)
  next
    case False
    have "sel_loop x d dv ev (i # is) cur go e =
      ((if \<not> ?go then pred_match x d dv ev ?p i e else Some (?go, e)) \<bind>
      (\<lambda>(go', e'). sel_loop x d dv ev is (p_group ?p) go' e'))"
      using i False by (auto simp: Let_def)
    moreover have "group_loop (pred_sem x d ev) (map (\<lambda>i. db_preds d ! i) (i # is)) cur go =
      group_loop (pred_sem x d ev) (map (\<lambda>i. db_preds d ! i) is) (p_group ?p)
        ((p_group ?p = cur \<and> go) \<or> pred_sem x d ev ?p)"
      using False by auto
    ultimately show ?thesis using rest by (simp only:)
  qed
qed

lemma map_nth_upt: "a + n \<le> length xs \<Longrightarrow> map (\<lambda>i. xs ! i) [a..<a + n] = take n (drop a xs)"
  by (intro nth_equalityI) simp_all

lemma sel_match_reads:
  assumes env: "match_env x d dv" and sel: "sel_ok d s" and m: "memo_ok d ev e"
  shows "reads d ev (sel_match x d dv ev s e) e (sel_sem x d ev s)"
proof -
  have b: "unat (s_start s) + unat (s_count s) \<le> length (db_preds d)" using sel by (simp add: sel_ok_def)
  show ?thesis
  proof (cases "s_count s = 0")
    case True
    with m show ?thesis by (simp add: sel_match_def sel_sem_def sel_preds_def reads_return)
  next
    case False
    then have c: "0 < unat (s_count s)" by (simp add: unat_gt_0)
    with b have i0: "unat (s_start s) < length (db_preds d)" by simp
    have "sel_preds d s \<noteq> []" using c i0 by (simp add: sel_preds_def)
    moreover have "hd (sel_preds d s) = db_preds d ! unat (s_start s)"
      using c i0 by (simp add: sel_preds_def hd_conv_nth)
    ultimately have ps: "sel_preds d s = db_preds d ! unat (s_start s) # tl (sel_preds d s)"
      by (metis list.collapse)
    then obtain qs gs where g: "group_runs (sel_preds d s) = (db_preds d ! unat (s_start s) # qs) # gs"
      using group_runs_hd by metis
    have "group_loop (pred_sem x d ev) (sel_preds d s) (p_group (db_preds d ! unat (s_start s))) False
        = sel_sem x d ev s"
      using ps unfolding group_loop_runs sel_sem_def g by auto
    moreover have "reads d ev (sel_loop x d dv ev [unat (s_start s)..<unat (s_start s) + unat (s_count s)]
        (p_group (db_preds d ! unat (s_start s))) False e) e
      (group_loop (pred_sem x d ev) (sel_preds d s) (p_group (db_preds d ! unat (s_start s))) False)"
      using sel_loop_reads [OF env _ m, of "[unat (s_start s)..<unat (s_start s) + unat (s_count s)]"
          "p_group (db_preds d ! unat (s_start s))" False] b
      by (simp add: map_nth_upt sel_preds_def)
    ultimately show ?thesis using False i0 by (simp add: sel_match_def)
  qed
qed

section \<open>Conditions\<close>

text \<open>The truth value a cell stands for.\<close>

fun cell_sem :: "(nat \<Rightarrow> bool) \<Rightarrow> rpn_cell \<Rightarrow> bool" where
  "cell_sem sel (RPN_BOOL v) = v"
| "cell_sem sel (RPN_SEL i) = sel (unat i)"
| "cell_sem sel (RPN_NOTSEL i) = (\<not> sel (unat i))"

fun cell_ok :: "sigma_rule \<Rightarrow> rpn_cell \<Rightarrow> bool" where
  "cell_ok r (RPN_BOOL v) = True"
| "cell_ok r (RPN_SEL i) = (i < r_sel_count r)"
| "cell_ok r (RPN_NOTSEL i) = (i < r_sel_count r)"

lemma cell_sem_not: "cell_sem sel (rpn_not c) = (\<not> cell_sem sel c)"
  by (cases c) simp_all

lemma cell_ok_not: "cell_ok r (rpn_not c) = cell_ok r c"
  by (cases c) simp_all

lemma rule_sel_at:
  assumes "db_refs_ok d" "rule_ok d r" "i < r_sel_count r"
  shows "idx (db_sels d) (unat (r_sel_start r + i)) = Some (rule_sels d r ! unat i)"
    and "sel_ok d (rule_sels d r ! unat i)"
    and "unat i < length (rule_sels d r)"
proof -
  have b: "unat (r_sel_start r) + unat (r_sel_count r) \<le> length (db_sels d)"
    using assms(2) by (simp add: rule_ok_def)
  have i: "unat i < unat (r_sel_count r)" using assms(3) by (simp add: word_less_nat_alt)
  have n: "length (db_sels d) < 4294967296" using assms(1) by (simp add: db_refs_ok_def)
  have add: "unat (r_sel_start r + i) = unat (r_sel_start r) + unat i"
    using b i n by (simp add: unat_word_ariths)
  with b i show "idx (db_sels d) (unat (r_sel_start r + i)) = Some (rule_sels d r ! unat i)"
    by (simp add: rule_sels_def idx_def)
  have "rule_sels d r ! unat i = db_sels d ! (unat (r_sel_start r) + unat i)"
    using b i by (simp add: rule_sels_def)
  then show "sel_ok d (rule_sels d r ! unat i)"
    using assms(1) b i by (simp add: db_refs_ok_def core_refs_ok_def list_all_length)
  show "unat i < length (rule_sels d r)" using b i by (simp add: rule_sels_def)
qed

lemma rpn_force_reads:
  assumes env: "match_env x d dv" and r: "rule_ok d r" and m: "memo_ok d ev e" and c: "cell_ok r c"
  shows "reads d ev (rpn_force x d dv ev r c e) e (cell_sem (\<lambda>i. map (sel_sem x d ev) (rule_sels d r) ! i) c)"
proof -
  have refs: "db_refs_ok d" using env by (simp add: match_env_def)
  show ?thesis
  proof (cases c)
    case (RPN_BOOL v)
    with m show ?thesis by (simp add: reads_return)
  next
    case (RPN_SEL i)
    with c have i: "i < r_sel_count r" by simp
    note s = rule_sel_at [OF refs r i]
    show ?thesis using RPN_SEL iffD2 [OF not_le i] s sel_match_reads [OF env s(2) m] by simp
  next
    case (RPN_NOTSEL i)
    with c have i: "i < r_sel_count r" by simp
    note s = rule_sel_at [OF refs r i]
    show ?thesis using RPN_NOTSEL iffD2 [OF not_le i] s
      by simp (rule reads_bind [OF sel_match_reads [OF env s(2) m]], simp add: reads_return)
  qed
qed

text \<open>Two operands: force the left one, the right one only when it matters.\<close>

lemma rpn_and_or_reads:
  assumes env: "match_env x d dv" and r: "rule_ok d r" and m: "memo_ok d ev e"
    and a: "cell_ok r a" and b: "cell_ok r b"
  defines "S \<equiv> cell_sem (\<lambda>i. map (sel_sem x d ev) (rule_sels d r) ! i)"
  shows "(\<And>e'. memo_ok d ev e' \<Longrightarrow> reads d ev (k (S a \<and> S b, e')) e' w) \<Longrightarrow>
      reads d ev (do { (av, e1) \<leftarrow> rpn_force x d dv ev r a e;
        z \<leftarrow> (if av then rpn_force x d dv ev r b e1 else Some (False, e1)); k z }) e w"
    and "(\<And>e'. memo_ok d ev e' \<Longrightarrow> reads d ev (k (S a \<or> S b, e')) e' w) \<Longrightarrow>
      reads d ev (do { (av, e1) \<leftarrow> rpn_force x d dv ev r a e;
        z \<leftarrow> (if av then Some (True, e1) else rpn_force x d dv ev r b e1); k z }) e w"
proof -
  have fa: "reads d ev (rpn_force x d dv ev r a e) e (S a)"
    unfolding S_def by (rule rpn_force_reads [OF env r m a])
  have fb: "reads d ev (rpn_force x d dv ev r b e1) e1 (S b)" if "memo_ok d ev e1" for e1
    unfolding S_def by (rule rpn_force_reads [OF env r that b])
  show "reads d ev (do { (av, e1) \<leftarrow> rpn_force x d dv ev r a e;
        z \<leftarrow> (if av then rpn_force x d dv ev r b e1 else Some (False, e1)); k z }) e w"
    if k: "\<And>e'. memo_ok d ev e' \<Longrightarrow> reads d ev (k (S a \<and> S b, e')) e' w"
    using k fb reads_return by (intro reads_bind [OF fa])
      (cases "S a"; auto intro!: reads_bind [where v = "S a \<and> S b"])
  show "reads d ev (do { (av, e1) \<leftarrow> rpn_force x d dv ev r a e;
        z \<leftarrow> (if av then Some (True, e1) else rpn_force x d dv ev r b e1); k z }) e w"
    if k: "\<And>e'. memo_ok d ev e' \<Longrightarrow> reads d ev (k (S a \<or> S b, e')) e' w"
    using k fb reads_return by (intro reads_bind [OF fa])
      (cases "S a"; auto intro!: reads_bind [where v = "S a \<or> S b"])
qed

lemma rpn_loop_reads:
  fixes ev :: "bytes \<Rightarrow> bytes option"
  assumes env: "match_env x d dv" and r: "rule_ok d r"
  defines "S \<equiv> \<lambda>i. map (sel_sem x d ev) (rule_sels d r) ! i"
  shows "\<forall>i \<in> set is. i < length (db_cond d) \<Longrightarrow> memo_ok d ev e \<Longrightarrow>
    list_all2 (\<lambda>c t. cell_ok r c \<and> cell_sem S c = cond_sem S t) stack st \<Longrightarrow>
    reads d ev (rpn_loop x d dv ev r is stack e) e
      (case rpn_parse (length (rule_sels d r)) (map (\<lambda>i. db_cond d ! i) is) st of
         None \<Rightarrow> False | Some c \<Rightarrow> cond_sem S c)"
proof (induction "is" arbitrary: stack st e)
  case Nil
  have len: "length stack = length st" using Nil.prems(3) by (rule list_all2_lengthD)
  show ?case
  proof (cases "\<exists>c. stack = [c]")
    case True
    then obtain c where c: "stack = [c]" by blast
    with Nil.prems(3) obtain t where t: "st = [t]" "cell_ok r c" "cell_sem S c = cond_sem S t"
      by (auto simp: list_all2_Cons1)
    then show ?thesis using rpn_force_reads [OF env r Nil.prems(2) t(2)] c by (simp add: S_def)
  next
    case False
    then have "\<nexists>c. st = [c]" using len by (auto simp: length_Suc_conv)
    with False Nil.prems(2) show ?thesis by (auto simp: reads_return split: list.splits)
  qed
next
  case (Cons i "is")
  then have i: "idx (db_cond d) i = Some (db_cond d ! i)" by simp
  let ?t = "db_cond d ! i"
  have refs: "db_refs_ok d" using env by (simp add: match_env_def)
  have n: "length (rule_sels d r) = unat (r_sel_count r)"
    using r unfolding rule_ok_def rule_sels_def by (auto simp: min_def)
  note fail = reads_return [OF Cons.prems(2)]
  have len: "length stack = length st" using Cons.prems(3) by (rule list_all2_lengthD)
  have next_step: "reads d ev (rpn_loop x d dv ev r is stack' e') e'
      (case rpn_parse (length (rule_sels d r)) (map (\<lambda>i. db_cond d ! i) is) st' of
         None \<Rightarrow> False | Some c \<Rightarrow> cond_sem S c)"
    if "memo_ok d ev e'" "list_all2 (\<lambda>c t. cell_ok r c \<and> cell_sem S c = cond_sem S t) stack' st'" for stack' st' e'
    using Cons.IH Cons.prems(1) that by simp
  consider (sel) "c_kind ?t = C_SEL" | (not) "c_kind ?t = C_NOT" | (and') "c_kind ?t = C_AND"
    | (or') "c_kind ?t = C_OR" | (bad) "c_kind ?t \<notin> {C_SEL, C_NOT, C_AND, C_OR}" by auto
  then show ?case
  proof cases
    case sel
    show ?thesis
    proof (cases "length stack \<ge> COND_STACK_MAX \<or> c_sel ?t \<ge> r_sel_count r")
      case True
      then show ?thesis using sel i fail len n by (auto simp: word_le_nat_alt)
    next
      case False
      then have "list_all2 (\<lambda>c t. cell_ok r c \<and> cell_sem S c = cond_sem S t)
          (RPN_SEL (c_sel ?t) # stack) (CSel (unat (c_sel ?t)) # st)"
        using Cons.prems(3) by (simp add: not_le)
      from next_step [OF Cons.prems(2) this] show ?thesis
        using False sel i len n by (simp add: word_le_nat_alt)
    qed
  next
    case not
    show ?thesis
    proof (cases stack)
      case Nil
      with Cons.prems(3) not i fail show ?thesis by simp
    next
      case (Cons c cs)
      with Cons.prems(3) obtain t ts where st: "st = t # ts" "cell_ok r c" "cell_sem S c = cond_sem S t"
        "list_all2 (\<lambda>c t. cell_ok r c \<and> cell_sem S c = cond_sem S t) cs ts"
        by (auto simp: list_all2_Cons1)
      then have "list_all2 (\<lambda>c t. cell_ok r c \<and> cell_sem S c = cond_sem S t) (rpn_not c # cs) (CNot t # ts)"
        by (simp add: cell_sem_not cell_ok_not)
      from next_step [OF Cons.prems(2) this] show ?thesis using not i Cons st(1) by simp
    qed
  next
    case bad
    with i fail show ?thesis by simp
  next
    case and'
    show ?thesis
    proof (cases "\<exists>b a cs. stack = b # a # cs")
      case False
      then have "\<nexists>b a cs. st = b # a # cs"
        using len by (cases st; cases "tl st"; cases stack; cases "tl stack") auto
      with False and' i fail show ?thesis by (auto split: list.splits)
    next
      case True
      then obtain b a cs where sk: "stack = b # a # cs" by blast
      with Cons.prems(3) obtain u t ts where st: "st = u # t # ts"
        "cell_ok r a" "cell_ok r b" "cell_sem S a = cond_sem S t" "cell_sem S b = cond_sem S u"
        "list_all2 (\<lambda>c t. cell_ok r c \<and> cell_sem S c = cond_sem S t) cs ts"
        by (auto simp: list_all2_Cons1)
      then have "list_all2 (\<lambda>c t. cell_ok r c \<and> cell_sem S c = cond_sem S t)
          (RPN_BOOL (cell_sem S a \<and> cell_sem S b) # cs) (CAnd t u # ts)" by simp
      note step = rpn_and_or_reads(1) [OF env r Cons.prems(2) st(2,3), folded S_def,
          where k = "\<lambda>(v, e2). rpn_loop x d dv ev r is (RPN_BOOL v # cs) e2", simplified,
          OF next_step [OF _ this]]
      show ?thesis using step and' i sk st(1) by simp
    qed
  next
    case or'
    show ?thesis
    proof (cases "\<exists>b a cs. stack = b # a # cs")
      case False
      then have "\<nexists>b a cs. st = b # a # cs"
        using len by (cases st; cases "tl st"; cases stack; cases "tl stack") auto
      with False or' i fail show ?thesis by (auto split: list.splits)
    next
      case True
      then obtain b a cs where sk: "stack = b # a # cs" by blast
      with Cons.prems(3) obtain u t ts where st: "st = u # t # ts"
        "cell_ok r a" "cell_ok r b" "cell_sem S a = cond_sem S t" "cell_sem S b = cond_sem S u"
        "list_all2 (\<lambda>c t. cell_ok r c \<and> cell_sem S c = cond_sem S t) cs ts"
        by (auto simp: list_all2_Cons1)
      then have "list_all2 (\<lambda>c t. cell_ok r c \<and> cell_sem S c = cond_sem S t)
          (RPN_BOOL (cell_sem S a \<or> cell_sem S b) # cs) (COr t u # ts)" by simp
      note step = rpn_and_or_reads(2) [OF env r Cons.prems(2) st(2,3), folded S_def,
          where k = "\<lambda>(v, e2). rpn_loop x d dv ev r is (RPN_BOOL v # cs) e2", simplified,
          OF next_step [OF _ this]]
      show ?thesis using step or' i sk st(1) by simp
    qed
  qed
qed

section \<open>Rules\<close>

lemma all_sels_reads:
  assumes env: "match_env x d dv"
  shows "\<forall>i \<in> set is. i < length (db_sels d) \<Longrightarrow> memo_ok d ev e \<Longrightarrow>
    reads d ev (all_sels x d dv ev is e) e (list_all (sel_sem x d ev) (map (\<lambda>i. db_sels d ! i) is))"
proof (induction "is" arbitrary: e)
  case Nil
  then show ?case by (simp add: reads_return)
next
  case (Cons i "is")
  then have i: "i < length (db_sels d)" by simp
  have "sel_ok d (db_sels d ! i)"
    using env i by (simp add: match_env_def db_refs_ok_def core_refs_ok_def list_all_length)
  note one = sel_match_reads [OF env this Cons.prems(2)]
  have "reads d ev (sel_match x d dv ev (db_sels d ! i) e \<bind>
      (\<lambda>(hit, e'). if \<not> hit then Some (False, e') else all_sels x d dv ev is e')) e
      (sel_sem x d ev (db_sels d ! i) \<and> list_all (sel_sem x d ev) (map (\<lambda>i. db_sels d ! i) is))"
    using Cons.IH Cons.prems(1) by (intro reads_bind [OF one]) (auto simp: reads_return)
  with i show ?case by simp
qed

lemma rule_match_reads:
  assumes env: "match_env x d dv" and r: "rule_ok d r" and m: "memo_ok d ev e"
  shows "reads d ev (rule_match x d dv ev r e) e (rule_sem x d ev r)"
proof -
  have b: "unat (r_sel_start r) + unat (r_sel_count r) \<le> length (db_sels d)"
    "unat (r_cond_start r) + unat (r_cond_count r) \<le> length (db_cond d)"
    using r by (auto simp: rule_ok_def)
  have sels: "map (\<lambda>i. db_sels d ! i) [unat (r_sel_start r)..<unat (r_sel_start r) + unat (r_sel_count r)]
      = rule_sels d r"
    using b by (simp add: map_nth_upt rule_sels_def)
  have toks: "map (\<lambda>i. db_cond d ! i) [unat (r_cond_start r)..<unat (r_cond_start r) + unat (r_cond_count r)]
      = rule_toks d r"
    using b by (simp add: map_nth_upt rule_toks_def)
  have n: "rule_sels d r \<noteq> [] \<longleftrightarrow> r_sel_count r > 0"
  proof -
    have "length (rule_sels d r) = unat (r_sel_count r)" using b by (auto simp: rule_sels_def min_def)
    then show ?thesis by (metis length_greater_0_conv unat_gt_0 word_gt_0)
  qed
  show ?thesis
  proof (cases "r_cond_count r = 0")
    case True
    have "reads d ev (all_sels x d dv ev [unat (r_sel_start r)..<unat (r_sel_start r) + unat (r_sel_count r)] e) e
        (list_all (sel_sem x d ev) (rule_sels d r))"
      unfolding sels [symmetric] using b by (intro all_sels_reads [OF env _ m]) auto
    from reads_bind [OF this, of "\<lambda>(h, e'). Some (h \<and> r_sel_count r > 0, e')" "rule_sem x d ev r"]
    show ?thesis
      using True n by (auto simp: rule_match_def rule_sem_def Let_def reads_return list.pred_map comp_def conj_commute)
  next
    case False
    have "reads d ev (rpn_loop x d dv ev r
        [unat (r_cond_start r)..<unat (r_cond_start r) + unat (r_cond_count r)] [] e) e
        (case rpn_parse (length (rule_sels d r)) (rule_toks d r) [] of
         None \<Rightarrow> False | Some c \<Rightarrow> cond_sem (\<lambda>i. map (sel_sem x d ev) (rule_sels d r) ! i) c)"
      unfolding toks [symmetric] using b by (intro rpn_loop_reads [OF env r _ m]) auto
    with False show ?thesis by (simp add: rule_match_def rule_sem_def Let_def)
  qed
qed

section \<open>Compiled conditions\<close>

text \<open>The token list of a condition, as a compiler emits it, and the stack it needs.\<close>

fun rpn_of :: "sigma_cond \<Rightarrow> sigma_ctok list" where
  "rpn_of (CSel i) = [\<lparr>c_kind = C_SEL, c_sel = of_nat i\<rparr>]"
| "rpn_of (CNot a) = rpn_of a @ [\<lparr>c_kind = C_NOT, c_sel = 0\<rparr>]"
| "rpn_of (CAnd a b) = rpn_of a @ rpn_of b @ [\<lparr>c_kind = C_AND, c_sel = 0\<rparr>]"
| "rpn_of (COr a b) = rpn_of a @ rpn_of b @ [\<lparr>c_kind = C_OR, c_sel = 0\<rparr>]"

fun stack_need :: "sigma_cond \<Rightarrow> nat" where
  "stack_need (CSel i) = 1"
| "stack_need (CNot a) = stack_need a"
| "stack_need (CAnd a b) = max (stack_need a) (1 + stack_need b)"
| "stack_need (COr a b) = max (stack_need a) (1 + stack_need b)"

fun cond_sels :: "sigma_cond \<Rightarrow> nat set" where
  "cond_sels (CSel i) = {i}"
| "cond_sels (CNot a) = cond_sels a"
| "cond_sels (CAnd a b) = cond_sels a \<union> cond_sels b"
| "cond_sels (COr a b) = cond_sels a \<union> cond_sels b"

lemma rpn_parse_append:
  "cond_sels c \<subseteq> {..<n} \<Longrightarrow> n < 4294967296 \<Longrightarrow> length st + stack_need c \<le> COND_STACK_MAX \<Longrightarrow>
   rpn_parse n (rpn_of c @ ts) st = rpn_parse n ts (c # st)"
proof (induction c arbitrary: st ts)
  case (CSel i)
  then show ?case by (simp add: unat_of_nat)
qed auto

lemma rpn_parse_of:
  "cond_sels c \<subseteq> {..<n} \<Longrightarrow> n < 4294967296 \<Longrightarrow> stack_need c \<le> COND_STACK_MAX \<Longrightarrow>
   rpn_parse n (rpn_of c) [] = Some c"
  using rpn_parse_append [of c n "[]" "[]"] by simp

end
