(* ===== verification/Teddy_Build.thy ===== *)
theory Teddy_Build
  imports Teddy
begin

text \<open>
  What a built matcher holds: for every hash value the chains list exactly the needles with
  that fingerprint, and the first-byte tables mark both cases of every first byte.
\<close>

section \<open>Chains\<close>

fun is_chain :: "u32 list \<Rightarrow> u32 \<Rightarrow> nat list \<Rightarrow> bool" where
  "is_chain nx k [] \<longleftrightarrow> k = u32_max"
| "is_chain nx k (j # js) \<longleftrightarrow>
     k = of_nat j \<and> j < length nx \<and> j < 4294967295 \<and> is_chain nx (nx ! j) js"

lemma is_chain_update: "is_chain nx k js \<Longrightarrow> i \<notin> set js \<Longrightarrow> is_chain (nx[i := x]) k js"
  by (induction nx k js rule: is_chain.induct) auto

definition chain_set :: "u32 list \<Rightarrow> u32 \<Rightarrow> nat set \<Rightarrow> bool" where
  "chain_set nx k S \<longleftrightarrow> (\<exists>js. is_chain nx k js \<and> distinct js \<and> set js = S)"

lemma chain_set_empty: "chain_set nx u32_max {}"
  unfolding chain_set_def by (rule exI [of _ "[]"]) simp

lemma chain_set_update: "chain_set nx k S \<Longrightarrow> i \<notin> S \<Longrightarrow> chain_set (nx[i := x]) k S"
  unfolding chain_set_def using is_chain_update by blast

lemma chain_set_insert:
  assumes "chain_set nx k S" "i \<notin> S" "i < length nx" "i < 4294967295"
  shows "chain_set (nx[i := k]) (of_nat i) (insert i S)"
proof -
  obtain js where js: "is_chain nx k js" "distinct js" "set js = S"
    using assms(1) unfolding chain_set_def by blast
  then have "is_chain (nx[i := k]) (of_nat i) (i # js)"
    using assms(2-4) is_chain_update [of nx k js i k] by simp
  with js assms(2) show ?thesis unfolding chain_set_def by (intro exI [of _ "i # js"]) auto
qed

text \<open>\<open>n_needles + 1\<close> steps of fuel reach the end of every chain.\<close>

lemma chain_set_fuel:
  assumes "chain_set nx k S" "S \<subseteq> {..<n}"
  obtains js where "is_chain nx k js" "distinct js" "set js = S" "length js < n + 1"
proof -
  obtain js where js: "is_chain nx k js" "distinct js" "set js = S"
    using assms(1) unfolding chain_set_def by blast
  have "length js = card S" using js distinct_card by metis
  also have "\<dots> \<le> card {..<n}" using assms(2) by (intro card_mono) auto
  finally show ?thesis using js that by simp
qed

section \<open>The contents of a matcher\<close>

text \<open>Byte \<open>j\<close> of needle \<open>i\<close>.\<close>

definition ndl_byte :: "sigma_str list \<Rightarrow> bytes \<Rightarrow> nat \<Rightarrow> nat \<Rightarrow> u8" where
  "ndl_byte ndl pool i j = pool ! (unat (st_off (ndl ! i)) + j)"

definition hash3 :: "sigma_str list \<Rightarrow> bytes \<Rightarrow> nat \<Rightarrow> u32" where
  "hash3 ndl pool i =
     teddy_hash (teddy_fp24 (ndl_byte ndl pool i 0) (ndl_byte ndl pool i 1) (ndl_byte ndl pool i 2))"

definition hash2 :: "sigma_str list \<Rightarrow> bytes \<Rightarrow> nat \<Rightarrow> u32" where
  "hash2 ndl pool i = teddy_hash (teddy_fp16 (ndl_byte ndl pool i 0) (ndl_byte ndl pool i 1))"

definition long_needle :: "sigma_str list \<Rightarrow> nat \<Rightarrow> bool" where
  "long_needle ndl i \<longleftrightarrow> 3 \<le> st_len (ndl ! i)"

text \<open>Needles the table is meant for: inside the pool and at least two bytes long.\<close>

definition needle_fits :: "sigma_str list \<Rightarrow> bytes \<Rightarrow> nat \<Rightarrow> bool" where
  "needle_fits ndl pool i \<longleftrightarrow>
     i < length ndl \<and> 2 \<le> unat (st_len (ndl ! i)) \<and>
     unat (st_off (ndl ! i)) + unat (st_len (ndl ! i)) \<le> length pool"

definition lut_marks :: "sigma_teddy \<Rightarrow> u8 \<Rightarrow> bool" where
  "lut_marks t c \<longleftrightarrow> t_lo_lut t ! unat (c AND 0x0F) = 1 \<and> t_hi_lut t ! unat (drop_bit 4 c) = 1"

definition teddy_wf :: "sigma_teddy \<Rightarrow> sigma_str list \<Rightarrow> bytes \<Rightarrow> nat set \<Rightarrow> bool" where
  "teddy_wf t ndl pool I \<longleftrightarrow>
     t_litndl t = ndl \<and> t_strpool t = pool \<and> t_n_needles t = length ndl \<and>
     length ndl < 4294967296 \<and>
     length (t_fp_next t) = length ndl \<and> length (t_fp2_next t) = length ndl \<and>
     length (t_fp_c2 t) = length ndl \<and> length (t_lo_lut t) = 16 \<and> length (t_hi_lut t) = 16 \<and>
     (\<forall>i \<in> I. needle_fits ndl pool i) \<and>
     (\<forall>h. chain_set (t_fp_next t) (t_fp_head t h) {i \<in> I. long_needle ndl i \<and> hash3 ndl pool i = h}) \<and>
     (\<forall>h. chain_set (t_fp2_next t) (t_fp2_head t h) {i \<in> I. \<not> long_needle ndl i \<and> hash2 ndl pool i = h}) \<and>
     (\<forall>i \<in> I. t_fp_c2 t ! i =
        (if long_needle ndl i then ucast (sigma_lc (ndl_byte ndl pool i 2)) else TEDDY_NO_C2)) \<and>
     (t_n_short t = 0 \<longrightarrow> (\<forall>i \<in> I. long_needle ndl i)) \<and>
     (\<forall>i \<in> I. \<forall>c. sigma_lc c = sigma_lc (ndl_byte ndl pool i 0) \<longrightarrow> lut_marks t c)"

lemma teddy_alloc_wf:
  "length ndl < 4294967296 \<Longrightarrow> teddy_wf (teddy_alloc ndl pool nx c2) ndl pool {}"
  by (simp add: teddy_wf_def teddy_alloc_def Let_def chain_set_empty)

lemma teddy_reset_wf:
  "teddy_wf t ndl pool I \<Longrightarrow> i \<notin> I \<Longrightarrow> teddy_wf (teddy_reset_links i t) ndl pool I"
  by (simp add: teddy_wf_def teddy_reset_links_def chain_set_update lut_marks_def)

section \<open>Marking first bytes\<close>

lemma nibble_bounds: "unat ((c :: u8) AND 0x0F) < 16" "unat (drop_bit 4 (c :: u8)) < 16"
proof -
  have "(c AND 0x0F) = take_bit 4 c" by (simp add: take_bit_eq_mask mask_numeral)
  then show "unat (c AND 0x0F) < 16" by (simp add: unsigned_take_bit_eq take_bit_nat_def)
  show "unat (drop_bit 4 c) < 16"
    using u8_bound [of c] by (simp add: unsigned_drop_bit_eq drop_bit_nat_def div_less_iff_less_mult take_bit_nat_def)
qed

lemma lut_mark_self:
  "length (t_lo_lut t) = 16 \<Longrightarrow> length (t_hi_lut t) = 16 \<Longrightarrow> lut_marks (teddy_mark_byte c t) c"
  by (simp add: lut_marks_def teddy_mark_byte_def nibble_bounds)

lemma list_update_keep: "xs ! j = x \<Longrightarrow> xs[i := x] ! j = x"
  by (cases "i < length xs") (auto simp: nth_list_update list_update_beyond not_less)

lemma lut_mark_keep: "lut_marks t b \<Longrightarrow> lut_marks (teddy_mark_byte c t) b"
  by (simp add: lut_marks_def teddy_mark_byte_def list_update_keep)

lemma lut_marks_links [simp]:
  "lut_marks (t\<lparr>t_fp_next := a, t_fp_head := b, t_fp_c2 := c\<rparr>) x = lut_marks t x"
  "lut_marks (t\<lparr>t_fp2_next := a, t_fp2_head := b, t_fp_c2 := c, t_n_short := n\<rparr>) x = lut_marks t x"
  by (simp_all add: lut_marks_def)

lemma teddy_mark_wf: "teddy_wf t ndl pool I \<Longrightarrow> teddy_wf (teddy_mark_byte c t) ndl pool I"
  using lut_mark_keep [of t _ c] by (simp add: teddy_wf_def) (simp add: teddy_mark_byte_def)

section \<open>Chaining one needle\<close>

text \<open>The table with needle \<open>i\<close> chained, before its first byte is marked.\<close>

definition wf_but_lut :: "sigma_teddy \<Rightarrow> sigma_str list \<Rightarrow> bytes \<Rightarrow> nat set \<Rightarrow> nat set \<Rightarrow> bool" where
  "wf_but_lut t ndl pool I J \<longleftrightarrow>
     t_litndl t = ndl \<and> t_strpool t = pool \<and> t_n_needles t = length ndl \<and>
     length ndl < 4294967296 \<and>
     length (t_fp_next t) = length ndl \<and> length (t_fp2_next t) = length ndl \<and>
     length (t_fp_c2 t) = length ndl \<and> length (t_lo_lut t) = 16 \<and> length (t_hi_lut t) = 16 \<and>
     (\<forall>i \<in> I. needle_fits ndl pool i) \<and>
     (\<forall>h. chain_set (t_fp_next t) (t_fp_head t h) {i \<in> I. long_needle ndl i \<and> hash3 ndl pool i = h}) \<and>
     (\<forall>h. chain_set (t_fp2_next t) (t_fp2_head t h) {i \<in> I. \<not> long_needle ndl i \<and> hash2 ndl pool i = h}) \<and>
     (\<forall>i \<in> I. t_fp_c2 t ! i =
        (if long_needle ndl i then ucast (sigma_lc (ndl_byte ndl pool i 2)) else TEDDY_NO_C2)) \<and>
     (t_n_short t = 0 \<longrightarrow> (\<forall>i \<in> I. long_needle ndl i)) \<and>
     (\<forall>i \<in> J. \<forall>c. sigma_lc c = sigma_lc (ndl_byte ndl pool i 0) \<longrightarrow> lut_marks t c)"

lemma teddy_wf_split: "teddy_wf t ndl pool I \<longleftrightarrow> wf_but_lut t ndl pool I I"
  by (simp add: teddy_wf_def wf_but_lut_def)

lemma long_3: "needle_fits ndl pool i \<Longrightarrow> long_needle ndl i \<Longrightarrow>
    unat (st_off (ndl ! i)) + 2 < length pool"
  by (auto simp: needle_fits_def long_needle_def word_le_nat_alt)

lemma fits_2: "needle_fits ndl pool i \<Longrightarrow> unat (st_off (ndl ! i)) + 1 < length pool"
  by (auto simp: needle_fits_def)

lemma chain_long_wf:
  assumes "wf_but_lut t ndl pool I I" "i \<notin> I" "needle_fits ndl pool i" "long_needle ndl i" "i < 4294967295"
  shows "wf_but_lut (t\<lparr>t_fp_next := (t_fp_next t)[i := t_fp_head t (hash3 ndl pool i)],
      t_fp_head := (t_fp_head t)(hash3 ndl pool i := of_nat i),
      t_fp_c2 := (t_fp_c2 t)[i := ucast (sigma_lc (ndl_byte ndl pool i 2))]\<rparr>) ndl pool (insert i I) I"
proof -
  have w: "\<forall>h. chain_set (t_fp_next t) (t_fp_head t h) {i \<in> I. long_needle ndl i \<and> hash3 ndl pool i = h}"
    using assms(1) by (simp add: wf_but_lut_def)
  have len: "i < length (t_fp_next t)"
    using assms(1,3) by (simp add: wf_but_lut_def needle_fits_def)
  have s: "{j. (j = i \<or> j \<in> I) \<and> long_needle ndl j \<and> hash3 ndl pool j = h} =
      (if h = hash3 ndl pool i then insert i {j \<in> I. long_needle ndl j \<and> hash3 ndl pool j = h}
       else {j \<in> I. long_needle ndl j \<and> hash3 ndl pool j = h})" for h
    using assms(4) by auto
  have s2: "{j. (j = i \<or> j \<in> I) \<and> \<not> long_needle ndl j \<and> hash2 ndl pool j = h} =
      {j \<in> I. \<not> long_needle ndl j \<and> hash2 ndl pool j = h}" for h
    using assms(4) by auto
  have "chain_set ((t_fp_next t)[i := t_fp_head t (hash3 ndl pool i)])
      (((t_fp_head t)(hash3 ndl pool i := of_nat i)) h)
      {j. (j = i \<or> j \<in> I) \<and> long_needle ndl j \<and> hash3 ndl pool j = h}" for h
    unfolding s using w assms(2,5) len
    by (simp add: chain_set_insert chain_set_update)
  with assms show ?thesis
    by (simp add: wf_but_lut_def s2 needle_fits_def nth_list_update)
qed

lemma chain_short_wf:
  assumes "wf_but_lut t ndl pool I I" "i \<notin> I" "needle_fits ndl pool i" "\<not> long_needle ndl i" "i < 4294967295"
  shows "wf_but_lut (t\<lparr>t_fp2_next := (t_fp2_next t)[i := t_fp2_head t (hash2 ndl pool i)],
      t_fp2_head := (t_fp2_head t)(hash2 ndl pool i := of_nat i),
      t_fp_c2 := (t_fp_c2 t)[i := TEDDY_NO_C2], t_n_short := t_n_short t + 1\<rparr>) ndl pool (insert i I) I"
proof -
  have w: "\<forall>h. chain_set (t_fp2_next t) (t_fp2_head t h) {i \<in> I. \<not> long_needle ndl i \<and> hash2 ndl pool i = h}"
    using assms(1) by (simp add: wf_but_lut_def)
  have len: "i < length (t_fp2_next t)"
    using assms(1,3) by (simp add: wf_but_lut_def needle_fits_def)
  have s: "{j. (j = i \<or> j \<in> I) \<and> \<not> long_needle ndl j \<and> hash2 ndl pool j = h} =
      (if h = hash2 ndl pool i then insert i {j \<in> I. \<not> long_needle ndl j \<and> hash2 ndl pool j = h}
       else {j \<in> I. \<not> long_needle ndl j \<and> hash2 ndl pool j = h})" for h
    using assms(4) by auto
  have s2: "{j. (j = i \<or> j \<in> I) \<and> long_needle ndl j \<and> hash3 ndl pool j = h} =
      {j \<in> I. long_needle ndl j \<and> hash3 ndl pool j = h}" for h
    using assms(4) by auto
  have "chain_set ((t_fp2_next t)[i := t_fp2_head t (hash2 ndl pool i)])
      (((t_fp2_head t)(hash2 ndl pool i := of_nat i)) h)
      {j. (j = i \<or> j \<in> I) \<and> \<not> long_needle ndl j \<and> hash2 ndl pool j = h}" for h
    unfolding s using w assms(2,5) len
    by (simp add: chain_set_insert chain_set_update)
  with assms show ?thesis
    by (simp add: wf_but_lut_def s2 needle_fits_def nth_list_update)
qed

lemma mark_first_wf:
  assumes "wf_but_lut t ndl pool (insert i I) I" "c = sigma_lc (ndl_byte ndl pool i 0)"
  shows "teddy_wf (teddy_mark_byte (upper_of c) (teddy_mark_byte c t)) ndl pool (insert i I)"
proof -
  let ?t = "teddy_mark_byte (upper_of c) (teddy_mark_byte c t)"
  have l: "length (t_lo_lut t) = 16" "length (t_hi_lut t) = 16" using assms(1) by (simp_all add: wf_but_lut_def)
  have "lut_marks ?t b" if "sigma_lc b = sigma_lc (ndl_byte ndl pool i 0)" for b
  proof -
    from that have "b = c \<or> b = upper_of c"
      using sigma_lc_two_case [of b "ndl_byte ndl pool i 0"] assms(2) by simp
    then show ?thesis
      using lut_mark_self [of t c] lut_mark_keep [of "teddy_mark_byte c t" c "upper_of c"]
        lut_mark_self [of "teddy_mark_byte c t" "upper_of c"] l
      by (auto simp: teddy_mark_byte_def)
  qed
  moreover have "lut_marks ?t b" if "lut_marks t b" for b
    using that lut_mark_keep by blast
  moreover have "wf_but_lut ?t ndl pool (insert i I) {}"
    using assms(1) by (simp add: wf_but_lut_def teddy_mark_byte_def)
  ultimately show ?thesis
    using assms(1) by (simp add: teddy_wf_split wf_but_lut_def)
qed

lemma teddy_insert_wf:
  assumes "teddy_wf t ndl pool I" "i \<notin> I" "needle_fits ndl pool i"
  shows "\<exists>t'. teddy_insert i t = Some t' \<and> teddy_wf t' ndl pool (insert i I)"
proof -
  have w: "wf_but_lut t ndl pool I I" using assms(1) by (simp add: teddy_wf_split)
  then have t: "t_litndl t = ndl" "t_strpool t = pool" "i < length ndl" "i < 4294967295"
    using assms(3) by (auto simp: wf_but_lut_def needle_fits_def)
  note b = fits_2 [OF assms(3)]
  show ?thesis
  proof (cases "long_needle ndl i")
    case True
    from chain_long_wf [OF w assms(2,3) True t(4)] long_3 [OF assms(3) True] b True t
    show ?thesis
      by (simp add: teddy_insert_def Let_def long_needle_def mark_first_wf hash3_def ndl_byte_def)
  next
    case False
    from chain_short_wf [OF w assms(2,3) False t(4)] b False t show ?thesis
      by (simp add: teddy_insert_def Let_def long_needle_def mark_first_wf hash2_def ndl_byte_def)
  qed
qed

section \<open>The two builds\<close>

lemma sigma_teddy_build_wf:
  assumes "ndl \<noteq> []" "length ndl < 4294967296" "\<forall>i < length ndl. needle_fits ndl pool i"
  shows "\<exists>t. sigma_teddy_build ndl pool = Some (Some t) \<and> teddy_wf t ndl pool {..<length ndl}"
proof -
  have "\<exists>t. mfold (\<lambda>i t. teddy_insert i (teddy_reset_links i t)) [0..<length ndl] (teddy_alloc ndl pool 0 0)
      = Some t \<and> teddy_wf t ndl pool (set [0..<length ndl])"
  proof (rule mfold_inv [where I = "\<lambda>ys t. teddy_wf t ndl pool (set ys)"])
    show "teddy_wf (teddy_alloc ndl pool 0 0) ndl pool (set [])"
      using teddy_alloc_wf [OF assms(2)] by simp
    fix ys x zs t assume xs: "[0..<length ndl] = ys @ x # zs" and w: "teddy_wf t ndl pool (set ys)"
    have "distinct (ys @ x # zs)" "set (ys @ x # zs) = {0..<length ndl}" unfolding xs [symmetric] by simp_all
    then have x: "x \<notin> set ys" "x < length ndl" by auto
    show "\<exists>t'. teddy_insert x (teddy_reset_links x t) = Some t' \<and> teddy_wf t' ndl pool (set (ys @ [x]))"
      using teddy_insert_wf [OF teddy_reset_wf [OF w x(1)] x(1)] assms(3) x(2) by simp
  qed
  with assms(1) show ?thesis
    by (auto simp: sigma_teddy_build_def lessThan_atLeast0)
qed

lemma sigma_teddy_build_subset_wf:
  assumes "ids \<noteq> []" "length ndl < 4294967296" "distinct ids" "\<forall>i \<in> set ids. needle_fits ndl pool i"
  shows "\<exists>t. sigma_teddy_build_subset ndl pool ids = Some (Some t) \<and> teddy_wf t ndl pool (set ids)"
proof -
  have "\<exists>t. mfold (\<lambda>i t. if i \<ge> length ndl then Some t else teddy_insert i t) ids
      (teddy_alloc ndl pool u32_max TEDDY_NO_C2) = Some t \<and> teddy_wf t ndl pool (set ids)"
  proof (rule mfold_inv [where I = "\<lambda>ys t. teddy_wf t ndl pool (set ys)"])
    show "teddy_wf (teddy_alloc ndl pool u32_max TEDDY_NO_C2) ndl pool (set [])"
      using teddy_alloc_wf [OF assms(2)] by simp
    fix ys x zs t assume xs: "ids = ys @ x # zs" and w: "teddy_wf t ndl pool (set ys)"
    then have x: "x \<notin> set ys" "needle_fits ndl pool x" using assms(3,4) by auto
    then show "\<exists>t'. (if x \<ge> length ndl then Some t else teddy_insert x t) = Some t' \<and>
        teddy_wf t' ndl pool (set (ys @ [x]))"
      using teddy_insert_wf [OF w x] by (simp add: needle_fits_def)
  qed
  moreover have "ndl \<noteq> []" using assms(1,4) by (cases ids) (auto simp: needle_fits_def)
  ultimately show ?thesis using assms(1) by (auto simp: sigma_teddy_build_subset_def)
qed

end
