(* ===== verification/Teddy_Confirm.thy ===== *)
theory Teddy_Confirm
  imports Teddy_Build
begin

text \<open>
  The confirm pass calls back exactly once for every needle of the table that occurs in the
  text, and for no other: the fingerprint chains, the short-needle table, the coarse chunk
  skip and the per-needle stamps lose nothing and repeat nothing.
\<close>

section \<open>Stamps\<close>

definition stamped :: "teddy_scratch \<Rightarrow> nat set" where
  "stamped scr = {k. k < length (ts_ndl_gen scr) \<and> ts_ndl_gen scr ! k = ts_gen scr}"

definition scratch_ok :: "nat \<Rightarrow> teddy_scratch \<Rightarrow> bool" where
  "scratch_ok n scr \<longleftrightarrow>
     length (ts_ndl_gen scr) = n \<and> (\<forall>k < n. ts_ndl_gen scr ! k \<le> ts_gen scr)"

lemma scratch_init_ok: "scratch_ok n (sigma_teddy_scratch_init n)"
  by (simp add: scratch_ok_def sigma_teddy_scratch_init_def)

text \<open>A new generation has no stamped needle, also when the counter wraps.\<close>

lemma scratch_next_fresh:
  assumes "scratch_ok n scr"
  shows "scratch_ok n (sigma_teddy_scratch_next scr)" "stamped (sigma_teddy_scratch_next scr) = {}"
proof -
  have lt: "ts_ndl_gen scr ! k < ts_gen scr + 1"
    if "ts_gen scr + 1 \<noteq> 0" "k < n" for k
  proof -
    have "ts_ndl_gen scr ! k \<le> ts_gen scr" using assms that(2) by (simp add: scratch_ok_def)
    moreover have "ts_gen scr < ts_gen scr + 1" using unatSuc [of "ts_gen scr"] that(1)
      by (simp add: word_less_nat_alt add.commute)
    ultimately show ?thesis by (rule order.strict_trans1)
  qed
  have len: "length (ts_ndl_gen scr) = n" using assms by (simp add: scratch_ok_def)
  show "scratch_ok n (sigma_teddy_scratch_next scr)"
    using len lt by (auto simp: scratch_ok_def sigma_teddy_scratch_next_def Let_def intro: less_imp_le)
  show "stamped (sigma_teddy_scratch_next scr) = {}"
    using len lt less_irrefl [of "ts_gen scr + 1"]
    by (auto simp: stamped_def sigma_teddy_scratch_next_def Let_def simp del: less_irrefl) metis
qed

section \<open>Confirmation steps\<close>

text \<open>
  A piece of the pass that confirms the needles \<open>M\<close>: it stamps them, and calls back once
  for each of them that was not stamped before.
\<close>

definition confirms ::
  "(nat \<Rightarrow> 's \<Rightarrow> 's option) \<Rightarrow> teddy_scratch \<times> 's \<Rightarrow> teddy_scratch \<times> 's \<Rightarrow> nat set \<Rightarrow> bool" where
  "confirms mark st st' M \<longleftrightarrow>
     ts_gen (fst st') = ts_gen (fst st) \<and>
     length (ts_ndl_gen (fst st')) = length (ts_ndl_gen (fst st)) \<and>
     (\<forall>k < length (ts_ndl_gen (fst st)).
        ts_ndl_gen (fst st') ! k = ts_ndl_gen (fst st) ! k \<or> ts_ndl_gen (fst st') ! k = ts_gen (fst st)) \<and>
     stamped (fst st') = stamped (fst st) \<union> M \<and>
     (\<exists>ms. distinct ms \<and> set ms = stamped (fst st') - stamped (fst st) \<and>
        mfold mark ms (snd st) = Some (snd st'))"

lemma confirms_none: "confirms mark st st {}"
  unfolding confirms_def by (auto intro!: exI [of _ "[]"])

lemma confirms_trans:
  assumes "confirms mark st st1 M1" "confirms mark st1 st2 M2"
  shows "confirms mark st st2 (M1 \<union> M2)"
proof -
  obtain ms1 ms2 where m1: "distinct ms1" "set ms1 = stamped (fst st1) - stamped (fst st)"
      "mfold mark ms1 (snd st) = Some (snd st1)"
    and m2: "distinct ms2" "set ms2 = stamped (fst st2) - stamped (fst st1)"
      "mfold mark ms2 (snd st1) = Some (snd st2)"
    using assms unfolding confirms_def by blast
  have sub: "stamped (fst st) \<subseteq> stamped (fst st1)" "stamped (fst st1) \<subseteq> stamped (fst st2)"
    using assms unfolding confirms_def by auto
  have "distinct (ms1 @ ms2)" using m1 m2 by auto
  moreover have "set (ms1 @ ms2) = stamped (fst st2) - stamped (fst st)" using m1 m2 sub by auto
  moreover have "mfold mark (ms1 @ ms2) (snd st) = Some (snd st2)" using m1 m2 by (simp add: mfold_append)
  ultimately have "\<exists>ms. distinct ms \<and> set ms = stamped (fst st2) - stamped (fst st) \<and>
      mfold mark ms (snd st) = Some (snd st2)" by blast
  moreover have "\<forall>k < length (ts_ndl_gen (fst st)).
      ts_ndl_gen (fst st2) ! k = ts_ndl_gen (fst st) ! k \<or> ts_ndl_gen (fst st2) ! k = ts_gen (fst st)"
    using assms unfolding confirms_def by metis
  ultimately show ?thesis using assms unfolding confirms_def by auto
qed

lemma confirms_count: "confirms mark (scr, s) (count_step scr, s) {}"
  unfolding confirms_def count_step_def stamped_def by (auto intro!: exI [of _ "[]"])

lemma confirms_again: "k \<in> stamped scr \<Longrightarrow> confirms mark (scr, s) (scr, s) {k}"
  unfolding confirms_def by (auto intro!: exI [of _ "[]"])

lemma confirms_stamp:
  assumes "k < length (ts_ndl_gen scr)" "k \<notin> stamped scr" "mark k s = Some s'"
  shows "confirms mark (scr, s) (scr\<lparr>ts_ndl_gen := (ts_ndl_gen scr)[k := ts_gen scr]\<rparr>, s') {k}"
proof -
  let ?scr = "scr\<lparr>ts_ndl_gen := (ts_ndl_gen scr)[k := ts_gen scr]\<rparr>"
  have st: "stamped ?scr = insert k (stamped scr)"
    using assms(1) by (auto simp: stamped_def nth_list_update)
  have "set [k] = stamped ?scr - stamped scr" using st assms(2) by auto
  then have "\<exists>ms. distinct ms \<and> set ms = stamped ?scr - stamped scr \<and> mfold mark ms s = Some s'"
    using assms(3) by (intro exI [of _ "[k]"]) simp
  with st assms(1) show ?thesis
    by (simp add: confirms_def nth_list_update)
qed

lemma confirms_scratch_ok:
  assumes "scratch_ok n (fst st)" "confirms mark st st' M"
  shows "scratch_ok n (fst st')"
  unfolding scratch_ok_def
proof (intro conjI allI impI)
  show "length (ts_ndl_gen (fst st')) = n"
    using assms by (simp add: scratch_ok_def confirms_def)
  fix k assume "k < n"
  with assms have "ts_ndl_gen (fst st) ! k \<le> ts_gen (fst st)"
    "ts_ndl_gen (fst st') ! k = ts_ndl_gen (fst st) ! k \<or> ts_ndl_gen (fst st') ! k = ts_gen (fst st)"
    "ts_gen (fst st') = ts_gen (fst st)"
    by (simp_all add: scratch_ok_def confirms_def)
  then show "ts_ndl_gen (fst st') ! k \<le> ts_gen (fst st')" by auto
qed

section \<open>One entry\<close>

lemma teddy_eq_ci_iff:
  "po + k \<le> length p \<Longrightarrow> no + k \<le> length n \<Longrightarrow>
   teddy_eq_ci p po n no k = Some (\<forall>i < k. sigma_lc (p ! (po + i)) = sigma_lc (n ! (no + i)))"
proof (induction k arbitrary: po no)
  case 0
  then show ?case by simp
next
  case (Suc k)
  have "(\<forall>i < Suc k. sigma_lc (p ! (po + i)) = sigma_lc (n ! (no + i))) \<longleftrightarrow>
    sigma_lc (p ! po) = sigma_lc (n ! no) \<and>
    (\<forall>i < k. sigma_lc (p ! (Suc po + i)) = sigma_lc (n ! (Suc no + i)))"
    by (auto simp: less_Suc_eq_0_disj)
  with Suc.IH [of "Suc po" "Suc no"] Suc.prems show ?case by auto
qed

abbreviation needle_at :: "sigma_str list \<Rightarrow> bytes \<Rightarrow> nat \<Rightarrow> bytes" where
  "needle_at ndl pool k \<equiv> str_bytes pool (ndl ! k)"

lemma needle_length: "needle_fits ndl pool k \<Longrightarrow> length (needle_at ndl pool k) = unat (st_len (ndl ! k))"
  by (simp add: needle_fits_def str_bytes_def length_rd)

lemma needle_byte:
  "needle_fits ndl pool k \<Longrightarrow> j < unat (st_len (ndl ! k)) \<Longrightarrow> needle_at ndl pool k ! j = ndl_byte ndl pool k j"
  by (simp add: needle_fits_def str_bytes_def rd_def ndl_byte_def)

lemma needle_occurs_at:
  assumes "needle_fits ndl pool k"
  shows "occurs_at sigma_lc buf (needle_at ndl pool k) pos \<longleftrightarrow>
    pos + unat (st_len (ndl ! k)) \<le> length buf \<and>
    (\<forall>j < unat (st_len (ndl ! k)). sigma_lc (buf ! (pos + j)) = sigma_lc (ndl_byte ndl pool k j))"
  using needle_byte [OF assms] by (auto simp: occurs_at_nth needle_length [OF assms])

lemma ucast_u16_no_c2: "(ucast (c :: u8) :: u16) \<noteq> TEDDY_NO_C2"
proof
  assume "(ucast c :: u16) = TEDDY_NO_C2"
  then have "unat (ucast c :: u16) = unat TEDDY_NO_C2" by simp
  with u8_bound [of c] show False by (simp add: unsigned_ucast_eq take_bit_nat_def)
qed

lemma ucast_u16_inj: "(ucast (a :: u8) :: u16) = ucast b \<longleftrightarrow> a = b"
proof
  assume "(ucast a :: u16) = ucast b"
  then have "unat (ucast a :: u16) = unat (ucast b :: u16)" by simp
  with u8_bound [of a] u8_bound [of b] show "a = b"
    by (simp add: unsigned_ucast_eq take_bit_nat_def word_unat_eq_iff)
qed simp

lemma teddy_test_iff:
  assumes wf: "teddy_wf t ndl pool I" and k: "k \<in> I" and len: "length (ts_ndl_gen scr) = length ndl"
    and pos: "pos \<le> length buf"
  shows "teddy_test t buf (length buf - pos) pos scr k =
    Some (k \<notin> stamped scr \<and> occurs_at sigma_lc buf (needle_at ndl pool k) pos)"
proof -
  have fits: "needle_fits ndl pool k" using wf k by (simp add: teddy_wf_def)
  then have kn: "k < length ndl" "unat (st_off (ndl ! k)) + unat (st_len (ndl ! k)) \<le> length pool"
    by (simp_all add: needle_fits_def)
  have t: "t_litndl t = ndl" "t_strpool t = pool" "length (t_fp_c2 t) = length ndl"
    "t_fp_c2 t ! k = (if long_needle ndl k then ucast (sigma_lc (ndl_byte ndl pool k 2)) else TEDDY_NO_C2)"
    using wf k by (simp_all add: teddy_wf_def)
  have eq: "teddy_eq_ci buf pos pool (unat (st_off (ndl ! k))) (unat (st_len (ndl ! k)))
      = Some (occurs_at sigma_lc buf (needle_at ndl pool k) pos)"
    if "unat (st_len (ndl ! k)) \<le> length buf - pos"
  proof -
    have "pos + unat (st_len (ndl ! k)) \<le> length buf" using that pos by linarith
    then show ?thesis
      using kn teddy_eq_ci_iff [of pos "unat (st_len (ndl ! k))" buf "unat (st_off (ndl ! k))" pool]
      by (simp add: needle_occurs_at [OF fits] ndl_byte_def)
  qed
  have long: "2 < unat (st_len (ndl ! k))" if "long_needle ndl k"
    using that by (simp add: long_needle_def word_le_nat_alt)
  have third: "sigma_lc (buf ! (pos + 2)) = sigma_lc (ndl_byte ndl pool k 2) \<and> pos + 2 < length buf"
    if "long_needle ndl k" "occurs_at sigma_lc buf (needle_at ndl pool k) pos"
    using that long by (auto simp: needle_occurs_at [OF fits])
  show ?thesis
    using kn len t eq pos long third needle_occurs_at [OF fits, of buf pos]
    by (auto simp: teddy_test_def stamped_def ucast_u16_no_c2 ucast_u16_inj not_less)
qed

section \<open>The pass\<close>

text \<open>The contract of the callback: on its states it does not fail for a needle index.\<close>

locale teddy_client =
  fixes mark :: "nat \<Rightarrow> 's \<Rightarrow> 's option" and ok :: "'s \<Rightarrow> bool" and n :: nat
  assumes mark_ok: "k < n \<Longrightarrow> ok s \<Longrightarrow> \<exists>s'. mark k s = Some s' \<and> ok s'"
begin

lemma teddy_walk_ok:
  assumes "teddy_wf t ndl pool I" "n = length ndl" "pos \<le> length buf" "length nx = n"
  shows "is_chain nx k ks \<Longrightarrow> length ks < fuel \<Longrightarrow> set ks \<subseteq> I \<Longrightarrow> length (ts_ndl_gen scr) = n \<Longrightarrow> ok s \<Longrightarrow>
    \<exists>st'. teddy_walk fuel t buf (length buf - pos) pos nx mark k (scr, s) = Some st' \<and> ok (snd st') \<and>
      confirms mark (scr, s) st' {j \<in> set ks. occurs_at sigma_lc buf (needle_at ndl pool j) pos}"
proof (induction ks arbitrary: k fuel scr s)
  case Nil
  then show ?case by (cases fuel) (auto simp: confirms_none)
next
  case (Cons j js)
  then obtain f where f: "fuel = Suc f" "length js < f" by (cases fuel) auto
  have k: "k = of_nat j" "j < length nx" "is_chain nx (nx ! j) js" "j < 4294967295" using Cons.prems(1) by auto
  then have kj: "unat k = j" "k \<noteq> u32_max"
    by (simp_all add: unat_of_nat word_unat_eq_iff)
  have jI: "j \<in> I" "j < n" using Cons.prems(3) assms k(2) by auto
  let ?o = "\<lambda>j. occurs_at sigma_lc buf (needle_at ndl pool j) pos"
  let ?scr = "count_step scr"
  have st: "stamped ?scr = stamped scr" "length (ts_ndl_gen ?scr) = n"
    using Cons.prems(4) by (simp_all add: stamped_def count_step_def)
  have test: "teddy_test t buf (length buf - pos) pos ?scr j = Some (j \<notin> stamped scr \<and> ?o j)"
    using teddy_test_iff [OF assms(1) jI(1), of ?scr pos buf] st assms(2,3) by simp
  have "\<exists>scr1 s1. ok s1 \<and> length (ts_ndl_gen scr1) = n \<and>
      confirms mark (scr, s) (scr1, s1) (if ?o j then {j} else {}) \<and>
      teddy_walk fuel t buf (length buf - pos) pos nx mark k (scr, s) =
      teddy_walk f t buf (length buf - pos) pos nx mark (nx ! j) (scr1, s1)"
  proof (cases "j \<notin> stamped scr \<and> ?o j")
    case True
    obtain s1 where s1: "mark j s = Some s1" "ok s1" using mark_ok jI(2) Cons.prems(5) by blast
    let ?scr1 = "?scr\<lparr>ts_ndl_gen := (ts_ndl_gen ?scr)[j := ts_gen ?scr]\<rparr>"
    have "confirms mark (?scr, s) (?scr1, s1) {j}"
      using confirms_stamp [of j ?scr mark s s1] jI(2) True s1(1) st by simp
    from confirms_trans [OF confirms_count this]
    have "confirms mark (scr, s) (?scr1, s1) {j}" by simp
    with s1 True st kj k(2) jI(2) test f show ?thesis
      by (intro exI [of _ ?scr1] exI [of _ s1]) (simp add: Let_def)
  next
    case False
    have "confirms mark (?scr, s) (?scr, s) (if ?o j then {j} else {})"
      using False st confirms_again [of j ?scr mark s] confirms_none [of mark "(?scr, s)"] by auto
    from confirms_trans [OF confirms_count this]
    have "confirms mark (scr, s) (?scr, s) (if ?o j then {j} else {})" by simp
    with False Cons.prems(5) st kj k(2) test f show ?thesis
      by (intro exI [of _ ?scr] exI [of _ s]) (auto simp: Let_def)
  qed
  then obtain scr1 s1 where 1: "ok s1" "length (ts_ndl_gen scr1) = n"
      "confirms mark (scr, s) (scr1, s1) (if ?o j then {j} else {})"
      "teddy_walk fuel t buf (length buf - pos) pos nx mark k (scr, s) =
       teddy_walk f t buf (length buf - pos) pos nx mark (nx ! j) (scr1, s1)" by blast
  from Cons.IH [OF k(3) f(2) _ 1(2,1)] Cons.prems(3) obtain st' where 2:
    "teddy_walk f t buf (length buf - pos) pos nx mark (nx ! j) (scr1, s1) = Some st'" "ok (snd st')"
    "confirms mark (scr1, s1) st' {j \<in> set js. ?o j}" by auto
  have "(if ?o j then {j} else {}) \<union> {j \<in> set js. ?o j} = {i \<in> set (j # js). ?o i}" by auto
  with confirms_trans [OF 1(3) 2(3)] 1(4) 2(1,2) show ?case by auto
qed

text \<open>Probing one position confirms the needles that occur there.\<close>

lemma teddy_probe_ok:
  assumes wf: "teddy_wf t ndl pool I" and n: "n = length ndl" and pos: "pos + 1 < length buf"
    and gens: "length (ts_ndl_gen (fst st)) = n" and s: "ok (snd st)"
  shows "\<exists>st'. teddy_probe_at t buf mark pos st = Some st' \<and> ok (snd st') \<and>
      confirms mark st st' {j \<in> I. occurs_at sigma_lc buf (needle_at ndl pool j) pos}"
proof -
  let ?o = "\<lambda>j. occurs_at sigma_lc buf (needle_at ndl pool j) pos"
  let ?h3 = "teddy_hash (teddy_fp24 (buf ! pos) (buf ! (pos + 1)) (buf ! (pos + 2)))"
  let ?h2 = "teddy_hash (teddy_fp16 (buf ! pos) (buf ! (pos + 1)))"
  let ?S3 = "{j \<in> I. long_needle ndl j \<and> hash3 ndl pool j = ?h3}"
  let ?S2 = "{j \<in> I. \<not> long_needle ndl j \<and> hash2 ndl pool j = ?h2}"
  have I: "I \<subseteq> {..<length ndl}" "\<And>j. j \<in> I \<Longrightarrow> needle_fits ndl pool j"
    using wf by (auto simp: teddy_wf_def needle_fits_def)
  have nn: "t_n_needles t = length ndl" "length (t_fp_next t) = n" "length (t_fp2_next t) = n"
    using wf n by (simp_all add: teddy_wf_def)
  have walk: "\<exists>st'. teddy_walk (length ndl + 1) t buf (length buf - pos) pos nx mark k st1 = Some st' \<and>
      ok (snd st') \<and> confirms mark st1 st' {j \<in> S. ?o j}"
    if "chain_set nx k S" "S \<subseteq> I" "length nx = n" "length (ts_ndl_gen (fst st1)) = n" "ok (snd st1)" for nx k S st1
  proof -
    have "S \<subseteq> {..<length ndl}" using that(2) I(1) by auto
    from chain_set_fuel [OF that(1) this]
    obtain ks where "is_chain nx k ks" "set ks = S" "length ks < length ndl + 1" by metis
    with teddy_walk_ok [OF wf n _ that(3), of pos buf k ks "length ndl + 1" "fst st1" "snd st1"] that pos
    show ?thesis by simp
  qed
  have occ3: "hash3 ndl pool j = ?h3 \<and> pos + 2 < length buf" if "j \<in> I" "long_needle ndl j" "?o j" for j
  proof -
    have ge: "3 \<le> unat (st_len (ndl ! j))" using that(2) by (simp add: long_needle_def word_le_nat_alt)
    have le: "pos + unat (st_len (ndl ! j)) \<le> length buf"
      and all: "\<And>i. i < unat (st_len (ndl ! j)) \<Longrightarrow> sigma_lc (buf ! (pos + i)) = sigma_lc (ndl_byte ndl pool j i)"
      using that(3) needle_occurs_at [OF I(2) [OF that(1)], of buf pos] by simp_all
    from all [of 0] all [of 1] all [of 2] ge le show ?thesis
      by (simp add: hash3_def teddy_fp24_def teddy_fp16_def)
  qed
  have occ2: "hash2 ndl pool j = ?h2" if "j \<in> I" "?o j" for j
  proof -
    have ge: "2 \<le> unat (st_len (ndl ! j))" using I(2) [OF that(1)] by (simp add: needle_fits_def)
    have all: "\<And>i. i < unat (st_len (ndl ! j)) \<Longrightarrow> sigma_lc (buf ! (pos + i)) = sigma_lc (ndl_byte ndl pool j i)"
      using that(2) needle_occurs_at [OF I(2) [OF that(1)], of buf pos] by simp
    from all [of 0] all [of 1] ge show ?thesis by (simp add: hash2_def teddy_fp16_def)
  qed
  have "\<exists>st1. (if length buf - pos \<ge> 3 then teddy_walk (length ndl + 1) t buf (length buf - pos) pos
        (t_fp_next t) mark (t_fp_head t ?h3) st else Some st) = Some st1 \<and> ok (snd st1) \<and>
      confirms mark st st1 {j \<in> I. long_needle ndl j \<and> ?o j}"
  proof (cases "length buf - pos \<ge> 3")
    case True
    have "{j \<in> ?S3. ?o j} = {j \<in> I. long_needle ndl j \<and> ?o j}" using occ3 by auto
    moreover have "chain_set (t_fp_next t) (t_fp_head t ?h3) ?S3" using wf by (simp add: teddy_wf_def)
    ultimately show ?thesis using walk [of "t_fp_next t" _ ?S3 st] True nn gens s by auto
  next
    case False
    then have e: "{j \<in> I. long_needle ndl j \<and> ?o j} = {}" using occ3 by fastforce
    show ?thesis unfolding e using False s confirms_none [of mark st] by simp
  qed
  then obtain st1 where 1: "(if length buf - pos \<ge> 3 then teddy_walk (length ndl + 1) t buf (length buf - pos) pos
        (t_fp_next t) mark (t_fp_head t ?h3) st else Some st) = Some st1" "ok (snd st1)"
      "confirms mark st st1 {j \<in> I. long_needle ndl j \<and> ?o j}" by blast
  have g1: "length (ts_ndl_gen (fst st1)) = n" using 1(3) gens by (simp add: confirms_def)
  have "\<exists>st2. (if t_n_short t \<noteq> 0 then teddy_walk (length ndl + 1) t buf (length buf - pos) pos
        (t_fp2_next t) mark (t_fp2_head t ?h2) st1 else Some st1) = Some st2 \<and> ok (snd st2) \<and>
      confirms mark st1 st2 {j \<in> I. \<not> long_needle ndl j \<and> ?o j}"
  proof (cases "t_n_short t \<noteq> 0")
    case True
    have "{j \<in> ?S2. ?o j} = {j \<in> I. \<not> long_needle ndl j \<and> ?o j}" using occ2 by auto
    moreover have "chain_set (t_fp2_next t) (t_fp2_head t ?h2) ?S2" using wf by (simp add: teddy_wf_def)
    ultimately show ?thesis using walk [of "t_fp2_next t" _ ?S2 st1] True nn g1 1(2) by auto
  next
    case False
    then have e: "{j \<in> I. \<not> long_needle ndl j \<and> ?o j} = {}" using wf by (auto simp: teddy_wf_def)
    show ?thesis unfolding e using False 1(2) confirms_none [of mark st1] by simp
  qed
  then obtain st2 where 2: "(if t_n_short t \<noteq> 0 then teddy_walk (length ndl + 1) t buf (length buf - pos) pos
        (t_fp2_next t) mark (t_fp2_head t ?h2) st1 else Some st1) = Some st2" "ok (snd st2)"
      "confirms mark st1 st2 {j \<in> I. \<not> long_needle ndl j \<and> ?o j}" by blast
  have "{j \<in> I. long_needle ndl j \<and> ?o j} \<union> {j \<in> I. \<not> long_needle ndl j \<and> ?o j} = {j \<in> I. ?o j}" by auto
  with confirms_trans [OF 1(3) 2(3)] have "confirms mark st st2 {j \<in> I. ?o j}" by simp
  moreover have "teddy_probe_at t buf mark pos st = Some st2"
    using 1(1) 2(1) pos nn(1)
    by (cases "length buf - pos \<ge> 3"; cases "t_n_short t \<noteq> 0")
      (simp_all add: teddy_probe_at_def Let_def)
  ultimately show ?thesis using 2(2) by blast
qed

text \<open>A run of positions.\<close>

lemma teddy_probes_ok:
  assumes wf: "teddy_wf t ndl pool I" and n: "n = length ndl"
    and ps: "\<forall>p \<in> set ps. p + 1 < length buf"
  shows "length (ts_ndl_gen (fst st)) = n \<Longrightarrow> ok (snd st) \<Longrightarrow>
    \<exists>st'. mfold (teddy_probe_at t buf mark) ps st = Some st' \<and> ok (snd st') \<and>
      confirms mark st st' {j \<in> I. \<exists>p \<in> set ps. occurs_at sigma_lc buf (needle_at ndl pool j) p}"
  using ps
proof (induction ps arbitrary: st)
  case Nil
  then show ?case by (simp add: confirms_none)
next
  case (Cons p ps)
  let ?o = "\<lambda>j. occurs_at sigma_lc buf (needle_at ndl pool j)"
  from teddy_probe_ok [OF wf n _ Cons.prems(1,2), of p buf] Cons.prems(3)
  obtain st1 where 1: "teddy_probe_at t buf mark p st = Some st1" "ok (snd st1)"
    "confirms mark st st1 {j \<in> I. ?o j p}" by auto
  then have "length (ts_ndl_gen (fst st1)) = n" using Cons.prems(1) by (simp add: confirms_def)
  from Cons.IH [OF this 1(2)] Cons.prems(3) obtain st2 where
    2: "mfold (teddy_probe_at t buf mark) ps st1 = Some st2" "ok (snd st2)"
      "confirms mark st1 st2 {j \<in> I. \<exists>p \<in> set ps. ?o j p}" by auto
  have "{j \<in> I. ?o j p} \<union> {j \<in> I. \<exists>p \<in> set ps. ?o j p} = {j \<in> I. \<exists>p \<in> set (p # ps). ?o j p}" by auto
  with confirms_trans [OF 1(3) 2(3)] 1(1) 2(1,2) show ?case by auto
qed

text \<open>The coarse skip loses no occurrence.\<close>

lemma chunk_skip:
  assumes wf: "teddy_wf t ndl pool I" and j: "j \<in> I"
    and o: "occurs_at sigma_lc buf (needle_at ndl pool j) p" and p: "i \<le> p" "p < i + 16"
  shows "teddy_chunk_interesting t buf i"
proof -
  have fits: "needle_fits ndl pool j" using wf j by (simp add: teddy_wf_def)
  then have "2 \<le> unat (st_len (ndl ! j))" by (simp add: needle_fits_def)
  moreover have "\<And>i. i < unat (st_len (ndl ! j)) \<Longrightarrow> sigma_lc (buf ! (p + i)) = sigma_lc (ndl_byte ndl pool j i)"
    using o needle_occurs_at [OF fits, of buf p] by simp
  from this [of 0] calculation have "sigma_lc (buf ! p) = sigma_lc (ndl_byte ndl pool j 0)" by simp
  then have "lut_marks t (buf ! p)" using wf j by (simp add: teddy_wf_def)
  then have "(t_lo_lut t ! unat (buf ! (i + (p - i)) AND 0x0F)) AND
      (t_hi_lut t ! unat (drop_bit 4 (buf ! (i + (p - i))))) \<noteq> 0"
    using p(1) by (simp add: lut_marks_def)
  moreover have "p - i \<in> set [0..<16]" using p by auto
  ultimately show ?thesis unfolding teddy_chunk_interesting_def list_ex_iff by blast
qed

lemma teddy_sweep_ok:
  assumes wf: "teddy_wf t ndl pool I" and n: "n = length ndl"
  shows "length (ts_ndl_gen (fst st)) = n \<Longrightarrow> ok (snd st) \<Longrightarrow>
    \<exists>i' st'. teddy_sweep t buf mark i st = Some (i', st') \<and> i \<le> i' \<and> ok (snd st') \<and>
      confirms mark st st' {j \<in> I. \<exists>p. i \<le> p \<and> p < i' \<and> p + 1 < length buf \<and>
        occurs_at sigma_lc buf (needle_at ndl pool j) p}"
proof (induction "length buf - i" arbitrary: i st rule: less_induct)
  case less
  let ?o = "\<lambda>j. occurs_at sigma_lc buf (needle_at ndl pool j)"
  show ?case
  proof (cases "i + 16 \<le> length buf")
    case False
    have e: "{j \<in> I. \<exists>p. i \<le> p \<and> p < i \<and> p + 1 < length buf \<and> ?o j p} = {}" by auto
    have "confirms mark st st {j \<in> I. \<exists>p. i \<le> p \<and> p < i \<and> p + 1 < length buf \<and> ?o j p}"
      unfolding e by (rule confirms_none)
    with False less.prems(2) show ?thesis
      by (intro exI [of _ i] exI [of _ st]) (simp add: teddy_sweep.simps [of t buf mark i st])
  next
    case True
    have "\<exists>st1. (if \<not> teddy_chunk_interesting t buf i then Some st
        else mfold (teddy_probe_at t buf mark) [i..<min (i + 16) (length buf - 1)] st) = Some st1 \<and>
        ok (snd st1) \<and> confirms mark st st1 {j \<in> I. \<exists>p. i \<le> p \<and> p < i + 16 \<and> p + 1 < length buf \<and> ?o j p}"
    proof (cases "teddy_chunk_interesting t buf i")
      case False
      then have e: "{j \<in> I. \<exists>p. i \<le> p \<and> p < i + 16 \<and> p + 1 < length buf \<and> ?o j p} = {}"
        using chunk_skip [OF wf] by blast
      show ?thesis unfolding e using False less.prems(2) confirms_none [of mark st] by simp
    next
      case c: True
      have e: "{j \<in> I. \<exists>p \<in> set [i..<min (i + 16) (length buf - 1)]. ?o j p} =
        {j \<in> I. \<exists>p. i \<le> p \<and> p < i + 16 \<and> p + 1 < length buf \<and> ?o j p}"
        unfolding Bex_def set_upt atLeastLessThan_iff min_less_iff_conj less_diff_conv
        by (simp add: conj_assoc)
      have "\<forall>p \<in> set [i..<min (i + 16) (length buf - 1)]. p + 1 < length buf" by auto
      from teddy_probes_ok [OF wf n this less.prems] c show ?thesis unfolding e by simp
    qed
    then obtain st1 where 1: "(if \<not> teddy_chunk_interesting t buf i then Some st
        else mfold (teddy_probe_at t buf mark) [i..<min (i + 16) (length buf - 1)] st) = Some st1"
        "ok (snd st1)" "confirms mark st st1 {j \<in> I. \<exists>p. i \<le> p \<and> p < i + 16 \<and> p + 1 < length buf \<and> ?o j p}"
      by blast
    have "length (ts_ndl_gen (fst st1)) = n" using 1(3) less.prems(1) by (simp add: confirms_def)
    moreover have "length buf - (i + 16) < length buf - i" using True by simp
    ultimately obtain i' st2 where 2: "teddy_sweep t buf mark (i + 16) st1 = Some (i', st2)" "i + 16 \<le> i'"
      "ok (snd st2)" "confirms mark st1 st2 {j \<in> I. \<exists>p. i + 16 \<le> p \<and> p < i' \<and> p + 1 < length buf \<and> ?o j p}"
      using less.hyps [of "i + 16" st1] 1(2) by blast
    have e: "{j \<in> I. \<exists>p. i \<le> p \<and> p < i + 16 \<and> p + 1 < length buf \<and> ?o j p} \<union>
        {j \<in> I. \<exists>p. i + 16 \<le> p \<and> p < i' \<and> p + 1 < length buf \<and> ?o j p} =
        {j \<in> I. \<exists>p. i \<le> p \<and> p < i' \<and> p + 1 < length buf \<and> ?o j p}"
      using 2(2) by (auto simp: not_less [symmetric]) (meson add_leD1 less_le_trans not_less)+
    have "teddy_sweep t buf mark i st = teddy_sweep t buf mark (i + 16) st1"
      using 1(1) True by (auto simp: teddy_sweep.simps [of t buf mark i st] split: if_splits)
    then show ?thesis
      using 2(1-3) confirms_trans [OF 1(3) 2(4)] unfolding e by (intro exI [of _ i'] exI [of _ st2]) simp
  qed
qed

text \<open>The whole pass.\<close>

lemma teddy_confirm_ok:
  assumes wf: "teddy_wf t ndl pool I" and n: "n = length ndl" "ndl \<noteq> []"
    and scr: "scratch_ok n scr" and s: "ok s"
  shows "\<exists>scr' s' ms. teddy_confirm arch t buf mark (scr, s) = Some (scr', s') \<and> scratch_ok n scr' \<and> ok s' \<and>
    distinct ms \<and> set ms = {j \<in> I. occurs sigma_lc buf (needle_at ndl pool j)} \<and> mfold mark ms s = Some s'"
proof -
  let ?o = "\<lambda>j. occurs_at sigma_lc buf (needle_at ndl pool j)"
  have two: "p + 1 < length buf" if "j \<in> I" "?o j p" for j p
  proof -
    have fits: "needle_fits ndl pool j" using wf that(1) by (simp add: teddy_wf_def)
    with that(2) needle_occurs_at [OF fits, of buf p] show ?thesis by (simp add: needle_fits_def)
  qed
  have nz: "ts_ndl_gen scr \<noteq> []" using scr n by (auto simp: scratch_ok_def)
  show ?thesis
  proof (cases "length buf < 2")
    case True
    have e: "{j \<in> I. occurs sigma_lc buf (needle_at ndl pool j)} = {}"
      using two True by (fastforce simp: occurs_iff)
    have "teddy_confirm arch t buf mark (scr, s) = Some (scr, s)" using True by (simp add: teddy_confirm_def)
    with scr s show ?thesis unfolding e by (intro exI [of _ scr] exI [of _ s] exI [of _ "[]"]) simp
  next
    case False
    let ?st0 = "(sigma_teddy_scratch_next scr, s)"
    note fresh = scratch_next_fresh [OF scr]
    have g0: "length (ts_ndl_gen (fst ?st0)) = n" using fresh(1) by (simp add: scratch_ok_def)
    have "\<exists>i st1. (if arch = SCALAR then Some (0, ?st0) else teddy_sweep t buf mark 0 ?st0) = Some (i, st1) \<and>
      ok (snd st1) \<and> confirms mark ?st0 st1 {j \<in> I. \<exists>p < i. p + 1 < length buf \<and> ?o j p}"
    proof (cases "arch = SCALAR")
      case True
      have e: "{j \<in> I. \<exists>p < 0. p + 1 < length buf \<and> ?o j p} = {}" by auto
      have "confirms mark ?st0 ?st0 {j \<in> I. \<exists>p < 0. p + 1 < length buf \<and> ?o j p}"
        unfolding e by (rule confirms_none)
      with True s show ?thesis
        by (intro exI [of _ "0::nat"] exI [of _ ?st0]) simp
    next
      case False
      with teddy_sweep_ok [OF wf n(1) g0, where i = 0 and buf = buf] s show ?thesis by auto
    qed
    then obtain i st1 where 1: "(if arch = SCALAR then Some (0, ?st0) else teddy_sweep t buf mark 0 ?st0) = Some (i, st1)"
      "ok (snd st1)" "confirms mark ?st0 st1 {j \<in> I. \<exists>p < i. p + 1 < length buf \<and> ?o j p}" by blast
    have g1: "length (ts_ndl_gen (fst st1)) = n" using 1(3) g0 by (simp add: confirms_def)
    have "\<forall>p \<in> set [i..<length buf - 1]. p + 1 < length buf" by auto
    from teddy_probes_ok [OF wf n(1) this g1 1(2)]
    obtain st2 where 2: "mfold (teddy_probe_at t buf mark) [i..<length buf - 1] st1 = Some st2" "ok (snd st2)"
      "confirms mark st1 st2 {j \<in> I. \<exists>p \<in> set [i..<length buf - 1]. ?o j p}" by blast
    have e: "{j \<in> I. \<exists>p < i. p + 1 < length buf \<and> ?o j p} \<union>
        {j \<in> I. \<exists>p \<in> set [i..<length buf - 1]. ?o j p} = {j \<in> I. occurs sigma_lc buf (needle_at ndl pool j)}"
      unfolding occurs_iff Bex_def set_upt atLeastLessThan_iff less_diff_conv
      using two by (auto simp: not_less) (metis not_less)
    have c: "confirms mark ?st0 st2 {j \<in> I. occurs sigma_lc buf (needle_at ndl pool j)}"
      using confirms_trans [OF 1(3) 2(3)] unfolding e .
    then obtain ms where ms: "distinct ms"
      "set ms = {j \<in> I. occurs sigma_lc buf (needle_at ndl pool j)}" "mfold mark ms s = Some (snd st2)"
      unfolding confirms_def using fresh(2) by auto
    have "teddy_confirm arch t buf mark (scr, s) = Some st2"
      using False nz 1(1) 2(1) by (auto simp: teddy_confirm_def Let_def split: if_splits)
    with ms 2(2) confirms_scratch_ok [OF _ c] fresh(1) show ?thesis
      by (intro exI [of _ "fst st2"] exI [of _ "snd st2"] exI [of _ ms]) simp
  qed
qed

end

end
