(* ===== verification/Finalize_Spec.thy ===== *)
theory Finalize_Spec
  imports Finalize Match_Spec Teddy_Confirm
begin

text \<open>
  What \<open>sigma_db_finalize\<close> builds from a well-formed database: matchers that hold exactly
  the needles they are meant for, bitmaps that cover every field a bucket's rules name, and
  a regex table that agrees with the patterns.
\<close>

section \<open>Bitmaps\<close>

definition bits_le :: "bytes \<Rightarrow> bytes \<Rightarrow> bool" where
  "bits_le a b \<longleftrightarrow> length a = length b \<and> (\<forall>k < length a. \<forall>j. bit (a ! k) j \<longrightarrow> bit (b ! k) j)"

lemma bits_le_refl: "bits_le a a"
  by (simp add: bits_le_def)

lemma bits_le_trans: "bits_le a b \<Longrightarrow> bits_le b c \<Longrightarrow> bits_le a c"
  by (simp add: bits_le_def)

definition field_bit :: "bytes \<Rightarrow> nat \<Rightarrow> nat \<Rightarrow> bool" where
  "field_bit bm row f \<longleftrightarrow> row + f div 8 < length bm \<and> bit (bm ! (row + f div 8)) (f mod 8)"

lemma field_bit_keep: "field_bit a row f \<Longrightarrow> bits_le a b \<Longrightarrow> field_bit b row f"
  by (simp add: field_bit_def bits_le_def)

lemma bit_push_1: "j < 8 \<Longrightarrow> bit (push_bit j (1 :: u8)) j"
  by (simp add: bit_exp_iff possible_bit_word)

lemma set_field_bit_ok:
  assumes "row + f div 8 < length bm"
  shows "\<exists>bm'. set_field_bit row f bm = Some bm' \<and> length bm' = length bm \<and> bits_le bm bm' \<and> field_bit bm' row f"
  using assms bit_push_1 [of "f mod 8"]
  by (auto simp: set_field_bit_def bits_le_def field_bit_def nth_list_update bit_or_iff)

text \<open>The fields a rule's predicates name.\<close>

definition sel_fields :: "sigma_db \<Rightarrow> sigma_sel \<Rightarrow> nat set" where
  "sel_fields d s = (\<lambda>p. unat (p_field p)) ` set (sel_preds d s)"

definition rule_fields :: "sigma_db \<Rightarrow> sigma_rule \<Rightarrow> nat set" where
  "rule_fields d r = (\<Union>s \<in> set (rule_sels d r). sel_fields d s)"

definition row_ok :: "sigma_db \<Rightarrow> nat \<Rightarrow> nat \<Rightarrow> bool" where
  "row_ok d row n \<longleftrightarrow> (\<forall>f < length (db_fields d). row + f div 8 < n)"

lemma nth_in_slice: "a + n \<le> length xs \<Longrightarrow> x \<in> set (take n (drop a xs)) \<longleftrightarrow> (\<exists>i \<in> set [a..<a + n]. x = xs ! i)"
  by (simp flip: map_nth_upt add: image_iff Bex_def)

lemma mark_sel_fields_ok:
  assumes "sel_ok d s" "row_ok d row n" "length bm = n" "sel_fields d s \<subseteq> {..<length (db_fields d)}"
  shows "\<exists>bm'. mark_sel_fields d row s bm = Some bm' \<and> length bm' = n \<and> bits_le bm bm' \<and>
    (\<forall>f \<in> sel_fields d s. field_bit bm' row f)"
proof -
  have b: "unat (s_start s) + unat (s_count s) \<le> length (db_preds d)" using assms(1) by (simp add: sel_ok_def)
  have in_fields: "unat (p_field (db_preds d ! pi)) < length (db_fields d)"
    if "pi \<in> set [unat (s_start s)..<unat (s_start s) + unat (s_count s)]" for pi
    using assms(4) that nth_in_slice [OF b] unfolding sel_fields_def sel_preds_def by blast
  have "\<exists>bm'. mark_sel_fields d row s bm = Some bm' \<and> length bm' = n \<and> bits_le bm bm' \<and>
    (\<forall>pi \<in> set [unat (s_start s)..<unat (s_start s) + unat (s_count s)].
       field_bit bm' row (unat (p_field (db_preds d ! pi))))"
    unfolding mark_sel_fields_def
  proof (rule mfold_grow [where le = bits_le])
    fix pi :: nat and bm1 :: bytes assume pi: "pi \<in> set [unat (s_start s)..<unat (s_start s) + unat (s_count s)]" and "length bm1 = n"
    moreover from this in_fields [OF pi] assms(2)
    have "row + unat (p_field (db_preds d ! pi)) div 8 < length bm1" by (simp add: row_ok_def)
    ultimately show "\<exists>t. do { p \<leftarrow> idx (db_preds d) pi; let f = unat (p_field p);
        if f < length (db_fields d) then set_field_bit row f bm1 else Some bm1 } = Some t \<and>
        length t = n \<and> bits_le bm1 t \<and> field_bit t row (unat (p_field (db_preds d ! pi)))"
      using set_field_bit_ok [of row "unat (p_field (db_preds d ! pi))" bm1] in_fields [OF pi] b by simp
  qed (use assms(3) bits_le_refl bits_le_trans field_bit_keep in blast)+
  then show ?thesis
    using nth_in_slice [OF b] unfolding sel_fields_def sel_preds_def by fastforce
qed

lemma rule_at_ok: "db_refs_ok d \<Longrightarrow> i < length (db_rules d) \<Longrightarrow> rule_ok d (db_rules d ! i)"
  by (simp add: db_refs_ok_def core_refs_ok_def list_all_length)

lemma sel_at_ok: "db_refs_ok d \<Longrightarrow> i < length (db_sels d) \<Longrightarrow> sel_ok d (db_sels d ! i)"
  by (simp add: db_refs_ok_def core_refs_ok_def list_all_length)

lemma sel_fields_lt:
  assumes "db_refs_ok d"
  shows "sel_fields d s \<subseteq> {..<length (db_fields d)}"
proof -
  have "list_all (pred_ok d) (db_preds d)" using assms by (simp add: db_refs_ok_def core_refs_ok_def)
  then show ?thesis
    unfolding sel_fields_def sel_preds_def list_all_iff pred_ok_def
    by (auto dest!: in_set_takeD in_set_dropD)
qed

lemma mark_rule_fields_ok:
  assumes refs: "db_refs_ok d" and r: "rule_ok d r" and row: "row_ok d row n" and len: "length bm = n"
  shows "\<exists>bm'. mark_rule_fields d row r bm = Some bm' \<and> length bm' = n \<and> bits_le bm bm' \<and>
    (\<forall>f \<in> rule_fields d r. field_bit bm' row f)"
proof -
  have b: "unat (r_sel_start r) + unat (r_sel_count r) \<le> length (db_sels d)" using r by (simp add: rule_ok_def)
  have "\<exists>bm'. mark_rule_fields d row r bm = Some bm' \<and> length bm' = n \<and> bits_le bm bm' \<and>
    (\<forall>si \<in> set [unat (r_sel_start r)..<unat (r_sel_start r) + unat (r_sel_count r)].
       \<forall>f \<in> sel_fields d (db_sels d ! si). field_bit bm' row f)"
    unfolding mark_rule_fields_def
  proof (rule mfold_grow [where le = bits_le])
    fix si :: nat and bm1 :: bytes assume "si \<in> set [unat (r_sel_start r)..<unat (r_sel_start r) + unat (r_sel_count r)]" "length bm1 = n"
    then show "\<exists>t. do { s \<leftarrow> idx (db_sels d) si; mark_sel_fields d row s bm1 } = Some t \<and>
        length t = n \<and> bits_le bm1 t \<and> (\<forall>f \<in> sel_fields d (db_sels d ! si). field_bit t row f)"
      using b mark_sel_fields_ok [OF sel_at_ok [OF refs] row _ sel_fields_lt [OF refs]] by simp
  qed (use len bits_le_refl bits_le_trans field_bit_keep in blast)+
  then show ?thesis
    using nth_in_slice [OF b] unfolding rule_fields_def rule_sels_def by fastforce
qed

text \<open>The rules of a bucket.\<close>

definition bucket_rules :: "sigma_db \<Rightarrow> nat \<Rightarrow> nat list" where
  "bucket_rules d b =
     (let k = db_buckets d ! b in
      map (\<lambda>i. unat (db_bucket_idx d ! i)) [unat (b_start k)..<unat (b_start k) + unat (b_count k)])"

lemma bucket_at:
  assumes "db_refs_ok d" "b < length (db_bucket_keys d)"
  shows "b < length (db_buckets d)"
    "unat (b_start (db_buckets d ! b)) + unat (b_count (db_buckets d ! b)) \<le> length (db_bucket_idx d)"
  using assms by (auto simp: db_refs_ok_def list_all2_conv_all_nth bucket_ok_def)

lemma bucket_rule_lt:
  "db_refs_ok d \<Longrightarrow> i < length (db_bucket_idx d) \<Longrightarrow> unat (db_bucket_idx d ! i) < length (db_rules d)"
  by (simp add: db_refs_ok_def index_refs_ok_def list_all_length rule_idx_ok_def)

lemma bucket_rules_lt:
  "db_refs_ok d \<Longrightarrow> b < length (db_bucket_keys d) \<Longrightarrow> ri \<in> set (bucket_rules d b) \<Longrightarrow> ri < length (db_rules d)"
  using bucket_at [of d b] bucket_rule_lt [of d] by (fastforce simp: bucket_rules_def Let_def)

lemma mark_bucket_fields_ok:
  assumes refs: "db_refs_ok d" and b: "b < length (db_bucket_keys d)"
    and row: "row_ok d row n" and len: "length bm = n"
  shows "\<exists>bm'. mark_bucket_fields d row (db_buckets d ! b) bm = Some bm' \<and> length bm' = n \<and> bits_le bm bm' \<and>
    (\<forall>ri \<in> set (bucket_rules d b). \<forall>f \<in> rule_fields d (db_rules d ! ri). field_bit bm' row f)"
proof -
  let ?k = "db_buckets d ! b"
  have "\<exists>bm'. mark_bucket_fields d row ?k bm = Some bm' \<and> length bm' = n \<and> bits_le bm bm' \<and>
    (\<forall>i \<in> set [unat (b_start ?k)..<unat (b_start ?k) + unat (b_count ?k)].
       \<forall>f \<in> rule_fields d (db_rules d ! unat (db_bucket_idx d ! i)). field_bit bm' row f)"
    unfolding mark_bucket_fields_def
  proof (rule mfold_grow [where le = bits_le])
    fix i :: nat and bm1 :: bytes assume i: "i \<in> set [unat (b_start ?k)..<unat (b_start ?k) + unat (b_count ?k)]" and "length bm1 = n"
    moreover have "i < length (db_bucket_idx d)" using i bucket_at [OF refs b] by simp
    moreover note bucket_rule_lt [OF refs this]
    ultimately show "\<exists>t. do { ri \<leftarrow> idx (db_bucket_idx d) i;
        if unat ri \<ge> length (db_rules d) then Some bm1
        else do { r \<leftarrow> idx (db_rules d) (unat ri); mark_rule_fields d row r bm1 } } = Some t \<and>
        length t = n \<and> bits_le bm1 t \<and>
        (\<forall>f \<in> rule_fields d (db_rules d ! unat (db_bucket_idx d ! i)). field_bit t row f)"
      using mark_rule_fields_ok [OF refs rule_at_ok [OF refs] row] by (simp add: not_le)
  qed (use len bits_le_refl bits_le_trans field_bit_keep in blast)+
  then show ?thesis by (auto simp: bucket_rules_def Let_def)
qed

text \<open>Databases small enough for 16-bit field ids.\<close>

definition fields_small :: "sigma_db \<Rightarrow> bool" where
  "fields_small d \<longleftrightarrow> length (db_fields d) \<le> 65535"

lemma stride_row_ok:
  assumes "fields_small d" "b < nb"
  shows "row_ok d (b * fields_stride d) (nb * fields_stride d)"
  unfolding row_ok_def
proof (intro allI impI)
  fix f assume f: "f < length (db_fields d)"
  have "fields_stride d = (length (db_fields d) + 7) div 8"
    using assms(1) by (simp add: fields_stride_def fields_small_def)
  with f have "f div 8 < fields_stride d" by simp
  moreover have "Suc b * fields_stride d \<le> nb * fields_stride d" using assms(2) by (intro mult_le_mono1) simp
  ultimately show "b * fields_stride d + f div 8 < nb * fields_stride d" by simp
qed

text \<open>The bitmap of a bucket contains every field its rules name.\<close>

definition bitmaps_ok :: "sigma_db \<Rightarrow> 're sigma_derived \<Rightarrow> bool" where
  "bitmaps_ok d dv \<longleftrightarrow>
     (case v_bucket_fields dv of None \<Rightarrow> True
      | Some bm \<Rightarrow>
          (\<forall>b < length (db_bucket_keys d).
             row_ok d (b * v_bucket_fields_stride dv) (length bm) \<and>
             (\<forall>ri \<in> set (bucket_rules d b). \<forall>f \<in> rule_fields d (db_rules d ! ri).
                field_bit bm (b * v_bucket_fields_stride dv) f)))"

lemma build_bucket_fields_ok:
  assumes refs: "db_refs_ok d" and small: "fields_small d"
    and dv: "v_bucket_fields dv = None" "\<not> v_lit_any_field dv"
  shows "\<exists>dv'. build_bucket_fields d dv = Some dv' \<and> bitmaps_ok d dv' \<and>
    dv' = dv\<lparr>v_bucket_fields := v_bucket_fields dv', v_bucket_fields_stride := v_bucket_fields_stride dv',
             v_lit_any_field := v_lit_any_field dv'\<rparr> \<and>
    (v_lit_any_field dv' \<longleftrightarrow> db_bucket_keys d \<noteq> [] \<and> db_fields d \<noteq> [] \<and>
       (\<exists>r \<in> set (db_litpost_ref d). l_field r = ANY_FIELD))"
proof -
  let ?nb = "length (db_bucket_keys d)" and ?st = "fields_stride d"
  have "\<exists>bm. mfold (\<lambda>b bm. do { bk \<leftarrow> idx (db_buckets d) b; mark_bucket_fields d (b * ?st) bk bm })
      [0..<?nb] (replicate (?nb * ?st) 0) = Some bm \<and> length bm = ?nb * ?st \<and> bits_le (replicate (?nb * ?st) 0) bm \<and>
      (\<forall>b \<in> set [0..<?nb]. \<forall>ri \<in> set (bucket_rules d b). \<forall>f \<in> rule_fields d (db_rules d ! ri).
         field_bit bm (b * ?st) f)"
  proof (rule mfold_grow [where le = bits_le])
    fix b :: nat and bm1 :: bytes assume "b \<in> set [0..<?nb]" "length bm1 = ?nb * ?st"
    then show "\<exists>t. do { bk \<leftarrow> idx (db_buckets d) b; mark_bucket_fields d (b * ?st) bk bm1 } = Some t \<and>
        length t = ?nb * ?st \<and> bits_le bm1 t \<and>
        (\<forall>ri \<in> set (bucket_rules d b). \<forall>f \<in> rule_fields d (db_rules d ! ri). field_bit t (b * ?st) f)"
      using mark_bucket_fields_ok [OF refs _ stride_row_ok [OF small]] bucket_at [OF refs] by simp
  qed (rule bits_le_refl, erule (1) bits_le_trans, use field_bit_keep in blast, rule length_replicate)
  then show ?thesis
    using dv stride_row_ok [OF small]
    by (auto simp: build_bucket_fields_def bitmaps_ok_def Let_def list_ex_iff)
qed

section \<open>Matchers\<close>

text \<open>Needles the fingerprint tables can hold; the compiler emits none shorter than three.\<close>

definition needles_long :: "sigma_db \<Rightarrow> bool" where
  "needles_long d \<longleftrightarrow> list_all (\<lambda>n. 2 \<le> unat (st_len n)) (db_litndl d)"

definition postings :: "sigma_db \<Rightarrow> nat \<Rightarrow> sigma_litref list" where
  "postings d i =
     (let p = db_litpost d ! i in
      map (\<lambda>k. db_litpost_ref d ! k) [unat (lp_start p)..<unat (lp_start p) + unat (lp_count p)])"

definition posted_needles :: "sigma_db \<Rightarrow> nat \<Rightarrow> nat set" where
  "posted_needles d f =
     {i. i < length (db_litndl d) \<and> (\<exists>r \<in> set (postings d i). unat (l_field r) = f)}"

lemma needle_at_ok:
  assumes "db_refs_ok d" "i < length (db_litndl d)"
  shows "needle_ok d (db_litndl d ! i) (db_litpost d ! i)" "i < length (db_litpost d)"
proof -
  have l: "length (db_litndl d) = length (db_litpost d)"
    and a: "list_all (\<lambda>(n, p). needle_ok d n p) (zip (db_litndl d) (db_litpost d))"
    using assms(1) by (simp_all add: db_refs_ok_def index_refs_ok_def)
  show "i < length (db_litpost d)" using assms(2) l by simp
  with a assms(2) show "needle_ok d (db_litndl d ! i) (db_litpost d ! i)"
    by (simp add: list_all_length)
qed

lemma needle_fits_at:
  "db_refs_ok d \<Longrightarrow> needles_long d \<Longrightarrow> i < length (db_litndl d) \<Longrightarrow> needle_fits (db_litndl d) (db_strpool d) i"
  using needle_at_ok(1) [of d i] by (simp add: needle_fits_def needle_ok_def str_ok_def needles_long_def list_all_length)

lemma posting_slice:
  assumes "db_refs_ok d" "i < length (db_litndl d)"
  shows "unat (lp_start (db_litpost d ! i)) + unat (lp_count (db_litpost d ! i)) \<le> length (db_litpost_ref d)"
  using needle_at_ok(1) [OF assms] by (simp add: needle_ok_def)

lemma posted_to_ok:
  "\<forall>k \<in> set ks. k < length (db_litpost_ref d) \<Longrightarrow>
   posted_to d f ks = Some (\<exists>k \<in> set ks. unat (l_field (db_litpost_ref d ! k)) = f)"
  by (induction ks) auto

lemma field_needles_ok:
  assumes refs: "db_refs_ok d"
  shows "\<exists>ids. field_needles d f = Some ids \<and> distinct ids \<and> set ids = posted_needles d f"
proof -
  let ?n = "length (db_litndl d)"
  let ?hit = "\<lambda>i. \<exists>r \<in> set (postings d i). unat (l_field r) = f"
  have "\<exists>ids. field_needles d f = Some ids \<and> ids = filter ?hit [0..<?n]"
    unfolding field_needles_def
  proof (rule mfold_inv [where I = "\<lambda>ys ids. ids = filter ?hit ys"])
    fix ys i zs and ids :: "nat list"
    assume xs: "[0..<?n] = ys @ i # zs" and ids: "ids = filter ?hit ys"
    have "i \<in> set (ys @ i # zs)" by simp
    then have i: "i < ?n" unfolding xs [symmetric] by simp
    have "posted_to d f [unat (lp_start (db_litpost d ! i))..<
        unat (lp_start (db_litpost d ! i)) + unat (lp_count (db_litpost d ! i))] = Some (?hit i)"
      using posting_slice [OF refs i] by (subst posted_to_ok) (auto simp: postings_def Let_def)
    then show "\<exists>s'. do { p \<leftarrow> idx (db_litpost d) i;
        hit \<leftarrow> posted_to d f [unat (lp_start p)..<unat (lp_start p) + unat (lp_count p)];
        Some (if hit then ids @ [i] else ids) } = Some s' \<and> s' = filter ?hit (ys @ [i])"
      using needle_at_ok(2) [OF refs i] ids by simp
  qed simp
  then show ?thesis by (auto simp: posted_needles_def)
qed

definition matchers_ok :: "sigma_db \<Rightarrow> 're sigma_derived \<Rightarrow> bool" where
  "matchers_ok d dv \<longleftrightarrow>
     (case v_teddy dv of None \<Rightarrow> db_litndl d = []
      | Some t \<Rightarrow> db_litndl d \<noteq> [] \<and> teddy_wf t (db_litndl d) (db_strpool d) {..<length (db_litndl d)}) \<and>
     (case v_field_teddy dv of None \<Rightarrow> True
      | Some arr \<Rightarrow> length arr = length (db_fields d) \<and>
          (\<forall>f < length (db_fields d).
             case arr ! f of None \<Rightarrow> posted_needles d f = {}
             | Some t \<Rightarrow> teddy_wf t (db_litndl d) (db_strpool d) (posted_needles d f)))"

lemma parts_cong:
  "v_bucket_fields dv' = v_bucket_fields dv \<Longrightarrow> v_bucket_fields_stride dv' = v_bucket_fields_stride dv \<Longrightarrow>
    bitmaps_ok d dv' = bitmaps_ok d dv"
  "v_teddy dv' = v_teddy dv \<Longrightarrow> v_field_teddy dv' = v_field_teddy dv \<Longrightarrow> matchers_ok d dv' = matchers_ok d dv"
  by (simp_all add: bitmaps_ok_def matchers_ok_def cong: option.case_cong)

lemma build_field_teddy_ok:
  assumes refs: "db_refs_ok d" and long: "needles_long d"
    and dv: "matchers_ok d dv" "v_field_teddy dv = None"
  shows "\<exists>dv'. build_field_teddy d dv = Some dv' \<and> matchers_ok d dv' \<and>
    dv' = dv\<lparr>v_field_teddy := v_field_teddy dv'\<rparr>"
proof (cases "db_fields d = [] \<or> db_litndl d = [] \<or> db_litpost_ref d = [] \<or> v_lit_any_field dv")
  case True
  with dv show ?thesis by (auto simp: build_field_teddy_def)
next
  case False
  let ?nf = "length (db_fields d)" and ?ndl = "db_litndl d" and ?pool = "db_strpool d"
  let ?ok = "\<lambda>f t. case t of None \<Rightarrow> posted_needles d f = {} | Some t \<Rightarrow> teddy_wf t ?ndl ?pool (posted_needles d f)"
  have n: "length ?ndl < 4294967296" using refs by (simp add: db_refs_ok_def)
  have "\<exists>arr. mfold (\<lambda>f arr. do { ids \<leftarrow> field_needles d f;
                if ids = [] then Some arr
                else do { t \<leftarrow> sigma_teddy_build_subset ?ndl ?pool ids; upd arr f t } })
               [0..<?nf] (replicate ?nf None) = Some arr \<and>
      (length arr = ?nf \<and> (\<forall>f < ?nf. if f \<in> set [0..<?nf] then ?ok f (arr ! f) else arr ! f = None))"
  proof (rule mfold_inv [where I = "\<lambda>ys arr. length arr = ?nf \<and>
        (\<forall>f < ?nf. if f \<in> set ys then ?ok f (arr ! f) else arr ! f = None)"])
    fix ys f zs and arr :: "sigma_teddy option list"
    assume xs: "[0..<?nf] = ys @ f # zs"
      and I: "length arr = ?nf \<and> (\<forall>f < ?nf. if f \<in> set ys then ?ok f (arr ! f) else arr ! f = None)"
    have "distinct (ys @ f # zs)" "set (ys @ f # zs) = {0..<?nf}" unfolding xs [symmetric] by simp_all
    then have f: "f < ?nf" "f \<notin> set ys" by auto
    obtain ids where ids: "field_needles d f = Some ids" "distinct ids" "set ids = posted_needles d f"
      using field_needles_ok [OF refs] by blast
    show "\<exists>s'. do { ids \<leftarrow> field_needles d f;
                if ids = [] then Some arr
                else do { t \<leftarrow> sigma_teddy_build_subset ?ndl ?pool ids; upd arr f t } } = Some s' \<and>
        length s' = ?nf \<and> (\<forall>g < ?nf. if g \<in> set (ys @ [f]) then ?ok g (s' ! g) else s' ! g = None)"
    proof (cases "ids = []")
      case True
      with I f ids show ?thesis by auto
    next
      case False
      have "\<forall>i \<in> set ids. needle_fits ?ndl ?pool i"
        using ids(3) needle_fits_at [OF refs long] by (auto simp: posted_needles_def)
      from sigma_teddy_build_subset_wf [OF False n ids(2) this] obtain t where
        "sigma_teddy_build_subset ?ndl ?pool ids = Some (Some t)" "teddy_wf t ?ndl ?pool (posted_needles d f)"
        using ids(3) by auto
      with False I f ids(1) show ?thesis by (auto simp: nth_list_update)
    qed
  qed simp
  with False dv show ?thesis by (auto simp: build_field_teddy_def matchers_ok_def)
qed

section \<open>Finalize\<close>

text \<open>Every regex predicate has a pattern; otherwise finalize refuses the database.\<close>

definition re_values_ok :: "sigma_db \<Rightarrow> bool" where
  "re_values_ok d \<longleftrightarrow> list_all (\<lambda>p. p_op p = OP_RE \<longrightarrow> unat (p_value p) < length (db_values d)) (db_preds d)"

lemma compile_re_ok:
  assumes refs: "db_refs_ok d"
  shows "\<exists>n. compile_re x d ps k =
    Some (if list_all (\<lambda>p. p_op p = OP_RE \<longrightarrow> unat (p_value p) < length (db_values d)) ps
          then Inr (map (\<lambda>p. if p_op p = OP_RE then pred_regex x d p else None) ps, n) else Inl n)"
proof (induction ps arbitrary: k)
  case Nil
  then show ?case by simp
next
  case (Cons p ps)
  from Cons.IH have "\<forall>k'. \<exists>n. compile_re x d ps k' =
    Some (if list_all (\<lambda>p. p_op p = OP_RE \<longrightarrow> unat (p_value p) < length (db_values d)) ps
          then Inr (map (\<lambda>p. if p_op p = OP_RE then pred_regex x d p else None) ps, n) else Inl n)" by blast
  from choice [OF this] obtain n where n: "compile_re x d ps k' =
    Some (if list_all (\<lambda>p. p_op p = OP_RE \<longrightarrow> unat (p_value p) < length (db_values d)) ps
          then Inr (map (\<lambda>p. if p_op p = OP_RE then pred_regex x d p else None) ps, n k') else Inl (n k'))" for k'
    by blast
  show ?case
    by (cases "p_op p = OP_RE"; cases "unat (p_value p) < length (db_values d)")
      (auto simp: n value_pool_ref [OF refs] pred_regex_def Let_def)
qed

definition derived_ok :: "'re sigma_lib \<Rightarrow> sigma_db \<Rightarrow> 're sigma_derived \<Rightarrow> bool" where
  "derived_ok x d dv \<longleftrightarrow>
     re_table_ok x d dv \<and> matchers_ok d dv \<and> bitmaps_ok d dv \<and>
     (v_lit_any_field dv \<longleftrightarrow> db_litndl d \<noteq> [] \<and> db_bucket_keys d \<noteq> [] \<and> db_fields d \<noteq> [] \<and>
       (\<exists>r \<in> set (db_litpost_ref d). l_field r = ANY_FIELD))"

lemma built_parts:
  assumes refs: "db_refs_ok d" and long: "needles_long d" and small: "fields_small d"
  shows "\<exists>dv. (if db_litndl d \<noteq> [] then
                do { t \<leftarrow> sigma_teddy_build (db_litndl d) (db_strpool d);
                     dv' \<leftarrow> build_bucket_fields d ((no_derived :: 're sigma_derived)\<lparr>v_teddy := t\<rparr>);
                     build_field_teddy d dv' }
              else Some no_derived) = Some dv \<and> v_re dv = None \<and> matchers_ok d dv \<and> bitmaps_ok d dv \<and>
     (v_lit_any_field dv \<longleftrightarrow> db_litndl d \<noteq> [] \<and> db_bucket_keys d \<noteq> [] \<and> db_fields d \<noteq> [] \<and>
       (\<exists>r \<in> set (db_litpost_ref d). l_field r = ANY_FIELD))"
proof (cases "db_litndl d = []")
  case True
  then show ?thesis by (simp add: no_derived_def matchers_ok_def bitmaps_ok_def)
next
  case False
  have n: "length (db_litndl d) < 4294967296" using refs by (simp add: db_refs_ok_def)
  from sigma_teddy_build_wf [OF False n] needle_fits_at [OF refs long] obtain t where
    t: "sigma_teddy_build (db_litndl d) (db_strpool d) = Some (Some t)"
      "teddy_wf t (db_litndl d) (db_strpool d) {..<length (db_litndl d)}" by blast
  let ?dv = "(no_derived :: 're sigma_derived)\<lparr>v_teddy := Some t\<rparr>"
  have "v_bucket_fields ?dv = None" "\<not> v_lit_any_field ?dv" by (simp_all add: no_derived_def)
  from build_bucket_fields_ok [OF refs small this] obtain dv1 where 1: "build_bucket_fields d ?dv = Some dv1"
    "bitmaps_ok d dv1" "dv1 = ?dv\<lparr>v_bucket_fields := v_bucket_fields dv1,
       v_bucket_fields_stride := v_bucket_fields_stride dv1, v_lit_any_field := v_lit_any_field dv1\<rparr>"
    "v_lit_any_field dv1 \<longleftrightarrow> db_bucket_keys d \<noteq> [] \<and> db_fields d \<noteq> [] \<and>
       (\<exists>r \<in> set (db_litpost_ref d). l_field r = ANY_FIELD)" by blast
  have dv1: "v_teddy dv1 = Some t" "v_field_teddy dv1 = None" "v_re dv1 = None"
    using arg_cong [OF 1(3), of v_teddy] arg_cong [OF 1(3), of v_field_teddy] arg_cong [OF 1(3), of v_re]
    by (simp_all add: no_derived_def)
  have "matchers_ok d dv1" using t(2) False by (simp add: matchers_ok_def dv1)
  from build_field_teddy_ok [OF refs long this dv1(2)] obtain dv2 where
    2: "build_field_teddy d dv1 = Some dv2" "matchers_ok d dv2" "dv2 = dv1\<lparr>v_field_teddy := v_field_teddy dv2\<rparr>"
    by blast
  have "v_re dv2 = None" "v_bucket_fields dv2 = v_bucket_fields dv1"
    "v_bucket_fields_stride dv2 = v_bucket_fields_stride dv1" "v_lit_any_field dv2 = v_lit_any_field dv1"
    using arg_cong [OF 2(3), of v_re] arg_cong [OF 2(3), of v_bucket_fields]
      arg_cong [OF 2(3), of v_bucket_fields_stride] arg_cong [OF 2(3), of v_lit_any_field] dv1(3) by simp_all
  moreover from this(2,3) have "bitmaps_ok d dv2" using 1(2) by (simp add: parts_cong(1) [of dv2 dv1])
  ultimately have "v_re dv2 = None" "bitmaps_ok d dv2" "v_lit_any_field dv2 = v_lit_any_field dv1" by simp_all
  with False t(1) 1(1,4) 2(1,2) show ?thesis by simp
qed

lemma finalize_ok:
  fixes x :: "'re sigma_lib"
  assumes "db_refs_ok d" "needles_long d" "fields_small d"
  shows "\<exists>dv. sigma_db_finalize x d no_derived = Some (if re_values_ok d then 0 else -1, dv) \<and>
    (re_values_ok d \<longrightarrow> derived_ok x d dv)"
proof -
  from built_parts [OF assms] obtain dv :: "'re sigma_derived" where
    dv: "(if db_litndl d \<noteq> [] then
                do { t \<leftarrow> sigma_teddy_build (db_litndl d) (db_strpool d);
                     dv' \<leftarrow> build_bucket_fields d (no_derived\<lparr>v_teddy := t\<rparr>);
                     build_field_teddy d dv' }
              else Some no_derived) = Some dv" "v_re dv = None" "matchers_ok d dv" "bitmaps_ok d dv"
     "v_lit_any_field dv \<longleftrightarrow> db_litndl d \<noteq> [] \<and> db_bucket_keys d \<noteq> [] \<and> db_fields d \<noteq> [] \<and>
       (\<exists>r \<in> set (db_litpost_ref d). l_field r = ANY_FIELD)" by blast
  have b: "(v_teddy (no_derived :: 're sigma_derived) = None \<and> db_litndl d \<noteq> []) = (db_litndl d \<noteq> [])"
    by (simp add: no_derived_def)
  have fin: "sigma_db_finalize x d no_derived =
    (if \<not> list_ex (\<lambda>p. p_op p = OP_RE) (db_preds d) then Some (0, dv)
     else do { res \<leftarrow> compile_re x d (db_preds d) (v_n_re_skipped dv);
       case res of
         Inr (arr, n) \<Rightarrow> Some (0, dv\<lparr>v_re := Some arr, v_n_re_skipped := n\<rparr>)
       | Inl n \<Rightarrow> Some (-1, if db_litndl d \<noteq> []
           then dv\<lparr>v_n_re_skipped := n\<rparr>\<lparr>v_teddy := None, v_field_teddy := None\<rparr>
           else dv\<lparr>v_n_re_skipped := n\<rparr>) })"
    unfolding sigma_db_finalize_def Let_def b dv(1) using dv(2) by simp
  have upd_ok: "matchers_ok d (dv\<lparr>v_re := a, v_n_re_skipped := n\<rparr>)" "bitmaps_ok d (dv\<lparr>v_re := a, v_n_re_skipped := n\<rparr>)" for a n
    using dv(3,4) parts_cong [of "dv\<lparr>v_re := a, v_n_re_skipped := n\<rparr>" dv d] by simp_all
  show ?thesis
  proof (cases "list_ex (\<lambda>p. p_op p = OP_RE) (db_preds d)")
    case False
    then have "re_values_ok d" "re_table_ok x d dv"
      using dv(2) by (auto simp: re_values_ok_def re_table_ok_def list_ex_iff list_all_iff)
    with False dv show ?thesis by (simp add: fin derived_ok_def)
  next
    case True
    obtain n where n: "compile_re x d (db_preds d) (v_n_re_skipped dv) =
      Some (if re_values_ok d
          then Inr (map (\<lambda>p. if p_op p = OP_RE then pred_regex x d p else None) (db_preds d), n) else Inl n)"
      using compile_re_ok [OF assms(1), of x "db_preds d"] unfolding re_values_ok_def by blast
    show ?thesis
    proof (cases "re_values_ok d")
      case False
      with True n show ?thesis by (simp add: fin)
    next
      case re: True
      let ?dv = "dv\<lparr>v_re := Some (map (\<lambda>p. if p_op p = OP_RE then pred_regex x d p else None) (db_preds d)),
        v_n_re_skipped := n\<rparr>"
      have "re_table_ok x d ?dv" by (simp add: re_table_ok_def)
      then have "derived_ok x d ?dv" using upd_ok dv(5) by (simp add: derived_ok_def)
      with re True n show ?thesis by (simp add: fin)
    qed
  qed
qed

end
