(* ===== verification/Eval_Spec.thy ===== *)
theory Eval_Spec
  imports Sigma_Eval Finalize_Spec "HOL-Library.Multiset"
begin

text \<open>
  The evaluation of rules in sequence: which rules fire, in which order, what the output
  buffer holds, and how often the field callback runs.
\<close>

section \<open>The scratch invariant\<close>

text \<open>A stamp array over the rules, with no stamp from the future.\<close>

definition stamps_ok :: "nat \<Rightarrow> u32 \<Rightarrow> u32 list \<Rightarrow> bool" where
  "stamps_ok n gen a \<longleftrightarrow> length a = n \<and> (\<forall>k < n. a ! k \<le> gen)"

definition done_ok :: "sigma_db \<Rightarrow> sigma_eval \<Rightarrow> bool" where
  "done_ok d e \<longleftrightarrow>
     (case e_eval_done e of None \<Rightarrow> db_rules d = [] | Some a \<Rightarrow> stamps_ok (length (db_rules d)) (e_gen e) a)"

definition evaluated :: "sigma_eval \<Rightarrow> nat set" where
  "evaluated e = (case e_eval_done e of None \<Rightarrow> {} | Some a \<Rightarrow> {k. k < length a \<and> a ! k = e_gen e})"

definition arrays_ok :: "sigma_db \<Rightarrow> sigma_eval \<Rightarrow> bool" where
  "arrays_ok d e \<longleftrightarrow>
     (case e_rule_gen e of
        None \<Rightarrow> e_rule_mask e = None
      | Some g \<Rightarrow> stamps_ok (length (db_rules d)) (e_gen e) g \<and>
          (\<exists>m. e_rule_mask e = Some m \<and> length m = length (db_rules d)))"

definition eval_ok :: "sigma_db \<Rightarrow> 're sigma_derived \<Rightarrow> sigma_eval \<Rightarrow> bool" where
  "eval_ok d dv e \<longleftrightarrow>
     length (e_memo e) = length (db_fields d) \<and> done_ok d e \<and> arrays_ok d e \<and>
     (e_rule_mask e \<noteq> None \<and> v_teddy dv \<noteq> None \<longrightarrow> scratch_ok (length (db_litndl d)) (e_tscr e))"

lemma create_ok: "eval_ok d dv (sigma_eval_create d dv)"
  by (auto simp: eval_ok_def sigma_eval_create_def Let_def done_ok_def arrays_ok_def stamps_ok_def
      scratch_init_ok)

lemma word_lt_Suc: "(a :: u32) \<le> g \<Longrightarrow> g + 1 \<noteq> 0 \<Longrightarrow> a < g + 1"
  using unatSuc [of g] by (simp add: word_less_nat_alt word_le_nat_alt add.commute)

lemma stamps_bump: "stamps_ok n g a \<Longrightarrow> g + 1 \<noteq> 0 \<Longrightarrow> stamps_ok n (g + 1) a"
  by (auto simp: stamps_ok_def intro: less_imp_le word_lt_Suc)

lemma stamps_clear: "stamps_ok n g a \<Longrightarrow> stamps_ok n 1 (map (\<lambda>_. 0) a)"
  by (simp add: stamps_ok_def)

text \<open>A new event: nothing resolved, nothing evaluated, no rule stamped.\<close>

definition pf_stamped :: "sigma_eval \<Rightarrow> nat set" where
  "pf_stamped e = (case e_rule_gen e of None \<Rightarrow> {} | Some a \<Rightarrow> {k. k < length a \<and> a ! k = e_gen e})"

lemma bump_fresh:
  assumes "eval_ok d dv e"
  shows "eval_ok d dv (bump_eval_gen e)" "evaluated (bump_eval_gen e) = {}" "pf_stamped (bump_eval_gen e) = {}"
proof -
  have d: "done_ok d e" and a: "arrays_ok d e" using assms by (simp_all add: eval_ok_def)
  have lt: "stamps_ok n (e_gen e) s \<Longrightarrow> e_gen e + 1 \<noteq> 0 \<Longrightarrow> k < length s \<Longrightarrow> s ! k \<noteq> e_gen e + 1" for n s k
    using word_lt_Suc [of "s ! k" "e_gen e"] by (auto simp: stamps_ok_def)
  show "eval_ok d dv (bump_eval_gen e)"
    using assms stamps_bump stamps_clear
    by (auto simp: eval_ok_def bump_eval_gen_def Let_def done_ok_def arrays_ok_def split: option.splits)
  show "evaluated (bump_eval_gen e) = {}"
    using d lt by (auto simp: evaluated_def bump_eval_gen_def Let_def done_ok_def split: option.splits)
  show "pf_stamped (bump_eval_gen e) = {}"
    using a lt by (auto simp: pf_stamped_def bump_eval_gen_def Let_def arrays_ok_def split: option.splits)
qed

lemma reset_memo_ok:
  "eval_ok d dv e \<Longrightarrow> eval_ok d dv (reset_memo e)" "resolved (reset_memo e) = {}"
  by (simp_all add: eval_ok_def reset_memo_def done_ok_def arrays_ok_def resolved_def cong: option.case_cong)

section \<open>Callback counts\<close>

text \<open>
  The calls made so far: those at the start, \<open>R\<close> direct lookups, and one for each resolved
  field.
\<close>

definition calls_ok :: "sigma_db \<Rightarrow> bytes list \<Rightarrow> bytes multiset \<Rightarrow> sigma_eval \<Rightarrow> bool" where
  "calls_ok d c R e \<longleftrightarrow>
     mset (e_calls e) = mset c + R + image_mset (field_name d) (mset_set (resolved e))"

lemma finite_resolved [simp]: "finite (resolved e)"
  by (simp add: resolved_def)

lemma calls_ok_evolves:
  assumes "calls_ok d c R e" "evolves d e e'"
  shows "calls_ok d c R e'"
proof -
  obtain fs where fs: "distinct fs" "set fs = resolved e' - resolved e"
    "e' = e\<lparr>e_memo := e_memo e', e_calls := e_calls e @ map (field_name d) fs\<rparr>" and sub: "resolved e \<subseteq> resolved e'"
    using assms(2) unfolding evolves_def by blast
  have "e_calls e' = e_calls e @ map (field_name d) fs" using arg_cong [OF fs(3), of e_calls] by simp
  moreover have "mset fs = mset_set (resolved e' - resolved e)"
    using fs(1,2) mset_set_set [of fs] by simp
  moreover have "mset_set (resolved e') = mset_set (resolved e) + mset_set (resolved e' - resolved e)"
    using sub by (metis Diff_partition Diff_disjoint finite_Diff finite_resolved mset_set_Union)
  ultimately show ?thesis using assms(1) by (simp add: calls_ok_def)
qed

section \<open>Which rules fire\<close>

definition rule_mitre_sem :: "sigma_db \<Rightarrow> sigma_rule \<Rightarrow> bytes option" where
  "rule_mitre_sem d r =
     (if r_mitre r = NO_VALUE then None
      else Some (str_bytes (db_strpool d) (db_values d ! unat (r_mitre r))))"

definition hit_sem :: "sigma_db \<Rightarrow> sigma_rule \<Rightarrow> sigma_hit" where
  "hit_sem d r =
     \<lparr>hit_rule_id = r_id r, hit_verdict = r_verdict r, hit_severity = r_severity r,
      hit_score = r_score r, hit_mitre = rule_mitre_sem d r\<rparr>"

text \<open>The rules of a sequence that fire, and what an output buffer of size \<open>cap\<close> holds.\<close>

definition firing :: "'re sigma_lib \<Rightarrow> sigma_db \<Rightarrow> (bytes \<Rightarrow> bytes option) \<Rightarrow> nat list \<Rightarrow> nat list" where
  "firing x d ev rs = filter (\<lambda>ri. rule_sem x d ev (db_rules d ! ri)) (first_occ rs)"

definition buffered :: "int option \<Rightarrow> 'a list \<Rightarrow> 'a list" where
  "buffered cap xs = (case cap of None \<Rightarrow> [] | Some m \<Rightarrow> take (nat m) xs)"

definition hits_of :: "'re sigma_lib \<Rightarrow> sigma_db \<Rightarrow> (bytes \<Rightarrow> bytes option) \<Rightarrow> int option \<Rightarrow> nat list \<Rightarrow> sigma_hit list" where
  "hits_of x d ev cap rs = buffered cap (map (\<lambda>ri. hit_sem d (db_rules d ! ri)) (firing x d ev rs))"

lemma make_hit_ok:
  assumes "db_refs_ok d" "rule_ok d r"
  shows "make_hit d r = Some (hit_sem d r)"
  using assms(2) value_pool_ref [OF assms(1), of "unat (r_mitre r)"]
  by (auto simp: make_hit_def hit_sem_def rule_mitre_sem_def rule_ok_def)

lemma buffered_snoc:
  "buffered (Some m) (xs @ [x]) = (if int (length xs) < m then buffered (Some m) xs @ [x] else buffered (Some m) xs)"
  by (auto simp: buffered_def)

text \<open>
  The state after the rules \<open>rs\<close> have been considered: the rules evaluated so far are among
  them and include all that fire.
\<close>

definition run_inv ::
  "'re sigma_lib \<Rightarrow> sigma_db \<Rightarrow> (bytes \<Rightarrow> bytes option) \<Rightarrow> int option \<Rightarrow> sigma_eval \<Rightarrow> nat list \<Rightarrow> run_state \<Rightarrow> bool" where
  "run_inv x d ev cap e0 rs st \<longleftrightarrow>
     (case st of (e, hits, fired) \<Rightarrow>
        memo_ok d ev e \<and> done_ok d e \<and>
        e_gen e = e_gen e0 \<and> e_rule_gen e = e_rule_gen e0 \<and> e_rule_mask e = e_rule_mask e0 \<and>
        e_tscr e = e_tscr e0 \<and> e_prefilter_on e = e_prefilter_on e0 \<and>
        (\<forall>c R. calls_ok d c R e0 \<longrightarrow> calls_ok d c R e) \<and>
        evaluated e \<subseteq> set rs \<and>
        (\<forall>ri \<in> set rs. rule_sem x d ev (db_rules d ! ri) \<longrightarrow> ri \<in> evaluated e) \<and>
        hits = hits_of x d ev cap rs \<and> fired = length (firing x d ev rs))"

lemma run_inv_init:
  "memo_ok d ev e \<Longrightarrow> done_ok d e \<Longrightarrow> evaluated e = {} \<Longrightarrow> run_inv x d ev cap e [] (e, [], 0)"
  by (auto simp: run_inv_def hits_of_def firing_def buffered_def split: option.splits)

lemma firing_snoc:
  "firing x d ev (rs @ [ri]) =
    (if ri \<notin> set rs \<and> rule_sem x d ev (db_rules d ! ri) then firing x d ev rs @ [ri] else firing x d ev rs)"
  by (simp add: firing_def first_occ_snoc)

text \<open>A rule that is passed over does not change the result if it does not match.\<close>

lemma run_inv_skip:
  "run_inv x d ev cap e0 rs st \<Longrightarrow> \<not> rule_sem x d ev (db_rules d ! ri) \<Longrightarrow> run_inv x d ev cap e0 (rs @ [ri]) st"
  by (auto simp: run_inv_def hits_of_def firing_snoc)

lemma stats_frame [simp]:
  "memo_ok d ev (e\<lparr>e_st := q\<rparr>) = memo_ok d ev e" "done_ok d (e\<lparr>e_st := q\<rparr>) = done_ok d e"
  "evaluated (e\<lparr>e_st := q\<rparr>) = evaluated e" "calls_ok d c R (e\<lparr>e_st := q\<rparr>) = calls_ok d c R e"
  by (simp_all add: memo_ok_def done_ok_def evaluated_def calls_ok_def resolved_def cong: option.case_cong)

lemma run_inv_stats: "run_inv x d ev cap e0 rs (e, hits, fired) \<Longrightarrow>
    run_inv x d ev cap e0 rs (e\<lparr>e_st := q\<rparr>, hits, fired)"
  by (simp add: run_inv_def)

lemma evolves_frame:
  assumes "evolves d e e'"
  shows "e_eval_done e' = e_eval_done e" "e_gen e' = e_gen e" "e_rule_gen e' = e_rule_gen e"
    "e_rule_mask e' = e_rule_mask e" "e_tscr e' = e_tscr e" "e_prefilter_on e' = e_prefilter_on e"
    "e_cur_field e' = e_cur_field e" "e_st e' = e_st e"
proof -
  obtain fs where f: "e' = e\<lparr>e_memo := e_memo e', e_calls := e_calls e @ map (field_name d) fs\<rparr>"
    using assms unfolding evolves_def by blast
  show "e_eval_done e' = e_eval_done e" "e_gen e' = e_gen e" "e_rule_gen e' = e_rule_gen e"
    "e_rule_mask e' = e_rule_mask e" "e_tscr e' = e_tscr e" "e_prefilter_on e' = e_prefilter_on e"
    "e_cur_field e' = e_cur_field e" "e_st e' = e_st e"
    using arg_cong [OF f, of e_eval_done] arg_cong [OF f, of e_gen] arg_cong [OF f, of e_rule_gen]
      arg_cong [OF f, of e_rule_mask] arg_cong [OF f, of e_tscr] arg_cong [OF f, of e_prefilter_on]
      arg_cong [OF f, of e_cur_field] arg_cong [OF f, of e_st] by simp_all
qed

lemma eval_one_rule_inv:
  assumes env: "match_env x d dv" and ri: "ri < length (db_rules d)"
    and inv: "run_inv x d ev cap e0 rs st"
  shows "\<exists>st'. eval_one_rule x d dv ev cap ri st = Some st' \<and> run_inv x d ev cap e0 (rs @ [ri]) st'"
proof -
  obtain e hits fired where st: "st = (e, hits, fired)" by (cases st)
  have refs: "db_refs_ok d" using env by (simp add: match_env_def)
  have rok: "rule_ok d (db_rules d ! ri)" by (rule rule_at_ok [OF refs ri])
  obtain a where a: "e_eval_done e = Some a" "stamps_ok (length (db_rules d)) (e_gen e) a"
    using inv ri by (auto simp: st run_inv_def done_ok_def split: option.splits)
  then have al: "ri < length a" using ri by (simp add: stamps_ok_def)
  show ?thesis
  proof (cases "a ! ri = e_gen e")
    case True
    then have "ri \<in> evaluated e" using a(1) al by (simp add: evaluated_def)
    then have "ri \<in> set rs" using inv by (auto simp: st run_inv_def)
    then have "run_inv x d ev cap e0 (rs @ [ri]) st"
      using inv by (auto simp: st run_inv_def hits_of_def firing_snoc)
    moreover have "eval_one_rule x d dv ev cap ri st = Some st"
      using True a(1) al by (simp add: st eval_one_rule_def)
    ultimately show ?thesis by blast
  next
    case False
    let ?e1 = "e\<lparr>e_eval_done := Some (a[ri := e_gen e])\<rparr>"
    let ?S = "rule_sem x d ev (db_rules d ! ri)"
    have "memo_ok d ev ?e1" using inv by (simp add: st run_inv_def memo_ok_def)
    from rule_match_reads [OF env rok this] obtain e2 where
      e2: "rule_match x d dv ev (db_rules d ! ri) ?e1 = Some (?S, e2)" "memo_ok d ev e2" "evolves d ?e1 e2"
      unfolding reads_def by blast
    note fr = evolves_frame [OF e2(3), simplified]
    have ev2: "evaluated e2 = insert ri (evaluated e)"
      using al a(1) by (auto simp: evaluated_def fr nth_list_update)
    have new: "?S \<Longrightarrow> ri \<notin> set rs"
      using inv False a(1) by (auto simp: st run_inv_def evaluated_def)
    have done2: "done_ok d e2"
      using a al by (auto simp: done_ok_def fr stamps_ok_def nth_list_update)
    have calls: "calls_ok d c R e \<Longrightarrow> calls_ok d c R e2" for c R
      using calls_ok_evolves [OF _ e2(3)] by (simp add: calls_ok_def resolved_def)
    let ?hits = "if ?S then (case cap of None \<Rightarrow> hits
       | Some m \<Rightarrow> if int fired < m then hits @ [hit_sem d (db_rules d ! ri)] else hits) else hits"
    have run: "eval_one_rule x d dv ev cap ri st = Some (e2, ?hits, if ?S then fired + 1 else fired)"
      using False a(1) al ri e2(1) make_hit_ok [OF refs rok]
      by (simp add: st eval_one_rule_def split: option.split)
    have hits: "?hits = hits_of x d ev cap (rs @ [ri])"
      using inv new by (cases cap) (auto simp: st run_inv_def hits_of_def firing_snoc buffered_snoc buffered_def)
    have "run_inv x d ev cap e0 (rs @ [ri]) (e2, ?hits, if ?S then fired + 1 else fired)"
      unfolding hits using inv e2(2) done2 calls ev2 new
      by (auto simp: st run_inv_def fr firing_snoc)
    with run show ?thesis by blast
  qed
qed

text \<open>The full scan.\<close>

lemma eval_all_ok:
  assumes env: "match_env x d dv" and e: "memo_ok d ev e" "done_ok d e" "evaluated e = {}"
  shows "\<exists>st. eval_all x d dv ev cap e = Some st \<and> run_inv x d ev cap e [0..<length (db_rules d)] st"
  unfolding eval_all_def
proof (rule mfold_inv)
  show "run_inv x d ev cap e [] (e, [], 0)" by (rule run_inv_init [OF e])
  fix ys ri zs st assume xs: "[0..<length (db_rules d)] = ys @ ri # zs" and "run_inv x d ev cap e ys st"
  moreover have "ri \<in> set (ys @ ri # zs)" by simp
  then have "ri < length (db_rules d)" unfolding xs [symmetric] by simp
  ultimately show "\<exists>s'. eval_one_rule x d dv ev cap ri st = Some s' \<and> run_inv x d ev cap e (ys @ [ri]) s'"
    using eval_one_rule_inv [OF env] by blast
qed

end
