(* ===== verification/Prefilter_Spec.thy ===== *)
theory Prefilter_Spec
  imports Eval_Spec
begin

text \<open>
  The literal prefilter never loses a rule: the candidate set computed for an event contains
  every rule of the selected buckets that matches it, provided the artifact's witness
  clauses are necessary conditions, which is the contract of the compiler.
\<close>

section \<open>Clause credits\<close>

definition clauses :: "sigma_db \<Rightarrow> nat \<Rightarrow> nat" where
  "clauses d ri = (case db_rule_clauses d of None \<Rightarrow> 0 | Some rc \<Rightarrow> unat (rc ! ri))"

text \<open>The witness clauses credited to a rule in the current event.\<close>

definition credits :: "sigma_eval \<Rightarrow> nat \<Rightarrow> nat set" where
  "credits e ri = (case e_rule_mask e of None \<Rightarrow> {} | Some m \<Rightarrow> if ri \<in> pf_stamped e then {c. bit (m ! ri) c} else {})"

definition pf_le :: "sigma_eval \<Rightarrow> sigma_eval \<Rightarrow> bool" where
  "pf_le e e' \<longleftrightarrow> pf_stamped e \<subseteq> pf_stamped e' \<and> (\<forall>ri. credits e ri \<subseteq> credits e' ri)"

lemma pf_le_refl: "pf_le e e"
  by (simp add: pf_le_def)

lemma pf_le_trans: "pf_le a b \<Longrightarrow> pf_le b c \<Longrightarrow> pf_le a c"
  unfolding pf_le_def by blast

text \<open>The state while candidates are computed, relative to the start.\<close>

definition pf_inv :: "sigma_db \<Rightarrow> 're sigma_derived \<Rightarrow> (bytes \<Rightarrow> bytes option) \<Rightarrow> sigma_eval \<Rightarrow> sigma_eval \<Rightarrow> bool" where
  "pf_inv d dv ev e0 e \<longleftrightarrow>
     memo_ok d ev e \<and> e_gen e = e_gen e0 \<and> e_eval_done e = e_eval_done e0 \<and>
     e_prefilter_on e = e_prefilter_on e0 \<and>
     (\<exists>g m. e_rule_gen e = Some g \<and> e_rule_mask e = Some m \<and>
        stamps_ok (length (db_rules d)) (e_gen e0) g \<and> length m = length (db_rules d)) \<and>
     (v_teddy dv \<noteq> None \<longrightarrow> scratch_ok (length (db_litndl d)) (e_tscr e)) \<and>
     (\<forall>ri. \<forall>c \<in> credits e ri. c < clauses d ri) \<and>
     (\<forall>c R. calls_ok d c R e0 \<longrightarrow> calls_ok d c R e)"

lemma pf_credits_lt: "pf_inv d dv ev e0 e \<Longrightarrow> c \<in> credits e ri \<Longrightarrow> c < clauses d ri"
  unfolding pf_inv_def by blast

lemma pf_frame:
  assumes "e_gen e' = e_gen e" "e_rule_gen e' = e_rule_gen e" "e_rule_mask e' = e_rule_mask e"
  shows "pf_stamped e' = pf_stamped e" "credits e' = credits e"
  using assms by (simp_all add: pf_stamped_def credits_def fun_eq_iff cong: option.case_cong)

lemma pf_inv_evolves:
  assumes "pf_inv d dv ev e0 e" "evolves d e e'" "memo_ok d ev e'"
  shows "pf_inv d dv ev e0 e'" "pf_le e e'"
proof -
  note fr = evolves_frame [OF assms(2)]
  note pf = pf_frame [OF fr(2,3,4)]
  show "pf_inv d dv ev e0 e'"
    using assms calls_ok_evolves [OF _ assms(2)] by (auto simp: pf_inv_def fr pf)
  show "pf_le e e'" by (simp add: pf_le_def pf)
qed

lemma pf_inv_frame:
  assumes "pf_inv d dv ev e0 e" "e' = e\<lparr>e_st := q, e_cur_field := f\<rparr>"
  shows "pf_inv d dv ev e0 e'" "pf_le e e'" "pf_le e' e"
proof -
  have pf: "pf_stamped e' = pf_stamped e" "credits e' = credits e"
    unfolding assms(2) by (rule pf_frame; simp)+
  show "pf_inv d dv ev e0 e'"
    using assms(1) unfolding pf_inv_def pf unfolding assms(2)
    by (simp add: memo_ok_def calls_ok_def resolved_def)
  show "pf_le e e'" "pf_le e' e" by (simp_all add: pf_le_def pf)
qed

lemma pf_inv_tscr:
  assumes "pf_inv d dv ev e0 e" "v_teddy dv \<noteq> None \<longrightarrow> scratch_ok (length (db_litndl d)) s"
  shows "pf_inv d dv ev e0 (e\<lparr>e_tscr := s\<rparr>)" "pf_le e (e\<lparr>e_tscr := s\<rparr>)"
proof -
  have pf: "pf_stamped (e\<lparr>e_tscr := s\<rparr>) = pf_stamped e" "credits (e\<lparr>e_tscr := s\<rparr>) = credits e"
    by (rule pf_frame; simp)+
  show "pf_inv d dv ev e0 (e\<lparr>e_tscr := s\<rparr>)"
    using assms unfolding pf_inv_def pf by (simp add: memo_ok_def calls_ok_def resolved_def)
  show "pf_le e (e\<lparr>e_tscr := s\<rparr>)" by (simp add: pf_le_def pf)
qed

text \<open>Setting the stamp and the mask of one rule.\<close>

lemma pf_write:
  assumes inv: "pf_inv d dv ev e0 e" and ri: "ri < length (db_rules d)"
    and g: "e_rule_gen e = Some g" and m: "e_rule_mask e = Some m"
    and w: "\<forall>c. bit w c \<longrightarrow> c < clauses d ri" "\<forall>c \<in> credits e ri. bit w c"
  defines "e' \<equiv> e\<lparr>e_rule_gen := Some (g[ri := e_gen e]), e_rule_mask := Some (m[ri := w])\<rparr>"
  shows "pf_inv d dv ev e0 e'" "pf_le e e'" "ri \<in> pf_stamped e'" "credits e' ri = {c. bit w c}"
proof -
  have l: "length g = length (db_rules d)" "length m = length (db_rules d)"
    using inv g m by (auto simp: pf_inv_def stamps_ok_def)
  have st: "pf_stamped e' = insert ri (pf_stamped e)"
    using g ri l by (auto simp: e'_def pf_stamped_def nth_list_update)
  have cr: "credits e' = (credits e)(ri := {c. bit w c})"
    using m ri l by (auto simp: e'_def credits_def fun_eq_iff st [unfolded e'_def] nth_list_update)
  show "ri \<in> pf_stamped e'" "credits e' ri = {c. bit w c}" by (simp_all add: st cr)
  show "pf_le e e'" using w(2) by (auto simp: pf_le_def st cr)
  have "stamps_ok (length (db_rules d)) (e_gen e0) (g[ri := e_gen e])"
    using inv g ri by (auto simp: pf_inv_def stamps_ok_def nth_list_update)
  moreover have "\<forall>r. \<forall>c \<in> credits e' r. c < clauses d r"
    using inv w(1) by (auto simp: pf_inv_def cr)
  ultimately show "pf_inv d dv ev e0 e'"
    using inv l unfolding pf_inv_def
    by (auto simp: e'_def memo_ok_def calls_ok_def resolved_def)
qed

lemma pf_arrays:
  assumes "pf_inv d dv ev e0 e"
  obtains g m where "e_rule_gen e = Some g" "e_rule_mask e = Some m"
    "length g = length (db_rules d)" "length m = length (db_rules d)"
  using assms by (auto simp: pf_inv_def stamps_ok_def)

lemma rule_mask_bit: "bit ((m :: u32) OR push_bit c 1) k \<longleftrightarrow> bit m k \<or> (k = c \<and> c < 32)"
  by (auto simp: bit_or_iff bit_exp_iff possible_bit_word)

lemma pf_set_ok:
  assumes inv: "pf_inv d dv ev e0 e" and ri: "ri < length (db_rules d)" and z: "credits e ri = {}"
  shows "\<exists>e'. pf_set ri 0 e = Some e' \<and> pf_inv d dv ev e0 e' \<and> pf_le e e' \<and> ri \<in> pf_stamped e'"
proof -
  obtain g m where a: "e_rule_gen e = Some g" "e_rule_mask e = Some m"
    "length g = length (db_rules d)" "length m = length (db_rules d)"
    using pf_arrays [OF inv] by blast
  have "pf_set ri 0 e = Some (e\<lparr>e_rule_gen := Some (g[ri := e_gen e]), e_rule_mask := Some (m[ri := 0])\<rparr>)"
    using a ri by (simp add: pf_set_def)
  with pf_write [OF inv ri a(1,2), of 0] z show ?thesis by simp
qed

lemma pf_credit_ok:
  assumes inv: "pf_inv d dv ev e0 e" and ri: "ri < length (db_rules d)"
    and c: "unat c < 32" "unat c < clauses d ri"
  shows "\<exists>e'. pf_credit ri c e = Some e' \<and> pf_inv d dv ev e0 e' \<and> pf_le e e' \<and>
    ri \<in> pf_stamped e' \<and> unat c \<in> credits e' ri"
proof -
  have "\<exists>e1. pf_touch ri e = Some e1 \<and> pf_inv d dv ev e0 e1 \<and> pf_le e e1 \<and> ri \<in> pf_stamped e1"
  proof (cases "ri \<in> pf_stamped e")
    case True
    then show ?thesis
      using inv by (auto simp: pf_touch_def pf_stamped_def pf_le_refl split: option.splits)
  next
    case False
    then have "credits e ri = {}" by (auto simp: credits_def split: option.splits)
    moreover obtain g where "e_rule_gen e = Some g" "length g = length (db_rules d)"
      using pf_arrays [OF inv] by blast
    then have "pf_touch ri e = pf_set ri 0 e"
      using False ri by (simp add: pf_touch_def pf_stamped_def)
    ultimately show ?thesis using pf_set_ok [OF inv ri] by simp
  qed
  then obtain e1 where 1: "pf_touch ri e = Some e1" "pf_inv d dv ev e0 e1" "pf_le e e1" "ri \<in> pf_stamped e1" by blast
  obtain g m where a: "e_rule_gen e1 = Some g" "e_rule_mask e1 = Some m"
    "length g = length (db_rules d)" "length m = length (db_rules d)"
    using pf_arrays [OF 1(2)] by blast
  let ?w = "m ! ri OR push_bit (unat c) 1"
  have cr: "credits e1 ri = {k. bit (m ! ri) k}" using a(2) 1(4) by (simp add: credits_def)
  have w: "\<forall>k. bit ?w k \<longrightarrow> k < clauses d ri" "\<forall>k \<in> credits e1 ri. bit ?w k"
    using 1(2) c cr unfolding rule_mask_bit by (auto simp: pf_inv_def)
  have g: "g[ri := e_gen e1] = g"
    using 1(4) a(1) by (auto simp: pf_stamped_def intro: list_update_same_conv [THEN iffD2])
  have e2: "pf_credit ri c e = Some (e1\<lparr>e_rule_mask := Some (m[ri := ?w])\<rparr>)"
    using 1(1) a ri c(1) by (simp add: pf_credit_def)
  have same: "e1\<lparr>e_rule_gen := Some (g[ri := e_gen e1]), e_rule_mask := Some (m[ri := ?w])\<rparr>
      = e1\<lparr>e_rule_mask := Some (m[ri := ?w])\<rparr>"
    unfolding g using a(1) by simp
  note wr = pf_write [OF 1(2) ri a(1,2) w, unfolded same]
  have "unat c \<in> credits (e1\<lparr>e_rule_mask := Some (m[ri := ?w])\<rparr>) ri"
    unfolding wr(4) rule_mask_bit using c(1) by simp
  with e2 wr(1-3) 1(3) pf_le_trans show ?thesis by blast
qed

section \<open>Confirmed needles\<close>

lemma litref_at:
  assumes "db_refs_ok d" "k < length (db_litpost_ref d)"
  defines "r \<equiv> db_litpost_ref d ! k"
  shows "unat (l_rule r) < length (db_rules d)" "unat (l_clause r) < 32"
    "unat (l_clause r) < clauses d (unat (l_rule r))"
proof -
  have "litref_ok d r" using assms(1,2) by (simp add: r_def db_refs_ok_def index_refs_ok_def list_all_length)
  then show "unat (l_rule r) < length (db_rules d)" "unat (l_clause r) < 32"
    "unat (l_clause r) < clauses d (unat (l_rule r))"
    by (auto simp: litref_ok_def rule_idx_ok_def clause_ok_def clauses_def word_less_nat_alt split: option.splits)
qed

text \<open>A posting counts in the field being scanned if it names that field or any field.\<close>

definition counts_in :: "u16 \<Rightarrow> sigma_litref \<Rightarrow> bool" where
  "counts_in f r \<longleftrightarrow> l_field r = ANY_FIELD \<or> l_field r = f"

definition credited :: "sigma_eval \<Rightarrow> sigma_litref \<Rightarrow> bool" where
  "credited e r \<longleftrightarrow> unat (l_rule r) \<in> pf_stamped e \<and> unat (l_clause r) \<in> credits e (unat (l_rule r))"

lemma credited_keep: "credited e r \<Longrightarrow> pf_le e e' \<Longrightarrow> credited e' r"
  by (auto simp: credited_def pf_le_def)

lemma mark_postings_ok:
  assumes refs: "db_refs_ok d" and n: "needle < length (db_litndl d)" and inv: "pf_inv d dv ev e0 e"
  shows "\<exists>e'. mark_postings d needle e = Some e' \<and> pf_inv d dv ev e0 e' \<and> pf_le e e' \<and>
    e_cur_field e' = e_cur_field e \<and>
    (\<forall>r \<in> set (postings d needle). counts_in (e_cur_field e) r \<longrightarrow> credited e' r)"
proof -
  let ?p = "db_litpost d ! needle"
  let ?e1 = "e\<lparr>e_st := (e_st e)\<lparr>q_needles_confirmed := q_needles_confirmed (e_st e) + 1\<rparr>, e_cur_field := e_cur_field e\<rparr>"
  note fr = pf_inv_frame [OF inv refl, where f = "e_cur_field e"]
  have "\<exists>e'. mfold (\<lambda>k e. do { r \<leftarrow> idx (db_litpost_ref d) k;
         if l_field r \<noteq> ANY_FIELD \<and> l_field r \<noteq> e_cur_field e then Some e
         else pf_credit (unat (l_rule r)) (l_clause r) e })
       [unat (lp_start ?p)..<unat (lp_start ?p) + unat (lp_count ?p)] ?e1 = Some e' \<and>
     (pf_inv d dv ev e0 e' \<and> e_cur_field e' = e_cur_field e) \<and> pf_le ?e1 e' \<and>
     (\<forall>k \<in> set [unat (lp_start ?p)..<unat (lp_start ?p) + unat (lp_count ?p)].
        counts_in (e_cur_field e) (db_litpost_ref d ! k) \<longrightarrow> credited e' (db_litpost_ref d ! k))"
  proof (rule mfold_grow [where le = pf_le])
    fix k e2 assume "k \<in> set [unat (lp_start ?p)..<unat (lp_start ?p) + unat (lp_count ?p)]"
      and i2: "pf_inv d dv ev e0 e2 \<and> e_cur_field e2 = e_cur_field e"
    then have k: "k < length (db_litpost_ref d)" using posting_slice [OF refs n] by simp
    let ?r = "db_litpost_ref d ! k"
    note rok = litref_at [OF refs k]
    from pf_credit_ok [OF conjunct1 [OF i2] rok] obtain e3 where 3:
      "pf_credit (unat (l_rule ?r)) (l_clause ?r) e2 = Some e3" "pf_inv d dv ev e0 e3" "pf_le e2 e3" "credited e3 ?r"
      by (auto simp: credited_def)
    have "e_cur_field e3 = e_cur_field e2"
      using 3(1) by (auto simp: pf_credit_def pf_touch_def pf_set_def bind_eq_Some_conv split: if_splits)
    with 3 k i2 pf_le_refl show "\<exists>t. do { r \<leftarrow> idx (db_litpost_ref d) k;
         if l_field r \<noteq> ANY_FIELD \<and> l_field r \<noteq> e_cur_field e2 then Some e2
         else pf_credit (unat (l_rule r)) (l_clause r) e2 } = Some t \<and>
       (pf_inv d dv ev e0 t \<and> e_cur_field t = e_cur_field e) \<and> pf_le e2 t \<and>
       (counts_in (e_cur_field e) ?r \<longrightarrow> credited t ?r)"
      by (auto simp: counts_in_def)
  next
    show "pf_inv d dv ev e0 ?e1 \<and> e_cur_field ?e1 = e_cur_field e" using fr(1) by simp
  qed (use pf_le_refl pf_le_trans credited_keep in blast)+
  then show ?thesis
    using needle_at_ok(2) [OF refs n] fr(2) pf_le_trans
    by (fastforce simp: mark_postings_def Let_def postings_def)
qed

text \<open>The callback meets the contract of the confirm pass.\<close>

definition posting_state ::
  "sigma_db \<Rightarrow> 're sigma_derived \<Rightarrow> (bytes \<Rightarrow> bytes option) \<Rightarrow> sigma_eval \<Rightarrow> u16 \<Rightarrow> sigma_eval \<Rightarrow> bool" where
  "posting_state d dv ev e0 f e \<longleftrightarrow> db_refs_ok d \<and> pf_inv d dv ev e0 e \<and> e_cur_field e = f"

interpretation posting_client:
  teddy_client "mark_postings d" "posting_state d dv ev e0 f" "length (db_litndl d)" for d dv ev e0 f
  by unfold_locales (use mark_postings_ok in \<open>fastforce simp: posting_state_def\<close>)

lemma mark_all_ok:
  assumes "posting_state d dv ev e0 f e" "\<forall>k \<in> set ms. k < length (db_litndl d)"
  shows "\<exists>e'. mfold (mark_postings d) ms e = Some e' \<and> posting_state d dv ev e0 f e' \<and> pf_le e e' \<and>
    (\<forall>k \<in> set ms. \<forall>r \<in> set (postings d k). counts_in f r \<longrightarrow> credited e' r)"
proof (rule mfold_grow [where le = pf_le])
  fix k e1 assume "k \<in> set ms" "posting_state d dv ev e0 f e1"
  then show "\<exists>t. mark_postings d k e1 = Some t \<and> posting_state d dv ev e0 f t \<and> pf_le e1 t \<and>
      (\<forall>r \<in> set (postings d k). counts_in f r \<longrightarrow> credited t r)"
    using assms(2) mark_postings_ok [of d k dv ev e0 e1] by (fastforce simp: posting_state_def)
qed (use assms(1) pf_le_refl pf_le_trans credited_keep in blast)+

section \<open>One field\<close>

text \<open>Everything the field's value can credit is credited.\<close>

definition field_done :: "sigma_db \<Rightarrow> (bytes \<Rightarrow> bytes option) \<Rightarrow> nat \<Rightarrow> sigma_eval \<Rightarrow> bool" where
  "field_done d ev f e \<longleftrightarrow>
     (\<forall>v j. field_val d ev f = Some v \<and> j < length (db_litndl d) \<and>
        occurs sigma_lc v (needle_at (db_litndl d) (db_strpool d) j) \<longrightarrow>
        (\<forall>r \<in> set (postings d j). counts_in (of_nat f) r \<longrightarrow> credited e r))"

lemma field_done_keep: "field_done d ev f e \<Longrightarrow> pf_le e e' \<Longrightarrow> field_done d ev f e'"
  unfolding field_done_def using credited_keep by blast

lemma postings_subset:
  "db_refs_ok d \<Longrightarrow> j < length (db_litndl d) \<Longrightarrow> r \<in> set (postings d j) \<Longrightarrow> r \<in> set (db_litpost_ref d)"
  using posting_slice [of d j] by (auto simp: postings_def Let_def)

lemma of_nat_u16: "f \<le> 65535 \<Longrightarrow> unat (of_nat f :: u16) = f"
  by (simp add: unat_of_nat)

lemma occurs_length: "occurs f hay ndl \<Longrightarrow> length ndl \<le> length hay"
  by (auto simp: occurs_def occurs_at_def)

text \<open>The confirm pass over one value, for a matcher that holds the needles \<open>I\<close>.\<close>

lemma confirm_field:
  assumes refs: "db_refs_ok d" and long: "needles_long d" and n: "db_litndl d \<noteq> []" and t: "v_teddy dv \<noteq> None"
    and wf: "teddy_wf tf (db_litndl d) (db_strpool d) I" and inv: "pf_inv d dv ev e0 e"
    and cur: "e_cur_field e = of_nat f" and v: "field_val d ev f = Some v"
    and I: "\<And>j r. j < length (db_litndl d) \<Longrightarrow> r \<in> set (postings d j) \<Longrightarrow> counts_in (of_nat f) r \<Longrightarrow> j \<in> I"
  shows "\<exists>scr e'. teddy_confirm arch tf v (mark_postings d) (e_tscr e, e) = Some (scr, e') \<and>
    pf_inv d dv ev e0 (e'\<lparr>e_tscr := scr\<rparr>) \<and> pf_le e (e'\<lparr>e_tscr := scr\<rparr>) \<and> field_done d ev f (e'\<lparr>e_tscr := scr\<rparr>)"
proof -
  have st: "posting_state d dv ev e0 (of_nat f) e" using refs inv cur by (simp add: posting_state_def)
  have scr: "scratch_ok (length (db_litndl d)) (e_tscr e)" using inv t by (simp add: pf_inv_def)
  from posting_client.teddy_confirm_ok [OF wf refl n scr st] obtain scr' e' ms where
    c: "teddy_confirm arch tf v (mark_postings d) (e_tscr e, e) = Some (scr', e')"
      "scratch_ok (length (db_litndl d)) scr'" "posting_state d dv ev e0 (of_nat f) e'"
      "set ms = {j \<in> I. occurs sigma_lc v (needle_at (db_litndl d) (db_strpool d) j)}"
      "mfold (mark_postings d) ms e = Some e'" by blast
  have "I \<subseteq> {..<length (db_litndl d)}" using wf by (auto simp: teddy_wf_def needle_fits_def)
  then have "\<forall>k \<in> set ms. k < length (db_litndl d)" using c(4) by auto
  from mark_all_ok [OF st this] c(5) have le: "pf_le e e'"
    and done_: "\<forall>k \<in> set ms. \<forall>r \<in> set (postings d k). counts_in (of_nat f) r \<longrightarrow> credited e' r" by auto
  have "pf_inv d dv ev e0 e'" using c(3) by (simp add: posting_state_def)
  note ts = pf_inv_tscr [OF this, of scr'] c(2)
  have "field_done d ev f e'"
    unfolding field_done_def using v done_ c(4) I by auto
  then have "field_done d ev f (e'\<lparr>e_tscr := scr'\<rparr>)" using ts field_done_keep by blast
  with c(1) ts le pf_le_trans show ?thesis by blast
qed

lemma scan_one_field_ok:
  assumes refs: "db_refs_ok d" and long: "needles_long d" and small: "fields_small d"
    and dv: "derived_ok x d dv" and bk: "db_bucket_keys d \<noteq> []" and t: "v_teddy dv = Some t"
    and f: "f < length (db_fields d)" and scan: "scan_field d dv bs f = Some go"
    and inv: "pf_inv d dv ev e0 e"
  shows "\<exists>e' k. scan_one_field x d dv ev t bs f (e, n) = Some (e', k) \<and> pf_inv d dv ev e0 e' \<and> pf_le e e' \<and>
    (go \<longrightarrow> field_done d ev f e')"
proof (cases go)
  case False
  with scan inv pf_le_refl show ?thesis by (auto simp: scan_one_field_def)
next
  case go: True
  have m: "matchers_ok d dv" using dv by (simp add: derived_ok_def)
  then have wft: "teddy_wf t (db_litndl d) (db_strpool d) {..<length (db_litndl d)}"
    using t by (simp add: matchers_ok_def)
  have f16: "unat (of_nat f :: u16) = f" using small f by (intro of_nat_u16) (simp add: fields_small_def)
  have any: "l_field r \<noteq> ANY_FIELD" if "\<not> v_lit_any_field dv" "j < length (db_litndl d)" "r \<in> set (postings d j)" for j r
    using dv that bk f postings_subset [OF refs that(2,3)] by (auto simp: derived_ok_def)
  let ?tf = "case v_field_teddy dv of Some arr \<Rightarrow> if \<not> v_lit_any_field dv then idx arr f else Some (Some t) | None \<Rightarrow> Some (Some t)"
  have "\<exists>tf. ?tf = Some tf \<and>
     (case tf of
        None \<Rightarrow> \<forall>j r. j < length (db_litndl d) \<and> r \<in> set (postings d j) \<longrightarrow> \<not> counts_in (of_nat f) r
      | Some tf \<Rightarrow> \<exists>I. teddy_wf tf (db_litndl d) (db_strpool d) I \<and>
          (\<forall>j r. j < length (db_litndl d) \<and> r \<in> set (postings d j) \<and> counts_in (of_nat f) r \<longrightarrow> j \<in> I))"
  proof (cases "v_field_teddy dv = None \<or> v_lit_any_field dv")
    case True
    with wft show ?thesis by (auto split: option.splits)
  next
    case False
    then obtain arr where arr: "v_field_teddy dv = Some arr" and la: "\<not> v_lit_any_field dv" by auto
    with m f have a: "f < length arr" "case arr ! f of None \<Rightarrow> posted_needles d f = {}
        | Some t \<Rightarrow> teddy_wf t (db_litndl d) (db_strpool d) (posted_needles d f)"
      by (auto simp: matchers_ok_def)
    have "j \<in> posted_needles d f" if "j < length (db_litndl d)" "r \<in> set (postings d j)" "counts_in (of_nat f) r" for j r
    proof -
      have "l_field r = of_nat f" using that(3) any [OF la that(1,2)] by (simp add: counts_in_def)
      with f16 have "unat (l_field r) = f" by simp
      with that show ?thesis by (auto simp: posted_needles_def)
    qed
    then show ?thesis using arr la a by (cases "arr ! f") auto
  qed
  then obtain tf where tf: "?tf = Some tf" and tfok:
     "case tf of
        None \<Rightarrow> \<forall>j r. j < length (db_litndl d) \<and> r \<in> set (postings d j) \<longrightarrow> \<not> counts_in (of_nat f) r
      | Some tf \<Rightarrow> \<exists>I. teddy_wf tf (db_litndl d) (db_strpool d) I \<and>
          (\<forall>j r. j < length (db_litndl d) \<and> r \<in> set (postings d j) \<and> counts_in (of_nat f) r \<longrightarrow> j \<in> I)" by blast
  show ?thesis
  proof (cases tf)
    case None
    then have "field_done d ev f e" using tfok by (auto simp: field_done_def)
    with None tf go scan inv pf_le_refl show ?thesis by (auto simp: scan_one_field_def)
  next
    case (Some tf')
    obtain e1 where r: "resolve_field d ev (of_nat f) e = Some (field_val d ev f, e1)" "memo_ok d ev e1" "evolves d e e1"
      using resolve_field_reads [OF refs, of ev e "of_nat f"] inv f16 by (auto simp: pf_inv_def reads_def)
    note ev1 = pf_inv_evolves [OF inv r(3,2)]
    show ?thesis
    proof (cases "\<exists>v. field_val d ev f = Some v \<and> 2 \<le> length v")
      case False
      have "field_done d ev f e1"
        unfolding field_done_def
      proof (intro allI impI)
        fix v j assume h: "field_val d ev f = Some v \<and> j < length (db_litndl d) \<and>
          occurs sigma_lc v (needle_at (db_litndl d) (db_strpool d) j)"
        then have fits: "needle_fits (db_litndl d) (db_strpool d) j" using needle_fits_at [OF refs long] by blast
        with h have "2 \<le> length v"
          using occurs_length [of sigma_lc v] needle_length [OF fits] by (fastforce simp: needle_fits_def)
        with False h show "\<forall>r \<in> set (postings d j). counts_in (of_nat f) r \<longrightarrow> credited e1 r" by blast
      qed
      moreover have "scan_one_field x d dv ev t bs f (e, n) = Some (e1, n)"
        using go scan tf Some r(1) False by (auto simp: scan_one_field_def split: option.splits)
      ultimately show ?thesis using ev1 by blast
    next
      case True
      then obtain v where v: "field_val d ev f = Some v" "2 \<le> length v" by blast
      let ?e2 = "e1\<lparr>e_st := e_st e1, e_cur_field := of_nat f\<rparr>"
      have e2: "?e2 = e1\<lparr>e_cur_field := of_nat f\<rparr>" by simp
      note fr = pf_inv_frame [OF ev1(1) refl, where q = "e_st e1" and f = "of_nat f"]
      from tfok Some obtain I where I: "teddy_wf tf' (db_litndl d) (db_strpool d) I"
        "\<And>j r. j < length (db_litndl d) \<Longrightarrow> r \<in> set (postings d j) \<Longrightarrow> counts_in (of_nat f) r \<Longrightarrow> j \<in> I" by auto
      have ne: "db_litndl d \<noteq> []" using m t by (simp add: matchers_ok_def)
      have "\<exists>scr e'. teddy_confirm (x_arch x) tf' v (mark_postings d) (e_tscr ?e2, ?e2) = Some (scr, e') \<and>
          pf_inv d dv ev e0 (e'\<lparr>e_tscr := scr\<rparr>) \<and> pf_le ?e2 (e'\<lparr>e_tscr := scr\<rparr>) \<and>
          field_done d ev f (e'\<lparr>e_tscr := scr\<rparr>)"
        using confirm_field [OF refs long ne _ I(1) fr(1) _ v(1) I(2)] t by simp
      then obtain scr e3 where 3: "teddy_confirm (x_arch x) tf' v (mark_postings d) (e_tscr ?e2, ?e2) = Some (scr, e3)"
        "pf_inv d dv ev e0 (e3\<lparr>e_tscr := scr\<rparr>)" "pf_le ?e2 (e3\<lparr>e_tscr := scr\<rparr>)" "field_done d ev f (e3\<lparr>e_tscr := scr\<rparr>)"
        by blast
      have "scan_one_field x d dv ev t bs f (e, n) = Some (e3\<lparr>e_tscr := scr\<rparr>, n + of_nat (length v))"
        using go scan tf Some r(1) v 3(1) by (simp add: scan_one_field_def Let_def)
      with 3(2-4) fr(2) ev1(2) pf_le_trans show ?thesis by blast
    qed
  qed
qed

section \<open>Field witnesses\<close>

definition fwit_sem :: "'re sigma_lib \<Rightarrow> sigma_db \<Rightarrow> (bytes \<Rightarrow> bytes option) \<Rightarrow> sigma_fwit \<Rightarrow> bool" where
  "fwit_sem x d ev w =
     (case field_val d ev (unat (w_field w)) of
        None \<Rightarrow> False
      | Some v \<Rightarrow> v \<noteq> [] \<and>
          (if w_op w = OP_CIDR then cidr_sem x v (db_cidrs d ! unat (w_ival w))
           else numeric_sem (w_op w) (w_ival w) v))"

lemma fwit_at:
  assumes "db_refs_ok d" "w \<in> set (db_fwit d)"
  shows "unat (w_rule w) < length (db_rules d)" "unat (w_clause w) < 32"
    "unat (w_clause w) < clauses d (unat (w_rule w))"
    "w_op w = OP_CIDR \<Longrightarrow> unat (w_ival w) < length (db_cidrs d)"
proof -
  have "fwit_ok d w" using assms by (simp add: db_refs_ok_def index_refs_ok_def list_all_iff)
  then show "unat (w_rule w) < length (db_rules d)" "unat (w_clause w) < 32"
    "unat (w_clause w) < clauses d (unat (w_rule w))"
    "w_op w = OP_CIDR \<Longrightarrow> unat (w_ival w) < length (db_cidrs d)"
    by (auto simp: fwit_ok_def rule_idx_ok_def clause_ok_def clauses_def word_less_nat_alt split: option.splits if_splits)
qed

lemma ucast_u32: "unat (w :: u64) < 4294967296 \<Longrightarrow> unat (ucast w :: u32) = unat w"
  by (simp add: unsigned_ucast_eq take_bit_nat_eq_self)

lemma fwit_holds_reads:
  assumes env: "match_env x d dv" and w: "w \<in> set (db_fwit d)" and m: "memo_ok d ev e"
  shows "reads d ev (fwit_holds x d ev w e) e (fwit_sem x d ev w)"
proof -
  have refs: "db_refs_ok d" using env by (simp add: match_env_def)
  note wok = fwit_at [OF refs w]
  have cid: "unat (ucast (w_ival w) :: u32) = unat (w_ival w)" if "w_op w = OP_CIDR"
    using wok(4) [OF that] refs by (intro ucast_u32) (simp add: db_refs_ok_def)
  have "ip_in_cidr (x_pton4 x) (x_pton6 x) v (db_cidrs d ! unat (w_ival w))
      = Some (cidr_sem x v (db_cidrs d ! unat (w_ival w)))" if "w_op w = OP_CIDR" for v
    using ip_in_cidr_sem cidr_at_ok [OF env wok(4) [OF that]] by blast
  moreover have "\<not> length (db_cidrs d) \<le> unat (w_ival w)" if "w_op w = OP_CIDR"
    using wok(4) [OF that] by simp
  ultimately show ?thesis
    unfolding fwit_holds_def
    by (intro reads_bind [OF resolve_field_reads [OF refs m]])
      (auto simp: fwit_sem_def num_test_sem cid reads_return split: option.split)
qed

section \<open>The candidate set\<close>

text \<open>The compiler's contract for one event: witness clauses are necessary.\<close>

definition posting_holds :: "sigma_db \<Rightarrow> (bytes \<Rightarrow> bytes option) \<Rightarrow> nat \<Rightarrow> sigma_litref \<Rightarrow> bool" where
  "posting_holds d ev i r \<longleftrightarrow>
     (\<exists>f < length (db_fields d). (l_field r = ANY_FIELD \<or> unat (l_field r) = f) \<and>
        (\<exists>v. field_val d ev f = Some v \<and> occurs sigma_lc v (needle_at (db_litndl d) (db_strpool d) i)))"

definition witnessed :: "'re sigma_lib \<Rightarrow> sigma_db \<Rightarrow> (bytes \<Rightarrow> bytes option) \<Rightarrow> nat \<Rightarrow> nat \<Rightarrow> bool" where
  "witnessed x d ev ri c \<longleftrightarrow>
     (\<exists>i < length (db_litndl d). \<exists>r \<in> set (postings d i).
        unat (l_rule r) = ri \<and> unat (l_clause r) = c \<and> posting_holds d ev i r) \<or>
     (\<exists>w \<in> set (db_fwit d). unat (w_rule w) = ri \<and> unat (w_clause w) = c \<and> fwit_sem x d ev w)"

definition cnf_necessary :: "'re sigma_lib \<Rightarrow> sigma_db \<Rightarrow> (bytes \<Rightarrow> bytes option) \<Rightarrow> bool" where
  "cnf_necessary x d ev \<longleftrightarrow>
     (\<forall>ri < length (db_rules d). rule_sem x d ev (db_rules d ! ri) \<longrightarrow>
        (if clauses d ri = 0 then of_nat ri \<in> set (db_litav d)
         else \<forall>c < clauses d ri. witnessed x d ev ri c))"

text \<open>A scoped posting names a field that one of its rule's predicates reads.\<close>

definition postings_scoped :: "sigma_db \<Rightarrow> bool" where
  "postings_scoped d \<longleftrightarrow>
     (\<forall>i < length (db_litndl d). \<forall>r \<in> set (postings d i).
        l_field r = ANY_FIELD \<or> unat (l_field r) \<in> rule_fields d (db_rules d ! unat (l_rule r)))"

lemma litav_at:
  assumes "db_refs_ok d" "ri \<in> set (db_litav d)"
  shows "unat ri < length (db_rules d)" "clauses d (unat ri) = 0" "rule_full_mask d (unat ri) = Some 0"
proof -
  have "litav_ok d ri" using assms by (simp add: db_refs_ok_def index_refs_ok_def list_all_iff)
  moreover have "case db_rule_clauses d of None \<Rightarrow> True | Some rc \<Rightarrow> length rc = length (db_rules d)"
    using assms(1) by (simp add: db_refs_ok_def)
  ultimately show "unat ri < length (db_rules d)" "clauses d (unat ri) = 0" "rule_full_mask d (unat ri) = Some 0"
    by (auto simp: litav_ok_def rule_idx_ok_def clauses_def rule_full_mask_def split: option.splits)
qed

lemma mask_bits: "n < 32 \<Longrightarrow> bit ((push_bit n 1 :: u32) - 1) c \<longleftrightarrow> c < n"
proof -
  assume n: "n < 32"
  have "(push_bit n 1 :: u32) - 1 = mask n" by (simp add: mask_eq_exp_minus_1)
  with n show ?thesis by (auto simp: bit_mask_iff possible_bit_word)
qed

lemma full_mask_bits:
  assumes "db_refs_ok d" "ri < length (db_rules d)"
  shows "\<exists>m. rule_full_mask d ri = Some m \<and> (\<forall>c. bit m c \<longleftrightarrow> c < clauses d ri)"
proof (cases "db_rule_clauses d")
  case None
  then show ?thesis by (simp add: rule_full_mask_def clauses_def)
next
  case (Some rc)
  with assms have l: "ri < length rc" "unat (rc ! ri) \<le> 32"
    by (simp_all add: db_refs_ok_def index_refs_ok_def list_all_length clause_count_ok_def)
  have "(0xFFFFFFFF :: u32) = - 1" by simp
  then have all: "bit (0xFFFFFFFF :: u32) c \<longleftrightarrow> c < 32" for c
    by (simp only: bit_minus_1_iff possible_bit_word) simp
  show ?thesis
    using Some l mask_bits [of "unat (rc ! ri)"] all
    by (cases "rc ! ri = 0"; cases "32 \<le> unat (rc ! ri)") (auto simp: rule_full_mask_def clauses_def)
qed

lemma is_candidate_iff:
  assumes refs: "db_refs_ok d" and inv: "pf_inv d dv ev e0 e" and ri: "ri < length (db_rules d)"
  shows "pf_is_candidate d e ri = Some (ri \<in> pf_stamped e \<and> credits e ri = {..<clauses d ri})"
proof -
  obtain g m where a: "e_rule_gen e = Some g" "e_rule_mask e = Some m"
    "length g = length (db_rules d)" "length m = length (db_rules d)"
    using pf_arrays [OF inv] by blast
  obtain fm where fm: "rule_full_mask d ri = Some fm" "\<And>c. bit fm c \<longleftrightarrow> c < clauses d ri"
    using full_mask_bits [OF refs ri] by blast
  have "m ! ri = fm \<longleftrightarrow> {c. bit (m ! ri) c} = {..<clauses d ri}"
  proof
    assume "{c. bit (m ! ri) c} = {..<clauses d ri}"
    then have "bit (m ! ri) c \<longleftrightarrow> bit fm c" for c using fm(2) by blast
    then show "m ! ri = fm" by (rule bit_eqI)
  qed (use fm(2) in auto)
  with a fm(1) ri show ?thesis
    by (auto simp: pf_is_candidate_def pf_stamped_def credits_def)
qed

lemma pf_inv_eval_ok:
  assumes "eval_ok d dv e" "pf_inv d dv ev e e'"
  shows "eval_ok d dv e'"
proof -
  have fr: "e_gen e' = e_gen e" "e_eval_done e' = e_eval_done e" "length (e_memo e') = length (db_fields d)"
    using assms(2) unfolding pf_inv_def memo_ok_def by blast+
  have "done_ok d e'" using assms(1) by (simp add: eval_ok_def done_ok_def fr cong: option.case_cong)
  moreover have "arrays_ok d e'" using assms(2) unfolding pf_inv_def arrays_ok_def by (auto simp: fr)
  ultimately show ?thesis using assms(2) fr(3) unfolding eval_ok_def pf_inv_def by blast
qed

text \<open>Every field a rule of the chosen buckets names is scanned.\<close>

lemma any_uses_field_ok:
  assumes "bitmaps_ok d dv" "f < length (db_fields d)"
  shows "\<forall>b \<in> set bs. b < length (db_bucket_keys d) \<Longrightarrow>
    \<exists>u. any_uses_field d dv bs f = Some u \<and>
      ((\<exists>b \<in> set bs. \<exists>ri \<in> set (bucket_rules d b). f \<in> rule_fields d (db_rules d ! ri)) \<longrightarrow> u)"
proof (induction bs)
  case Nil
  show ?case by (intro exI [of _ False]) simp
next
  case (Cons b bs)
  have "\<exists>u. bucket_uses_field d dv b f = Some u \<and>
      ((\<exists>ri \<in> set (bucket_rules d b). f \<in> rule_fields d (db_rules d ! ri)) \<longrightarrow> u)"
  proof (cases "v_bucket_fields dv")
    case None
    then show ?thesis by (intro exI [of _ True]) (simp add: bucket_uses_field_def)
  next
    case (Some bf)
    with assms Cons.prems show ?thesis
      by (auto simp: bucket_uses_field_def bitmaps_ok_def row_ok_def field_bit_def)
  qed
  with Cons show ?case by fastforce
qed

lemma scan_field_ok:
  assumes dv: "derived_ok x d dv" and f: "f < length (db_fields d)" and bs: "\<forall>b \<in> set bs. b < length (db_bucket_keys d)"
  shows "\<exists>go. scan_field d dv bs f = Some go \<and>
    (v_lit_any_field dv \<or> (\<exists>b \<in> set bs. \<exists>ri \<in> set (bucket_rules d b). f \<in> rule_fields d (db_rules d ! ri)) \<longrightarrow> go)"
proof -
  have "bitmaps_ok d dv" using dv by (simp add: derived_ok_def)
  from any_uses_field_ok [OF this f bs] show ?thesis by (auto simp: scan_field_def)
qed

lemma prefilter_candidates_ok:
  assumes env: "match_env x d dv" and long: "needles_long d" and small: "fields_small d" and dv: "derived_ok x d dv"
    and bk: "db_bucket_keys d \<noteq> []" and bs: "\<forall>b \<in> set bs. b < length (db_bucket_keys d)"
    and ok: "eval_ok d dv e" and m: "memo_ok d ev e" and fresh: "pf_stamped e = {}"
  shows "\<exists>pf e'. prefilter_candidates x d dv ev bs e = Some (pf, e') \<and>
    memo_ok d ev e' \<and> eval_ok d dv e' \<and> e_eval_done e' = e_eval_done e \<and> e_gen e' = e_gen e \<and>
    e_prefilter_on e' = e_prefilter_on e \<and>
    (\<forall>c R. calls_ok d c R e \<longrightarrow> calls_ok d c R e') \<and>
    (pf \<longrightarrow> pf_inv d dv ev e e' \<and>
      (\<forall>ri \<in> set (db_litav d). unat ri \<in> pf_stamped e') \<and>
      (\<forall>w \<in> set (db_fwit d). fwit_sem x d ev w \<longrightarrow> unat (w_rule w) \<in> pf_stamped e' \<and>
         unat (w_clause w) \<in> credits e' (unat (w_rule w))) \<and>
      (v_teddy dv \<noteq> None \<longrightarrow>
        (\<forall>f < length (db_fields d). scan_field d dv bs f = Some True \<longrightarrow> field_done d ev f e')))"
proof (cases "e_rule_mask e = None \<or> e_prefilter_on e = 0 \<or> (v_teddy dv = None \<and> db_fwit d = [])")
  case True
  with ok m show ?thesis by (auto simp: prefilter_candidates_def eval_ok_def)
next
  case False
  have refs: "db_refs_ok d" using env by (simp add: match_env_def)
  have cr0: "credits e ri = {}" for ri using fresh by (simp add: credits_def split: option.split)
  have inv0: "pf_inv d dv ev e e"
    using ok m False cr0 by (auto simp: pf_inv_def eval_ok_def arrays_ok_def split: option.splits)
  have "\<exists>e1. mfold (\<lambda>ri e. do { m \<leftarrow> rule_full_mask d (unat ri); pf_set (unat ri) m e }) (db_litav d) e = Some e1 \<and>
      pf_inv d dv ev e e1 \<and> pf_le e e1 \<and> (\<forall>ri \<in> set (db_litav d). unat ri \<in> pf_stamped e1)"
  proof (rule mfold_grow [where le = pf_le])
    fix ri e1 assume "ri \<in> set (db_litav d)" and i1: "pf_inv d dv ev e e1"
    note lv = litav_at [OF refs this(1)]
    have "credits e1 (unat ri) = {}" using pf_credits_lt [OF i1] lv(2) by fastforce
    from pf_set_ok [OF i1 lv(1) this] lv(3)
    show "\<exists>t. do { m \<leftarrow> rule_full_mask d (unat ri); pf_set (unat ri) m e1 } = Some t \<and>
        pf_inv d dv ev e t \<and> pf_le e1 t \<and> unat ri \<in> pf_stamped t" by simp
  next
    show "unat ri \<in> pf_stamped t" if "unat ri \<in> pf_stamped s" "pf_le s t" for ri s t
      using that by (auto simp: pf_le_def)
  qed (use inv0 pf_le_refl pf_le_trans in blast)+
  then obtain e1 where 1: "mfold (\<lambda>ri e. do { m \<leftarrow> rule_full_mask d (unat ri); pf_set (unat ri) m e }) (db_litav d) e = Some e1"
    "pf_inv d dv ev e e1" "\<forall>ri \<in> set (db_litav d). unat ri \<in> pf_stamped e1" by blast
  let ?W = "\<lambda>w e'. fwit_sem x d ev w \<longrightarrow> unat (w_rule w) \<in> pf_stamped e' \<and>
         unat (w_clause w) \<in> credits e' (unat (w_rule w))"
  have "\<exists>e2. mfold (\<lambda>w e. do { (h, e') \<leftarrow> fwit_holds x d ev w e;
          if h then pf_credit (unat (w_rule w)) (w_clause w) e' else Some e' }) (db_fwit d) e1 = Some e2 \<and>
      pf_inv d dv ev e e2 \<and> pf_le e1 e2 \<and> (\<forall>w \<in> set (db_fwit d). ?W w e2)"
  proof (rule mfold_grow [where le = pf_le])
    fix w e2 assume w: "w \<in> set (db_fwit d)" and i2: "pf_inv d dv ev e e2"
    then have "memo_ok d ev e2" by (simp add: pf_inv_def)
    from fwit_holds_reads [OF env w this] obtain e3 where
      3: "fwit_holds x d ev w e2 = Some (fwit_sem x d ev w, e3)" "memo_ok d ev e3" "evolves d e2 e3"
      unfolding reads_def by blast
    note i3 = pf_inv_evolves [OF i2 3(3,2)]
    from pf_credit_ok [OF i3(1) fwit_at(1-3) [OF refs w]] i3 3(1) pf_le_trans
    show "\<exists>t. do { (h, e') \<leftarrow> fwit_holds x d ev w e2;
          if h then pf_credit (unat (w_rule w)) (w_clause w) e' else Some e' } = Some t \<and>
        pf_inv d dv ev e t \<and> pf_le e2 t \<and> ?W w t"
      by (cases "fwit_sem x d ev w") (fastforce, auto)
  next
    show "?W w t" if "?W w s" "pf_le s t" for w s t using that by (auto simp: pf_le_def)
  qed (use 1(2) pf_le_refl pf_le_trans in blast)+
  then obtain e2 where 2: "mfold (\<lambda>w e. do { (h, e') \<leftarrow> fwit_holds x d ev w e;
          if h then pf_credit (unat (w_rule w)) (w_clause w) e' else Some e' }) (db_fwit d) e1 = Some e2"
      "pf_inv d dv ev e e2" "pf_le e1 e2" "\<forall>w \<in> set (db_fwit d). ?W w e2" by blast
  let ?F = "\<lambda>f e'. scan_field d dv bs f = Some True \<longrightarrow> field_done d ev f e'"
  have "\<exists>e3 k. (case v_teddy dv of
             None \<Rightarrow> Some (e2, 0)
           | Some t \<Rightarrow> mfold (scan_one_field x d dv ev t bs) [0..<length (db_fields d)] (e2, 0)) = Some (e3, k) \<and>
      pf_inv d dv ev e e3 \<and> pf_le e2 e3 \<and> (v_teddy dv \<noteq> None \<longrightarrow> (\<forall>f < length (db_fields d). ?F f e3))"
  proof (cases "v_teddy dv")
    case None
    with 2(2) pf_le_refl show ?thesis by auto
  next
    case (Some t)
    have "\<exists>s. mfold (scan_one_field x d dv ev t bs) [0..<length (db_fields d)] (e2, 0) = Some s \<and>
        pf_inv d dv ev e (fst s) \<and> pf_le (fst (e2, 0 :: u64)) (fst s) \<and> (\<forall>f \<in> set [0..<length (db_fields d)]. ?F f (fst s))"
    proof (rule mfold_grow [where le = "\<lambda>s s'. pf_le (fst s) (fst s')"])
      fix f and s :: "sigma_eval \<times> u64"
      assume "f \<in> set [0..<length (db_fields d)]" and i: "pf_inv d dv ev e (fst s)"
      then have f: "f < length (db_fields d)" by simp
      obtain go where go: "scan_field d dv bs f = Some go" using scan_field_ok [OF dv f bs] by blast
      from scan_one_field_ok [OF refs long small dv bk Some f go i, of "snd s"] go
      show "\<exists>t'. scan_one_field x d dv ev t bs f s = Some t' \<and> pf_inv d dv ev e (fst t') \<and> pf_le (fst s) (fst t') \<and>
          ?F f (fst t')" by (cases s) auto
    next
      show "?F f (fst t)" if "?F f (fst s)" "pf_le (fst s) (fst t)" for f and s t :: "sigma_eval \<times> u64"
        using that field_done_keep by blast
    next
      show "pf_inv d dv ev e (fst (e2, 0 :: u64))" using 2(2) by simp
    qed (fact pf_le_refl, erule (1) pf_le_trans)
    with Some show ?thesis by auto
  qed
  then obtain e3 k where 3: "(case v_teddy dv of
             None \<Rightarrow> Some (e2, 0)
           | Some t \<Rightarrow> mfold (scan_one_field x d dv ev t bs) [0..<length (db_fields d)] (e2, 0)) = Some (e3, k)"
      "pf_inv d dv ev e e3" "pf_le e2 e3" "v_teddy dv \<noteq> None \<longrightarrow> (\<forall>f < length (db_fields d). ?F f e3)" by blast
  define q where "q = (e_st e3)\<lparr>q_chain_steps := ts_chain_steps (e_tscr e3),
          q_haystack_bytes := q_haystack_bytes (e_st e3) + k, q_prefilter_runs := q_prefilter_runs (e_st e3) + 1\<rparr>"
  let ?e4 = "e3\<lparr>e_st := q, e_cur_field := e_cur_field e3\<rparr>"
  have e4: "?e4 = e3\<lparr>e_st := q\<rparr>" by simp
  note i4 = pf_inv_frame [OF 3(2) refl, where q = q and f = "e_cur_field e3"]
  have le: "pf_le e1 ?e4" "pf_le e2 ?e4" using 2(3) 3(3) i4(2) pf_le_trans by blast+
  have run: "prefilter_candidates x d dv ev bs e = Some (True, ?e4)"
    using False 1(1) 2(1) 3(1) by (auto simp: prefilter_candidates_def Let_def q_def)
  have "\<forall>ri \<in> set (db_litav d). unat ri \<in> pf_stamped ?e4" using 1(3) le(1) by (auto simp: pf_le_def)
  moreover have "\<forall>w \<in> set (db_fwit d). ?W w ?e4" using 2(4) le(2) by (auto simp: pf_le_def)
  moreover have "v_teddy dv \<noteq> None \<longrightarrow> (\<forall>f < length (db_fields d). ?F f ?e4)"
    using 3(4) i4(2) field_done_keep by blast
  moreover have "memo_ok d ev ?e4" "e_eval_done ?e4 = e_eval_done e" "e_gen ?e4 = e_gen e"
    "e_prefilter_on ?e4 = e_prefilter_on e"
    "\<forall>c R. calls_ok d c R e \<longrightarrow> calls_ok d c R ?e4" using i4(1) unfolding pf_inv_def by blast+
  moreover have "eval_ok d dv ?e4" by (rule pf_inv_eval_ok [OF ok i4(1)])
  ultimately show ?thesis using run i4(1) by (intro exI [of _ True] exI [of _ ?e4]) blast
qed

end
