(* ===== verification/Run_Spec.thy ===== *)
theory Run_Spec
  imports Prefilter_Spec
begin

text \<open>
  The evaluation entry points: which buckets an event selects, that the prefilter only saves
  work, and what one call of \<open>sigma_eval_run\<close> returns.
\<close>

section \<open>Routing\<close>

definition bucket_key :: "sigma_db \<Rightarrow> nat \<Rightarrow> bytes" where
  "bucket_key d b = str_bytes (db_strpool d) (db_bucket_keys d ! b)"

text \<open>The bucket of a routing token: the first key equal to it.\<close>

definition bucket_of :: "sigma_db \<Rightarrow> bytes \<Rightarrow> nat option" where
  "bucket_of d v = find (\<lambda>b. bucket_key d b = v) [0..<length (db_bucket_keys d)]"

definition route_vals :: "(bytes \<Rightarrow> bytes option) \<Rightarrow> bytes list \<Rightarrow> bytes list" where
  "route_vals ev rs = filter (\<lambda>v. v \<noteq> []) (List.map_filter ev rs)"

definition token_buckets :: "sigma_db \<Rightarrow> bytes list \<Rightarrow> nat list" where
  "token_buckets d vs = first_occ (List.map_filter (bucket_of d) vs)"

text \<open>The buckets of an event: those of its tokens, then the always-verify bucket.\<close>

definition selected :: "sigma_db \<Rightarrow> (bytes \<Rightarrow> bytes option) \<Rightarrow> nat list" where
  "selected d ev = first_occ (token_buckets d (route_vals ev routes) @
     (if db_av_bucket d = u32_max then [] else [unat (db_av_bucket d)]))"

text \<open>The rules an event is checked against, in order.\<close>

definition scope :: "sigma_db \<Rightarrow> (bytes \<Rightarrow> bytes option) \<Rightarrow> nat list" where
  "scope d ev =
     (if db_bucket_keys d = [] \<or> route_vals ev routes = [] then [0..<length (db_rules d)]
      else concat (map (bucket_rules d) (selected d ev)))"

text \<open>The field the loader remembered as the category is the one named \<open>event.category\<close>.\<close>

definition cat_field_ok :: "sigma_db \<Rightarrow> bool" where
  "cat_field_ok d \<longleftrightarrow>
     db_cat_field_id d = u32_max \<or>
     unat (db_cat_field_id d) < length (db_fields d) \<and>
       field_name d (unat (db_cat_field_id d)) = lit ''event.category''"

lemma routes_0: "routes ! 0 = lit ''event.category''" and length_routes: "length routes = 9"
  by (simp_all add: routes_def)

lemma find_cat_field_ok:
  "find_cat_field pool i fs = r \<Longrightarrow> i + length fs < 2 ^ 32 \<Longrightarrow>
    r = u32_max \<or> (\<exists>k < length fs. unat r = i + k \<and> str_bytes pool (fs ! k) = lit ''event.category'')"
proof (induction fs arbitrary: i)
  case Nil
  then show ?case by simp
next
  case (Cons f fs)
  show ?case
  proof (cases "unat (st_len f) = 14 \<and> rd pool (unat (st_off f)) 14 = lit ''event.category''")
    case True
    with Cons.prems have "unat r = i" by (auto simp: unat_of_nat)
    with True show ?thesis by (intro disjI2 exI [of _ 0]) (simp add: str_bytes_def)
  next
    case False
    with Cons.prems have "find_cat_field pool (Suc i) fs = r" by auto
    from Cons.IH [OF this] Cons.prems(2) show ?thesis by fastforce
  qed
qed

lemma cat_field_of_ok:
  assumes "length (db_fields d) < 2 ^ 32"
  shows "cat_field_ok (d\<lparr>db_cat_field_id := cat_field_of d, db_av_bucket := av\<rparr>)"
  using find_cat_field_ok [OF refl, of 0 "db_fields d" "db_strpool d"] assms
  by (auto simp: cat_field_ok_def cat_field_of_def field_name_def)

text \<open>The bucket lookup of the code is the mathematical one.\<close>

lemma str_bytes_eq:
  "str_ok d k \<Longrightarrow> length (str_bytes (db_strpool d) k) = unat (st_len k)"
  by (simp add: str_ok_def str_bytes_def rd_def)

lemma find_bucket_from_ok:
  assumes v: "v \<noteq> []"
  shows "db_bucket_keys d = pre @ ks \<Longrightarrow> \<forall>k \<in> set ks. str_ok d k \<Longrightarrow>
    find_bucket_from d v (length pre) ks =
      Some (case find (\<lambda>b. bucket_key d b = v) [length pre..<length (db_bucket_keys d)] of
              None \<Rightarrow> u32_max | Some b \<Rightarrow> of_nat b)"
proof (induction ks arbitrary: pre)
  case Nil
  then show ?case by simp
next
  case (Cons k ks)
  have up: "[length pre..<length (db_bucket_keys d)] = length pre # [Suc (length pre)..<length (db_bucket_keys d)]"
    using Cons.prems(1) by (intro upt_conv_Cons) simp
  have key: "bucket_key d (length pre) = str_bytes (db_strpool d) k"
    using Cons.prems(1) by (simp add: bucket_key_def)
  have len: "unat (st_len k) \<noteq> length v \<Longrightarrow> str_bytes (db_strpool d) k \<noteq> v"
    using str_bytes_eq [of d k] Cons.prems(2) by auto
  have pool: "pool_ref d k = Some (str_bytes (db_strpool d) k)" using Cons.prems(2) by (simp add: pool_ref_def)
  have IH: "find_bucket_from d v (Suc (length pre)) ks =
      Some (case find (\<lambda>b. bucket_key d b = v) [Suc (length pre)..<length (db_bucket_keys d)] of
              None \<Rightarrow> u32_max | Some b \<Rightarrow> of_nat b)"
    using Cons.IH [of "pre @ [k]"] Cons.prems by simp
  show ?case
    using v len by (simp add: up key pool IH)
qed

lemma find_category_bucket_ok:
  assumes "db_refs_ok d" "v \<noteq> []"
  shows "find_category_bucket d v = Some (case bucket_of d v of None \<Rightarrow> u32_max | Some b \<Rightarrow> of_nat b)"
proof -
  have "\<forall>k \<in> set (db_bucket_keys d). str_ok d k"
    using assms(1) by (auto simp: db_refs_ok_def list_all2_conv_all_nth bucket_ok_def in_set_conv_nth)
  with find_bucket_from_ok [OF assms(2), of d "[]"] show ?thesis
    by (simp add: find_category_bucket_def bucket_of_def)
qed

lemma bucket_of_Some:
  assumes "db_refs_ok d" "bucket_of d v = Some b"
  shows "b < length (db_bucket_keys d)" "unat (of_nat b :: u32) = b" "(of_nat b :: u32) \<noteq> u32_max"
proof -
  show b: "b < length (db_bucket_keys d)" using assms(2) by (auto simp: bucket_of_def find_Some_iff)
  moreover have n: "length (db_bucket_keys d) < 2 ^ 32" using assms(1) by (simp add: db_refs_ok_def)
  ultimately show u: "unat (of_nat b :: u32) = b" by (simp add: unat_of_nat)
  show "(of_nat b :: u32) \<noteq> u32_max"
  proof
    assume "of_nat b = (u32_max :: u32)"
    then have "b = 4294967295" using u by simp
    with b n show False by simp
  qed
qed

text \<open>Direct lookups made by the routing loop: every token the memo does not serve.\<close>

definition direct_calls :: "sigma_db \<Rightarrow> nat list \<Rightarrow> bytes multiset" where
  "direct_calls d is = mset (map (\<lambda>i. routes ! i) (filter (\<lambda>i. i \<noteq> 0 \<or> db_cat_field_id d = u32_max) is))"

definition route_inv ::
  "sigma_db \<Rightarrow> 're sigma_derived \<Rightarrow> (bytes \<Rightarrow> bytes option) \<Rightarrow> sigma_eval \<Rightarrow> nat list
     \<Rightarrow> u32 list \<times> bool \<times> sigma_eval \<Rightarrow> bool" where
  "route_inv d dv ev e0 is st \<longleftrightarrow>
     (case st of (sel, had, e) \<Rightarrow>
        let vs = route_vals ev (map (\<lambda>i. routes ! i) is) in
        map unat sel = token_buckets d vs \<and> length sel \<le> length is \<and> had = (vs \<noteq> []) \<and>
        memo_ok d ev e \<and> eval_ok d dv e \<and> evaluated e = {} \<and> pf_stamped e = {} \<and>
        e_prefilter_on e = e_prefilter_on e0 \<and>
        (\<forall>c. calls_ok d c {#} e0 \<longrightarrow> calls_ok d c (direct_calls d is) e))"

lemma route_vals_snoc:
  "route_vals ev (rs @ [r]) =
    route_vals ev rs @ (case ev r of None \<Rightarrow> [] | Some v \<Rightarrow> if v = [] then [] else [v])"
  by (simp add: route_vals_def List.map_filter_def split: option.split)

lemma token_buckets_snoc:
  "token_buckets d (vs @ [v]) =
    (case bucket_of d v of None \<Rightarrow> token_buckets d vs
     | Some b \<Rightarrow> if b \<in> set (token_buckets d vs) then token_buckets d vs else token_buckets d vs @ [b])"
  by (simp add: token_buckets_def List.map_filter_def first_occ_snoc split: option.split)

lemma token_buckets_Nil [simp]: "token_buckets d [] = []"
  by (simp add: token_buckets_def List.map_filter_def)

text \<open>The value and state after one token has been looked up.\<close>

lemma route_lookup:
  assumes refs: "db_refs_ok d" and small: "fields_small d" and cat: "cat_field_ok d" and i: "i < 9"
    and m: "memo_ok d ev e" and ok: "eval_ok d dv e"
    and c: "\<And>c. calls_ok d c {#} e0 \<Longrightarrow> calls_ok d c (direct_calls d is) e"
  shows "\<exists>e'. (if i = 0 \<and> db_cat_field_id d \<noteq> u32_max then resolve_field d ev (ucast (db_cat_field_id d)) e
               else Some (ev (routes ! i), e\<lparr>e_calls := e_calls e @ [routes ! i]\<rparr>)) = Some (ev (routes ! i), e') \<and>
    memo_ok d ev e' \<and> eval_ok d dv e' \<and> evaluated e' = evaluated e \<and> pf_stamped e' = pf_stamped e \<and>
    e_prefilter_on e' = e_prefilter_on e \<and> (\<forall>c. calls_ok d c {#} e0 \<longrightarrow> calls_ok d c (direct_calls d (is @ [i])) e')"
proof (cases "i = 0 \<and> db_cat_field_id d \<noteq> u32_max")
  case True
  with cat have f: "unat (db_cat_field_id d) < length (db_fields d)"
    "field_name d (unat (db_cat_field_id d)) = routes ! 0" by (auto simp: cat_field_ok_def routes_0)
  have u: "unat (ucast (db_cat_field_id d) :: u16) = unat (db_cat_field_id d)"
    using f(1) small by (simp add: fields_small_def unsigned_ucast_eq take_bit_nat_eq_self)
  from resolve_field_reads [OF refs m, of "ucast (db_cat_field_id d)"] obtain e' where
    e': "resolve_field d ev (ucast (db_cat_field_id d)) e = Some (ev (routes ! i), e')" "memo_ok d ev e'" "evolves d e e'"
    using True f unfolding reads_def by (auto simp: u field_val_def)
  note fr = evolves_frame [OF e'(3)]
  have "eval_ok d dv e'" using ok e'(2) by (simp add: eval_ok_def done_ok_def arrays_ok_def fr memo_ok_def cong: option.case_cong)
  moreover have "\<forall>c. calls_ok d c {#} e0 \<longrightarrow> calls_ok d c (direct_calls d (is @ [i])) e'"
    using c calls_ok_evolves [OF _ e'(3)] True by (auto simp: direct_calls_def)
  ultimately show ?thesis
    using True e'(1,2) fr by (simp add: evaluated_def pf_stamped_def cong: option.case_cong)
next
  case False
  let ?e = "e\<lparr>e_calls := e_calls e @ [routes ! i]\<rparr>"
  have "\<forall>c. calls_ok d c {#} e0 \<longrightarrow> calls_ok d c (direct_calls d (is @ [i])) ?e"
    using c False by (auto simp: calls_ok_def direct_calls_def resolved_def)
  moreover have "memo_ok d ev ?e" "eval_ok d dv ?e" "evaluated ?e = evaluated e" "pf_stamped ?e = pf_stamped e"
    using m ok by (simp_all add: memo_ok_def eval_ok_def done_ok_def arrays_ok_def evaluated_def pf_stamped_def
        cong: option.case_cong)
  ultimately show ?thesis unfolding if_not_P [OF False] by auto
qed

lemma route_step_ok:
  assumes refs: "db_refs_ok d" and small: "fields_small d" and cat: "cat_field_ok d" and i: "i < 9"
    and len: "length is < 9" and inv: "route_inv d dv ev e0 is st"
  shows "\<exists>st'. route_step d ev i st = Some st' \<and> route_inv d dv ev e0 (is @ [i]) st'"
proof -
  obtain sel had e where st: "st = (sel, had, e)" by (cases st)
  let ?vs = "route_vals ev (map (\<lambda>i. routes ! i) is)"
  have iv: "map unat sel = token_buckets d ?vs" "length sel \<le> length is" "had = (?vs \<noteq> [])"
    "memo_ok d ev e" "eval_ok d dv e" "evaluated e = {}" "pf_stamped e = {}"
    "e_prefilter_on e = e_prefilter_on e0" "\<And>c. calls_ok d c {#} e0 \<Longrightarrow> calls_ok d c (direct_calls d is) e"
    using inv by (simp_all add: st route_inv_def Let_def)
  from route_lookup [OF refs small cat i iv(4,5,9)] obtain e1 where
    e1: "(if i = 0 \<and> db_cat_field_id d \<noteq> u32_max then resolve_field d ev (ucast (db_cat_field_id d)) e
               else Some (ev (routes ! i), e\<lparr>e_calls := e_calls e @ [routes ! i]\<rparr>)) = Some (ev (routes ! i), e1)"
      "memo_ok d ev e1" "eval_ok d dv e1" "evaluated e1 = {}" "pf_stamped e1 = {}" "e_prefilter_on e1 = e_prefilter_on e0"
      "\<forall>c. calls_ok d c {#} e0 \<longrightarrow> calls_ok d c (direct_calls d (is @ [i])) e1"
    unfolding iv(6-8) by blast
  show ?thesis
  proof (cases "ev (routes ! i) = None \<or> ev (routes ! i) = Some []")
    case True
    then have "route_step d ev i st = Some (sel, had, e1)"
      unfolding route_step_def st prod.case e1(1) by auto
    with True iv(1-3) e1(2-) show ?thesis by (auto simp: route_inv_def Let_def route_vals_snoc)
  next
    case False
    then obtain v where v: "ev (routes ! i) = Some v" "v \<noteq> []" by auto
    show ?thesis
    proof (cases "bucket_of d v")
      case None
      then have "route_step d ev i st = Some (sel, True, e1)"
        unfolding route_step_def st prod.case e1(1) by (simp add: v find_category_bucket_ok [OF refs])
      with None v iv(1-3) e1(2-) show ?thesis
        by (auto simp: route_inv_def Let_def route_vals_snoc token_buckets_snoc)
    next
      case (Some b)
      note bk = bucket_of_Some [OF refs Some]
      have "of_nat b \<in> set sel \<longleftrightarrow> b \<in> set (map unat sel)" using bk(2) by (auto intro: image_eqI [where x = "of_nat b"])
      moreover have "route_step d ev i st = Some (add_bucket (of_nat b) sel, True, e1)"
        unfolding route_step_def st prod.case e1(1) using bk(3) by (simp add: v Some find_category_bucket_ok [OF refs])
      ultimately show ?thesis using Some v iv(1-3) e1(2-) bk(2) len
        by (auto simp: route_inv_def Let_def route_vals_snoc token_buckets_snoc add_bucket_def)
    qed
  qed
qed

lemma route_all_ok:
  assumes refs: "db_refs_ok d" and small: "fields_small d" and cat: "cat_field_ok d"
    and e: "memo_ok d ev e" "eval_ok d dv e" "evaluated e = {}" "pf_stamped e = {}"
  shows "\<exists>st. mfold (route_step d ev) [0..<length routes] ([], False, e) = Some st \<and>
    route_inv d dv ev e [0..<length routes] st"
proof (rule mfold_inv [where I = "route_inv d dv ev e"])
  show "route_inv d dv ev e [] ([], False, e)"
    using e by (simp add: route_inv_def route_vals_def List.map_filter_def direct_calls_def)
  fix ys i zs st assume xs: "[0..<length routes] = ys @ i # zs" and inv: "route_inv d dv ev e ys st"
  have "i \<in> set [0..<length routes]" unfolding xs by simp
  then have "i < 9" by (simp add: length_routes)
  moreover have "length ys < 9" using arg_cong [OF xs, of length] by (simp add: length_routes)
  ultimately show "\<exists>st'. route_step d ev i st = Some st' \<and> route_inv d dv ev e (ys @ [i]) st'"
    using route_step_ok [OF refs small cat _ _ inv] by blast
qed

lemma map_routes: "map (\<lambda>i. routes ! i) [0..<length routes] = routes"
  by (rule map_nth)

text \<open>The always-verify bucket is appended; the sixteen slots are never exhausted.\<close>

lemma selected_ok:
  assumes "map unat (sel :: u32 list) = token_buckets d (route_vals ev routes)" "length sel \<le> 9"
  shows "map unat (if db_av_bucket d \<noteq> u32_max then add_bucket (db_av_bucket d) sel else sel) = selected d ev"
proof -
  have dist: "first_occ (token_buckets d (route_vals ev routes)) = token_buckets d (route_vals ev routes)"
    by (rule first_occ_distinct) (simp add: token_buckets_def first_occ_def)
  have "db_av_bucket d \<in> set sel \<longleftrightarrow> unat (db_av_bucket d) \<in> set (map unat sel)"
    by (auto dest: unsigned_word_eqI)
  with assms dist show ?thesis by (auto simp: selected_def add_bucket_def first_occ_snoc)
qed

lemma selected_lt:
  assumes "db_refs_ok d" "av_bucket_ok d"
  shows "\<forall>b \<in> set (selected d ev). b < length (db_bucket_keys d)"
proof -
  have "b < length (db_bucket_keys d)" if "b \<in> set (token_buckets d vs)" for b vs
    using that bucket_of_Some(1) [OF assms(1)] by (fastforce simp: token_buckets_def List.map_filter_def)
  with assms(2) show ?thesis by (auto simp: selected_def av_bucket_ok_def)
qed

lemma any_big_ok:
  "\<forall>b \<in> set bs. unat b < length (db_buckets d) \<Longrightarrow> \<exists>u. any_big d e bs = Some u"
  by (induction bs) auto

section \<open>Soundness of the prefilter\<close>

lemma posting_rule_field:
  assumes refs: "db_refs_ok d" and scoped: "postings_scoped d" and i: "i < length (db_litndl d)"
    and r: "r \<in> set (postings d i)" and f: "f < length (db_fields d)" "unat (l_field r) = f" "l_field r \<noteq> ANY_FIELD"
  shows "f \<in> rule_fields d (db_rules d ! unat (l_rule r))"
  using assms unfolding postings_scoped_def by blast

lemma credited_all:
  assumes refs: "db_refs_ok d" and small: "fields_small d" and dv: "derived_ok x d dv"
    and bk: "db_bucket_keys d \<noteq> []" and bs: "\<forall>b \<in> set bs. b < length (db_bucket_keys d)"
    and b: "b \<in> set bs" "ri \<in> set (bucket_rules d b)" and scoped: "postings_scoped d"
    and wit: "witnessed x d ev ri c"
    and w: "\<forall>w \<in> set (db_fwit d). fwit_sem x d ev w \<longrightarrow> unat (w_rule w) \<in> pf_stamped e \<and>
         unat (w_clause w) \<in> credits e (unat (w_rule w))"
    and t: "v_teddy dv \<noteq> None \<longrightarrow>
        (\<forall>f < length (db_fields d). scan_field d dv bs f = Some True \<longrightarrow> field_done d ev f e)"
  shows "ri \<in> pf_stamped e \<and> c \<in> credits e ri"
  using wit unfolding witnessed_def
proof (elim disjE exE conjE bexE)
  fix w' assume "w' \<in> set (db_fwit d)" "unat (w_rule w') = ri" "unat (w_clause w') = c" "fwit_sem x d ev w'"
  with w show ?thesis by blast
next
  fix i r assume i: "i < length (db_litndl d)" and r: "r \<in> set (postings d i)" "unat (l_rule r) = ri" "unat (l_clause r) = c"
    and h: "posting_holds d ev i r"
  from h obtain f v where f: "f < length (db_fields d)" "l_field r = ANY_FIELD \<or> unat (l_field r) = f"
    "field_val d ev f = Some v" "occurs sigma_lc v (needle_at (db_litndl d) (db_strpool d) i)"
    unfolding posting_holds_def by blast
  have "v_teddy dv \<noteq> None" using dv i by (auto simp: derived_ok_def matchers_ok_def split: option.splits)
  moreover have "scan_field d dv bs f = Some True"
  proof -
    obtain go where go: "scan_field d dv bs f = Some go"
      "v_lit_any_field dv \<or> (\<exists>b \<in> set bs. \<exists>ri \<in> set (bucket_rules d b). f \<in> rule_fields d (db_rules d ! ri)) \<longrightarrow> go"
      using scan_field_ok [OF dv f(1) bs] by blast
    have go_any: "v_lit_any_field dv" if "l_field r = ANY_FIELD"
      using dv i bk f(1) postings_subset [OF refs i r(1)] that by (auto simp: derived_ok_def)
    have "f \<in> rule_fields d (db_rules d ! ri)" if "l_field r \<noteq> ANY_FIELD"
      using posting_rule_field [OF refs scoped i r(1) f(1) _ that] f(2) that r(2) by simp
    then have go by (cases "l_field r = ANY_FIELD") (use go(2) go_any b in blast)+
    with go(1) show ?thesis by simp
  qed
  ultimately have "field_done d ev f e" using t f(1) by blast
  moreover have "counts_in (of_nat f) r"
    using f(2) by (auto simp: counts_in_def)
  ultimately show ?thesis using f(3,4) i r unfolding field_done_def credited_def by blast
qed

lemma candidates_sound:
  assumes refs: "db_refs_ok d" and small: "fields_small d" and dv: "derived_ok x d dv"
    and bk: "db_bucket_keys d \<noteq> []" and bs: "\<forall>b \<in> set bs. b < length (db_bucket_keys d)"
    and b: "b \<in> set bs" "ri \<in> set (bucket_rules d b)"
    and cnf: "cnf_necessary x d ev" and scoped: "postings_scoped d"
    and inv: "pf_inv d dv ev e0 e" and av: "\<forall>ri \<in> set (db_litav d). unat ri \<in> pf_stamped e"
    and w: "\<forall>w \<in> set (db_fwit d). fwit_sem x d ev w \<longrightarrow> unat (w_rule w) \<in> pf_stamped e \<and>
         unat (w_clause w) \<in> credits e (unat (w_rule w))"
    and t: "v_teddy dv \<noteq> None \<longrightarrow>
        (\<forall>f < length (db_fields d). scan_field d dv bs f = Some True \<longrightarrow> field_done d ev f e)"
  shows "\<exists>c. pf_is_candidate d e ri = Some c \<and> (rule_sem x d ev (db_rules d ! ri) \<longrightarrow> c)"
proof -
  have ri: "ri < length (db_rules d)" using bucket_rules_lt [OF refs] bs b by blast
  have lt: "credits e ri \<subseteq> {..<clauses d ri}" using pf_credits_lt [OF inv] by blast
  have "ri \<in> pf_stamped e \<and> credits e ri = {..<clauses d ri}" if m: "rule_sem x d ev (db_rules d ! ri)"
  proof (cases "clauses d ri = 0")
    case True
    then have "of_nat ri \<in> set (db_litav d)" using cnf ri m by (simp add: cnf_necessary_def)
    moreover have "length (db_rules d) < 2 ^ 32" using refs by (simp add: db_refs_ok_def)
    then have "unat (of_nat ri :: u32) = ri" using ri by (simp add: unat_of_nat)
    ultimately have "ri \<in> pf_stamped e" using av by fastforce
    with True lt show ?thesis by simp
  next
    case False
    have c: "ri \<in> pf_stamped e \<and> c \<in> credits e ri" if "c < clauses d ri" for c
    proof (rule credited_all [OF refs small dv bk bs b scoped _ w t])
      show "witnessed x d ev ri c" using cnf ri m False that by (simp add: cnf_necessary_def)
    qed
    then have "{..<clauses d ri} \<subseteq> credits e ri" by blast
    with c [of 0] False lt show ?thesis by blast
  qed
  with is_candidate_iff [OF refs inv ri] show ?thesis by blast
qed

section \<open>Evaluating the selected buckets\<close>

lemma is_candidate_frame:
  "run_inv x d ev cap e0 rs (e, hits, fired) \<Longrightarrow> pf_is_candidate d e ri = pf_is_candidate d e0 ri"
  by (auto simp: run_inv_def pf_is_candidate_def cong: if_cong)

lemma eval_bucket_ok:
  assumes env: "match_env x d dv" and b: "b < length (db_bucket_keys d)"
    and pf: "pf \<Longrightarrow> \<forall>ri \<in> set (bucket_rules d b). \<exists>c. pf_is_candidate d e0 ri = Some c \<and>
        (rule_sem x d ev (db_rules d ! ri) \<longrightarrow> c)"
    and inv: "run_inv x d ev cap e0 rs st"
  shows "\<exists>st'. eval_bucket_prefiltered x d dv ev cap pf b st = Some st' \<and>
    run_inv x d ev cap e0 (rs @ bucket_rules d b) st'"
proof -
  have refs: "db_refs_ok d" using env by (simp add: match_env_def)
  note bk = bucket_at [OF refs b]
  let ?is = "[unat (b_start (db_buckets d ! b))..<unat (b_start (db_buckets d ! b)) + unat (b_count (db_buckets d ! b))]"
  let ?f = "\<lambda>i. unat (db_bucket_idx d ! i)"
  let ?step = "\<lambda>i (e, hits, fired).
              do { ri \<leftarrow> idx (db_bucket_idx d) i;
                   cand \<leftarrow> (if pf then pf_is_candidate d e (unat ri) else Some True);
                   if \<not> cand then Some (e, hits, fired)
                   else eval_one_rule x d dv ev cap (unat ri) (add_verified 1 e, hits, fired) }"
  have rules: "bucket_rules d b = map ?f ?is" by (simp add: bucket_rules_def Let_def)
  have "\<exists>st'. mfold ?step ?is (add_scope (ucast (b_count (db_buckets d ! b))) (fst st), snd st) = Some st' \<and>
    run_inv x d ev cap e0 (rs @ map ?f ?is) st'"
  proof (rule mfold_inv [where I = "\<lambda>ys. run_inv x d ev cap e0 (rs @ map ?f ys)"])
    show "run_inv x d ev cap e0 (rs @ map ?f []) (add_scope (ucast (b_count (db_buckets d ! b))) (fst st), snd st)"
      using inv run_inv_stats [of x d ev cap e0 rs "fst st" "fst (snd st)" "snd (snd st)"] by (simp add: add_scope_def)
    fix ys i zs s assume xs: "?is = ys @ i # zs" and iv: "run_inv x d ev cap e0 (rs @ map ?f ys) s"
    obtain e hits fired where s: "s = (e, hits, fired)" by (cases s)
    have i: "i \<in> set ?is" unfolding xs by simp
    then have il: "i < length (db_bucket_idx d)" using bk(2) by simp
    have ri: "?f i < length (db_rules d)" by (rule bucket_rule_lt [OF refs il])
    have mem: "?f i \<in> set (bucket_rules d b)" unfolding rules using i by simp
    have iv': "run_inv x d ev cap e0 (rs @ map ?f ys) (add_verified 1 e, hits, fired)"
      using run_inv_stats iv unfolding s add_verified_def by blast
    from eval_one_rule_inv [OF env ri this] obtain s' where
      s': "eval_one_rule x d dv ev cap (?f i) (add_verified 1 e, hits, fired) = Some s'"
        "run_inv x d ev cap e0 ((rs @ map ?f ys) @ [?f i]) s'" by blast
    obtain c where c: "(if pf then pf_is_candidate d e (?f i) else Some True) = Some c"
      "rule_sem x d ev (db_rules d ! ?f i) \<longrightarrow> c"
      using pf mem is_candidate_frame [OF iv [unfolded s]] by (cases pf) auto
    show "\<exists>s'. ?step i s = Some s' \<and> run_inv x d ev cap e0 (rs @ map ?f (ys @ [i])) s'"
    proof (cases c)
      case True
      with s' c(1) il show ?thesis by (simp add: s)
    next
      case False
      with run_inv_skip [OF iv] c il show ?thesis by (auto simp: s)
    qed
  qed
  with bk(1) show ?thesis unfolding rules by (simp add: eval_bucket_prefiltered_def)
qed

lemma eval_buckets_ok:
  assumes env: "match_env x d dv" and bs: "\<forall>b \<in> set bs. b < length (db_bucket_keys d)"
    and pf: "pf \<Longrightarrow> \<forall>b \<in> set bs. \<forall>ri \<in> set (bucket_rules d b). \<exists>c. pf_is_candidate d e0 ri = Some c \<and>
        (rule_sem x d ev (db_rules d ! ri) \<longrightarrow> c)"
    and e: "memo_ok d ev e0" "done_ok d e0" "evaluated e0 = {}"
  shows "\<exists>st. mfold (eval_bucket_prefiltered x d dv ev cap pf) bs (e0, [], 0) = Some st \<and>
    run_inv x d ev cap e0 (concat (map (bucket_rules d) bs)) st"
proof (rule mfold_inv [where I = "\<lambda>ys. run_inv x d ev cap e0 (concat (map (bucket_rules d) ys))"])
  show "run_inv x d ev cap e0 (concat (map (bucket_rules d) [])) (e0, [], 0)" using run_inv_init [OF e] by simp
  fix ys b zs st assume "bs = ys @ b # zs" and "run_inv x d ev cap e0 (concat (map (bucket_rules d) ys)) st"
  with bs pf show "\<exists>st'. eval_bucket_prefiltered x d dv ev cap pf b st = Some st' \<and>
      run_inv x d ev cap e0 (concat (map (bucket_rules d) (ys @ [b]))) st'"
    using eval_bucket_ok [OF env, of b pf e0] by simp
qed

lemma run_inv_result:
  assumes "run_inv x d ev cap e0 rs st" "eval_ok d dv e0"
  shows "\<exists>e. st = (e, hits_of x d ev cap rs, length (firing x d ev rs)) \<and> eval_ok d dv e \<and> memo_ok d ev e \<and>
    e_prefilter_on e = e_prefilter_on e0 \<and> (\<forall>c R. calls_ok d c R e0 \<longrightarrow> calls_ok d c R e)"
  using assms by (cases st) (auto simp: run_inv_def eval_ok_def arrays_ok_def memo_ok_def cong: option.case_cong)

section \<open>One call of the engine\<close>

text \<open>A loaded and finalized database together with the library it was finalized with.\<close>

definition ready :: "'re sigma_lib \<Rightarrow> sigma_db \<Rightarrow> 're sigma_derived \<Rightarrow> bool" where
  "ready x d dv \<longleftrightarrow> match_env x d dv \<and> av_bucket_ok d \<and> cat_field_ok d \<and> derived_ok x d dv \<and>
     needles_long d \<and> fields_small d"

text \<open>The calls of the routing loop in one run.\<close>

definition routing_calls :: "sigma_db \<Rightarrow> bytes multiset" where
  "routing_calls d = (if db_bucket_keys d = [] then {#} else direct_calls d [0..<length routes])"

definition run_result ::
  "'re sigma_lib \<Rightarrow> sigma_db \<Rightarrow> 're sigma_derived \<Rightarrow> (bytes \<Rightarrow> bytes option) \<Rightarrow> int option \<Rightarrow> nat list
     \<Rightarrow> bytes multiset \<Rightarrow> sigma_eval \<Rightarrow> run_state option \<Rightarrow> bool" where
  "run_result x d dv ev cap rs R e0 res \<longleftrightarrow>
     (\<exists>e. res = Some (e, hits_of x d ev cap rs, length (firing x d ev rs)) \<and> eval_ok d dv e \<and>
        e_prefilter_on e = e_prefilter_on e0 \<and> calls_ok d (e_calls e0) R e)"

lemma started:
  assumes "eval_ok d dv e"
  shows "memo_ok d ev (bump_eval_gen (reset_memo e))" "eval_ok d dv (bump_eval_gen (reset_memo e))"
    "evaluated (bump_eval_gen (reset_memo e)) = {}" "pf_stamped (bump_eval_gen (reset_memo e)) = {}"
    "e_prefilter_on (bump_eval_gen (reset_memo e)) = e_prefilter_on e"
    "calls_ok d (e_calls e) {#} (bump_eval_gen (reset_memo e))"
proof -
  have fr: "e_memo (bump_eval_gen (reset_memo e)) = map (\<lambda>_. None) (e_memo e)"
    "e_calls (bump_eval_gen (reset_memo e)) = e_calls e"
    "e_prefilter_on (bump_eval_gen (reset_memo e)) = e_prefilter_on e"
    by (simp_all add: reset_memo_def bump_eval_gen_def Let_def)
  have "resolved (bump_eval_gen (reset_memo e)) = {}" by (auto simp: resolved_def fr(1))
  then show "memo_ok d ev (bump_eval_gen (reset_memo e))" "calls_ok d (e_calls e) {#} (bump_eval_gen (reset_memo e))"
    "e_prefilter_on (bump_eval_gen (reset_memo e)) = e_prefilter_on e"
    using assms fr by (simp_all add: memo_ok_def calls_ok_def eval_ok_def)
qed (rule bump_fresh [OF reset_memo_ok(1) [OF assms]])+

lemma eval_ok_st [simp]: "eval_ok d dv (e\<lparr>e_st := q\<rparr>) = eval_ok d dv e"
  by (simp add: eval_ok_def done_ok_def arrays_ok_def cong: option.case_cong)

lemma full_scan:
  assumes env: "match_env x d dv" and e: "memo_ok d ev e" "eval_ok d dv e" "evaluated e = {}"
    and f: "e_prefilter_on e = e_prefilter_on e0" "calls_ok d (e_calls e0) R e"
  shows "run_result x d dv ev cap [0..<length (db_rules d)] R e0 (eval_all x d dv ev cap e)"
proof -
  have "done_ok d e" using e(2) by (simp add: eval_ok_def)
  from eval_all_ok [OF env e(1) this e(3)] obtain st where
    "eval_all x d dv ev cap e = Some st" "run_inv x d ev cap e [0..<length (db_rules d)] st" by blast
  with run_inv_result [OF this(2) e(2)] f show ?thesis unfolding run_result_def by auto
qed

lemma run_linear_result:
  assumes "match_env x d dv" "eval_ok d dv e"
  shows "run_result x d dv ev cap [0..<length (db_rules d)] {#} e (sigma_eval_run_linear x d dv ev cap e)"
  unfolding sigma_eval_run_linear_def using full_scan [OF assms(1) started(1-3,5,6) [OF assms(2)]] .

text \<open>The bucket path, from the state after routing.\<close>

lemma bucket_scan:
  assumes rdy: "ready x d dv" and bk: "db_bucket_keys d \<noteq> []"
    and bs: "map unat (bs :: u32 list) = selected d ev"
    and e: "memo_ok d ev e" "eval_ok d dv e" "evaluated e = {}" "pf_stamped e = {}"
    and f: "e_prefilter_on e = e_prefilter_on e0" "calls_ok d (e_calls e0) R e"
    and wit: "e_prefilter_on e0 = 0 \<or> cnf_necessary x d ev \<and> postings_scoped d"
  shows "run_result x d dv ev cap (concat (map (bucket_rules d) (selected d ev))) R e0
    (do { big \<leftarrow> any_big d e bs;
          (pf, e4) \<leftarrow> (if big then prefilter_candidates x d dv ev (map unat bs) e else Some (False, e));
          mfold (eval_bucket_prefiltered x d dv ev cap pf) (map unat bs) (e4, [], 0) })"
proof -
  have env: "match_env x d dv" and refs: "db_refs_ok d" and av: "av_bucket_ok d" and dv: "derived_ok x d dv"
    and long: "needles_long d" and small: "fields_small d" using rdy by (simp_all add: ready_def match_env_def)
  note lt = selected_lt [OF refs av, of ev]
  have "\<forall>b \<in> set (map unat bs). b < length (db_buckets d)" unfolding bs using lt bucket_at(1) [OF refs] by blast
  then obtain big where big: "any_big d e bs = Some big" using any_big_ok by fastforce
  obtain pf e4 where pf: "(if big then prefilter_candidates x d dv ev (selected d ev) e else Some (False, e)) = Some (pf, e4)"
    and e4: "memo_ok d ev e4" "eval_ok d dv e4" "evaluated e4 = {}" "e_prefilter_on e4 = e_prefilter_on e0"
      "calls_ok d (e_calls e0) R e4"
    and cand: "pf \<Longrightarrow> \<forall>b \<in> set (selected d ev). \<forall>ri \<in> set (bucket_rules d b).
        \<exists>c. pf_is_candidate d e4 ri = Some c \<and> (rule_sem x d ev (db_rules d ! ri) \<longrightarrow> c)"
  proof (cases "big \<and> e_prefilter_on e0 \<noteq> 0")
    case False
    then have "(if big then prefilter_candidates x d dv ev (selected d ev) e else Some (False, e)) = Some (False, e)"
      using f(1) by (auto simp: prefilter_candidates_def)
    with that e f show ?thesis by blast
  next
    case True
    from prefilter_candidates_ok [OF env long small dv bk lt e(2,1,4)] obtain pf e' where
      p: "prefilter_candidates x d dv ev (selected d ev) e = Some (pf, e')"
        "memo_ok d ev e'" "eval_ok d dv e'" "e_eval_done e' = e_eval_done e" "e_gen e' = e_gen e"
        "e_prefilter_on e' = e_prefilter_on e" "\<forall>c R. calls_ok d c R e \<longrightarrow> calls_ok d c R e'"
      and c: "pf \<longrightarrow> pf_inv d dv ev e e' \<and>
        (\<forall>ri \<in> set (db_litav d). unat ri \<in> pf_stamped e') \<and>
        (\<forall>w \<in> set (db_fwit d). fwit_sem x d ev w \<longrightarrow> unat (w_rule w) \<in> pf_stamped e' \<and>
           unat (w_clause w) \<in> credits e' (unat (w_rule w))) \<and>
        (v_teddy dv \<noteq> None \<longrightarrow>
          (\<forall>f < length (db_fields d). scan_field d dv (selected d ev) f = Some True \<longrightarrow> field_done d ev f e'))"
      by blast
    have on: "e_prefilter_on e' = e_prefilter_on e0" using p(6) f(1) by simp
    have "evaluated e' = {}" using e(3) p(4,5) by (simp add: evaluated_def cong: option.case_cong)
    moreover have "\<forall>b \<in> set (selected d ev). \<forall>ri \<in> set (bucket_rules d b).
        \<exists>c. pf_is_candidate d e' ri = Some c \<and> (rule_sem x d ev (db_rules d ! ri) \<longrightarrow> c)" if pf
    proof (intro ballI)
      fix b ri assume b: "b \<in> set (selected d ev)" "ri \<in> set (bucket_rules d b)"
      have w: "cnf_necessary x d ev" "postings_scoped d" using True wit by simp_all
      from candidates_sound [OF refs small dv bk lt b w, of e e'] c that
      show "\<exists>c. pf_is_candidate d e' ri = Some c \<and> (rule_sem x d ev (db_rules d ! ri) \<longrightarrow> c)" by simp
    qed
    ultimately show ?thesis using that [of pf e'] p f(2) True on by auto
  qed
  have "done_ok d e4" using e4(2) by (simp add: eval_ok_def)
  from eval_buckets_ok [OF env lt cand e4(1) this e4(3)] obtain st where
    st: "mfold (eval_bucket_prefiltered x d dv ev cap pf) (selected d ev) (e4, [], 0) = Some st"
      "run_inv x d ev cap e4 (concat (map (bucket_rules d) (selected d ev))) st" by blast
  from run_inv_result [OF st(2) e4(2)] e4(4,5) show ?thesis
    unfolding bs big run_result_def by (auto simp: pf st(1))
qed

text \<open>Every run returns, with the hits of the rules in scope that match, in order.\<close>

lemma run_result_ok:
  assumes rdy: "ready x d dv" and e: "eval_ok d dv e0"
    and wit: "e_prefilter_on e0 = 0 \<or> cnf_necessary x d ev \<and> postings_scoped d"
  shows "run_result x d dv ev cap (scope d ev) (routing_calls d) e0 (sigma_eval_run x d dv ev cap e0)"
proof -
  have env: "match_env x d dv" and refs: "db_refs_ok d" and small: "fields_small d" and cat: "cat_field_ok d"
    using rdy by (simp_all add: ready_def match_env_def)
  define e2 where "e2 = bump_eval_gen (reset_memo e0\<lparr>e_st := (e_st (reset_memo e0))\<lparr>q_events := q_events (e_st (reset_memo e0)) + 1\<rparr>\<rparr>)"
  obtain q where st: "e2 = (bump_eval_gen (reset_memo e0))\<lparr>e_st := q\<rparr>"
  proof
    show "e2 = (bump_eval_gen (reset_memo e0))\<lparr>e_st := e_st e2\<rparr>" by (simp add: e2_def bump_eval_gen_def Let_def)
  qed
  have s2: "memo_ok d ev e2" "eval_ok d dv e2" "evaluated e2 = {}" "pf_stamped e2 = {}"
    "e_prefilter_on e2 = e_prefilter_on e0" "calls_ok d (e_calls e0) {#} e2"
    using started(1) [OF e, of ev] started(2-6) [OF e] unfolding st
    by (simp_all add: pf_stamped_def cong: option.case_cong)
  let ?full = "\<lambda>e. eval_all x d dv ev cap
    (add_verified (of_nat (length (db_rules d))) (add_scope (of_nat (length (db_rules d))) e))"
  have full: "run_result x d dv ev cap [0..<length (db_rules d)] R e0 (?full e)"
    if "memo_ok d ev e" "eval_ok d dv e" "evaluated e = {}" "e_prefilter_on e = e_prefilter_on e0"
      "calls_ok d (e_calls e0) R e" for e R
    using that by (intro full_scan [OF env]) (simp_all add: add_verified_def add_scope_def)
  show ?thesis
  proof (cases "db_bucket_keys d = []")
    case True
    with full [OF s2(1-3,5,6)] show ?thesis
      by (simp add: sigma_eval_run_def Let_def e2_def scope_def routing_calls_def)
  next
    case False
    from route_all_ok [OF refs small cat s2(1-4)] obtain sel had e3 where
      r: "mfold (route_step d ev) [0..<length routes] ([], False, e2) = Some (sel, had, e3)"
        "route_inv d dv ev e2 [0..<length routes] (sel, had, e3)" by (metis prod_cases3)
    have s3: "map unat sel = token_buckets d (route_vals ev routes)" "length sel \<le> 9"
      "had = (route_vals ev routes \<noteq> [])" "memo_ok d ev e3" "eval_ok d dv e3" "evaluated e3 = {}"
      "pf_stamped e3 = {}" "e_prefilter_on e3 = e_prefilter_on e0" "calls_ok d (e_calls e0) (routing_calls d) e3"
      using r(2) s2(5,6) False by (simp_all add: route_inv_def Let_def map_routes [unfolded length_routes] length_routes routing_calls_def)
    have run: "sigma_eval_run x d dv ev cap e0 =
      (let sel' = (if db_av_bucket d \<noteq> u32_max then add_bucket (db_av_bucket d) sel else sel) in
       if \<not> had then ?full e3
       else do {
         big \<leftarrow> any_big d e3 sel';
         (pf, e4) \<leftarrow> (if big then prefilter_candidates x d dv ev (map unat sel') e3 else Some (False, e3));
         mfold (eval_bucket_prefiltered x d dv ev cap pf) (map unat sel') (e4, [], 0) })"
      using False r(1) unfolding sigma_eval_run_def Let_def e2_def [symmetric] by simp
    show ?thesis
    proof (cases had)
      case True
      with bucket_scan [OF rdy False selected_ok [OF s3(1,2)] s3(4-9) wit] s3(3) False show ?thesis
        by (simp add: run Let_def scope_def)
    next
      case False': False
      with full [OF s3(4-6,8,9)] s3(3) show ?thesis by (simp add: run Let_def scope_def)
    qed
  qed
qed

section \<open>Sessions\<close>

text \<open>
  The states of one scratch over its life: created, configured, and used for one event after
  another. With the prefilter on, each event must satisfy the contract of the artifact.
\<close>

inductive session :: "'re sigma_lib \<Rightarrow> sigma_db \<Rightarrow> 're sigma_derived \<Rightarrow> sigma_eval \<Rightarrow> bool"
  for x :: "'re sigma_lib" and d :: sigma_db and dv :: "'re sigma_derived" where
  created: "session x d dv (sigma_eval_create d dv)"
| switched: "session x d dv e \<Longrightarrow> session x d dv (sigma_eval_set_prefilter m e)"
| cleared: "session x d dv e \<Longrightarrow> session x d dv (sigma_eval_reset_stats e)"
| ran: "session x d dv e \<Longrightarrow> e_prefilter_on e = 0 \<or> cnf_necessary x d ev \<and> postings_scoped d \<Longrightarrow>
    sigma_eval_run x d dv ev cap e = Some (e', hits, n) \<Longrightarrow> session x d dv e'"
| scanned: "session x d dv e \<Longrightarrow> sigma_eval_run_linear x d dv ev cap e = Some (e', hits, n) \<Longrightarrow> session x d dv e'"

lemma settings_ok:
  "eval_ok d dv e \<Longrightarrow> eval_ok d dv (sigma_eval_set_prefilter m e)"
  "eval_ok d dv e \<Longrightarrow> eval_ok d dv (sigma_eval_reset_stats e)"
  by (simp_all add: eval_ok_def sigma_eval_set_prefilter_def sigma_eval_reset_stats_def done_ok_def
      arrays_ok_def cong: option.case_cong)

lemma session_ok:
  assumes "ready x d dv" "session x d dv e"
  shows "eval_ok d dv e"
  using assms(2)
proof induction
  case created
  show ?case by (rule create_ok)
next
  case (ran e ev cap e' hits n)
  from run_result_ok [OF assms(1) ran.IH ran.hyps(2), of cap] ran.hyps(3) show ?case
    by (auto simp: run_result_def)
next
  case (scanned e ev cap e' hits n)
  from run_linear_result [OF _ scanned.IH, of x ev cap] assms(1) scanned.hyps(2) show ?case
    by (auto simp: run_result_def ready_def)
qed (simp_all add: settings_ok)

lemma calls_ok_distinct:
  assumes "calls_ok d c R e" "length (e_memo e) = length (db_fields d)"
  shows "\<exists>fs. distinct fs \<and> set fs \<subseteq> {..<length (db_fields d)} \<and>
    mset (e_calls e) = mset c + R + mset (map (field_name d) fs)"
proof -
  let ?fs = "sorted_list_of_set (resolved e)"
  have "mset ?fs = mset_set (resolved e)" using mset_set_set [of ?fs] by simp
  then have "mset (map (field_name d) ?fs) = image_mset (field_name d) (mset_set (resolved e))" by simp
  moreover have "set ?fs \<subseteq> {..<length (db_fields d)}" using assms(2) by (auto simp: resolved_def)
  ultimately show ?thesis using assms(1) unfolding calls_ok_def by (intro exI [of _ ?fs]) simp
qed

lemma size_routing_calls: "size (routing_calls d) \<le> 9"
proof -
  have le: "length (filter (\<lambda>i. i \<noteq> 0 \<or> db_cat_field_id d = u32_max) [0..<length routes]) \<le> 9"
    using length_filter_le [of _ "[0..<length routes]"] by (simp only: length_upt length_routes diff_zero)
  then have "size (direct_calls d [0..<length routes]) \<le> 9"
    unfolding direct_calls_def size_mset length_map .
  then show ?thesis unfolding routing_calls_def by simp
qed

section \<open>Loaded artifacts are ready\<close>

lemma loaded_cat:
  assumes "sigma_load_tables buf = Inr d"
  shows "cat_field_ok d"
proof -
  obtain h where h: "hdr_sections_ok h (length buf)" "resolve_refs (db_view h buf) = Inr d"
    using assms by (rule sigma_load_tables_Inr)
  then obtain av where d: "d = (db_view h buf)\<lparr>db_av_bucket := av, db_cat_field_id := cat_field_of (db_view h buf)\<rparr>"
    by (elim resolve_refs_Inr) blast
  have "length (db_fields d) < 2 ^ 32" using load_refs_ok(1) [OF assms] by (simp add: db_refs_ok_def)
  then have "length (db_fields (db_view h buf)) < 2 ^ 32" by (simp add: d)
  from cat_field_of_ok [OF this] show ?thesis by (simp add: d cat_field_ok_def field_name_def)
qed

lemma load_ready:
  fixes x :: "'re sigma_lib"
  assumes load: "sigma_load_tables buf = Inr d" and x: "lib_ok x"
    and d: "list_all cidr_prefix_ok (db_cidrs d)" "needles_long d" "fields_small d"
  shows "\<exists>dv. sigma_db_load_buffer x buf = Some (if re_values_ok d then Inr (d, dv) else Inl ERR_REGEX) \<and>
    (re_values_ok d \<longrightarrow> ready x d dv)"
proof -
  note ok = load_refs_ok [OF load]
  from finalize_ok [OF ok(1) d(2,3)] obtain dv where
    "sigma_db_finalize x d no_derived = Some (if re_values_ok d then 0 else -1, dv)"
    "re_values_ok d \<longrightarrow> derived_ok x d dv" by blast
  with load x d ok loaded_cat [OF load] show ?thesis
    by (auto simp: sigma_db_load_buffer_def ready_def match_env_def derived_ok_def)
qed

end
