(* ===== verification/Roundtrip.thy ===== *)
theory Roundtrip
  imports Loader_Safety
begin

text \<open>
  The serializer and the loader are inverse: a well-formed database that was serialized is
  loaded back unchanged. The copies of the serializer go to ascending, disjoint sections,
  so each section can be read back from the finished buffer.
\<close>

section \<open>Copies into disjoint sections\<close>

fun ascending :: "nat \<Rightarrow> (nat \<times> bytes) list \<Rightarrow> nat \<Rightarrow> bool" where
  "ascending p [] e \<longleftrightarrow> p \<le> e"
| "ascending p ((off, b) # cs) e \<longleftrightarrow> p \<le> off \<and> ascending (off + length b) cs e"

lemma ascending_le: "ascending p cs e \<Longrightarrow> p \<le> e"
proof (induction cs arbitrary: p)
  case Nil
  then show ?case by simp
next
  case (Cons c cs)
  then show ?case by (cases c) fastforce
qed

lemma length_blit: "fst c + length (snd c) \<le> length buf \<Longrightarrow> length (blit buf c) = length buf"
  by (simp add: blit_def)

lemma rd_blit: "fst c \<le> length buf \<Longrightarrow> rd (blit buf c) (fst c) (length (snd c)) = snd c"
  by (simp add: blit_def rd_def)

lemma rd_blit_before:
  "off + n \<le> fst c \<Longrightarrow> fst c \<le> length buf \<Longrightarrow> rd (blit buf c) off n = rd buf off n"
  unfolding blit_def rd_def by (intro nth_equalityI) (auto simp: nth_append)

lemma foldl_blit:
  "ascending p cs e \<Longrightarrow> e \<le> length buf \<Longrightarrow>
   length (foldl blit buf cs) = length buf \<and>
   (\<forall>off n. off + n \<le> p \<longrightarrow> rd (foldl blit buf cs) off n = rd buf off n) \<and>
   (\<forall>(off, b) \<in> set cs. rd (foldl blit buf cs) off (length b) = b)"
proof (induction cs arbitrary: p buf)
  case Nil
  then show ?case by simp
next
  case (Cons c cs)
  obtain off b where c: "c = (off, b)" by (cases c)
  with Cons.prems have p: "p \<le> off" and asc: "ascending (off + length b) cs e" by auto
  with ascending_le [OF asc] Cons.prems(2) have le: "off + length b \<le> length buf" by simp
  then have len: "length (blit buf c) = length buf" by (simp add: c length_blit)
  note IH = Cons.IH [OF asc, of "blit buf c"]
  have e: "e \<le> length (blit buf c)" using len Cons.prems(2) by simp
  have "rd (foldl blit (blit buf c) cs) off (length b) = b"
    using IH [OF e] rd_blit [of c buf] le c by simp
  moreover have "rd (foldl blit (blit buf c) cs) o' n = rd buf o' n" if "o' + n \<le> p" for o' n
    using IH [OF e] rd_blit_before [of o' n c buf] that p le c by simp
  ultimately show ?case using IH [OF e] len c by auto
qed

section \<open>The layout\<close>

lemma align8_mod: "align8 x mod 8 = 0"
  by (simp add: align8_def)

lemma hdr_len: "length (enc_hdr h) = 144"
  by (rule hdr_codec.enc_len)

lemmas enc_lens = hdr_len str_codec.length_concat_enc pred_codec.length_concat_enc
  sel_codec.length_concat_enc ctok_codec.length_concat_enc rule_codec.length_concat_enc
  cidr_codec.length_concat_enc bucket_codec.length_concat_enc litpost_codec.length_concat_enc
  litref_codec.length_concat_enc fwit_codec.length_concat_enc u32_codec.length_concat_enc

text \<open>Each section starts where the previous one ends, rounded up.\<close>

lemma db_layout_steps:
  "lo_fields (db_layout d) = align8 HDR_SIZE"
  "lo_values (db_layout d) = align8 (lo_fields (db_layout d) + length (db_fields d) * 8)"
  "lo_preds (db_layout d) = align8 (lo_values (db_layout d) + length (db_values d) * 8)"
  "lo_sels (db_layout d) = align8 (lo_preds (db_layout d) + length (db_preds d) * 24)"
  "lo_cond (db_layout d) = align8 (lo_sels (db_layout d) + length (db_sels d) * 8)"
  "lo_rules (db_layout d) = align8 (lo_cond (db_layout d) + length (db_cond d) * 8)"
  "lo_cidrs (db_layout d) = align8 (lo_rules (db_layout d) + length (db_rules d) * 32)"
  "lo_bkeys (db_layout d) = align8 (lo_cidrs (db_layout d) + length (db_cidrs d) * 20)"
  "lo_buckets (db_layout d) = align8 (lo_bkeys (db_layout d) + length (db_bucket_keys d) * 8)"
  "lo_bidx (db_layout d) = align8 (lo_buckets (db_layout d) + length (db_bucket_keys d) * 8)"
  "lo_litndl (db_layout d) = align8 (lo_bidx (db_layout d) + length (db_bucket_idx d) * 4)"
  "lo_litpost (db_layout d) = align8 (lo_litndl (db_layout d) + length (db_litndl d) * 8)"
  "lo_litpost_ref (db_layout d) = align8 (lo_litpost (db_layout d) + length (db_litndl d) * 8)"
  "lo_litav (db_layout d) = align8 (lo_litpost_ref (db_layout d) + length (db_litpost_ref d) * 8)"
  "lo_rule_clauses (db_layout d) = align8 (lo_litav (db_layout d) + length (db_litav d) * 4)"
  "lo_fwit (db_layout d) = align8 (lo_rule_clauses (db_layout d) +
     (if db_rule_clauses d \<noteq> None then length (db_rules d) else 0))"
  "lo_strpool (db_layout d) = align8 (lo_fwit (db_layout d) + length (db_fwit d) * 16)"
  "lo_body_end (db_layout d) = lo_strpool (db_layout d) + length (db_strpool d)"
  "lo_total (db_layout d) = lo_body_end (db_layout d) + 4"
  by (simp_all only: db_layout_def Let_def layout.simps)

lemma align8_step: "a = align8 (b + n) \<Longrightarrow> b + n \<le> a"
  using align8_ge by simp

lemmas layout_le = db_layout_steps(2-17) [THEN align8_step]

lemma layout_fields: "144 \<le> lo_fields (db_layout d)"
  unfolding db_layout_steps(1) by (rule align8_ge)

text \<open>The parallel tables of a database as the serializer needs them.\<close>

definition db_shape :: "sigma_db \<Rightarrow> bool" where
  "db_shape d \<longleftrightarrow>
     length (db_buckets d) = length (db_bucket_keys d) \<and>
     length (db_litpost d) = length (db_litndl d) \<and>
     (\<forall>rc. db_rule_clauses d = Some rc \<longrightarrow> db_rules d \<noteq> [] \<and> length rc = length (db_rules d)) \<and>
     list_all (\<lambda>c. length (cidr_net c) = 16) (db_cidrs d)"

lemma copies_ascending:
  assumes "db_shape d"
  shows "ascending 0 (db_copies d (db_layout d)) (lo_body_end (db_layout d))"
proof -
  have rc: "length (case db_rule_clauses d of None \<Rightarrow> [] | Some rc \<Rightarrow> take (length (db_rules d)) rc)
    = (if db_rule_clauses d \<noteq> None then length (db_rules d) else 0)"
    using assms by (auto simp: db_shape_def)
  have sh: "length (db_buckets d) = length (db_bucket_keys d)" "length (db_litpost d) = length (db_litndl d)"
    using assms by (simp_all add: db_shape_def)
  show ?thesis
    unfolding db_copies_def ascending.simps enc_array_def enc_lens rc sh
    using layout_fields [of d] layout_le [of d] by (simp add: db_layout_steps(18))
qed

definition db_body :: "sigma_db \<Rightarrow> bytes" where
  "db_body d = foldl blit (replicate (lo_total (db_layout d)) 0) (db_copies d (db_layout d))"

lemma serialize_body:
  "sigma_db_serialize d =
     blit (db_body d) (lo_total (db_layout d) - 4,
       enc_u32 (crc32c_sw 0 (take (lo_total (db_layout d) - 4) (db_body d))))"
  by (simp add: sigma_db_serialize_def db_body_def Let_def)

lemma body_end_total: "lo_body_end (db_layout d) \<le> lo_total (db_layout d)"
  by (simp add: db_layout_steps(19))

lemma length_db_body: "db_shape d \<Longrightarrow> length (db_body d) = lo_total (db_layout d)"
  using foldl_blit [OF copies_ascending, of d "replicate (lo_total (db_layout d)) 0"] body_end_total
  unfolding db_body_def by simp

lemma length_serialize: "db_shape d \<Longrightarrow> length (sigma_db_serialize d) = lo_total (db_layout d)"
  by (simp add: serialize_body length_blit length_db_body db_layout_steps(19))

lemma take_serialize:
  "db_shape d \<Longrightarrow> take (lo_total (db_layout d) - 4) (sigma_db_serialize d)
     = take (lo_total (db_layout d) - 4) (db_body d)"
  by (simp add: serialize_body blit_def length_db_body)

lemma copies_rd:
  assumes "db_shape d" "(off, b) \<in> set (db_copies d (db_layout d))"
  shows "rd (sigma_db_serialize d) off (length b) = b \<and> off + length b \<le> lo_body_end (db_layout d)"
proof -
  have fit: "ascending p cs e \<Longrightarrow> (off, b) \<in> set cs \<Longrightarrow> off + length b \<le> e" for p cs e
  proof (induction cs arbitrary: p)
    case Nil
    then show ?case by simp
  next
    case (Cons c cs)
    then show ?case by (cases c) (auto dest: ascending_le)
  qed
  have le: "off + length b \<le> lo_body_end (db_layout d)"
    using fit copies_ascending [OF assms(1)] assms(2) by blast
  have "rd (sigma_db_serialize d) off (length b) = rd (db_body d) off (length b)"
    unfolding serialize_body
    using le assms(1) by (intro rd_blit_before) (simp_all add: length_db_body db_layout_steps(19))
  also have "\<dots> = b"
    using foldl_blit [OF copies_ascending [OF assms(1)], of "replicate (lo_total (db_layout d)) 0"]
      body_end_total [of d] assms(2) unfolding db_body_def by auto
  finally show ?thesis using le by simp
qed

lemma crc_serialize:
  assumes "db_shape d"
  shows "crc32c_sw 0 (take (length (sigma_db_serialize d) - 4) (sigma_db_serialize d))
    = u32_at (sigma_db_serialize d) (length (sigma_db_serialize d) - 4)"
proof -
  let ?c = "(lo_total (db_layout d) - 4,
       enc_u32 (crc32c_sw 0 (take (lo_total (db_layout d) - 4) (db_body d))))"
  have "rd (sigma_db_serialize d) (lo_total (db_layout d) - 4) 4 = snd ?c"
    using rd_blit [of ?c "db_body d"] assms by (simp add: serialize_body length_db_body)
  then have "u32_at (sigma_db_serialize d) (lo_total (db_layout d) - 4)
      = u32_at (snd ?c) 0"
    by (simp add: u32_at_def rd_def)
  then show ?thesis using assms by (simp add: length_serialize take_serialize)
qed

section \<open>Reading the sections back\<close>

lemma unat32: "n < 4294967296 \<Longrightarrow> unat (of_nat n :: u32) = n"
  by (simp add: unat_of_nat)

lemma unat_off_if: "n < 4294967296 \<Longrightarrow> unat (off_if b n) = (if b then n else 0)"
  by (simp add: off_if_def unat32)

lemma dec_section:
  assumes "db_shape d" "(off, enc_array enc xs) \<in> set (db_copies d (db_layout d))"
    "codec enc dec sz ok" "list_all ok xs" "off' = off \<or> xs = []"
  shows "dec_array dec sz (sigma_db_serialize d) off' (length xs) = xs"
proof (cases "xs = []")
  case True
  then show ?thesis by (simp add: dec_array_def)
next
  case False
  have "rd (sigma_db_serialize d) off (length xs * sz) = concat (map enc xs)"
    using copies_rd [OF assms(1,2)] codec.length_concat_enc [OF assms(3), of xs]
    by (simp add: enc_array_def)
  from codec.array_dec_enc [OF assms(3) this _ assms(4)] False assms(5) show ?thesis
    by (simp add: dec_array_def)
qed

lemma body_lt:
  assumes "lo_total (db_layout d) < 4294967296"
  shows "lo_fields (db_layout d) < 4294967296" "lo_values (db_layout d) < 4294967296"
    "lo_preds (db_layout d) < 4294967296" "lo_sels (db_layout d) < 4294967296"
    "lo_cond (db_layout d) < 4294967296" "lo_rules (db_layout d) < 4294967296"
    "lo_cidrs (db_layout d) < 4294967296" "lo_bkeys (db_layout d) < 4294967296"
    "lo_buckets (db_layout d) < 4294967296" "lo_bidx (db_layout d) < 4294967296"
    "lo_litndl (db_layout d) < 4294967296" "lo_litpost (db_layout d) < 4294967296"
    "lo_litpost_ref (db_layout d) < 4294967296" "lo_litav (db_layout d) < 4294967296"
    "lo_rule_clauses (db_layout d) < 4294967296" "lo_fwit (db_layout d) < 4294967296"
    "lo_strpool (db_layout d) < 4294967296"
  using layout_le [of d] assms unfolding db_layout_steps(18,19) by linarith+

lemma counts_lt:
  assumes "lo_total (db_layout d) < 4294967296"
  shows "length (db_fields d) < 4294967296" "length (db_values d) < 4294967296"
    "length (db_preds d) < 4294967296" "length (db_sels d) < 4294967296"
    "length (db_cond d) < 4294967296" "length (db_rules d) < 4294967296"
    "length (db_cidrs d) < 4294967296" "length (db_bucket_keys d) < 4294967296"
    "length (db_bucket_idx d) < 4294967296" "length (db_litndl d) < 4294967296"
    "length (db_litpost_ref d) < 4294967296" "length (db_litav d) < 4294967296"
    "length (db_fwit d) < 4294967296" "length (db_strpool d) < 4294967296"
  using layout_le [of d] body_lt [OF assms] assms unfolding db_layout_steps(18,19) by linarith+

lemma header_read:
  assumes "db_shape d"
  shows "rd (sigma_db_serialize d) 0 144 = enc_hdr (db_header d (db_layout d))"
proof -
  have "(0, enc_hdr (db_header d (db_layout d))) \<in> set (db_copies d (db_layout d))"
    by (simp add: db_copies_def)
  from copies_rd [OF assms this] show ?thesis by (simp add: hdr_len)
qed

text \<open>Offset and count of each table as the header states them.\<close>

lemma header_counts:
  assumes "db_shape d" "lo_total (db_layout d) < 4294967296"
  defines "h \<equiv> db_header d (db_layout d)"
  shows "unat (h_n_fields h) = length (db_fields d)" "unat (h_n_values h) = length (db_values d)"
    "unat (h_n_preds h) = length (db_preds d)" "unat (h_n_sels h) = length (db_sels d)"
    "unat (h_n_cond h) = length (db_cond d)" "unat (h_n_rules h) = length (db_rules d)"
    "unat (h_n_cidrs h) = length (db_cidrs d)" "unat (h_strpool_len h) = length (db_strpool d)"
    "unat (h_n_buckets h) = length (db_bucket_keys d)" "unat (h_n_buckets h) = length (db_buckets d)"
    "unat (h_n_bucket_idx h) = length (db_bucket_idx d)" "unat (h_n_litndl h) = length (db_litndl d)"
    "unat (h_n_litndl h) = length (db_litpost d)" "unat (h_n_litpost_ref h) = length (db_litpost_ref d)"
    "unat (h_n_litav h) = length (db_litav d)" "unat (h_n_fwit h) = length (db_fwit d)"
  using counts_lt [OF assms(2)] assms(1)
  by (simp_all add: h_def db_header_def Let_def unat32 db_shape_def)

lemma header_offsets:
  assumes "db_shape d" "lo_total (db_layout d) < 4294967296"
  defines "h \<equiv> db_header d (db_layout d)"
  shows "unat (h_off_fields h) = lo_fields (db_layout d)" "unat (h_off_values h) = lo_values (db_layout d)"
    "unat (h_off_preds h) = lo_preds (db_layout d)" "unat (h_off_sels h) = lo_sels (db_layout d)"
    "unat (h_off_cond h) = lo_cond (db_layout d)" "unat (h_off_rules h) = lo_rules (db_layout d)"
    "unat (h_off_cidrs h) = lo_cidrs (db_layout d)" "unat (h_off_strpool h) = lo_strpool (db_layout d)"
    "unat (h_off_bkeys h) = (if db_bucket_keys d \<noteq> [] then lo_bkeys (db_layout d) else 0)"
    "unat (h_off_buckets h) = (if db_bucket_keys d \<noteq> [] then lo_buckets (db_layout d) else 0)"
    "unat (h_off_bucket_idx h) = (if db_bucket_idx d \<noteq> [] then lo_bidx (db_layout d) else 0)"
    "unat (h_off_litndl h) = (if db_litndl d \<noteq> [] then lo_litndl (db_layout d) else 0)"
    "unat (h_off_litpost h) = (if db_litndl d \<noteq> [] then lo_litpost (db_layout d) else 0)"
    "unat (h_off_litpost_ref h) = (if db_litpost_ref d \<noteq> [] then lo_litpost_ref (db_layout d) else 0)"
    "unat (h_off_litav h) = (if db_litav d \<noteq> [] then lo_litav (db_layout d) else 0)"
    "unat (h_off_rule_clauses h) = (if db_rule_clauses d \<noteq> None then lo_rule_clauses (db_layout d) else 0)"
    "unat (h_off_fwit h) = (if db_fwit d \<noteq> [] then lo_fwit (db_layout d) else 0)"
  using body_lt [OF assms(2)] assms(1)
  by (auto simp add: h_def db_header_def Let_def unat32 unat_off_if db_shape_def)

lemma header_clauses:
  assumes "db_shape d" "lo_total (db_layout d) < 4294967296"
  shows "h_off_rule_clauses (db_header d (db_layout d)) = 0 \<longleftrightarrow> db_rule_clauses d = None"
proof -
  have "0 < lo_rule_clauses (db_layout d)"
    using layout_le [of d] layout_fields [of d] by linarith
  with header_offsets(16) [OF assms] show ?thesis
    by (metis less_numeral_extra(3) unsigned_eq_0_iff)
qed

lemma section_back:
  assumes "codec enc dec sz ok" "db_shape d" "(off, enc_array enc xs) \<in> set (db_copies d (db_layout d))"
    "list_all ok xs" "unat (off' :: u32) = off \<or> xs = []" "unat (n :: u32) = length xs"
  shows "dec_array dec sz (sigma_db_serialize d) (unat off') (unat n) = xs"
  using dec_section [OF assms(2,3,1,4,5)] assms(6) by simp

lemma view_serialize:
  assumes "db_shape d" "lo_total (db_layout d) < 4294967296"
  shows "db_view (db_header d (db_layout d)) (sigma_db_serialize d)
    = d\<lparr>db_av_bucket := u32_max, db_cat_field_id := u32_max\<rparr>"
proof -
  have sh: "db_buckets d = [] \<longleftrightarrow> db_bucket_keys d = []" "db_litpost d = [] \<longleftrightarrow> db_litndl d = []"
    "list_all (\<lambda>c. length (cidr_net c) = 16) (db_cidrs d)"
    "length (db_buckets d) = length (db_bucket_keys d)" "length (db_litpost d) = length (db_litndl d)"
    using assms(1) by (auto simp add: db_shape_def)
  let ?h = "db_header d (db_layout d)" and ?b = "sigma_db_serialize d"
  note hdr = header_counts [OF assms] header_offsets [OF assms] db_copies_def list_all_iff sh
  have sec_fields: "dec_array dec_str 8 ?b (unat (h_off_fields ?h)) (unat (h_n_fields ?h)) = db_fields d"
    by (rule section_back [OF str_codec.codec_axioms assms(1), of "lo_fields (db_layout d)"])
      (auto simp: hdr)
  have sec_values: "dec_array dec_str 8 ?b (unat (h_off_values ?h)) (unat (h_n_values ?h)) = db_values d"
    by (rule section_back [OF str_codec.codec_axioms assms(1), of "lo_values (db_layout d)"])
      (auto simp: hdr)
  have sec_preds: "dec_array dec_pred 24 ?b (unat (h_off_preds ?h)) (unat (h_n_preds ?h)) = db_preds d"
    by (rule section_back [OF pred_codec.codec_axioms assms(1), of "lo_preds (db_layout d)"])
      (auto simp: hdr)
  have sec_sels: "dec_array dec_sel 8 ?b (unat (h_off_sels ?h)) (unat (h_n_sels ?h)) = db_sels d"
    by (rule section_back [OF sel_codec.codec_axioms assms(1), of "lo_sels (db_layout d)"])
      (auto simp: hdr)
  have sec_cond: "dec_array dec_ctok 8 ?b (unat (h_off_cond ?h)) (unat (h_n_cond ?h)) = db_cond d"
    by (rule section_back [OF ctok_codec.codec_axioms assms(1), of "lo_cond (db_layout d)"])
      (auto simp: hdr)
  have sec_rules: "dec_array dec_rule 32 ?b (unat (h_off_rules ?h)) (unat (h_n_rules ?h)) = db_rules d"
    by (rule section_back [OF rule_codec.codec_axioms assms(1), of "lo_rules (db_layout d)"])
      (auto simp: hdr)
  have sec_cidrs: "dec_array dec_cidr 20 ?b (unat (h_off_cidrs ?h)) (unat (h_n_cidrs ?h)) = db_cidrs d"
    by (rule section_back [OF cidr_codec.codec_axioms assms(1), of "lo_cidrs (db_layout d)"])
      (auto simp: hdr sh(3) [unfolded list_all_iff])
  have sec_bucket_keys: "dec_array dec_str 8 ?b (unat (h_off_bkeys ?h)) (unat (h_n_buckets ?h)) = db_bucket_keys d"
    by (rule section_back [OF str_codec.codec_axioms assms(1), of "lo_bkeys (db_layout d)"])
      (auto simp: hdr)
  have sec_buckets: "dec_array dec_bucket 8 ?b (unat (h_off_buckets ?h)) (unat (h_n_buckets ?h)) = db_buckets d"
    by (rule section_back [OF bucket_codec.codec_axioms assms(1), of "lo_buckets (db_layout d)"])
      (auto simp: hdr)
  have sec_bucket_idx: "dec_array (\<lambda>b. u32_at b 0) 4 ?b (unat (h_off_bucket_idx ?h)) (unat (h_n_bucket_idx ?h)) = db_bucket_idx d"
    by (rule section_back [OF u32_codec.codec_axioms assms(1), of "lo_bidx (db_layout d)"])
      (auto simp: hdr)
  have sec_litndl: "dec_array dec_str 8 ?b (unat (h_off_litndl ?h)) (unat (h_n_litndl ?h)) = db_litndl d"
    by (rule section_back [OF str_codec.codec_axioms assms(1), of "lo_litndl (db_layout d)"])
      (auto simp: hdr)
  have sec_litpost: "dec_array dec_litpost 8 ?b (unat (h_off_litpost ?h)) (unat (h_n_litndl ?h)) = db_litpost d"
    by (rule section_back [OF litpost_codec.codec_axioms assms(1), of "lo_litpost (db_layout d)"])
      (auto simp: hdr)
  have sec_litpost_ref: "dec_array dec_litref 8 ?b (unat (h_off_litpost_ref ?h)) (unat (h_n_litpost_ref ?h)) = db_litpost_ref d"
    by (rule section_back [OF litref_codec.codec_axioms assms(1), of "lo_litpost_ref (db_layout d)"])
      (auto simp: hdr)
  have sec_litav: "dec_array (\<lambda>b. u32_at b 0) 4 ?b (unat (h_off_litav ?h)) (unat (h_n_litav ?h)) = db_litav d"
    by (rule section_back [OF u32_codec.codec_axioms assms(1), of "lo_litav (db_layout d)"])
      (auto simp: hdr)
  have sec_fwit: "dec_array dec_fwit 16 ?b (unat (h_off_fwit ?h)) (unat (h_n_fwit ?h)) = db_fwit d"
    by (rule section_back [OF fwit_codec.codec_axioms assms(1), of "lo_fwit (db_layout d)"])
      (auto simp: hdr)
  have pool: "rd ?b (unat (h_off_strpool ?h)) (unat (h_strpool_len ?h)) = db_strpool d"
    using copies_rd [OF assms(1), of "lo_strpool (db_layout d)" "db_strpool d"] by (simp add: hdr)
  have clauses: "(if h_off_rule_clauses ?h \<noteq> 0
      then Some (rd ?b (unat (h_off_rule_clauses ?h)) (unat (h_n_rules ?h))) else None) = db_rule_clauses d"
  proof (cases "db_rule_clauses d")
    case None
    with header_clauses [OF assms] show ?thesis by simp
  next
    case (Some rc)
    with assms(1) have "length rc = length (db_rules d)" by (simp add: db_shape_def)
    with copies_rd [OF assms(1), of "lo_rule_clauses (db_layout d)" rc] Some
    have "rd ?b (lo_rule_clauses (db_layout d)) (length (db_rules d)) = rc" by (simp add: db_copies_def)
    with Some show ?thesis
      using header_offsets(16) [OF assms] header_counts(6) [OF assms] header_clauses [OF assms] by simp
  qed
  show ?thesis
    unfolding db_view_def sec_fields sec_values sec_preds sec_sels sec_cond sec_rules sec_cidrs
      sec_bucket_keys sec_buckets sec_bucket_idx
      sec_litndl sec_litpost sec_litpost_ref sec_litav sec_fwit pool clauses by simp
qed

section \<open>Loading a serialized database\<close>

lemma sections_serialize:
  assumes "db_shape d" "lo_total (db_layout d) < 4294967296"
  shows "hdr_sections_ok (db_header d (db_layout d)) (length (sigma_db_serialize d))"
proof -
  have off: "off mod 8 = 0 \<Longrightarrow> off + n * sz \<le> lo_total (db_layout d) \<Longrightarrow>
      unat o' = off \<or> unat o' = 0 \<and> n = 0 \<Longrightarrow> unat k = n \<Longrightarrow>
      sect_ok o' k sz (lo_total (db_layout d))" for off n sz o' k
    by (auto simp: sect_ok_def)
  note hdr = header_counts [OF assms] header_offsets [OF assms]
  note al = db_layout_steps(1-17) [THEN trans [OF arg_cong [where f = "\<lambda>x. x mod 8"] align8_mod]]
  note le = layout_le [of d] db_layout_steps(18,19) [of d]
  let ?h = "db_header d (db_layout d)"
  have sh: "length (db_buckets d) = length (db_bucket_keys d)" "length (db_litpost d) = length (db_litndl d)"
    using assms(1) by (auto simp add: db_shape_def)
  show ?thesis
    unfolding hdr_sections_ok_def length_serialize [OF assms(1)]
    apply (intro conjI)
    subgoal by (rule off [of "lo_fields (db_layout d)" "length (db_fields d)"]) (use le in \<open>simp_all add: hdr al sh\<close>)
    subgoal by (rule off [of "lo_values (db_layout d)" "length (db_values d)"]) (use le in \<open>simp_all add: hdr al sh\<close>)
    subgoal by (rule off [of "lo_preds (db_layout d)" "length (db_preds d)"]) (use le in \<open>simp_all add: hdr al sh\<close>)
    subgoal by (rule off [of "lo_sels (db_layout d)" "length (db_sels d)"]) (use le in \<open>simp_all add: hdr al sh\<close>)
    subgoal by (rule off [of "lo_cond (db_layout d)" "length (db_cond d)"]) (use le in \<open>simp_all add: hdr al sh\<close>)
    subgoal by (rule off [of "lo_rules (db_layout d)" "length (db_rules d)"]) (use le in \<open>simp_all add: hdr al sh\<close>)
    subgoal by (rule off [of "lo_cidrs (db_layout d)" "length (db_cidrs d)"]) (use le in \<open>simp_all add: hdr al sh\<close>)
    subgoal by (rule off [of "lo_bkeys (db_layout d)" "length (db_bucket_keys d)"]) (use le in \<open>simp_all add: hdr al sh\<close>)
    subgoal by (rule off [of "lo_buckets (db_layout d)" "length (db_bucket_keys d)"]) (use le in \<open>simp_all add: hdr al sh\<close>)
    subgoal by (rule off [of "lo_bidx (db_layout d)" "length (db_bucket_idx d)"]) (use le in \<open>simp_all add: hdr al sh\<close>)
    subgoal by (rule off [of "lo_litndl (db_layout d)" "length (db_litndl d)"]) (use le in \<open>simp_all add: hdr al sh\<close>)
    subgoal by (rule off [of "lo_litpost (db_layout d)" "length (db_litndl d)"]) (use le in \<open>simp_all add: hdr al sh\<close>)
    subgoal by (rule off [of "lo_litpost_ref (db_layout d)" "length (db_litpost_ref d)"]) (use le in \<open>simp_all add: hdr al sh\<close>)
    subgoal by (rule off [of "lo_litav (db_layout d)" "length (db_litav d)"]) (use le in \<open>simp_all add: hdr al sh\<close>)
    subgoal by (rule off [of "lo_rule_clauses (db_layout d)" "if db_rule_clauses d \<noteq> None then length (db_rules d) else 0"])
        (use le in \<open>auto simp: hdr al header_clauses [OF assms] split: if_splits\<close>)
    subgoal by (rule off [of "lo_fwit (db_layout d)" "length (db_fwit d)"]) (use le in \<open>simp_all add: hdr al sh\<close>)
    subgoal using le by (simp add: hdr)
    subgoal using le by (simp add: hdr)
    done
qed

text \<open>The bucket scan of a well-formed database finds its always-verify bucket.\<close>

lemma scan_buckets_none:
  "list_all2 (bucket_ok d) ks bs \<Longrightarrow> \<forall>k \<in> set ks. st_len k \<noteq> 0 \<Longrightarrow>
   scan_buckets d i av (zip ks bs) = Some av"
  by (induction arbitrary: i rule: list_all2_induct) auto

lemma scan_buckets_one:
  "list_all2 (bucket_ok d) ks bs \<Longrightarrow> j < length ks \<Longrightarrow>
   \<forall>k < length ks. st_len (ks ! k) = 0 \<longleftrightarrow> k = j \<Longrightarrow>
   scan_buckets d i u32_max (zip ks bs) = Some (of_nat (i + j))"
proof (induction arbitrary: i j rule: list_all2_induct)
  case Nil
  then show ?case by simp
next
  case (Cons k ks b bs)
  have tl: "st_len (ks ! m) = 0 \<longleftrightarrow> Suc m = j" if "m < length ks" for m
    using Cons.prems(2) that by auto
  show ?case
  proof (cases j)
    case 0
    with tl have "\<forall>k \<in> set ks. st_len k \<noteq> 0" by (auto simp: in_set_conv_nth)
    moreover have "st_len k = 0" using Cons.prems 0 by auto
    ultimately show ?thesis using Cons.hyps 0 by (simp add: scan_buckets_none)
  next
    case (Suc j')
    with Cons.prems(2) have "st_len k \<noteq> 0" by (metis length_Cons nat.distinct(1) nth_Cons_0 zero_less_Suc)
    with Cons.IH [of j' "Suc i"] Cons.prems Cons.hyps tl Suc show ?thesis by simp
  qed
qed

lemma resolve_refs_back:
  assumes "db_refs_ok d" "av_bucket_ok d" "db_cat_field_id d = cat_field_of d"
  shows "resolve_refs (d\<lparr>db_av_bucket := u32_max, db_cat_field_id := u32_max\<rparr>) = Inr d"
proof -
  let ?d = "d\<lparr>db_av_bucket := u32_max, db_cat_field_id := u32_max\<rparr>"
  have b: "list_all2 (bucket_ok ?d) (db_bucket_keys d) (db_buckets d)"
    using assms(1) by (simp add: db_refs_ok_def)
  have "scan_buckets ?d 0 u32_max (zip (db_bucket_keys d) (db_buckets d)) = Some (db_av_bucket d)"
  proof (cases "db_av_bucket d = u32_max")
    case True
    with assms(2) have "\<forall>k \<in> set (db_bucket_keys d). st_len k \<noteq> 0"
      by (auto simp: av_bucket_ok_def in_set_conv_nth)
    with scan_buckets_none [OF b] True show ?thesis by simp
  next
    case False
    with assms(2) scan_buckets_one [OF b, of "unat (db_av_bucket d)" 0] show ?thesis
      by (simp add: av_bucket_ok_def)
  qed
  moreover have "cat_field_of ?d = cat_field_of d" by (simp add: cat_field_of_def)
  ultimately show ?thesis
    using assms by (simp add: resolve_refs_def db_refs_ok_def)
qed

lemma load_serialized:
  assumes "db_shape d" "lo_total (db_layout d) < 4294967296"
  shows "sigma_load_tables (sigma_db_serialize d)
    = resolve_refs (d\<lparr>db_av_bucket := u32_max, db_cat_field_id := u32_max\<rparr>)"
proof -
  let ?b = "sigma_db_serialize d" and ?h = "db_header d (db_layout d)"
  have hdr: "dec_hdr (rd ?b 0 144) = ?h"
    by (simp add: header_read [OF assms(1)] hdr_codec.dec_enc)
  have len: "148 \<le> length ?b"
    using layout_le [of d] layout_fields [of d]
    unfolding length_serialize [OF assms(1)] db_layout_steps(18,19) by linarith
  have at: "u32_at (rd ?b 0 144) 0 = u32_at ?b 0" "u32_at (rd ?b 0 144) 4 = u32_at ?b 4"
    by (simp_all add: u32_at_def rd_def drop_take min_def)
  have magic: "u32_at ?b 0 = SIGMA_MAGIC" "u32_at ?b 4 = 5"
    using arg_cong [OF hdr, of h_magic] arg_cong [OF hdr, of h_version]
    by (simp_all add: dec_hdr_def at db_header_def Let_def)
  have total: "unat (h_total_size ?h) = length ?b"
    using assms by (simp add: db_header_def Let_def length_serialize unat_of_nat)
  show ?thesis
    using len magic total crc_serialize [OF assms(1)] sections_serialize [OF assms]
      view_serialize [OF assms] hdr
    by (simp add: sigma_load_tables_def Let_def pad_def)
qed

lemma refs_ok_shape:
  "db_refs_ok d \<Longrightarrow> db_rule_clauses d = None \<or> db_rules d \<noteq> [] \<Longrightarrow> db_shape d"
  by (auto simp: db_refs_ok_def db_shape_def dest: list_all2_lengthD)

lemma load_serialize:
  assumes "db_refs_ok d" "av_bucket_ok d" "db_cat_field_id d = cat_field_of d"
    "db_rule_clauses d = None \<or> db_rules d \<noteq> []" "length (sigma_db_serialize d) < 4294967296"
  shows "sigma_load_tables (sigma_db_serialize d) = Inr d"
proof -
  have sh: "db_shape d" by (rule refs_ok_shape [OF assms(1,4)])
  with assms(5) have "lo_total (db_layout d) < 4294967296" by (simp add: length_serialize)
  from load_serialized [OF sh this] resolve_refs_back [OF assms(1-3)] show ?thesis by simp
qed

section \<open>Properties of the artifact format\<close>

text \<open>
  A small database for the concrete instances below: one field, one value, one equality
  predicate, one selection, one rule, no indices.
\<close>

definition sample_db :: sigma_db where
  "sample_db =
     \<lparr>db_fields = [\<lparr>st_off = 0, st_len = 3\<rparr>],
      db_values = [\<lparr>st_off = 4, st_len = 2\<rparr>],
      db_preds = [\<lparr>p_field = 0, p_group = 0, p_op = OP_EQ, p_flags = 0, p_value = 0, p_ival = 0\<rparr>],
      db_sels = [\<lparr>s_start = 0, s_count = 1\<rparr>],
      db_cond = [\<lparr>c_kind = C_SEL, c_sel = 0\<rparr>],
      db_rules = [\<lparr>r_id = 7, r_sel_start = 0, r_sel_count = 1, r_cond_start = 0, r_cond_count = 1,
        r_verdict = 0, r_severity = 2, r_score = 35, r_name = 0, r_mitre = NO_VALUE\<rparr>],
      db_cidrs = [],
      db_strpool = [102, 111, 111, 0, 98, 97],
      db_bucket_keys = [\<lparr>st_off = 0, st_len = 0\<rparr>],
      db_buckets = [\<lparr>b_start = 0, b_count = 1\<rparr>],
      db_bucket_idx = [0],
      db_av_bucket = 0, db_cat_field_id = u32_max,
      db_litndl = [], db_litpost = [], db_litpost_ref = [], db_litav = [0],
      db_rule_clauses = Some [0], db_fwit = []\<rparr>"

lemma sample_db_ok: "db_refs_ok sample_db" "av_bucket_ok sample_db"
  by (simp_all add: sample_db_def db_refs_ok_def core_refs_ok_def index_refs_ok_def field_ok_def
      str_ok_def pred_ok_def sel_ok_def rule_ok_def ctok_ok_def bucket_ok_def rule_idx_ok_def
      litav_ok_def clause_count_ok_def has_flag_def av_bucket_ok_def)

lemma sample_db_cat: "db_cat_field_id sample_db = cat_field_of sample_db"
  by (simp add: sample_db_def cat_field_of_def)

lemma sample_db_size: "length (sigma_db_serialize sample_db) = 282"
proof -
  have sh: "db_shape sample_db" by (rule refs_ok_shape [OF sample_db_ok(1)]) (simp add: sample_db_def)
  show ?thesis
    unfolding length_serialize [OF sh]
    by (simp add: db_layout_def Let_def align8_def sample_db_def)
qed

lemma sample_db_loads: "sigma_load_tables (sigma_db_serialize sample_db) = Inr sample_db"
  by (rule load_serialize [OF sample_db_ok sample_db_cat])
    (simp_all add: sample_db_size, simp add: sample_db_def)

text \<open>
  C7. Every artifact the loader accepts is safe to match against: all string, predicate,
  selection, rule, bucket, posting and witness references stay inside their tables, and
  the always-verify bucket index is the unique bucket with an empty key.
\<close>

theorem load_accepts_valid:
  "sigma_load_tables buf = Inr d \<Longrightarrow> db_refs_ok d \<and> av_bucket_ok d"
  using load_refs_ok by blast

theorem load_accepts_valid_witness: "db_refs_ok sample_db \<and> av_bucket_ok sample_db"
  by (rule load_accepts_valid [OF sample_db_loads])

text \<open>
  C10. Serializing a well-formed database and loading the bytes gives the same database
  back, always-verify bucket and category field included.
\<close>

theorem serialize_load_roundtrip:
  "db_refs_ok d \<Longrightarrow> av_bucket_ok d \<Longrightarrow> db_cat_field_id d = cat_field_of d \<Longrightarrow>
   db_rule_clauses d = None \<or> db_rules d \<noteq> [] \<Longrightarrow> length (sigma_db_serialize d) < 2 ^ 32 \<Longrightarrow>
   sigma_load_tables (sigma_db_serialize d) = Inr d"
  by (rule load_serialize) simp_all

theorem serialize_load_roundtrip_witness:
  "sigma_load_tables (sigma_db_serialize sample_db) = Inr sample_db"
  by (rule serialize_load_roundtrip [OF sample_db_ok sample_db_cat])
    (simp_all add: sample_db_size, simp add: sample_db_def)

text \<open>
  C11. No copy of an accepted artifact with one altered byte, wherever it is, and no
  truncated copy is accepted.
\<close>

theorem damaged_artifact_rejected:
  "sigma_load_tables buf = Inr d \<Longrightarrow>
   (i < length buf \<and> b \<noteq> buf ! i \<longrightarrow> (\<exists>err. sigma_load_tables (buf[i := b]) = Inl err)) \<and>
   (n < length buf \<longrightarrow> (\<exists>err. sigma_load_tables (take n buf) = Inl err))"
  using load_one_byte [of buf d i b] load_truncated [of buf d n] by blast

theorem damaged_artifact_rejected_witness:
  "(\<exists>err. sigma_load_tables ((sigma_db_serialize sample_db)[17 := sigma_db_serialize sample_db ! 17 + 1]) = Inl err) \<and>
   (\<exists>err. sigma_load_tables (take 200 (sigma_db_serialize sample_db)) = Inl err)"
  using damaged_artifact_rejected [OF sample_db_loads, of 17 "sigma_db_serialize sample_db ! 17 + 1" 200]
  by (simp add: sample_db_size)

end
