(* ===== verification/Demo_Db.thy ===== *)
theory Demo_Db
  imports Run_Spec Roundtrip
begin

text \<open>
  A small indexed database and an event for it: the concrete instance the properties of the
  evaluation engine are applied to. One rule of bucket \<open>proc\<close> matches when field
  \<open>cmd\<close> contains \<open>evil\<close>; the needle is posted to that field.
\<close>

definition demo_db :: sigma_db where
  "demo_db =
     \<lparr>db_fields = [\<lparr>st_off = 0, st_len = 14\<rparr>, \<lparr>st_off = 15, st_len = 3\<rparr>],
      db_values = [\<lparr>st_off = 19, st_len = 4\<rparr>],
      db_preds = [\<lparr>p_field = 1, p_group = 0, p_op = OP_CONTAINS, p_flags = 0, p_value = 0, p_ival = 0\<rparr>],
      db_sels = [\<lparr>s_start = 0, s_count = 1\<rparr>],
      db_cond = [\<lparr>c_kind = C_SEL, c_sel = 0\<rparr>],
      db_rules = [\<lparr>r_id = 7, r_sel_start = 0, r_sel_count = 1, r_cond_start = 0, r_cond_count = 1,
        r_verdict = 1, r_severity = 3, r_score = 80, r_name = 0, r_mitre = NO_VALUE\<rparr>],
      db_cidrs = [],
      db_strpool = lit ''event.category'' @ [0] @ lit ''cmd'' @ [0] @ lit ''evil'' @ lit ''proc'',
      db_bucket_keys = [\<lparr>st_off = 23, st_len = 4\<rparr>],
      db_buckets = [\<lparr>b_start = 0, b_count = 1\<rparr>],
      db_bucket_idx = [0],
      db_av_bucket = u32_max, db_cat_field_id = 0,
      db_litndl = [\<lparr>st_off = 19, st_len = 4\<rparr>], db_litpost = [\<lparr>lp_start = 0, lp_count = 1\<rparr>],
      db_litpost_ref = [\<lparr>l_rule = 0, l_field = 1, l_clause = 0\<rparr>], db_litav = [],
      db_rule_clauses = Some [1], db_fwit = []\<rparr>"

text \<open>A library for it: no address parses, no pattern compiles.\<close>

definition demo_lib :: "unit sigma_lib" where
  "demo_lib =
     \<lparr>x_arch = SSE42, x_pton4 = \<lambda>_. None, x_pton6 = \<lambda>_. None,
      x_re_compile = \<lambda>_ _. None, x_re_match = \<lambda>_ _. False\<rparr>"

definition demo_ev :: "bytes \<Rightarrow> bytes option" where
  "demo_ev name =
     (if name = lit ''event.category'' then Some (lit ''proc'')
      else if name = lit ''cmd'' then Some (lit ''an EVIL act'') else None)"

definition demo_hit :: sigma_hit where
  "demo_hit = \<lparr>hit_rule_id = 7, hit_verdict = 1, hit_severity = 3, hit_score = 80, hit_mitre = None\<rparr>"

lemma demo_refs: "db_refs_ok demo_db" "av_bucket_ok demo_db"
  by (simp_all add: demo_db_def lit_def db_refs_ok_def core_refs_ok_def index_refs_ok_def field_ok_def
      str_ok_def pred_ok_def sel_ok_def rule_ok_def ctok_ok_def bucket_ok_def rule_idx_ok_def
      litav_ok_def litref_ok_def clause_ok_def needle_ok_def clause_count_ok_def has_flag_def av_bucket_ok_def)

lemma demo_small: "needles_long demo_db" "fields_small demo_db" "re_values_ok demo_db"
  by (simp_all add: demo_db_def needles_long_def fields_small_def re_values_ok_def)

lemma demo_names: "field_name demo_db 0 = lit ''event.category''" "field_name demo_db (Suc 0) = lit ''cmd''"
  by (simp_all add: demo_db_def field_name_def str_bytes_def rd_def lit_def)

lemma demo_cat: "cat_field_ok demo_db"
proof -
  have "db_cat_field_id demo_db = 0" "length (db_fields demo_db) = 2" by (simp_all add: demo_db_def)
  then show ?thesis using demo_names(1) by (simp add: cat_field_ok_def)
qed

lemma demo_lib_ok: "lib_ok demo_lib" "list_all cidr_prefix_ok (db_cidrs demo_db)"
  by (simp_all add: lib_ok_def demo_lib_def demo_db_def)

lemma demo_finalized:
  "\<exists>dv. sigma_db_finalize demo_lib demo_db no_derived = Some (0, dv) \<and> ready demo_lib demo_db dv"
  using finalize_ok [OF demo_refs(1) demo_small(1,2), of demo_lib] demo_small demo_refs demo_cat demo_lib_ok
  by (auto simp: ready_def match_env_def derived_ok_def)

lemma demo_vals: "field_val demo_db demo_ev 0 = Some (lit ''proc'')" "field_val demo_db demo_ev (Suc 0) = Some (lit ''an EVIL act'')"
proof -
  have "length (db_fields demo_db) = 2" by (simp add: demo_db_def)
  then show "field_val demo_db demo_ev 0 = Some (lit ''proc'')" "field_val demo_db demo_ev (Suc 0) = Some (lit ''an EVIL act'')"
    by (simp_all add: field_val_def demo_names demo_ev_def lit_def)
qed

lemma demo_occurs:
  "occurs sigma_lc (lit ''an EVIL act'') (lit ''evil'')" "occurs sg_lower (lit ''an EVIL act'') (lit ''evil'')"
  unfolding occurs_def by (rule exI [of _ 3], simp add: occurs_at_def lit_def sigma_lc_def sg_lower_def)+

lemma demo_rule: "rule_sem demo_lib demo_db demo_ev (db_rules demo_db ! 0)"
proof -
  let ?p = "db_preds demo_db ! 0"
  have p: "p_op ?p = OP_CONTAINS" "p_flags ?p = 0" "p_value ?p = 0" "p_field ?p = 1" "p_group ?p = 0"
    by (simp_all add: demo_db_def)
  have v: "operand_sem demo_db demo_ev ?p = Some (lit ''evil'')"
    by (simp add: demo_db_def operand_sem_def has_flag_def str_bytes_def rd_def lit_def)
  have "pred_sem demo_lib demo_db demo_ev ?p"
    using demo_occurs by (simp add: pred_sem_def p demo_vals value_sem_def v has_flag_def string_sem_def sg_cmp_def)
  then have "sel_sem demo_lib demo_db demo_ev (db_sels demo_db ! 0)"
    by (simp add: sel_sem_def sel_preds_def demo_db_def)
  then show ?thesis by (simp add: rule_sem_def rule_sels_def rule_toks_def demo_db_def)
qed

lemma demo_route: "route_vals demo_ev routes = [lit ''proc'']"
  by (simp add: route_vals_def routes_def List.map_filter_def demo_ev_def lit_def)

lemma demo_selected: "selected demo_db demo_ev = [0]"
  by (simp add: selected_def demo_route token_buckets_def List.map_filter_def bucket_of_def bucket_key_def
      demo_db_def str_bytes_def rd_def lit_def first_occ_def)

lemma demo_scope: "scope demo_db demo_ev = [0]"
  by (simp add: scope_def demo_route demo_selected) (simp add: bucket_rules_def demo_db_def)

lemma demo_hits:
  "firing demo_lib demo_db demo_ev [0] = [0]" "hits_of demo_lib demo_db demo_ev (Some 4) [0] = [demo_hit]"
proof -
  show f: "firing demo_lib demo_db demo_ev [0] = [0]" using demo_rule by (simp add: firing_def first_occ_def)
  have "hit_sem demo_db (db_rules demo_db ! 0) = demo_hit"
    by (simp add: demo_db_def demo_hit_def hit_sem_def rule_mitre_sem_def)
  then show "hits_of demo_lib demo_db demo_ev (Some 4) [0] = [demo_hit]" by (simp add: hits_of_def f buffered_def)
qed

lemma demo_contract: "cnf_necessary demo_lib demo_db demo_ev" "postings_scoped demo_db"
proof -
  have post: "postings demo_db 0 = [\<lparr>l_rule = 0, l_field = 1, l_clause = 0\<rparr>]" "length (db_litndl demo_db) = 1"
    "length (db_fields demo_db) = 2" "clauses demo_db 0 = 1" "length (db_rules demo_db) = 1"
    by (simp_all add: postings_def clauses_def demo_db_def)
  have "needle_at (db_litndl demo_db) (db_strpool demo_db) 0 = lit ''evil''"
    by (simp add: demo_db_def str_bytes_def rd_def lit_def)
  then have "posting_holds demo_db demo_ev 0 \<lparr>l_rule = 0, l_field = 1, l_clause = 0\<rparr>"
    unfolding posting_holds_def using demo_occurs demo_vals(2) post(3)
    by (intro exI [of _ 1]) simp
  then have "witnessed demo_lib demo_db demo_ev 0 0"
    unfolding witnessed_def using post by (intro disjI1 exI [of _ 0]) simp
  then show "cnf_necessary demo_lib demo_db demo_ev" by (simp add: cnf_necessary_def post)
  have "Suc 0 \<in> rule_fields demo_db (db_rules demo_db ! 0)"
    by (simp add: demo_db_def rule_fields_def rule_sels_def sel_fields_def sel_preds_def)
  then show "postings_scoped demo_db" by (simp add: postings_scoped_def post)
qed

end
