(* ===== verification/Match_Laws.thy ===== *)
theory Match_Laws
  imports Match_Spec Teddy_Confirm
begin

text \<open>
  Consequences of the matcher's reference semantics for the tables a compiler emits:
  predicates ordered by group id, conditions in postfix form, and the callbacks of the
  multi-needle scan as a list.
\<close>

section \<open>Groups\<close>

lemma group_runs_cases:
  "group_runs (p # ps) = [p] # group_runs ps \<and>
     (ps = [] \<or> (\<exists>q qs gs. group_runs ps = (q # qs) # gs \<and> p_group p \<noteq> p_group q)) \<or>
   (\<exists>q qs gs. group_runs ps = (q # qs) # gs \<and> p_group p = p_group q \<and>
     group_runs (p # ps) = (p # q # qs) # gs)"
proof (induction ps arbitrary: p)
  case Nil
  show ?case by simp
next
  case (Cons a ps)
  from Cons.IH [of a] obtain q qs gs where "group_runs (a # ps) = (q # qs) # gs" by blast
  then show ?case by auto
qed

lemma concat_group_runs: "concat (group_runs ps) = ps"
proof (induction ps)
  case (Cons p ps)
  with group_runs_cases [of p ps] show ?case by auto
qed simp

text \<open>A run of one group.\<close>

definition one_group :: "sigma_pred list \<Rightarrow> bool" where
  "one_group g \<longleftrightarrow> g \<noteq> [] \<and> (\<forall>p \<in> set g. p_group p = p_group (hd g))"

lemma one_group_single: "one_group [p]"
  by (simp add: one_group_def)

lemma one_group_Cons: "one_group (q # qs) \<Longrightarrow> p_group p = p_group q \<Longrightarrow> one_group (p # q # qs)"
  by (simp add: one_group_def)

lemma one_groupD: "one_group g \<Longrightarrow> p \<in> set g \<Longrightarrow> p_group p = p_group (hd g)" "one_group g \<Longrightarrow> hd g \<in> set g"
  unfolding one_group_def by (blast, simp)

lemma group_runs_sorted:
  "sorted (map p_group ps) \<Longrightarrow>
    sorted_wrt (<) (map (\<lambda>g. p_group (hd g)) (group_runs ps)) \<and> (\<forall>g \<in> set (group_runs ps). one_group g)"
proof (induction ps)
  case (Cons p ps)
  from Cons.prems have "sorted (map p_group ps)" by simp
  note IH = conjunct1 [OF Cons.IH [OF this]] conjunct2 [OF Cons.IH [OF this]]
  from group_runs_cases [of p ps] show ?case
  proof (elim disjE exE conjE)
    fix q qs gs assume g: "group_runs (p # ps) = [p] # group_runs ps" "group_runs ps = (q # qs) # gs" "p_group p \<noteq> p_group q"
    have "q \<in> set ps" using arg_cong [OF concat_group_runs, of set ps] g(2) by auto
    with Cons.prems have "p_group p \<le> p_group q" by simp
    with g(3) have "p_group p < p_group q" unfolding less_le by blast
    moreover from IH(1) g(2) have "\<forall>g \<in> set gs. p_group q < p_group (hd g)" by simp
    ultimately have "\<forall>g \<in> set (group_runs ps). p_group p < p_group (hd g)"
      unfolding g(2) by (auto intro: order.strict_trans)
    with IH show ?thesis unfolding g(1) by (simp add: one_group_single)
  next
    fix q qs gs assume "group_runs ps = (q # qs) # gs" "p_group p = p_group q" "group_runs (p # ps) = (p # q # qs) # gs"
    with IH show ?thesis by (simp add: one_group_Cons)
  qed (simp add: one_group_single)
qed simp

lemma sorted_heads_inj:
  assumes "sorted_wrt (<) (map f xs)" "x \<in> set xs" "y \<in> set xs" "f x = (f y :: 'a :: linorder)"
  shows "x = y"
proof -
  have "distinct (map f xs)" using assms(1) strict_sorted_iff by blast
  with assms(2-4) show ?thesis by (auto simp: distinct_map inj_on_def)
qed

lemma sel_sem_sorted:
  assumes "sorted (map p_group ps)"
  shows "(\<forall>g \<in> set (group_runs ps). \<exists>p \<in> set g. P p) \<longleftrightarrow> (\<forall>k \<in> p_group ` set ps. \<exists>p \<in> set ps. p_group p = k \<and> P p)"
proof -
  note r = group_runs_sorted [OF assms]
  have mem: "p \<in> set ps \<longleftrightarrow> (\<exists>g \<in> set (group_runs ps). p \<in> set g)" for p
    using arg_cong [OF concat_group_runs, of set ps] by auto
  have cls: "g = g'" if "g \<in> set (group_runs ps)" "g' \<in> set (group_runs ps)" "p \<in> set g" "q \<in> set g'" "p_group p = p_group q"
    for g g' p q
  proof (rule sorted_heads_inj [OF conjunct1 [OF r] that(1,2)])
    have "one_group g" "one_group g'" using r that(1,2) by blast+
    from one_groupD(1) [OF this(1) that(3)] one_groupD(1) [OF this(2) that(4)] that(5)
    show "p_group (hd g) = p_group (hd g')" by simp
  qed
  show ?thesis
  proof
    assume a: "\<forall>g \<in> set (group_runs ps). \<exists>p \<in> set g. P p"
    show "\<forall>k \<in> p_group ` set ps. \<exists>p \<in> set ps. p_group p = k \<and> P p"
    proof
      fix k assume "k \<in> p_group ` set ps"
      then obtain p g where g: "k = p_group p" "g \<in> set (group_runs ps)" "p \<in> set g" using mem by blast
      with a obtain q where q: "q \<in> set g" "P q" by blast
      have "one_group g" using r g(2) by blast
      from one_groupD(1) [OF this g(3)] one_groupD(1) [OF this q(1)] have "p_group q = p_group p" by simp
      moreover have "q \<in> set ps" using mem g(2) q(1) by blast
      ultimately show "\<exists>p \<in> set ps. p_group p = k \<and> P p" using g(1) q(2) by blast
    qed
  next
    assume a: "\<forall>k \<in> p_group ` set ps. \<exists>p \<in> set ps. p_group p = k \<and> P p"
    show "\<forall>g \<in> set (group_runs ps). \<exists>p \<in> set g. P p"
    proof
      fix g assume g: "g \<in> set (group_runs ps)"
      with r have p: "hd g \<in> set g" using one_groupD(2) by blast
      then have "p_group (hd g) \<in> p_group ` set ps" using mem g by blast
      with a obtain q where q: "q \<in> set ps" "p_group q = p_group (hd g)" "P q" by blast
      then obtain g' where g': "g' \<in> set (group_runs ps)" "q \<in> set g'" using mem by blast
      from cls [OF g g'(1) p g'(2)] q(2,3) g'(2) show "\<exists>p \<in> set g. P p" by auto
    qed
  qed
qed

section \<open>Compiled conditions\<close>

lemma rule_match_compiled:
  assumes env: "match_env x d dv" and r: "rule_ok d r" and m: "memo_ok d ev e"
    and c: "rule_toks d r = rpn_of c" "r_cond_count r \<noteq> 0" "cond_sels c \<subseteq> {..<length (rule_sels d r)}"
      "stack_need c \<le> COND_STACK_MAX"
  shows "\<exists>e'. rule_match x d dv ev r e = Some (cond_sem (\<lambda>i. sel_sem x d ev (rule_sels d r ! i)) c, e') \<and> memo_ok d ev e'"
proof -
  have "length (rule_sels d r) \<le> length (db_sels d)" by (simp add: rule_sels_def)
  moreover have "length (db_sels d) < 4294967296" using env by (simp add: match_env_def db_refs_ok_def)
  ultimately have "rpn_parse (length (rule_sels d r)) (rpn_of c) [] = Some c"
    using rpn_parse_of [OF c(3) _ c(4)] by simp
  moreover have "cond_sem (\<lambda>i. map (sel_sem x d ev) (rule_sels d r) ! i) c =
      cond_sem (\<lambda>i. sel_sem x d ev (rule_sels d r ! i)) c"
    using c(3) by (induction c) auto
  ultimately have "rule_sem x d ev r = cond_sem (\<lambda>i. sel_sem x d ev (rule_sels d r ! i)) c"
    using c(1,2) by (simp add: rule_sem_def Let_def)
  with rule_match_reads [OF env r m] show ?thesis unfolding reads_def by auto
qed

section \<open>The trace of a scan\<close>

text \<open>The callback that records the needles it is called for.\<close>

definition trace_mark :: "nat \<Rightarrow> nat list \<Rightarrow> nat list option" where
  "trace_mark k l = Some (l @ [k])"

lemma mfold_trace: "mfold trace_mark ms l = Some (l @ ms)"
  by (induction ms arbitrary: l) (simp_all add: trace_mark_def)

interpretation trace_client: teddy_client trace_mark "\<lambda>_. True" n
  by unfold_locales (simp add: trace_mark_def)

lemma teddy_trace:
  assumes "teddy_wf t ndl pool I" "ndl \<noteq> []" "scratch_ok (length ndl) scr"
  shows "\<exists>scr' ms. teddy_confirm arch t buf trace_mark (scr, []) = Some (scr', ms) \<and> scratch_ok (length ndl) scr' \<and>
    distinct ms \<and> set ms = {j \<in> I. occurs sigma_lc buf (needle_at ndl pool j)}"
  using trace_client.teddy_confirm_ok [OF assms(1) refl assms(2,3), where arch = arch and buf = buf and s = "[]"] by (auto simp: mfold_trace)

end
