(* ===== verification/Binary64.thy ===== *)
theory Binary64
  imports Sigma_Prelude Complex_Main "HOL-Library.Log_Nat"
begin

text \<open>
  The C type \<open>double\<close>: IEEE 754 binary64 with round to nearest, ties to even. A finite value
  is the rational it denotes; the two zeros are one value (the code never divides by a zero
  or prints a sign of zero). Conversions whose result is undefined in C are \<open>None\<close>.
\<close>

section \<open>Values and rounding\<close>

datatype f64 = Fin rat | Inf bool | NaN

text \<open>\<open>floor (log2 x)\<close> for positive \<open>x\<close>, from the bit lengths of numerator and denominator.\<close>

definition ilog2 :: "rat \<Rightarrow> int" where
  "ilog2 x = (let (p, q) = quotient_of x; e = bitlen p - bitlen q in if 2 powi e \<le> x then e else e - 1)"

definition ulp_exp :: "rat \<Rightarrow> int" where
  "ulp_exp x = max (ilog2 \<bar>x\<bar> - 52) (- 1074)"

definition half_even :: "rat \<Rightarrow> int" where
  "half_even r =
     (let f = \<lfloor>r\<rfloor>; d = r - of_int f in
      if d < 1 / 2 then f else if d > 1 / 2 then f + 1 else if even f then f else f + 1)"

definition rnd :: "rat \<Rightarrow> f64" where
  "rnd x =
     (if x = 0 then Fin 0
      else
        let u = 2 powi ulp_exp x; y = of_int (half_even (x / u)) * u in
        if \<bar>y\<bar> \<ge> 2 ^ 1024 then Inf (x < 0) else Fin y)"

section \<open>Operations\<close>

fun f64_neg :: "f64 \<Rightarrow> f64" where
  "f64_neg (Fin a) = Fin (- a)"
| "f64_neg (Inf s) = Inf (\<not> s)"
| "f64_neg NaN = NaN"

fun f64_add :: "f64 \<Rightarrow> f64 \<Rightarrow> f64" where
  "f64_add (Fin a) (Fin b) = rnd (a + b)"
| "f64_add (Inf s) (Inf t) = (if s = t then Inf s else NaN)"
| "f64_add (Inf s) (Fin b) = Inf s"
| "f64_add (Fin a) (Inf t) = Inf t"
| "f64_add _ _ = NaN"

definition f64_sub :: "f64 \<Rightarrow> f64 \<Rightarrow> f64" where
  "f64_sub a b = f64_add a (f64_neg b)"

fun f64_mul :: "f64 \<Rightarrow> f64 \<Rightarrow> f64" where
  "f64_mul (Fin a) (Fin b) = rnd (a * b)"
| "f64_mul (Inf s) (Inf t) = Inf (s \<noteq> t)"
| "f64_mul (Inf s) (Fin b) = (if b = 0 then NaN else Inf (s \<noteq> (b < 0)))"
| "f64_mul (Fin a) (Inf t) = (if a = 0 then NaN else Inf ((a < 0) \<noteq> t))"
| "f64_mul _ _ = NaN"

fun f64_div :: "f64 \<Rightarrow> f64 \<Rightarrow> f64" where
  "f64_div (Fin a) (Fin b) = (if b = 0 then (if a = 0 then NaN else Inf (a < 0)) else rnd (a / b))"
| "f64_div (Inf s) (Fin b) = Inf (s \<noteq> (b < 0))"
| "f64_div (Fin a) (Inf t) = Fin 0"
| "f64_div _ _ = NaN"

fun f64_lt :: "f64 \<Rightarrow> f64 \<Rightarrow> bool" where
  "f64_lt (Fin a) (Fin b) = (a < b)"
| "f64_lt (Inf s) (Fin b) = s"
| "f64_lt (Fin a) (Inf t) = (\<not> t)"
| "f64_lt (Inf s) (Inf t) = (s \<and> \<not> t)"
| "f64_lt _ _ = False"

fun f64_le :: "f64 \<Rightarrow> f64 \<Rightarrow> bool" where
  "f64_le (Fin a) (Fin b) = (a \<le> b)"
| "f64_le (Inf s) (Fin b) = s"
| "f64_le (Fin a) (Inf t) = (\<not> t)"
| "f64_le (Inf s) (Inf t) = (s \<or> \<not> t)"
| "f64_le _ _ = False"

definition f64_eq :: "f64 \<Rightarrow> f64 \<Rightarrow> bool" where
  "f64_eq a b \<longleftrightarrow> a \<noteq> NaN \<and> a = b"

fun f64_finite :: "f64 \<Rightarrow> bool" where
  "f64_finite (Fin a) = True"
| "f64_finite _ = False"

definition f64_of_int :: "int \<Rightarrow> f64" where
  "f64_of_int n = rnd (of_int n)"

definition f64_trunc :: "int \<Rightarrow> int \<Rightarrow> f64 \<Rightarrow> int option" where
  "f64_trunc lo hi v =
     (case v of
        Fin a \<Rightarrow> let n = (if a < 0 then - \<lfloor>- a\<rfloor> else \<lfloor>a\<rfloor>) in if lo \<le> n \<and> n \<le> hi then Some n else None
      | _ \<Rightarrow> None)"

section \<open>Exactness and monotonicity\<close>

lemma powi_2_not_le_0 [simp]: "\<not> (2 :: rat) powi e \<le> 0"
  by (simp add: not_le)

lemma powi_2_le [simp]: "(2 :: rat) powi a \<le> 2 powi b \<longleftrightarrow> a \<le> b"
proof
  show "a \<le> b" if "(2 :: rat) powi a \<le> 2 powi b"
    using power_int_strict_increasing [of b a "2 :: rat"] that by (metis leD leI one_less_numeral_iff semiring_norm(76))
qed (simp add: power_int_increasing)

lemma powi_2_less [simp]: "(2 :: rat) powi a < 2 powi b \<longleftrightarrow> a < b"
  using powi_2_le [of b a] by (metis linorder_not_le)

lemma powi_2_Suc: "(2 :: rat) powi (e + 1) = 2 * 2 powi e"
  by (simp add: power_int_add_1')

lemma ilog2_bounds:
  assumes "0 < x"
  shows "2 powi ilog2 x \<le> x" "x < 2 powi (ilog2 x + 1)"
proof -
  obtain p q where pq: "quotient_of x = (p, q)" by (cases "quotient_of x")
  then have x: "x = of_int p / of_int q" and q: "0 < q"
    by (simp_all add: quotient_of_div quotient_of_denom_pos)
  with assms have p: "0 < p" by (simp add: zero_less_divide_iff)
  have b: "1 \<le> bitlen n" if "0 < n" for n
    using bitlen_nonneg [of n] bitlen_eq_zero_iff [of n] that by linarith
  have bound: "(2 :: rat) powi (bitlen n - 1) \<le> of_int n \<and> of_int n < (2 :: rat) powi bitlen n" if "0 < n" for n
  proof -
    have "of_int (2 ^ nat (bitlen n - 1)) \<le> (of_int n :: rat)" "(of_int n :: rat) < of_int (2 ^ nat (bitlen n))"
      using bitlen_bounds [OF that] by (simp_all only: of_int_le_iff of_int_less_iff)
    then show ?thesis using b [OF that] by (simp add: power_int_nonneg_exp)
  qed
  define e where "e = bitlen p - bitlen q"
  have "2 powi (bitlen p - 1) * 2 powi (- bitlen q) < x"
    unfolding x power_int_minus_divide times_divide_eq_right mult_1_right
    using bound [OF p] bound [OF q] p q by (intro frac_less2) auto
  then have lo: "2 powi (e - 1) < x"
    by (simp add: e_def algebra_simps flip: power_int_add)
  have "x < 2 powi bitlen p * 2 powi (- (bitlen q - 1))"
    unfolding x power_int_minus_divide times_divide_eq_right mult_1_right
    using bound [OF p] bound [OF q] p q by (intro frac_less) auto
  then have hi: "x < 2 powi (e + 1)"
    by (simp add: e_def algebra_simps flip: power_int_add)
  have il: "ilog2 x = (if 2 powi e \<le> x then e else e - 1)" by (simp add: ilog2_def pq e_def)
  show "2 powi ilog2 x \<le> x" "x < 2 powi (ilog2 x + 1)" using lo hi by (auto simp: il)
qed

lemma ilog2_mono: "0 < x \<Longrightarrow> x \<le> y \<Longrightarrow> ilog2 x \<le> ilog2 y"
  using order.strict_trans1 [OF ilog2_bounds(1) order.strict_trans1 [OF _ ilog2_bounds(2)], of x y]
    powi_2_less [of "ilog2 x" "ilog2 y + 1"] by simp

lemma ilog2_lt: "0 < x \<Longrightarrow> x < 2 powi n \<Longrightarrow> ilog2 x < n"
  using ilog2_bounds(1) [of x] powi_2_less [of "ilog2 x" n] by linarith

lemma ilog2_ge: "0 < x \<Longrightarrow> 2 powi n \<le> x \<Longrightarrow> n \<le> ilog2 x"
  using ilog2_bounds(2) [of x] powi_2_less [of n "ilog2 x + 1"] by linarith

lemma half_even_int [simp]: "half_even (of_int n) = n"
  by (simp add: half_even_def)

lemma half_even_mono: "r \<le> s \<Longrightarrow> half_even r \<le> half_even s"
proof (cases "\<lfloor>r\<rfloor> = \<lfloor>s\<rfloor>")
  case True
  assume "r \<le> s"
  with True show ?thesis by (auto simp: half_even_def Let_def)
next
  case False
  assume "r \<le> s"
  with False have "\<lfloor>r\<rfloor> + 1 \<le> \<lfloor>s\<rfloor>" using floor_mono [of r s] by linarith
  moreover have "half_even r \<le> \<lfloor>r\<rfloor> + 1" "\<lfloor>s\<rfloor> \<le> half_even s" by (auto simp: half_even_def Let_def)
  ultimately show ?thesis by linarith
qed

lemma half_even_neg: "half_even (- r) = - half_even r"
proof (cases "r = of_int \<lfloor>r\<rfloor>")
  case True
  then show ?thesis by (metis half_even_int of_int_minus)
next
  case False
  with of_int_floor_le [of r] have "of_int \<lfloor>r\<rfloor> < r" unfolding less_le by argo
  then have f: "\<lfloor>- r\<rfloor> = - \<lfloor>r\<rfloor> - 1"
    using floor_correct [of r] by (intro floor_unique) auto
  define d where "d = r - of_int \<lfloor>r\<rfloor>"
  have "- r - of_int \<lfloor>- r\<rfloor> = 1 - d" by (simp add: f d_def)
  then show ?thesis
    unfolding half_even_def Let_def d_def [symmetric] by (auto simp: f)
qed

text \<open>The rounded value before the overflow test.\<close>

definition rval :: "rat \<Rightarrow> rat" where
  "rval x = of_int (half_even (x / 2 powi ulp_exp x)) * 2 powi ulp_exp x"

lemma rval_0 [simp]: "rval 0 = 0"
  using half_even_int [of 0] by (simp add: rval_def)

lemma rnd_rval: "rnd x = (if \<bar>rval x\<bar> \<ge> 2 ^ 1024 then Inf (x < 0) else Fin (rval x))"
  by (simp add: rnd_def rval_def [symmetric] Let_def)

lemma rval_neg: "rval (- x) = - rval x"
  unfolding rval_def ulp_exp_def abs_minus_cancel minus_divide_left [symmetric] half_even_neg by simp

lemma rval_nonneg: "0 \<le> x \<Longrightarrow> 0 \<le> rval x"
  using half_even_mono [of 0 "x / 2 powi ulp_exp x"] half_even_int [of 0] by (simp add: rval_def)

lemma significand_upper:
  assumes "0 < x"
  shows "half_even (x / 2 powi ulp_exp x) \<le> 2 ^ 53"
proof -
  let ?k = "ulp_exp x"
  have "x < 2 powi (ilog2 x + 1)" by (rule ilog2_bounds(2) [OF assms])
  also have "\<dots> \<le> 2 powi (?k + 53)" using assms by (simp add: ulp_exp_def)
  finally have "x / 2 powi ?k \<le> of_int (2 ^ 53)"
    by (simp add: power_int_add field_simps)
  then show ?thesis using half_even_mono half_even_int by metis
qed

lemma rval_upper:
  assumes "0 < x"
  shows "rval x \<le> 2 powi (ulp_exp x + 53)"
proof -
  have "of_int (half_even (x / 2 powi ulp_exp x)) \<le> (2 ^ 53 :: rat)"
    using significand_upper [OF assms] by (metis of_int_le_iff of_int_numeral of_int_power)
  then show ?thesis by (simp add: rval_def power_int_add mult_right_mono mult.commute)
qed

lemma rval_lower:
  assumes "0 < x" "ulp_exp x = ilog2 x - 52"
  shows "2 powi ilog2 x \<le> rval x"
proof -
  let ?k = "ulp_exp x"
  have "of_int (2 ^ 52) \<le> x / 2 powi ?k"
    using ilog2_bounds(1) [OF assms(1)] by (simp add: assms(2) power_int_diff field_simps)
  then have "2 ^ 52 \<le> half_even (x / 2 powi ?k)" using half_even_mono half_even_int by metis
  then have "(2 ^ 52 :: rat) \<le> of_int (half_even (x / 2 powi ?k))" by (metis of_int_le_iff of_int_numeral of_int_power)
  then have "2 ^ 52 * 2 powi ?k \<le> rval x" by (simp add: rval_def)
  then show ?thesis by (simp add: assms(2) power_int_diff)
qed

lemma rval_mono_pos:
  assumes "0 < x" "x \<le> y"
  shows "rval x \<le> rval y"
proof -
  have k: "ulp_exp x \<le> ulp_exp y" using ilog2_mono [OF assms] assms by (simp add: ulp_exp_def)
  show ?thesis
  proof (cases "ulp_exp x = ulp_exp y")
    case True
    have "half_even (x / 2 powi ulp_exp y) \<le> half_even (y / 2 powi ulp_exp y)"
      by (rule half_even_mono) (simp add: assms(2) divide_right_mono)
    then show ?thesis by (simp add: rval_def True)
  next
    case False
    with k have lt: "ulp_exp x + 1 \<le> ulp_exp y" by simp
    then have y: "ulp_exp y = ilog2 y - 52" using assms by (auto simp: ulp_exp_def max_def split: if_splits)
    have "rval x \<le> 2 powi (ulp_exp x + 53)" by (rule rval_upper [OF assms(1)])
    also have "\<dots> \<le> 2 powi ilog2 y" using lt y by simp
    also have "\<dots> \<le> rval y" using rval_lower [OF _ y] assms by simp
    finally show ?thesis .
  qed
qed

lemma rval_mono: "x \<le> y \<Longrightarrow> rval x \<le> rval y"
proof (cases "0 < x")
  case False
  assume xy: "x \<le> y"
  show "rval x \<le> rval y"
  proof (cases "0 \<le> y")
    case True
    have "rval x \<le> 0" using rval_nonneg [of "- x"] False by (simp add: rval_neg)
    with rval_nonneg [OF True] show ?thesis by simp
  next
    case False
    with xy rval_mono_pos [of "- y" "- x"] show ?thesis by (simp add: rval_neg)
  qed
qed (rule rval_mono_pos)

lemma rnd_mono:
  assumes "x \<le> y"
  shows "f64_le (rnd x) (rnd y)"
proof -
  have m: "rval x \<le> rval y" by (rule rval_mono [OF assms])
  have n: "0 \<le> z \<Longrightarrow> 0 \<le> rval z" "z < 0 \<Longrightarrow> rval z \<le> 0" for z
    using rval_nonneg [of z] rval_nonneg [of "- z"] by (simp_all add: rval_neg)
  define B :: rat where "B = 2 ^ 1024"
  have "0 < B" by (simp add: B_def)
  then show ?thesis
    using m assms n [of x] n [of y] unfolding rnd_rval B_def [symmetric]
    by (cases "x < 0"; cases "y < 0") (auto simp: not_le)
qed

text \<open>Values with a 53-bit significand are exact.\<close>

lemma rval_exact:
  assumes "\<bar>m\<bar> < 2 ^ 53" "- 1074 \<le> j"
  shows "rval (of_int m * 2 powi j) = of_int m * 2 powi j"
proof (cases "m = 0")
  case False
  let ?x = "of_int m * 2 powi j :: rat"
  have a: "\<bar>?x\<bar> = of_int \<bar>m\<bar> * 2 powi j" by (simp add: abs_mult)
  have "(of_int \<bar>m\<bar> :: rat) < of_int (2 ^ 53)" using assms(1) by (simp only: of_int_less_iff)
  then have "\<bar>?x\<bar> < 2 powi (j + 53)" unfolding a by (simp add: power_int_add mult.commute)
  moreover have "0 < \<bar>?x\<bar>" using False by simp
  ultimately have "ilog2 \<bar>?x\<bar> < j + 53" by (rule ilog2_lt [rotated])
  then have k: "ulp_exp ?x \<le> j" using assms(2) by (simp add: ulp_exp_def)
  have q: "?x / 2 powi ulp_exp ?x = of_int (m * 2 ^ nat (j - ulp_exp ?x))"
    using k by (simp add: power_int_diff flip: power_int_nonneg_exp)
  show ?thesis unfolding rval_def q half_even_int unfolding q [symmetric] by simp
qed simp

lemma rval_of_int: "\<bar>n\<bar> \<le> 2 ^ 53 \<Longrightarrow> rval (of_int n) = of_int n"
proof (cases "\<bar>n\<bar> = 2 ^ 53")
  case True
  then have "n = 2 ^ 52 * sgn n * 2" by (auto simp: abs_if sgn_if split: if_splits)
  then have "(of_int n :: rat) = of_int (2 ^ 52 * sgn n) * 2 powi 1" by (metis of_int_mult of_int_numeral power_int_1_right)
  moreover have "\<bar>2 ^ 52 * sgn n\<bar> < 2 ^ 53" by (simp add: abs_mult sgn_if)
  ultimately show ?thesis using rval_exact [of "2 ^ 52 * sgn n" 1] by simp
next
  case False
  assume "\<bar>n\<bar> \<le> 2 ^ 53"
  with False rval_exact [of n 0] show ?thesis by simp
qed

lemma rnd_of_int:
  assumes "\<bar>n\<bar> \<le> 2 ^ 53"
  shows "rnd (of_int n) = Fin (of_int n)"
proof -
  have "\<bar>of_int n :: rat\<bar> \<le> of_int (2 ^ 53)" using assms by (simp only: of_int_abs [symmetric] of_int_le_iff)
  also have "(of_int (2 ^ 53) :: rat) < 2 ^ 1024" by simp
  finally show ?thesis using rval_of_int [OF assms] by (simp add: rnd_rval)
qed

section \<open>Representable values\<close>

definition f64_ok :: "f64 \<Rightarrow> bool" where
  "f64_ok v = (case v of Fin a \<Rightarrow> rnd a = Fin a | _ \<Rightarrow> True)"

lemma rval_53:
  assumes "\<bar>m\<bar> \<le> 2 ^ 53" "- 1074 \<le> k"
  shows "rval (of_int m * 2 powi k) = of_int m * 2 powi k"
proof (cases "\<bar>m\<bar> = 2 ^ 53")
  case True
  then have m: "m = 2 ^ 52 * sgn m * 2" by (auto simp: abs_if sgn_if split: if_splits)
  then have "(of_int m :: rat) = of_int (2 ^ 52 * sgn m) * 2" by (metis of_int_mult of_int_numeral)
  then have "(of_int m :: rat) * 2 powi k = of_int (2 ^ 52 * sgn m) * 2 powi (k + 1)"
    by (simp add: powi_2_Suc)
  moreover have "\<bar>2 ^ 52 * sgn m\<bar> < 2 ^ 53" by (simp add: abs_mult sgn_if)
  ultimately show ?thesis using rval_exact [of "2 ^ 52 * sgn m" "k + 1"] assms(2) by simp
qed (use rval_exact assms in simp)

lemma rval_idem: "rval (rval x) = rval x"
proof -
  have "\<bar>half_even (x / 2 powi ulp_exp x)\<bar> \<le> 2 ^ 53"
  proof (cases x "0 :: rat" rule: linorder_cases)
    case less
    then show ?thesis
      using significand_upper [of "- x"] rval_nonneg [of "- x"]
      unfolding minus_divide_left [symmetric] half_even_neg by (auto simp: ulp_exp_def rval_def zero_le_mult_iff mult_le_0_iff half_even_neg)
  next
    case equal
    with half_even_int [of 0] show ?thesis by simp
  next
    case greater
    with significand_upper [of x] rval_nonneg [of x] show ?thesis by (simp add: rval_def zero_le_mult_iff)
  qed
  moreover have "- 1074 \<le> ulp_exp x" by (simp add: ulp_exp_def)
  ultimately show ?thesis unfolding rval_def [of x] by (rule rval_53)
qed

lemma rnd_ok [simp]: "f64_ok (rnd x)"
  by (simp add: f64_ok_def rnd_rval rval_idem)

lemma f64_ok_simps [simp]: "f64_ok (Inf s)" "f64_ok NaN" "f64_ok (Fin 0)"
  by (simp_all add: f64_ok_def rnd_def)

lemma f64_ok_int: "\<bar>n\<bar> \<le> 2 ^ 53 \<Longrightarrow> f64_ok (Fin (of_int n))"
  by (simp add: f64_ok_def rnd_of_int)

text \<open>Subtracting a non-negative length never moves a time forward.\<close>

lemma f64_sub_le:
  assumes "f64_ok t" "f64_finite t" "0 \<le> s"
  shows "f64_le (f64_sub t (Fin s)) t"
  using assms rnd_mono [of _ "_ :: rat"] by (cases t) (auto simp: f64_sub_def f64_ok_def dest: sym [of "rnd _"])

lemma f64_le_trans: "f64_le a b \<Longrightarrow> f64_le b c \<Longrightarrow> f64_le a c"
  by (cases a; cases b; cases c) auto

lemma f64_lt_irrefl [simp]: "\<not> f64_lt a a"
  by (cases a) auto

lemma f64_le_refl [simp]: "f64_le a a \<longleftrightarrow> a \<noteq> NaN"
  by (cases a) auto

lemma f64_not_lt: "a \<noteq> NaN \<Longrightarrow> b \<noteq> NaN \<Longrightarrow> \<not> f64_lt a b \<longleftrightarrow> f64_le b a"
  by (cases a; cases b) auto

lemma f64_le_lt_trans: "f64_le a b \<Longrightarrow> f64_lt b c \<Longrightarrow> f64_lt a c"
  by (cases a; cases b; cases c) auto

lemma f64_lt_le_trans: "f64_lt a b \<Longrightarrow> f64_le b c \<Longrightarrow> f64_lt a c"
  by (cases a; cases b; cases c) auto

lemma f64_lt_le: "f64_lt a b \<Longrightarrow> f64_le a b"
  by (cases a; cases b) auto

end
