(* ===== verification/C_Stdlib.thy ===== *)
theory C_Stdlib
  imports Binary64
begin

text \<open>
  What the code uses of the C library: character classes, checked reads of a NUL-terminated
  string, \<open>strtod\<close> in the "C" locale with correct rounding, and the year and month that
  \<open>gmtime_r\<close> computes. A C string is the list of its characters before the NUL.
\<close>

section \<open>Characters and strings\<close>

abbreviation ch :: "char \<Rightarrow> u8" where "ch c \<equiv> of_char c"

definition c_isdigit :: "u8 \<Rightarrow> bool" where
  "c_isdigit c \<longleftrightarrow> 48 \<le> c \<and> c \<le> 57"

definition c_isspace :: "u8 \<Rightarrow> bool" where
  "c_isspace c \<longleftrightarrow> c = 32 \<or> 9 \<le> c \<and> c \<le> 13"

text \<open>The signed value of a character less that of \<open>'0'\<close>.\<close>

definition dig :: "u8 \<Rightarrow> int" where
  "dig c = sint c - 48"

text \<open>\<open>p[i]\<close>: the terminator can be read, nothing behind it.\<close>

definition cch :: "bytes \<Rightarrow> nat \<Rightarrow> u8 option" where
  "cch p i = (if i < length p then Some (p ! i) else if i = length p then Some 0 else None)"

definition c_lower :: "u8 \<Rightarrow> u8" where
  "c_lower c = (if 65 \<le> c \<and> c \<le> 90 then c + 32 else c)"

definition starts_ci :: "bytes \<Rightarrow> bytes \<Rightarrow> bool" where
  "starts_ci w s \<longleftrightarrow> map c_lower (take (length w) s) = w"

section \<open>strtod\<close>

definition hex_value :: "u8 \<Rightarrow> nat option" where
  "hex_value c =
     (if c_isdigit c then Some (unat c - 48)
      else if 97 \<le> c_lower c \<and> c_lower c \<le> 102 then Some (unat (c_lower c) - 87) else None)"

definition dec_value :: "u8 \<Rightarrow> nat option" where
  "dec_value c = (if c_isdigit c then Some (unat c - 48) else None)"

definition span :: "(u8 \<Rightarrow> nat option) \<Rightarrow> bytes \<Rightarrow> bytes" where
  "span dv s = takeWhile (\<lambda>c. dv c \<noteq> None) s"

definition digits_value :: "(u8 \<Rightarrow> nat option) \<Rightarrow> nat \<Rightarrow> bytes \<Rightarrow> nat" where
  "digits_value dv base ds = foldl (\<lambda>a c. a * base + the (dv c)) 0 ds"

text \<open>An exponent part: its value and length, if there is one.\<close>

definition exponent :: "u8 \<Rightarrow> bytes \<Rightarrow> int \<times> nat" where
  "exponent e s =
     (case s of
        c # r \<Rightarrow>
          if c_lower c = e then
            (let sg = (case r of d # _ \<Rightarrow> d = 43 \<or> d = 45 | [] \<Rightarrow> False);
                 neg = (sg \<and> hd r = 45);
                 ds = span dec_value (if sg then tl r else r);
                 v = int (digits_value dec_value 10 ds) in
             if ds = [] then (0, 0) else (if neg then - v else v, 1 + (if sg then 1 else 0) + length ds))
          else (0, 0)
      | [] \<Rightarrow> (0, 0))"

text \<open>
  Digits with an optional point and exponent: the value and the number of characters, if
  there is at least one digit. Each fraction digit scales by \<open>frac\<close>, the exponent by \<open>scale\<close>.
\<close>

definition number :: "(u8 \<Rightarrow> nat option) \<Rightarrow> nat \<Rightarrow> u8 \<Rightarrow> rat \<Rightarrow> bytes \<Rightarrow> (rat \<times> nat) option" where
  "number dv base e scale s =
     (let ip = span dv s; r = drop (length ip) s;
          fp = (case r of c # r' \<Rightarrow> if c = 46 then span dv r' else [] | [] \<Rightarrow> []);
          dot = (case r of c # _ \<Rightarrow> c = 46 | [] \<Rightarrow> False);
          k = length ip + (if dot then 1 + length fp else 0);
          (ev, el) = exponent e (drop k s) in
      if ip @ fp = [] then None
      else Some (of_nat (digits_value dv base (ip @ fp)) / of_nat base ^ length fp * scale powi ev, k + el))"

definition unsigned_strtod :: "bytes \<Rightarrow> (f64 \<times> nat) option" where
  "unsigned_strtod s =
     (if starts_ci (lit ''infinity'') s then Some (Inf False, 8)
      else if starts_ci (lit ''inf'') s then Some (Inf False, 3)
      else if starts_ci (lit ''nan'') s then
        (let r = drop 3 s;
             w = takeWhile (\<lambda>c. hex_value c \<noteq> None \<or> 97 \<le> c_lower c \<and> c_lower c \<le> 122 \<or> c = 95) (tl r) in
         Some (NaN, if r \<noteq> [] \<and> hd r = 40 \<and> take 1 (drop (length w) (tl r)) = [41] then 5 + length w else 3))
      else
        case (if starts_ci (lit ''0x'') s then number hex_value 16 112 2 (drop 2 s) else None) of
          Some (v, k) \<Rightarrow> Some (rnd v, 2 + k)
        | None \<Rightarrow> map_option (\<lambda>(v, k). (rnd v, k)) (number dec_value 10 101 10 s))"

text \<open>The value and the number of characters consumed; \<open>0\<close> when there is no conversion.\<close>

definition c_strtod :: "bytes \<Rightarrow> f64 \<times> nat" where
  "c_strtod s =
     (let ws = length (takeWhile c_isspace s); r = drop ws s;
          sg = (r \<noteq> [] \<and> (hd r = 43 \<or> hd r = 45)) in
      case unsigned_strtod (if sg then tl r else r) of
        None \<Rightarrow> (Fin 0, 0)
      | Some (v, k) \<Rightarrow> (if sg \<and> hd r = 45 then f64_neg v else v, ws + (if sg then 1 else 0) + k))"

lemma span_append: "list_all (\<lambda>c. dv c \<noteq> None) ds \<Longrightarrow> r = [] \<or> dv (hd r) = None \<Longrightarrow> span dv (ds @ r) = ds"
  by (cases r) (auto simp: span_def list_all_iff takeWhile_append takeWhile_eq_all_conv)

text \<open>Plain digits before a character that does not continue a number.\<close>

lemma strtod_digits:
  assumes ds: "ds \<noteq> []" "list_all c_isdigit ds"
    and r: "r = [] \<or> \<not> c_isdigit (hd r) \<and> hd r \<noteq> 46 \<and> c_lower (hd r) \<noteq> 101 \<and> c_lower (hd r) \<noteq> 120"
  shows "c_strtod (ds @ r) = (rnd (of_nat (digits_value dec_value 10 ds)), length ds)"
proof -
  obtain c cs where c: "ds = c # cs" using ds(1) by (cases ds) auto
  have cd: "48 \<le> c" "c \<le> 57" using ds(2) by (auto simp: c c_isdigit_def)
  have ns: "\<not> c_isspace c" "c \<noteq> 43" "c \<noteq> 45" using cd by (auto simp: c_isspace_def word_le_nat_alt word_less_nat_alt)
  have ni: "\<not> starts_ci (lit ''infinity'') (ds @ r)" "\<not> starts_ci (lit ''inf'') (ds @ r)" "\<not> starts_ci (lit ''nan'') (ds @ r)"
    using cd by (auto simp: c starts_ci_def lit_def c_lower_def word_le_nat_alt)
  have nx: "\<not> starts_ci (lit ''0x'') (ds @ r)"
  proof
    assume "starts_ci (lit ''0x'') (ds @ r)"
    then have x: "map c_lower (take (Suc (Suc 0)) (ds @ r)) = [48, 120]" by (simp add: starts_ci_def lit_def)
    show False
    proof (cases cs)
      case Nil
      with x r show False by (cases r) (auto simp: c)
    next
      case (Cons d ds')
      then have "48 \<le> d" "d \<le> 57" using ds(2) by (auto simp: c c_isdigit_def)
      with x show False by (auto simp: c Cons c_lower_def word_le_nat_alt)
    qed
  qed
  have sp: "span dec_value (ds @ r) = ds"
    using ds(2) r by (intro span_append) (auto simp: dec_value_def list_all_iff)
  have dot: "(case r of c # r' \<Rightarrow> if c = 46 then span dec_value r' else [] | [] \<Rightarrow> []) = []"
    "(case r of c # _ \<Rightarrow> c = 46 | [] \<Rightarrow> False) = False"
    using r by (auto split: list.split)
  have ex: "exponent 101 r = (0, 0)" using r by (auto simp: exponent_def split: list.split)
  have "number dec_value 10 101 10 (ds @ r) = Some (of_nat (digits_value dec_value 10 ds), length ds)"
    using ds(1) by (simp add: number_def Let_def sp dot ex)
  then have "unsigned_strtod (ds @ r) = Some (rnd (of_nat (digits_value dec_value 10 ds)), length ds)"
    by (simp add: unsigned_strtod_def ni nx)
  then show ?thesis using ns by (simp add: c_strtod_def c)
qed

section \<open>The calendar\<close>

text \<open>The proleptic Gregorian calendar, and the year and month of \<open>gmtime_r\<close>.\<close>

definition leap_year :: "int \<Rightarrow> bool" where
  "leap_year y \<longleftrightarrow> 4 dvd y \<and> (\<not> 100 dvd y \<or> 400 dvd y)"

definition month_len :: "int \<Rightarrow> int \<Rightarrow> int" where
  "month_len y m = (if m = 2 then (if leap_year y then 29 else 28) else if m \<in> {4, 6, 9, 11} then 30 else 31)"

text \<open>Days from 1970-01-01 to the first of January, and to a date.\<close>

definition leaps_upto :: "int \<Rightarrow> int" where
  "leaps_upto y = y div 4 - y div 100 + y div 400"

definition year_start :: "int \<Rightarrow> int" where
  "year_start y = 365 * (y - 1970) + leaps_upto (y - 1) - leaps_upto 1969"

definition day_number :: "int \<Rightarrow> int \<Rightarrow> int \<Rightarrow> int" where
  "day_number y m d = year_start y + sum_list (map (month_len y) [1..m - 1]) + (d - 1)"

lemma div_step: "0 < c \<Longrightarrow> y div c = (y - 1) div c + (if c dvd y then 1 else (0 :: int))"
proof (cases "c dvd y")
  case True
  assume c: "0 < c"
  have "(y - 1) div c = y div c - 1"
    using True c by (intro int_div_pos_eq [of _ _ _ "c - 1"]) (auto simp: algebra_simps)
  with True show ?thesis by simp
next
  case False
  assume c: "0 < c"
  have "0 < y mod c" using False c by (simp add: dvd_eq_mod_eq_0 order.not_eq_order_implies_strict)
  then have "(y - 1) div c = y div c"
    using c pos_mod_bound [OF c, of y] mult_div_mod_eq [of c y] by (intro int_div_pos_eq [of _ _ _ "y mod c - 1"]) auto
  with False show ?thesis by simp
qed

lemma leaps_step: "leaps_upto y = leaps_upto (y - 1) + (if leap_year y then 1 else 0)"
proof -
  have d: "4 dvd (100 :: int)" "100 dvd (400 :: int)" by simp_all
  have "(q \<Longrightarrow> p) \<Longrightarrow> (r \<Longrightarrow> q) \<Longrightarrow>
      (if p then 1 else 0) - (if q then 1 else 0) + (if r then 1 else 0) = (if p \<and> (\<not> q \<or> r) then 1 else (0 :: int))"
    for p q r by auto
  from this [OF dvd_trans [OF d(1)] dvd_trans [OF d(2)]]
  have i: "(if 4 dvd y then 1 else 0) - (if 100 dvd y then 1 else 0) + (if 400 dvd y then 1 else 0) =
      (if leap_year y then 1 else (0 :: int))" unfolding leap_year_def .
  have "a = a' + i \<Longrightarrow> b = b' + j \<Longrightarrow> c = c' + k \<Longrightarrow> i - j + k = l \<Longrightarrow> a - b + c = a' - b' + c' + l"
    for a b c a' b' c' i j k l :: int by simp
  from this [OF div_step div_step div_step i] show ?thesis unfolding leaps_upto_def by simp
qed

lemma year_start_next: "year_start (y + 1) = year_start y + (if leap_year y then 366 else 365)"
  using leaps_step [of y] by (simp add: year_start_def)

lemma year_start_1970: "year_start 1970 = 0"
  by (simp add: year_start_def)

definition gm_year :: "int \<Rightarrow> int" where
  "gm_year day = last (filter (\<lambda>y. year_start y \<le> day) [1970..1970 + day div 365])"

definition gm_month :: "int \<Rightarrow> int" where
  "gm_month day = last (filter (\<lambda>m. day_number (gm_year day) m 1 \<le> day) [1..12])"

text \<open>\<open>tm_year + 1900\<close> and \<open>tm_mon + 1\<close>, if \<open>tm_year\<close> fits an \<open>int\<close>.\<close>

definition c_gmtime :: "int \<Rightarrow> (int \<times> int) option" where
  "c_gmtime t =
     (let day = t div 86400; y = gm_year day in
      if y - 1900 < 2 ^ 31 then Some (y, gm_month day) else None)"

lemma last_filter:
  assumes "\<exists>x \<in> set xs. P x"
  shows "last (filter P xs) \<in> set xs" "P (last (filter P xs))"
proof -
  have "filter P xs \<noteq> []" using assms by (auto simp: filter_empty_conv)
  then have "last (filter P xs) \<in> set (filter P xs)" by (rule last_in_set)
  then show "last (filter P xs) \<in> set xs" "P (last (filter P xs))" by auto
qed

lemma gm_year_range:
  assumes "0 \<le> day"
  shows "1970 \<le> gm_year day" "gm_year day \<le> 1970 + day div 365" "year_start (gm_year day) \<le> day"
proof -
  have "\<exists>y \<in> set [1970..1970 + day div 365]. year_start y \<le> day"
    using assms by (intro bexI [of _ 1970]) (simp_all add: year_start_1970 pos_imp_zdiv_nonneg_iff)
  from last_filter [OF this] show "1970 \<le> gm_year day" "gm_year day \<le> 1970 + day div 365" "year_start (gm_year day) \<le> day"
    by (simp_all add: gm_year_def)
qed

lemma gm_month_range:
  assumes "0 \<le> day"
  shows "1 \<le> gm_month day" "gm_month day \<le> 12"
proof -
  have "day_number (gm_year day) 1 1 \<le> day" using gm_year_range(3) [OF assms] by (simp add: day_number_def)
  then have "\<exists>m \<in> set [1..12 :: int]. day_number (gm_year day) m 1 \<le> day" by (intro bexI [of _ 1]) simp_all
  from last_filter(1) [OF this] show "1 \<le> gm_month day" "gm_month day \<le> 12" by (simp_all add: gm_month_def)
qed

end
