(* ===== verification/Event_Time.thy ===== *)
theory Event_Time
  imports C_Stdlib "HOL-Library.Signed_Division"
begin

text \<open>
  Log timestamps (\<open>src/src/event_time.c\<close>): the civil calendar arithmetic and the parser of the
  five accepted forms. Reads of the string are checked, and \<open>int\<close> arithmetic that can
  overflow is checked; \<open>Some None\<close> is the return value 0. Characters are signed.
\<close>

section \<open>Civil time\<close>

definition ck_int :: "int \<Rightarrow> int option" where
  "ck_int n = (if - (2 ^ 31) \<le> n \<and> n < 2 ^ 31 then Some n else None)"

definition days_from_civil :: "int \<Rightarrow> int \<Rightarrow> int \<Rightarrow> int option" where
  "days_from_civil y0 m d =
     do { y \<leftarrow> ck_int (y0 - (if m \<le> 2 then 1 else 0));
          era \<leftarrow> ck_int ((if 0 \<le> y then y else y - 399) sdiv 400);
          let yoe = (y - era * 400) mod 2 ^ 32;
          let doy = ((153 * (if m > 2 then m - 3 else m + 9) + 2) sdiv 5 + d - 1) mod 2 ^ 32;
          let doe = (yoe * 365 + yoe div 4 - yoe div 100 + doy) mod 2 ^ 32;
          a \<leftarrow> ck_int (era * 146097);
          b \<leftarrow> ck_int (a + doe);
          ck_int (b - 719468) }"

definition month_names :: "bytes list" where
  "month_names = map lit [''jan'', ''feb'', ''mar'', ''apr'', ''may'', ''jun'', ''jul'', ''aug'', ''sep'', ''oct'', ''nov'', ''dec'']"

definition month3 :: "bytes \<Rightarrow> int option" where
  "month3 s =
     do { a \<leftarrow> cch s 0;
          if a = 0 then Some 0
          else do { b \<leftarrow> cch s 1;
            if b = 0 then Some 0
            else do { c \<leftarrow> cch s 2;
              if c = 0 then Some 0
              else (case find (\<lambda>i. [a OR 0x20, b OR 0x20, c OR 0x20] = month_names ! i) [0..<12] of
                      None \<Rightarrow> Some 0 | Some i \<Rightarrow> Some (int i + 1)) } } }"

definition civil_ok :: "int \<Rightarrow> int \<Rightarrow> int \<Rightarrow> int \<Rightarrow> int \<Rightarrow> f64 \<Rightarrow> bool" where
  "civil_ok Y Mo D h mi se \<longleftrightarrow>
     1970 \<le> Y \<and> Y \<le> 2100 \<and> 1 \<le> Mo \<and> Mo \<le> 12 \<and> 1 \<le> D \<and> D \<le> 31 \<and> 0 \<le> h \<and> h \<le> 23 \<and>
     0 \<le> mi \<and> mi \<le> 59 \<and> f64_le (Fin 0) se \<and> f64_lt se (Fin 61)"

definition to_epoch :: "int \<Rightarrow> int \<Rightarrow> int \<Rightarrow> int \<Rightarrow> int \<Rightarrow> f64 \<Rightarrow> int \<Rightarrow> f64 option" where
  "to_epoch Y Mo D h mi se off =
     do { days \<leftarrow> days_from_civil Y Mo D;
          Some (f64_sub
            (f64_add (f64_add (f64_add (f64_mul (f64_of_int days) (Fin 86400)) (f64_mul (f64_of_int h) (Fin 3600)))
               (f64_mul (f64_of_int mi) (Fin 60))) se)
            (f64_mul (f64_of_int off) (Fin 60))) }"

definition event_time_from_civil :: "int \<Rightarrow> int \<Rightarrow> int \<Rightarrow> int \<Rightarrow> int \<Rightarrow> f64 \<Rightarrow> int \<Rightarrow> f64 option option" where
  "event_time_from_civil Y Mo D h mi se off =
     (if \<not> civil_ok Y Mo D h mi se then Some None else map_option Some (to_epoch Y Mo D h mi se off))"

section \<open>Pieces of a timestamp\<close>

definition parse_offset :: "bytes \<Rightarrow> int option option" where
  "parse_offset p =
     do { c \<leftarrow> cch p 0;
          if c = 0 \<or> c = ch (CHR ''Z'') \<or> c = ch (CHR ''z'') then Some (Some 0)
          else if c \<noteq> ch (CHR ''+'') \<and> c \<noteq> ch (CHR ''-'') then Some None
          else
            let sign = (if c = ch (CHR ''+'') then 1 else - 1); p = drop 1 p in
            do { a \<leftarrow> cch p 0;
                 if \<not> c_isdigit a then Some None
                 else do { b \<leftarrow> cch p 1;
                   if \<not> c_isdigit b then Some None
                   else
                     let oh = dig a * 10 + dig b; p = drop 2 p in
                     do { c \<leftarrow> cch p 0;
                          let p = (if c = ch (CHR '':'') then drop 1 p else p);
                          a \<leftarrow> cch p 0;
                          om \<leftarrow> (if c_isdigit a
                                then do { b \<leftarrow> cch p 1; Some (if c_isdigit b then dig a * 10 + dig b else 0) }
                                else Some 0);
                          if oh > 14 \<or> om > 59 then Some None else Some (Some (sign * (oh * 60 + om))) } } } }"

text \<open>Two decimal digits at the start of \<open>p\<close>.\<close>

definition two_digits :: "bytes \<Rightarrow> int option option" where
  "two_digits p =
     do { a \<leftarrow> cch p 0;
          if \<not> c_isdigit a then Some None
          else do { b \<leftarrow> cch p 1; if \<not> c_isdigit b then Some None else Some (Some (dig a * 10 + dig b)) } }"

definition parse_hms :: "bytes \<Rightarrow> (int \<times> int \<times> f64 \<times> bytes) option option" where
  "parse_hms p =
     do { hh \<leftarrow> two_digits p;
          case hh of
            None \<Rightarrow> Some None
          | Some h \<Rightarrow> do { c \<leftarrow> cch p 2;
              if c \<noteq> ch (CHR '':'') then Some None
              else let p = drop 3 p in do {
                mm \<leftarrow> two_digits p;
                case mm of
                  None \<Rightarrow> Some None
                | Some mi \<Rightarrow> let p = drop 2 p in do {
                    c \<leftarrow> cch p 0;
                    if c = ch (CHR '':'') then
                      (let (se, k) = c_strtod (drop 1 p) in
                       if k = 0 then Some None else Some (Some (h, mi, se, drop (1 + k) p)))
                    else Some (Some (h, mi, Fin 0, p)) } } } }"

definition skip_spaces :: "bytes \<Rightarrow> bytes" where
  "skip_spaces p = dropWhile (\<lambda>c. c = 32) p"

text \<open>The offset after the time of day: optional in every form but the first.\<close>

definition opt_offset :: "bytes \<Rightarrow> int option option" where
  "opt_offset p = do { c \<leftarrow> cch p 0; if c = 0 then Some (Some 0) else parse_offset p }"

definition with_offset :: "int option option \<Rightarrow> (int \<Rightarrow> f64 option) \<Rightarrow> f64 option option" where
  "with_offset off k = do { r \<leftarrow> off; case r of None \<Rightarrow> Some None | Some m \<Rightarrow> map_option Some (k m) }"

text \<open>At most two digits of a day, the value and the rest.\<close>

definition short_day :: "bytes \<Rightarrow> int \<times> nat \<times> bytes" where
  "short_day p =
     (let ds = takeWhile c_isdigit (take 2 p) in
      (foldl (\<lambda>D c. D * 10 + dig c) 0 ds, length ds, drop (length ds) p))"

definition year4 :: "bytes \<Rightarrow> int" where
  "year4 b = dig (b ! 0) * 1000 + dig (b ! 1) * 100 + dig (b ! 2) * 10 + dig (b ! 3)"

section \<open>The accepted forms\<close>

definition numeric_epoch :: "bytes \<Rightarrow> f64 option option" where
  "numeric_epoch b =
     do { c0 \<leftarrow> cch b 0;
          if c_isdigit c0 \<and> 9 \<le> length b \<and> length b \<le> 18 then
            do { c4 \<leftarrow> cch b 4; c2 \<leftarrow> cch b 2;
                 if c4 \<noteq> ch (CHR ''-'') \<and> c4 \<noteq> ch (CHR ''/'') \<and> c2 \<noteq> ch (CHR ''/'') then
                   (let (v, k) = c_strtod b in
                    if k = 0 then Some None
                    else do { e \<leftarrow> cch b k;
                              Some (if (e = 0 \<or> e = 32) \<and> f64_lt (Fin 100000000) v then Some v else None) })
                 else Some None }
          else Some None }"

text \<open>\<open>YYYY-MM-DD[T ]HH:MM:SS\<close>\<close>

definition parse_iso :: "bytes \<Rightarrow> f64 option option" where
  "parse_iso b =
     (let Y = year4 b; Mo = dig (b ! 5) * 10 + dig (b ! 6); D = dig (b ! 8) * 10 + dig (b ! 9) in
      if length b = 10 then
        (if \<not> civil_ok Y Mo D 0 0 (Fin 0) then Some None else map_option Some (to_epoch Y Mo D 0 0 (Fin 0) 0))
      else do {
        t \<leftarrow> cch b 10;
        if t \<noteq> ch (CHR ''T'') \<and> t \<noteq> ch (CHR ''t'') \<and> t \<noteq> 32 then Some None
        else do { r \<leftarrow> parse_hms (drop 11 b);
          case r of
            None \<Rightarrow> Some None
          | Some (h, mi, se, rest) \<Rightarrow>
              if \<not> civil_ok Y Mo D h mi se then Some None
              else with_offset (parse_offset (skip_spaces rest)) (to_epoch Y Mo D h mi se) } })"

text \<open>\<open>YYYY/MM/DD HH:MM:SS\<close>\<close>

definition parse_slash :: "bytes \<Rightarrow> f64 option option" where
  "parse_slash b =
     (let Y = year4 b; Mo = dig (b ! 5) * 10 + dig (b ! 6); D = dig (b ! 8) * 10 + dig (b ! 9) in
      do { r \<leftarrow> parse_hms (skip_spaces (drop 10 b));
           case r of
             None \<Rightarrow> Some None
           | Some (h, mi, se, rest) \<Rightarrow>
               if \<not> civil_ok Y Mo D h mi se then Some None
               else with_offset (opt_offset (skip_spaces rest)) (to_epoch Y Mo D h mi se) })"

text \<open>\<open>DD/MMM/YYYY:HH:MM:SS[ offset]\<close>\<close>

definition parse_clf :: "bytes \<Rightarrow> f64 option option" where
  "parse_clf b =
     (let (D, nd, p) = short_day b in
      do { c \<leftarrow> cch p 0;
           if c \<noteq> ch (CHR ''/'') then Some None
           else let p = drop 1 p in do {
             Mo \<leftarrow> month3 p;
             if Mo = 0 then Some None
             else let p = drop 3 p in do {
               c \<leftarrow> cch p 0;
               if c \<noteq> ch (CHR ''/'') then Some None
               else let p = drop 1 p in do {
                 y0 \<leftarrow> cch p 0;
                 if \<not> c_isdigit y0 then Some None
                 else do { y3 \<leftarrow> cch p 3;
                   if \<not> c_isdigit y3 then Some None
                   else do { y1 \<leftarrow> cch p 1; y2 \<leftarrow> cch p 2;
                     let Y = year4 [y0, y1, y2, y3]; p = drop 4 p in
                     do { c \<leftarrow> cch p 0;
                          if c \<noteq> ch (CHR '':'') then Some None
                          else do { r \<leftarrow> parse_hms (drop 1 p);
                            case r of
                              None \<Rightarrow> Some None
                            | Some (h, mi, se, rest) \<Rightarrow>
                                if \<not> civil_ok Y Mo D h mi se then Some None
                                else with_offset (opt_offset (skip_spaces rest)) (to_epoch Y Mo D h mi se) } } } } } } } })"

text \<open>\<open>Mmm [D]D HH:MM:SS\<close>: the year is the reference year, moved by one across new year.\<close>

definition parse_3164 :: "int \<Rightarrow> bytes \<Rightarrow> f64 option option" where
  "parse_3164 ref b =
     do { Mo \<leftarrow> month3 b;
          if Mo = 0 then Some None
          else
            let (D, nd, p) = short_day (skip_spaces (drop 3 b)) in
            if nd = 0 then Some None
            else do { r \<leftarrow> parse_hms (skip_spaces p);
              case r of
                None \<Rightarrow> Some None
              | Some (h, mi, se, rest) \<Rightarrow>
                  if D < 1 \<or> D > 31 \<or> h < 0 \<or> h > 23 \<or> mi < 0 \<or> mi > 59 \<or> f64_lt se (Fin 0) \<or> f64_le (Fin 61) se
                  then Some None
                  else do {
                    (ry, rm) \<leftarrow> c_gmtime (if ref > 0 then ref else 0);
                    let diff = Mo - rm;
                    let Y = (if diff > 6 then ry - 1 else if diff < - 6 then ry + 1 else ry);
                    with_offset (opt_offset (skip_spaces rest)) (to_epoch Y Mo D h mi se) } } }"

section \<open>The parser\<close>

definition blank :: "u8 \<Rightarrow> bool" where
  "blank c \<longleftrightarrow> c = 32 \<or> c = 9"

text \<open>The string in the buffer, up to its first NUL, without surrounding blanks.\<close>

definition trimmed :: "bytes \<Rightarrow> bytes" where
  "trimmed s = rev (dropWhile blank (rev (dropWhile blank (takeWhile (\<lambda>c. c \<noteq> 0) s))))"

definition event_time_parse :: "bytes \<Rightarrow> int \<Rightarrow> f64 option option" where
  "event_time_parse s ref =
     (if length s < 1 \<or> length s > 63 then Some None
      else
        let b = trimmed s; n = length b in
        if n < 1 then Some None
        else do {
          num \<leftarrow> numeric_epoch b;
          case num of
            Some v \<Rightarrow> Some (Some v)
          | None \<Rightarrow>
              if 10 \<le> n \<and> c_isdigit (b ! 0) \<and> b ! 4 = ch (CHR ''-'') \<and> b ! 7 = ch (CHR ''-'') then parse_iso b
              else if 19 \<le> n \<and> c_isdigit (b ! 0) \<and> b ! 4 = ch (CHR ''/'') \<and> b ! 7 = ch (CHR ''/'') then parse_slash b
              else if 20 \<le> n \<and> (b ! 1 = ch (CHR ''/'') \<or> b ! 2 = ch (CHR ''/'')) then parse_clf b
              else if 97 \<le> b ! 0 OR 0x20 \<and> b ! 0 OR 0x20 \<le> 122 then parse_3164 ref b
              else Some None })"

end
