(* ===== verification/Event_Time_Spec.thy ===== *)
theory Event_Time_Spec
  imports Event_Time
begin

text \<open>
  The calendar arithmetic counts days, the parser never reads outside the string, and a
  printed ISO timestamp parses to its exact epoch.
\<close>

section \<open>Days from the civil calendar\<close>

lemma leaps_era: "leaps_upto (y :: int) = 97 * (y div 400) + (y mod 400) div 4 - (y mod 400) div 100"
proof -
  define e r where "e = y div 400" and "r = y mod 400"
  have y: "y = r + (e * 100) * 4" "y = r + (e * 4) * 100" by (simp_all add: e_def r_def)
  have "y div 4 = e * 100 + r div 4" by (subst y(1), rule div_mult_self1) simp
  moreover have "y div 100 = e * 4 + r div 100" by (subst y(2), rule div_mult_self1) simp
  moreover have "y div 400 = e" by (simp add: e_def)
  ultimately show ?thesis unfolding leaps_upto_def e_def [symmetric] r_def [symmetric] by linarith
qed

lemma year_of_era:
  assumes "0 \<le> (r :: int)" "r < 400"
  shows "0 \<le> r div 4 \<and> r div 4 \<le> 99" "0 \<le> r div 100 \<and> r div 100 \<le> 3" "r div 100 \<le> r div 4"
proof -
  show "0 \<le> r div 4 \<and> r div 4 \<le> 99" using assms by presburger
  show "0 \<le> r div 100 \<and> r div 100 \<le> 3" using assms by presburger
  show "r div 100 \<le> r div 4" by (rule zdiv_mono2) (use assms in simp_all)
qed

lemma u32_small: "0 \<le> n \<Longrightarrow> n < 4294967296 \<Longrightarrow> n mod 4294967296 = (n :: int)"
  by simp

text \<open>Days from the first of March to the first of month \<open>m\<close>.\<close>

lemma march_days:
  assumes "1 \<le> m" "m \<le> 12"
  shows "sum_list (map (month_len y) [1..m - 1]) =
    (if m \<le> 2 then (153 * (m + 9) + 2) div 5 - 306
     else (153 * (m - 3) + 2) div 5 + 59 + (if leap_year y then 1 else 0))"
proof -
  have "m = 1 \<or> m = 2 \<or> m = 3 \<or> m = 4 \<or> m = 5 \<or> m = 6 \<or> m = 7 \<or> m = 8 \<or> m = 9 \<or> m = 10 \<or> m = 11 \<or> m = 12"
    using assms by presburger
  then show ?thesis by (elim disjE) (simp_all add: month_len_def upto_rec1)
qed

lemma ck_int_small: "- 2147483648 \<le> n \<Longrightarrow> n < 2147483648 \<Longrightarrow> ck_int n = Some n"
  by (simp add: ck_int_def)

lemma days_from_civil_ok:
  assumes "1 \<le> y0" "y0 \<le> 1000000" "1 \<le> m" "m \<le> 12" "1 \<le> d" "d \<le> 31"
  shows "days_from_civil y0 m d = Some (day_number y0 m d)"
proof -
  define y where "y = y0 - (if m \<le> 2 then 1 else 0)"
  define e r where "e = y div 400" and "r = y mod 400"
  define q where "q = (153 * (if m > 2 then m - 3 else m + 9) + 2) div 5"
  define r4 r100 where "r4 = r div 4" and "r100 = r div 100"
  have y: "0 \<le> y" "y \<le> 1000000" using assms by (auto simp: y_def)
  have yr: "y = 400 * e + r" by (simp add: e_def r_def)
  have r: "0 \<le> r" "r < 400" by (simp_all add: r_def)
  have e: "0 \<le> e" "e \<le> 2500" using y yr r by linarith+
  have rd: "0 \<le> r4" "r4 \<le> 99" "0 \<le> r100" "r100 \<le> 3" "r100 \<le> r4"
    using year_of_era [OF r] unfolding r4_def r100_def by blast+
  have mm: "m = 1 \<or> m = 2 \<or> m = 3 \<or> m = 4 \<or> m = 5 \<or> m = 6 \<or> m = 7 \<or> m = 8 \<or> m = 9 \<or> m = 10 \<or> m = 11 \<or> m = 12"
    using assms by presburger
  then have q: "0 \<le> q" "q \<le> 337" by (auto simp: q_def)
  have sq: "(153 * (if m > 2 then m - 3 else m + 9) + 2) sdiv 5 = q"
    using mm unfolding q_def by (elim disjE) (simp_all add: signed_divide_int_def)
  have se: "(if 0 \<le> y then y else y - 399) sdiv 400 = e"
    using y by (cases "y = 0") (simp_all add: e_def signed_divide_int_def)
  have doe: "0 \<le> r * 365 + r4 - r100 + (q + d - 1)" "r * 365 + r4 - r100 + (q + d - 1) < 4294967296"
    using r rd q assms(5,6) by linarith+
  have "days_from_civil y0 m d = Some (e * 146097 + (r * 365 + r4 - r100 + (q + d - 1)) - 719468)"
  proof -
    have 1: "ck_int y = Some y" "ck_int e = Some e" "ck_int (e * 146097) = Some (e * 146097)"
      "ck_int (e * 146097 + (r * 365 + r4 - r100 + (q + d - 1))) = Some (e * 146097 + (r * 365 + r4 - r100 + (q + d - 1)))"
      "ck_int (e * 146097 + (r * 365 + r4 - r100 + (q + d - 1)) - 719468) =
        Some (e * 146097 + (r * 365 + r4 - r100 + (q + d - 1)) - 719468)"
      "ck_int (e * 146097 + (r * 365 + (r4 + (q + d - r100))) - 719469) =
        Some (e * 146097 + (r * 365 + (r4 + (q + d - r100))) - 719469)"
      using y e r rd q assms(5,6) by (intro ck_int_small; linarith)+
    have 2: "(y - e * 400) mod 4294967296 = r" "(q + d - 1) mod 4294967296 = q + d - 1"
      "(r * 365 + r4 - r100 + (q + d - 1)) mod 4294967296 = r * 365 + r4 - r100 + (q + d - 1)"
      using yr r q assms(5,6) doe by (subst u32_small; linarith)+
    show ?thesis
      unfolding days_from_civil_def y_def [symmetric] Let_def sq
      by (simp add: 1 2 se r4_def [symmetric] r100_def [symmetric])
  qed
  moreover have "leaps_upto y = 97 * e + r4 - r100"
    unfolding r4_def r100_def e_def r_def by (rule leaps_era)
  moreover have "day_number y0 m d = 365 * (y0 - 1970) + leaps_upto (y0 - 1) - 477 +
      (if m \<le> 2 then q - 306 else q + 59 + (if leap_year y0 then 1 else 0)) + (d - 1)"
    unfolding day_number_def march_days [OF assms(3,4)] year_start_def q_def by (simp add: leaps_upto_def [of 1969])
  ultimately show ?thesis
    using leaps_step [of y0] yr by (cases "m \<le> 2") (auto simp: y_def)
qed

lemma day_number_range:
  assumes "1969 \<le> y" "y \<le> 1000000" "1 \<le> m" "m \<le> 12" "1 \<le> d" "d \<le> 31"
  shows "- 1000 \<le> day_number y m d" "day_number y m d \<le> 400000000"
proof -
  define q where "q = sum_list (map (month_len y) [1..m - 1])"
  have "m = 1 \<or> m = 2 \<or> m = 3 \<or> m = 4 \<or> m = 5 \<or> m = 6 \<or> m = 7 \<or> m = 8 \<or> m = 9 \<or> m = 10 \<or> m = 11 \<or> m = 12"
    using assms by presburger
  then have q: "0 \<le> q" "q \<le> 335" by (auto simp: q_def month_len_def upto_rec1)
  define e r r4 r100 where "e = (y - 1) div 400" and "r = (y - 1) mod 400" and "r4 = r div 4" and "r100 = r div 100"
  have r: "0 \<le> r" "r < 400" "y - 1 = 400 * e + r" by (simp_all add: r_def e_def)
  have rd: "0 \<le> r4" "r4 \<le> 99" "0 \<le> r100" "r100 \<le> 3" "r100 \<le> r4"
    using year_of_era [OF r(1,2)] unfolding r4_def r100_def by blast+
  have l: "leaps_upto (y - 1) = 97 * e + r4 - r100"
    unfolding r4_def r100_def e_def r_def by (rule leaps_era)
  have d: "day_number y m d = 365 * (y - 1970) + leaps_upto (y - 1) - 477 + q + (d - 1)"
    unfolding day_number_def q_def year_start_def by (simp add: leaps_upto_def [of 1969])
  have "4 \<le> e" using r assms by linarith
  then have "97 * 4 \<le> leaps_upto (y - 1)" using l rd(5) by linarith
  moreover have "- 365 \<le> 365 * (y - 1970)" using assms(1) by simp
  ultimately show "- 1000 \<le> day_number y m d" using d q(1) assms(5) by linarith
  have "e \<le> 2500" using r(1,3) assms(2) by simp
  then have "leaps_upto (y - 1) \<le> 97 * 2500 + 99" using l rd by linarith
  moreover have "365 * (y - 1970) \<le> 365 * 1000000" using assms(2) by simp
  ultimately show "day_number y m d \<le> 400000000" using d q(2) assms(6) by linarith
qed

section \<open>The parser stays inside the string\<close>

lemma cch_in: "i < length p \<Longrightarrow> cch p i = Some (p ! i)"
  by (simp add: cch_def)

lemma cch_total: "i \<le> length p \<Longrightarrow> cch p i \<noteq> None"
  by (simp add: cch_def)

lemma cch_0: "cch p 0 = Some (if p = [] then 0 else hd p)"
  by (cases p) (simp_all add: cch_def)

lemma digit_0 [simp]: "\<not> c_isdigit 0"
  by (simp add: c_isdigit_def)

text \<open>A character that is not the terminator lies in the string, so the next can be read.\<close>

lemma cch_nonzero: "cch p i = Some c \<Longrightarrow> c \<noteq> 0 \<Longrightarrow> i < length p"
  by (auto simp: cch_def split: if_splits)

lemma two_digits_total: "two_digits p \<noteq> None"
  by (cases p) (auto simp: two_digits_def cch_def)

lemma two_digits_len: "two_digits p = Some (Some h) \<Longrightarrow> 2 \<le> length p"
  by (cases p; cases "tl p") (auto simp: two_digits_def cch_def split: if_splits)

lemma parse_offset_total: "parse_offset p \<noteq> None"
  by (cases p; cases "tl p"; cases "tl (tl p)"; cases "tl (tl (tl p))"; cases "tl (tl (tl (tl p)))")
    (auto simp: parse_offset_def cch_def Let_def)

lemma opt_offset_total: "opt_offset p \<noteq> None"
  using parse_offset_total [of p] by (auto simp: opt_offset_def cch_0)

lemma parse_hms_total: "parse_hms p \<noteq> None"
proof -
  obtain hh where hh: "two_digits p = Some hh" using two_digits_total by blast
  show ?thesis
  proof (cases hh)
    case None
    with hh show ?thesis by (simp add: parse_hms_def)
  next
    case (Some h)
    with hh have "2 \<le> length p" by (auto dest: two_digits_len)
    then obtain c where c: "cch p 2 = Some c" using cch_total [of 2 p] by auto
    obtain mm where mm: "two_digits (drop 3 p) = Some mm" using two_digits_total by blast
    show ?thesis
      using hh Some c mm by (auto simp: parse_hms_def cch_0 Let_def split: option.split prod.split)
  qed
qed

lemma month3_total: "month3 p \<noteq> None"
  by (cases p; cases "tl p"; cases "tl (tl p)") (auto simp: month3_def cch_def Let_def split: option.split)

lemma month3_range:
  assumes "month3 p = Some m" "m \<noteq> 0"
  shows "1 \<le> m \<and> m \<le> 12 \<and> 3 \<le> length p"
proof -
  obtain a b c i where c: "cch p 2 = Some c" "c \<noteq> 0" and m: "m = int i + 1"
    and f: "find (\<lambda>i. [a OR 0x20, b OR 0x20, c OR 0x20] = month_names ! i) [0..<12] = Some i"
    using assms by (auto simp: month3_def split: if_splits option.splits bind_splits)
  have "i < 12" using f by (auto simp: find_Some_iff)
  moreover have "2 < length p" using cch_nonzero [OF c] .
  ultimately show ?thesis using m by simp
qed

lemma short_day_len:
  assumes "short_day p = (D, nd, q)"
  shows "length p \<le> length q + 2"
proof -
  have "length (takeWhile c_isdigit (take 2 p)) \<le> length (take 2 p)" by (rule length_takeWhile_le)
  with assms show ?thesis by (auto simp: short_day_def Let_def)
qed

lemma to_epoch_total:
  assumes "1969 \<le> Y" "Y \<le> 1000000" "1 \<le> Mo" "Mo \<le> 12" "1 \<le> D" "D \<le> 31"
  shows "to_epoch Y Mo D h mi se off \<noteq> None"
  using assms by (simp add: to_epoch_def days_from_civil_ok)

lemma civil_epoch_total:
  "civil_ok Y Mo D h mi se \<Longrightarrow> to_epoch Y Mo D h mi se off \<noteq> None"
  unfolding civil_ok_def by (intro to_epoch_total) auto

lemma with_offset_total:
  "\<exists>o1. off = Some o1 \<Longrightarrow> (\<And>m. \<exists>v. k m = Some v) \<Longrightarrow> \<exists>v. with_offset off k = Some v"
  by (auto simp: with_offset_def split: option.split)

lemma span_len: "length (span dv s) \<le> length s"
  unfolding span_def by (rule length_takeWhile_le)

lemma exponent_len: "exponent e s = (v, k) \<Longrightarrow> k \<le> length s"
  using span_len [of dec_value "tl s"] span_len [of dec_value "tl (tl s)"]
  by (auto simp: exponent_def Let_def split: list.splits if_splits)

lemma number_len:
  assumes "number dv base e scale s = Some (v, k)"
  shows "k \<le> length s"
proof -
  define ip r where "ip = span dv s" and "r = drop (length ip) s"
  define fp where "fp = (case r of c # r' \<Rightarrow> if c = 46 then span dv r' else [] | [] \<Rightarrow> [])"
  define dot where "dot = (case r of c # _ \<Rightarrow> c = 46 | [] \<Rightarrow> False)"
  define k0 where "k0 = length ip + (if dot then 1 + length fp else 0)"
  obtain ev el where ex: "exponent e (drop k0 s) = (ev, el)" by (metis surj_pair)
  have "length fp + (if dot then 1 else 0) \<le> length r" "dot \<or> fp = []"
    using span_len [of dv "tl r"] by (auto simp: fp_def dot_def split: list.splits)
  moreover have "length ip + length r = length s" using span_len [of dv s] by (simp add: r_def ip_def)
  ultimately have "k0 \<le> length s" by (auto simp: k0_def split: if_splits)
  moreover have "k = k0 + el"
    using assms unfolding number_def Let_def ip_def [symmetric] r_def [symmetric] fp_def [symmetric] dot_def [symmetric]
      k0_def [symmetric] ex by (simp split: if_splits)
  ultimately show ?thesis using exponent_len [OF ex] by simp
qed

lemma starts_ci_len: "starts_ci w s \<Longrightarrow> length w \<le> length s"
  unfolding starts_ci_def by (metis length_map length_take min.cobounded1)

lemma unsigned_strtod_len:
  assumes "unsigned_strtod s = Some (v, k)"
  shows "k \<le> length s"
proof -
  have "5 + length w \<le> length s" if "\<not> length s \<le> 3" "take (Suc 0) (drop (length w) (tl (drop 3 s))) = [41]" for w :: bytes
  proof -
    have "length w < length (tl (drop 3 s))"
      using that(2) by (metis drop_all leI list.distinct(1) take_Nil)
    with that(1) show ?thesis by simp
  qed
  then show ?thesis
    using assms starts_ci_len [of "lit ''infinity''" s] starts_ci_len [of "lit ''inf''" s] starts_ci_len [of "lit ''nan''" s]
      starts_ci_len [of "lit ''0x''" s]
    by (auto simp: unsigned_strtod_def Let_def lit_def dest: number_len split: if_splits option.splits)
qed

lemma strtod_len:
  assumes "c_strtod s = (v, k)"
  shows "k \<le> length s"
proof -
  define ws where "ws = length (takeWhile c_isspace s)"
  define sg where "sg = (drop ws s \<noteq> [] \<and> (hd (drop ws s) = 43 \<or> hd (drop ws s) = 45))"
  have ws: "ws \<le> length s" unfolding ws_def by (rule length_takeWhile_le)
  have "ws + (if sg then 1 else 0) + k' \<le> length s"
    if "unsigned_strtod (if sg then tl (drop ws s) else drop ws s) = Some (v', k')" for v' k'
    using unsigned_strtod_len [OF that] ws by (auto simp: sg_def)
  then show ?thesis
    using assms unfolding c_strtod_def Let_def ws_def [symmetric] sg_def [symmetric]
    by (auto split: option.splits)
qed

lemma numeric_total: "numeric_epoch b \<noteq> None"
proof -
  obtain v k where k: "c_strtod b = (v, k)" by (cases "c_strtod b")
  show ?thesis
    using k strtod_len [OF k] by (auto simp: numeric_epoch_def cch_0 cch_def)
qed

lemma parse_iso_total: "10 \<le> length b \<Longrightarrow> parse_iso b \<noteq> None"
  using parse_hms_total [of "drop 11 b"]
  by (auto simp: parse_iso_def Let_def cch_def intro!: with_offset_total parse_offset_total [simplified]
      civil_epoch_total [simplified] split: option.split prod.split)

lemma parse_slash_total: "parse_slash b \<noteq> None"
  using parse_hms_total [of "skip_spaces (drop 10 b)"]
  by (auto simp: parse_slash_def Let_def intro!: with_offset_total opt_offset_total [simplified]
      civil_epoch_total [simplified] split: option.split prod.split)

lemma gmtime_total:
  assumes "0 \<le> t" "t \<le> 10 ^ 13"
  obtains y m where "c_gmtime t = Some (y, m)" "1970 \<le> y" "y \<le> 999999"
proof -
  define day where "day = t div 86400"
  have d: "0 \<le> day" "day \<le> 200000000" using assms by (simp_all add: day_def)
  have "gm_year day \<le> 1970 + day div 365" "1970 \<le> gm_year day" using gm_year_range [OF d(1)] by simp_all
  moreover have "day div 365 \<le> 900000" using d by simp
  ultimately have "1970 \<le> gm_year day" "gm_year day \<le> 999999" by linarith+
  then show ?thesis using that by (simp add: c_gmtime_def Let_def day_def [symmetric])
qed

lemma parse_clf_total: "20 \<le> length b \<Longrightarrow> parse_clf b \<noteq> None"
proof -
  assume n: "20 \<le> length b"
  obtain D nd p where sd: "short_day b = (D, nd, p)" by (cases "short_day b")
  have p: "18 \<le> length p" using short_day_len [OF sd] n by simp
  obtain Mo where mo: "month3 (drop 1 p) = Some Mo" using month3_total by blast
  have c: "cch (drop k p) i = Some (drop k p ! i)" if "k + i < 18" for k i
    using that p by (intro cch_in) simp
  show ?thesis
    using sd mo p parse_hms_total [of "drop 10 p"] c [of 5 0] c [of 5 1] c [of 5 2] c [of 5 3] c [of 4 0] c [of 9 0]
    by (auto simp: parse_clf_def Let_def cch_0 intro!: with_offset_total opt_offset_total [simplified]
        civil_epoch_total [simplified] split: option.split prod.split)
qed

lemma parse_3164_total: "ref \<le> 10 ^ 13 \<Longrightarrow> parse_3164 ref b \<noteq> None"
proof -
  assume ref: "ref \<le> 10 ^ 13"
  obtain Mo where mo: "month3 b = Some Mo" using month3_total by blast
  obtain D nd p where sd: "short_day (skip_spaces (drop 3 b)) = (D, nd, p)" by (metis prod_cases3)
  obtain ry rm where g: "c_gmtime (if ref > 0 then ref else 0) = Some (ry, rm)" "1970 \<le> ry" "ry \<le> 999999"
    by (rule gmtime_total [of "if ref > 0 then ref else 0"]) (use ref in \<open>auto split: if_splits\<close>)
  have e: "\<exists>v. to_epoch y Mo D h mi se off = Some v"
    if "Mo \<noteq> 0" "\<not> D < 1" "\<not> 31 < D" "y = ry - 1 \<or> y = ry \<or> y = ry + 1" for y h mi se off
    using month3_range [OF mo that(1)] g that by (intro to_epoch_total [simplified]) auto
  show ?thesis
    using mo sd g(1) parse_hms_total [of "skip_spaces p"]
    by (auto simp: parse_3164_def Let_def intro!: with_offset_total opt_offset_total [simplified] e
        split: option.split prod.split)
qed

text \<open>Every string, whatever its bytes, is parsed without a read past its terminator and without signed overflow.\<close>

lemma event_time_total: "ref \<le> 10 ^ 13 \<Longrightarrow> event_time_parse s ref \<noteq> None"
  using numeric_total [of "trimmed s"] parse_iso_total [of "trimmed s"] parse_slash_total [of "trimmed s"]
    parse_clf_total [of "trimmed s"] parse_3164_total [of ref "trimmed s"]
  by (auto simp: event_time_parse_def Let_def split: option.split)

section \<open>The epoch is exact\<close>

definition epoch_of :: "int \<Rightarrow> int \<Rightarrow> int \<Rightarrow> int \<Rightarrow> int \<Rightarrow> int \<Rightarrow> int \<Rightarrow> int" where
  "epoch_of Y Mo D h mi s off = day_number Y Mo D * 86400 + h * 3600 + mi * 60 + s - off * 60"

lemma f64_int_ops:
  "\<bar>a + b\<bar> \<le> 2 ^ 53 \<Longrightarrow> f64_add (Fin (of_int a)) (Fin (of_int b)) = Fin (of_int (a + b))"
  "\<bar>a - b\<bar> \<le> 2 ^ 53 \<Longrightarrow> f64_sub (Fin (of_int a)) (Fin (of_int b)) = Fin (of_int (a - b))"
  "\<bar>a * b\<bar> \<le> 2 ^ 53 \<Longrightarrow> f64_mul (Fin (of_int a)) (Fin (of_int b)) = Fin (of_int (a * b))"
  using rnd_of_int [of "a + b"] rnd_of_int [of "a - b"] rnd_of_int [of "a * b"] by (simp_all add: f64_sub_def)

lemma to_epoch_exact:
  assumes "1970 \<le> Y" "Y \<le> 2100" "1 \<le> Mo" "Mo \<le> 12" "1 \<le> D" "D \<le> 31"
    "0 \<le> h" "h \<le> 23" "0 \<le> mi" "mi \<le> 59" "0 \<le> s" "s \<le> 60" "\<bar>off\<bar> \<le> 899"
  shows "to_epoch Y Mo D h mi (Fin (of_int s)) off = Some (Fin (of_int (epoch_of Y Mo D h mi s off)))"
proof -
  define dn where "dn = day_number Y Mo D"
  have dn: "- 1000 \<le> dn" "dn \<le> 400000000"
    using day_number_range [of Y Mo D] assms(1-6) by (simp_all add: dn_def)
  have days: "days_from_civil Y Mo D = Some dn"
    using days_from_civil_ok [of Y Mo D] assms(1-6) by (simp add: dn_def)
  have n: "f64_of_int dn = Fin (of_int dn)" "f64_of_int h = Fin (of_int h)" "f64_of_int mi = Fin (of_int mi)"
    "f64_of_int off = Fin (of_int off)"
    using dn assms by (auto simp: f64_of_int_def intro!: rnd_of_int)
  have c: "Fin 86400 = Fin (of_int 86400)" "Fin 3600 = Fin (of_int 3600)" "Fin 60 = Fin (of_int 60)" by simp_all
  have b: "\<bar>dn * 86400\<bar> \<le> 2 ^ 53" "\<bar>h * 3600\<bar> \<le> 2 ^ 53" "\<bar>mi * 60\<bar> \<le> 2 ^ 53" "\<bar>off * 60\<bar> \<le> 2 ^ 53"
    "\<bar>dn * 86400 + h * 3600\<bar> \<le> 2 ^ 53" "\<bar>dn * 86400 + h * 3600 + mi * 60\<bar> \<le> 2 ^ 53"
    "\<bar>dn * 86400 + h * 3600 + mi * 60 + s\<bar> \<le> 2 ^ 53" "\<bar>dn * 86400 + h * 3600 + mi * 60 + s - off * 60\<bar> \<le> 2 ^ 53"
    using dn assms(7-13) by auto
  show ?thesis
    unfolding to_epoch_def days epoch_of_def dn_def [symmetric] n c
    using b by (simp only: n f64_int_ops bind.bind_lunit)
qed

section \<open>Printing and parsing\<close>

definition digit_char :: "int \<Rightarrow> u8" where
  "digit_char k = word_of_int (48 + k)"

definition print2 :: "int \<Rightarrow> bytes" where
  "print2 n = [digit_char (n div 10), digit_char (n mod 10)]"

definition print_iso :: "int \<Rightarrow> int \<Rightarrow> int \<Rightarrow> int \<Rightarrow> int \<Rightarrow> int \<Rightarrow> bytes" where
  "print_iso Y Mo D h mi s =
     print2 (Y div 100) @ print2 (Y mod 100) @ [ch (CHR ''-'')] @ print2 Mo @ [ch (CHR ''-'')] @ print2 D @ [ch (CHR ''T'')] @
     print2 h @ [ch (CHR '':'')] @ print2 mi @ [ch (CHR '':'')] @ print2 s @ [ch (CHR ''Z'')]"

lemma digit_char:
  assumes "0 \<le> k" "k \<le> 9"
  shows "c_isdigit (digit_char k)" "dig (digit_char k) = k" "digit_char k \<noteq> 0" "\<not> blank (digit_char k)"
    "the (dec_value (digit_char k)) = nat k"
proof -
  have "k = 0 \<or> k = 1 \<or> k = 2 \<or> k = 3 \<or> k = 4 \<or> k = 5 \<or> k = 6 \<or> k = 7 \<or> k = 8 \<or> k = 9"
    using assms by presburger
  then show "c_isdigit (digit_char k)" "dig (digit_char k) = k" "digit_char k \<noteq> 0" "\<not> blank (digit_char k)"
    "the (dec_value (digit_char k)) = nat k"
    by (auto simp: digit_char_def c_isdigit_def dig_def blank_def dec_value_def)
qed

lemma print2_digits:
  assumes "0 \<le> n" "n \<le> 99"
  shows "c_isdigit (digit_char (n div 10)) \<and> c_isdigit (digit_char (n mod 10))"
    "dig (digit_char (n div 10)) * 10 + dig (digit_char (n mod 10)) = n"
    "digit_char (n div 10) \<noteq> 0 \<and> digit_char (n mod 10) \<noteq> 0"
    "\<not> blank (digit_char (n div 10)) \<and> \<not> blank (digit_char (n mod 10))"
    "nat (n div 10) * 10 + nat (n mod 10) = nat n"
    "the (dec_value (digit_char (n div 10))) = nat (n div 10) \<and> the (dec_value (digit_char (n mod 10))) = nat (n mod 10)"
proof -
  have d: "0 \<le> n div 10" "n div 10 \<le> 9" "0 \<le> n mod 10" "n mod 10 \<le> 9" using assms by presburger+
  note c = digit_char [OF d(1,2)] digit_char [OF d(3,4)]
  show "c_isdigit (digit_char (n div 10)) \<and> c_isdigit (digit_char (n mod 10))"
    "dig (digit_char (n div 10)) * 10 + dig (digit_char (n mod 10)) = n"
    "digit_char (n div 10) \<noteq> 0 \<and> digit_char (n mod 10) \<noteq> 0"
    "\<not> blank (digit_char (n div 10)) \<and> \<not> blank (digit_char (n mod 10))"
    "the (dec_value (digit_char (n div 10))) = nat (n div 10) \<and> the (dec_value (digit_char (n mod 10))) = nat (n mod 10)"
    using c by simp_all
  have "nat (n div 10) * 10 + nat (n mod 10) = nat (n div 10 * 10 + n mod 10)"
    using d by (simp only: nat_add_distrib nat_mult_distrib mult_nonneg_nonneg nat_numeral zero_le_numeral)
  then show "nat (n div 10) * 10 + nat (n mod 10) = nat n" by simp
qed

lemma length_print2 [simp]: "length (print2 n) = 2"
  by (simp add: print2_def)

lemma print2_set: "0 \<le> n \<Longrightarrow> n \<le> 99 \<Longrightarrow> c \<in> set (print2 n) \<Longrightarrow> c \<noteq> 0 \<and> \<not> blank c"
  using print2_digits(3,4) [of n] unfolding print2_def by auto

lemma two_digits_print2:
  assumes "0 \<le> n" "n \<le> 99"
  shows "two_digits (print2 n @ r) = Some (Some n)"
  using print2_digits [OF assms] by (simp add: two_digits_def print2_def cch_def)

lemma strtod_print2:
  assumes "0 \<le> n" "n \<le> 99"
  shows "c_strtod (print2 n @ [ch (CHR ''Z'')]) = (Fin (of_int n), 2)"
proof -
  have "c_strtod (print2 n @ [ch (CHR ''Z'')]) = (rnd (of_nat (digits_value dec_value 10 (print2 n))), length (print2 n))"
    using print2_digits [OF assms] by (intro strtod_digits) (auto simp: print2_def c_isdigit_def c_lower_def)
  moreover have "digits_value dec_value 10 (print2 n) = nat n"
    using print2_digits [OF assms] by (simp add: digits_value_def print2_def)
  moreover have "rnd (of_int n) = Fin (of_int n)" using assms by (intro rnd_of_int) simp
  ultimately show ?thesis using assms by (simp add: print2_def)
qed

lemma parse_hms_print:
  assumes "0 \<le> h" "h \<le> 99" "0 \<le> mi" "mi \<le> 99" "0 \<le> s" "s \<le> 99"
  shows "parse_hms (print2 h @ [ch (CHR '':'')] @ print2 mi @ [ch (CHR '':'')] @ print2 s @ [ch (CHR ''Z'')]) =
    Some (Some (h, mi, Fin (of_int s), [ch (CHR ''Z'')]))"
proof -
  have c: "cch (print2 a @ x # r) 2 = Some x" for a x r
    by (simp add: print2_def cch_def numeral_eq_Suc)
  show ?thesis
    using assms by (simp add: parse_hms_def two_digits_print2 c strtod_print2 [simplified] cch_0 Let_def)
qed

lemma trimmed_id:
  assumes "\<And>c. c \<in> set b \<Longrightarrow> c \<noteq> 0 \<and> \<not> blank c"
  shows "trimmed b = b"
proof -
  have "takeWhile (\<lambda>c. c \<noteq> 0) b = b" using assms by (simp add: takeWhile_eq_all_conv)
  moreover have "dropWhile blank xs = xs" if "set xs \<subseteq> set b" for xs using assms that by (cases xs) auto
  ultimately show ?thesis unfolding trimmed_def by (metis order_refl rev_rev_ident set_rev)
qed

lemma print2_pair:
  assumes "0 \<le> n" "n \<le> 99"
  obtains a b where "print2 n = [a, b]" "c_isdigit a" "dig a * 10 + dig b = n" "a \<noteq> 0" "b \<noteq> 0" "\<not> blank a" "\<not> blank b"
  using print2_digits [OF assms] that by (simp add: print2_def)

text \<open>A printed timestamp parses to its exact epoch.\<close>

lemma event_time_iso:
  assumes "1970 \<le> Y" "Y \<le> 2100" "1 \<le> Mo" "Mo \<le> 12" "1 \<le> D" "D \<le> 31"
    "0 \<le> h" "h \<le> 23" "0 \<le> mi" "mi \<le> 59" "0 \<le> s" "s \<le> 60"
  shows "event_time_parse (print_iso Y Mo D h mi s) ref = Some (Some (Fin (of_int (epoch_of Y Mo D h mi s 0))))"
proof -
  have y: "0 \<le> Y div 100" "Y div 100 \<le> 99" "0 \<le> Y mod 100" "Y mod 100 \<le> 99" "Y div 100 * 100 + Y mod 100 = Y"
    using assms(1,2) by presburger+
  have m: "Mo \<le> 99" "D \<le> 99" "h \<le> 99" "mi \<le> 99" "s \<le> 99" "0 \<le> Mo" "0 \<le> D"
    using assms by simp_all
  obtain y1 y2 where p1: "print2 (Y div 100) = [y1, y2]" "c_isdigit y1" "dig y1 * 10 + dig y2 = Y div 100"
    "y1 \<noteq> 0" "y2 \<noteq> 0" "\<not> blank y1" "\<not> blank y2" by (rule print2_pair [OF y(1,2)])
  obtain y3 y4 where p2: "print2 (Y mod 100) = [y3, y4]" "c_isdigit y3" "dig y3 * 10 + dig y4 = Y mod 100"
    "y3 \<noteq> 0" "y4 \<noteq> 0" "\<not> blank y3" "\<not> blank y4" by (rule print2_pair [OF y(3,4)])
  obtain m1 m2 where p3: "print2 Mo = [m1, m2]" "c_isdigit m1" "dig m1 * 10 + dig m2 = Mo"
    "m1 \<noteq> 0" "m2 \<noteq> 0" "\<not> blank m1" "\<not> blank m2" by (rule print2_pair [OF m(6,1)])
  obtain d1 d2 where p4: "print2 D = [d1, d2]" "c_isdigit d1" "dig d1 * 10 + dig d2 = D"
    "d1 \<noteq> 0" "d2 \<noteq> 0" "\<not> blank d1" "\<not> blank d2" by (rule print2_pair [OF m(7,2)])
  define r where "r = print2 h @ [ch (CHR '':'')] @ print2 mi @ [ch (CHR '':'')] @ print2 s @ [ch (CHR ''Z'')]"
  define b where "b = print_iso Y Mo D h mi s"
  have be: "b = y1 # y2 # y3 # y4 # 45 # m1 # m2 # 45 # d1 # d2 # 84 # r"
    by (simp add: b_def print_iso_def r_def p1(1) p2(1) p3(1) p4(1))
  have len: "length b = 20" by (simp add: be r_def)
  have r: "\<forall>c \<in> set r. c \<noteq> 0 \<and> \<not> blank c"
    using print2_set [OF assms(7) m(3)] print2_set [OF assms(9) m(4)] print2_set [OF assms(11) m(5)]
    unfolding r_def by (auto simp: blank_def)
  have "\<not> blank 45" "\<not> blank 84" by (simp_all add: blank_def)
  then have "\<forall>c \<in> set b. c \<noteq> 0 \<and> \<not> blank c"
    unfolding be list.set ball_simps using p1(4-7) p2(4-7) p3(4-7) p4(4-7) r by simp
  then have t: "trimmed b = b" by (intro trimmed_id) blast
  have n: "numeric_epoch b = Some None" using p1(2) by (simp add: numeric_epoch_def len cch_0)
  have "u * 10 + v = i \<Longrightarrow> w * 10 + x = j \<Longrightarrow> i * 100 + j = k \<Longrightarrow> u * 1000 + v * 100 + w * 10 + x = k"
    for u v w x i j k :: int by linarith
  from this [OF p1(3) p2(3) y(5)] have Y: "year4 b = Y" unfolding be year4_def by simp
  have o: "parse_offset (skip_spaces [ch (CHR ''Z'')]) = Some (Some 0)"
    by (simp add: skip_spaces_def parse_offset_def cch_def)
  have c: "civil_ok Y Mo D h mi (Fin (of_int s))" using assms by (simp add: civil_ok_def)
  have hms: "parse_hms (drop 11 b) = Some (Some (h, mi, Fin (of_int s), [ch (CHR ''Z'')]))"
    using parse_hms_print [OF assms(7) m(3) assms(9) m(4) assms(11) m(5)] by (simp add: be r_def)
  have t10: "cch b 10 = Some 84" by (simp add: cch_def len) (simp add: be)
  have "parse_iso b = Some (Some (Fin (of_int (epoch_of Y Mo D h mi s 0))))"
  proof -
    have "dig (b ! 5) * 10 + dig (b ! 6) = Mo" "dig (b ! 8) * 10 + dig (b ! 9) = D"
      using p3(3) p4(3) by (simp_all add: be)
    then show ?thesis
      unfolding parse_iso_def Y Let_def
      using c o to_epoch_exact [OF assms, of 0] by (simp add: len t10 hms with_offset_def)
  qed
  moreover have "b ! 0 = y1" "b ! 4 = 45" "b ! 7 = 45" by (simp_all add: be)
  moreover have "b \<noteq> []" by (simp add: be)
  ultimately show ?thesis using n p1(2) unfolding b_def [symmetric] by (simp add: event_time_parse_def len t Let_def)
qed

text \<open>A date that no calendar has runs into the next month.\<close>

lemma event_time_overlong_month:
  assumes "1970 \<le> Y" "Y \<le> 2100" "1 \<le> Mo" "Mo < 12" "month_len Y Mo < D" "D \<le> 31"
  shows "event_time_parse (print_iso Y Mo D 0 0 0) ref = event_time_parse (print_iso Y (Mo + 1) (D - month_len Y Mo) 0 0 0) ref"
proof -
  have l: "28 \<le> month_len Y Mo" "month_len Y Mo \<le> 31" by (simp_all add: month_len_def)
  have "[1..Mo] = [1..Mo - 1] @ [Mo]" using assms(3) by (metis upto_rec2)
  then have "day_number Y (Mo + 1) (D - month_len Y Mo) = day_number Y Mo D" by (simp add: day_number_def)
  then have "epoch_of Y (Mo + 1) (D - month_len Y Mo) 0 0 0 0 = epoch_of Y Mo D 0 0 0 0" by (simp add: epoch_of_def)
  moreover have "event_time_parse (print_iso Y Mo D 0 0 0) ref = Some (Some (Fin (of_int (epoch_of Y Mo D 0 0 0 0))))"
    by (rule event_time_iso) (use assms l in simp_all)
  moreover have "event_time_parse (print_iso Y (Mo + 1) (D - month_len Y Mo) 0 0 0) ref =
      Some (Some (Fin (of_int (epoch_of Y (Mo + 1) (D - month_len Y Mo) 0 0 0 0))))"
    by (rule event_time_iso) (use assms l in simp_all)
  ultimately show ?thesis by simp
qed

text \<open>The seconds of the RFC 3164 form may be \<open>nan\<close>, and so is the time.\<close>

lemma event_time_nan: "event_time_parse (lit ''jan 1 00:00:nan'') 0 = Some (Some NaN)"
proof -
  have h: "parse_hms (lit ''00:00:nan'') = Some (Some (0, 0, NaN, []))"
    by (simp add: parse_hms_def two_digits_def lit_def cch_def c_isdigit_def dig_def c_strtod_def c_isspace_def
        unsigned_strtod_def starts_ci_def c_lower_def Let_def)
  have g: "c_gmtime 0 = Some (1970, 1)"
    by (simp add: c_gmtime_def gm_year_def gm_month_def day_number_def year_start_1970 upto_rec1 Let_def month_len_def)
  have "days_from_civil 1970 1 1 = Some 0"
    using days_from_civil_ok [of 1970 1 1] by (simp add: day_number_def year_start_1970)
  then have e: "to_epoch 1970 1 1 0 0 NaN off = Some NaN" for off
    by (simp add: to_epoch_def f64_of_int_def rnd_def f64_sub_def)
  have t: "trimmed (lit ''jan 1 00:00:nan'') = lit ''jan 1 00:00:nan''"
    by (simp add: trimmed_def lit_def blank_def)
  have m: "month3 (lit ''jan 1 00:00:nan'') = Some 1"
    by (simp add: month3_def month_names_def lit_def cch_def upt_rec)
  have d: "short_day (skip_spaces (drop 3 (lit ''jan 1 00:00:nan''))) = (1, 1, lit '' 00:00:nan'')"
    by (simp add: short_day_def skip_spaces_def lit_def c_isdigit_def dig_def)
  have s: "skip_spaces (lit '' 00:00:nan'') = lit ''00:00:nan''" "skip_spaces [] = []"
    by (simp_all add: skip_spaces_def lit_def)
  have "parse_3164 0 (lit ''jan 1 00:00:nan'') = Some (Some NaN)"
    by (simp add: parse_3164_def m d s h g e with_offset_def opt_offset_def cch_0)
  moreover have "numeric_epoch (lit ''jan 1 00:00:nan'') = Some None"
    by (simp add: numeric_epoch_def lit_def cch_def c_isdigit_def)
  ultimately show ?thesis unfolding event_time_parse_def t Let_def by (simp add: lit_def c_isdigit_def)
qed

section \<open>Properties\<close>

text \<open>
  C38. Parsing a printed ISO-8601 time of the years 1970 to 2100 gives back its seconds since
  the epoch, whatever the reference time of the year-less forms.
\<close>

theorem iso_time_roundtrip:
  assumes "1970 \<le> Y" "Y \<le> 2100" "1 \<le> Mo" "Mo \<le> 12" "1 \<le> D" "D \<le> 31"
    "0 \<le> h" "h \<le> 23" "0 \<le> mi" "mi \<le> 59" "0 \<le> s" "s \<le> 60"
  shows "event_time_parse (print_iso Y Mo D h mi s) ref = Some (Some (Fin (of_int (epoch_of Y Mo D h mi s 0))))"
  by (rule event_time_iso [OF assms])

theorem iso_time_roundtrip_witness:
  "event_time_parse (print_iso 2024 2 29 12 30 15) 0 = Some (Some (Fin (of_int (epoch_of 2024 2 29 12 30 15 0))))"
  by (rule iso_time_roundtrip) simp_all



text \<open>
  The civil calendar arithmetic, in machine integers and with a year that begins in March,
  is the Gregorian day count: years of 365 days, a leap day every four years except in three of
  four centuries.
\<close>

theorem days_from_civil_correct:
  assumes "1 \<le> y0" "y0 \<le> 1000000" "1 \<le> m" "m \<le> 12" "1 \<le> d" "d \<le> 31"
  shows "days_from_civil y0 m d = Some (day_number y0 m d)"
  by (rule days_from_civil_ok [OF assms])

theorem days_from_civil_correct_witness: "days_from_civil 2000 3 1 = Some (day_number 2000 3 1)"
  by (rule days_from_civil_correct) simp_all

end
