(* ===== verification/Lru_Map.thy ===== *)
theory Lru_Map
  imports Sigma_Prelude "HOL-Library.Multiset"
begin

text \<open>
  The bounded table of \<open>src/src/classify_corr.c\<close>: open hash chains with a doubly linked
  recency list threaded through the nodes. The code has it twice, for the distinct values of
  a group (\<open>dset_*\<close>) and for the groups of a correlation (\<open>cstate_*\<close>); the two differ in
  the key and payload of a node only, which are type parameters here. A node is an address
  of the table's heap, a chain is the list of the addresses it runs through, \<open>None\<close> is the
  null pointer, and following a freed or null pointer fails.
\<close>

section \<open>Nodes and tables\<close>

record ('k, 'v) node =
  n_key :: 'k
  n_val :: 'v
  n_hash :: u64
  lru_prev :: "nat option"
  lru_next :: "nat option"

record ('k, 'v) lmap =
  lm_heap :: "nat \<Rightarrow> ('k, 'v) node option"
  lm_brk :: nat
  lm_chains :: "nat list list"
  lm_nb :: u32
  lm_count :: u32
  lm_head :: "nat option"
  lm_tail :: "nat option"

definition lm_new :: "u32 \<Rightarrow> ('k, 'v) lmap" where
  "lm_new nb = \<lparr>lm_heap = (\<lambda>_. None), lm_brk = 0, lm_chains = replicate (unat nb) [], lm_nb = nb, lm_count = 0,
     lm_head = None, lm_tail = None\<rparr>"

definition set_node :: "nat \<Rightarrow> (('k, 'v) node \<Rightarrow> ('k, 'v) node) \<Rightarrow> ('k, 'v) lmap \<Rightarrow> ('k, 'v) lmap option" where
  "set_node a f m = do { n \<leftarrow> lm_heap m a; Some (m\<lparr>lm_heap := (lm_heap m)(a := Some (f n))\<rparr>) }"

definition set_prev :: "nat \<Rightarrow> nat option \<Rightarrow> ('k, 'v) lmap \<Rightarrow> ('k, 'v) lmap option" where
  "set_prev a p = set_node a (\<lambda>n. n\<lparr>lru_prev := p\<rparr>)"

definition set_next :: "nat \<Rightarrow> nat option \<Rightarrow> ('k, 'v) lmap \<Rightarrow> ('k, 'v) lmap option" where
  "set_next a q = set_node a (\<lambda>n. n\<lparr>lru_next := q\<rparr>)"

definition set_val :: "nat \<Rightarrow> 'v \<Rightarrow> ('k, 'v) lmap \<Rightarrow> ('k, 'v) lmap option" where
  "set_val a v = set_node a (\<lambda>n. n\<lparr>n_val := v\<rparr>)"

section \<open>The recency list\<close>

definition lru_unlink :: "nat \<Rightarrow> ('k, 'v) lmap \<Rightarrow> ('k, 'v) lmap option" where
  "lru_unlink a m =
     do { e \<leftarrow> lm_heap m a;
          m \<leftarrow> (case lru_prev e of
                  Some p \<Rightarrow> set_next p (lru_next e) m
                | None \<Rightarrow> Some (m\<lparr>lm_head := lru_next e\<rparr>));
          e \<leftarrow> lm_heap m a;
          m \<leftarrow> (case lru_next e of
                  Some q \<Rightarrow> set_prev q (lru_prev e) m
                | None \<Rightarrow> Some (m\<lparr>lm_tail := lru_prev e\<rparr>));
          m \<leftarrow> set_next a None m;
          set_prev a None m }"

definition lru_push :: "nat \<Rightarrow> ('k, 'v) lmap \<Rightarrow> ('k, 'v) lmap option" where
  "lru_push a m =
     do { m \<leftarrow> set_prev a (lm_tail m) m;
          m \<leftarrow> set_next a None m;
          m \<leftarrow> (case lm_tail m of
                  Some t \<Rightarrow> set_next t (Some a) m
                | None \<Rightarrow> Some (m\<lparr>lm_head := Some a\<rparr>));
          Some (m\<lparr>lm_tail := Some a\<rparr>) }"

section \<open>The hash chains\<close>

definition bucket :: "u32 \<Rightarrow> u64 \<Rightarrow> nat" where
  "bucket nb h = unat (ucast (h AND ucast (nb - 1)) :: u32)"

fun chain_find :: "('k, 'v) lmap \<Rightarrow> 'k \<Rightarrow> u64 \<Rightarrow> nat list \<Rightarrow> nat option option" where
  "chain_find m k h [] = Some None"
| "chain_find m k h (a # as) =
     do { e \<leftarrow> lm_heap m a;
          if n_hash e = h \<and> n_key e = k then Some (Some a) else chain_find m k h as }"

definition lm_find :: "'k \<Rightarrow> u64 \<Rightarrow> ('k, 'v) lmap \<Rightarrow> nat option option" where
  "lm_find k h m = do { c \<leftarrow> idx (lm_chains m) (bucket (lm_nb m) h); chain_find m k h c }"

text \<open>Unchain, unlink and free a node.\<close>

definition lm_remove :: "nat \<Rightarrow> ('k, 'v) lmap \<Rightarrow> ('k, 'v) lmap option" where
  "lm_remove a m =
     do { e \<leftarrow> lm_heap m a;
          let b = bucket (lm_nb m) (n_hash e);
          c \<leftarrow> idx (lm_chains m) b;
          m \<leftarrow> lru_unlink a (m\<lparr>lm_chains := (lm_chains m)[b := remove1 a c]\<rparr>);
          Some (m\<lparr>lm_count := lm_count m - 1, lm_heap := (lm_heap m)(a := None)\<rparr>) }"

definition rechain :: "u32 \<Rightarrow> ('k, 'v) lmap \<Rightarrow> nat \<Rightarrow> nat list list \<Rightarrow> nat list list option" where
  "rechain nn m a cs =
     do { e \<leftarrow> lm_heap m a;
          c \<leftarrow> idx cs (bucket nn (n_hash e));
          upd cs (bucket nn (n_hash e)) (a # c) }"

definition lm_grow :: "('k, 'v) lmap \<Rightarrow> ('k, 'v) lmap option" where
  "lm_grow m =
     (let nn = push_bit 1 (lm_nb m) in
      do { cs \<leftarrow> mfold (rechain nn m) (concat (lm_chains m)) (replicate (unat nn) []);
           Some (m\<lparr>lm_chains := cs, lm_nb := nn\<rparr>) })"

definition lm_crowded :: "('k, 'v) lmap \<Rightarrow> bool" where
  "lm_crowded m \<longleftrightarrow> lm_count m + 1 > (lm_nb m * 3) div 4"

text \<open>Allocate, chain and link a new node.\<close>

definition lm_insert :: "'k \<Rightarrow> u64 \<Rightarrow> 'v \<Rightarrow> ('k, 'v) lmap \<Rightarrow> (nat \<times> ('k, 'v) lmap) option" where
  "lm_insert k h v m =
     (let a = lm_brk m; b = bucket (lm_nb m) h in
      do { c \<leftarrow> idx (lm_chains m) b;
           m \<leftarrow> lru_push a (m\<lparr>lm_brk := a + 1,
                 lm_heap := (lm_heap m)(a := Some \<lparr>n_key = k, n_val = v, n_hash = h, lru_prev = None, lru_next = None\<rparr>),
                 lm_chains := (lm_chains m)[b := a # c]\<rparr>);
           Some (a, m\<lparr>lm_count := lm_count m + 1\<rparr>) })"

text \<open>
  Admission of a new key: at the cap the least recently used node goes first, and a crowded
  table grows. The flag says whether a node was evicted.
\<close>

definition lm_admit :: "u32 \<Rightarrow> 'k \<Rightarrow> u64 \<Rightarrow> 'v \<Rightarrow> ('k, 'v) lmap \<Rightarrow> (nat \<times> bool \<times> ('k, 'v) lmap) option" where
  "lm_admit cap k h v m =
     do { (m, ev) \<leftarrow> (if lm_count m \<ge> cap
             then (case lm_head m of None \<Rightarrow> Some (m, False) | Some a \<Rightarrow> do { m \<leftarrow> lm_remove a m; Some (m, True) })
             else Some (m, False));
          m \<leftarrow> (if lm_crowded m then lm_grow m else Some m);
          (a, m) \<leftarrow> lm_insert k h v m;
          Some (a, ev, m) }"

section \<open>What a table represents\<close>

text \<open>The address a list starts with, and the one it ends with.\<close>

definition first :: "nat list \<Rightarrow> nat option \<Rightarrow> nat option" where
  "first as q = (case as of [] \<Rightarrow> q | a # _ \<Rightarrow> Some a)"

definition final :: "nat option \<Rightarrow> nat list \<Rightarrow> nat option" where
  "final p as = (if as = [] then p else Some (last as))"

lemma first_simps [simp]: "first [] q = q" "first (a # as) q = Some a" "first (as @ bs) q = first as (first bs q)"
  by (simp_all add: first_def split: list.split)

lemma final_simps [simp]: "final p [] = p" "final p (a # as) = final (Some a) as" "final p (as @ bs) = final (final p as) bs"
  by (simp_all add: final_def)

text \<open>A segment of the recency list between the links \<open>p\<close> and \<open>q\<close>.\<close>

fun seg :: "(nat \<Rightarrow> ('k, 'v) node option) \<Rightarrow> nat option \<Rightarrow> nat list \<Rightarrow> nat option \<Rightarrow> bool" where
  "seg h p [] q = True"
| "seg h p (a # as) q = ((\<exists>n. h a = Some n \<and> lru_prev n = p \<and> lru_next n = first as q) \<and> seg h (Some a) as q)"

definition linked :: "('k, 'v) lmap \<Rightarrow> nat list \<Rightarrow> bool" where
  "linked m as \<longleftrightarrow> distinct as \<and> seg (lm_heap m) None as None \<and> lm_head m = first as None \<and> lm_tail m = final None as"

definition core :: "('k, 'v) lmap \<Rightarrow> nat \<Rightarrow> ('k \<times> 'v \<times> u64) option" where
  "core m a = map_option (\<lambda>n. (n_key n, n_val n, n_hash n)) (lm_heap m a)"

text \<open>The table without its recency list: nodes, chains and count.\<close>

definition stored :: "('k \<Rightarrow> u64) \<Rightarrow> ('k, 'v) lmap \<Rightarrow> (nat \<times> 'k \<times> 'v) list \<Rightarrow> bool" where
  "stored H m xs \<longleftrightarrow>
     distinct (map fst xs) \<and> distinct (map (fst \<circ> snd) xs) \<and>
     (\<forall>a k v h. core m a = Some (k, v, h) \<longleftrightarrow> (a, k, v) \<in> set xs \<and> h = H k) \<and>
     (\<forall>x \<in> set xs. fst x < lm_brk m) \<and>
     lm_count m = of_nat (length xs) \<and> length xs \<le> 2 ^ 28 \<and>
     length (lm_chains m) = unat (lm_nb m) \<and> 0 < unat (lm_nb m) \<and> unat (lm_nb m) \<le> 2 ^ 30 \<and>
     (\<forall>i < length (lm_chains m). distinct (lm_chains m ! i) \<and>
        set (lm_chains m ! i) = {a. \<exists>k v. (a, k, v) \<in> set xs \<and> bucket (lm_nb m) (H k) = i})"

text \<open>The table holds the entries \<open>xs\<close>, from the least to the most recently used.\<close>

definition lm_rep :: "('k \<Rightarrow> u64) \<Rightarrow> ('k, 'v) lmap \<Rightarrow> (nat \<times> 'k \<times> 'v) list \<Rightarrow> bool" where
  "lm_rep H m xs \<longleftrightarrow> linked m (map fst xs) \<and> stored H m xs"

section \<open>Segments\<close>

lemma seg_append: "seg h p (as @ bs) q \<longleftrightarrow> seg h p as (first bs q) \<and> seg h (final p as) bs q"
  by (induction as arbitrary: p) (auto simp: first_def split: list.splits)

lemma seg_upd [simp]: "a \<notin> set as \<Longrightarrow> seg (h(a := x)) p as q = seg h p as q"
  by (induction as arbitrary: p) auto

lemma seg_heap: "seg h p as q \<Longrightarrow> a \<in> set as \<Longrightarrow> \<exists>n. h a = Some n"
  by (induction as arbitrary: p) auto

lemma seg_last:
  assumes "seg h p (as @ [a]) q" "a \<notin> set as" "h a = Some n"
  shows "seg (h(a := Some (n\<lparr>lru_next := q'\<rparr>))) p (as @ [a]) q'"
  using assms by (simp add: seg_append)

lemma seg_first:
  assumes "seg h p (a # as) q" "a \<notin> set as" "h a = Some n"
  shows "seg (h(a := Some (n\<lparr>lru_prev := p'\<rparr>))) p' (a # as) q"
  using assms by simp

text \<open>What the recency list leaves alone.\<close>

definition same_store :: "('k, 'v) lmap \<Rightarrow> ('k, 'v) lmap \<Rightarrow> bool" where
  "same_store m m' \<longleftrightarrow> core m' = core m \<and> lm_brk m' = lm_brk m \<and> lm_chains m' = lm_chains m \<and>
     lm_nb m' = lm_nb m \<and> lm_count m' = lm_count m"

lemma same_store_refl [simp]: "same_store m m"
  by (simp add: same_store_def)

lemma same_store_trans: "same_store m1 m2 \<Longrightarrow> same_store m2 m3 \<Longrightarrow> same_store m1 m3"
  by (simp add: same_store_def)

lemma stored_same: "same_store m m' \<Longrightarrow> stored H m xs \<Longrightarrow> stored H m' xs"
  unfolding stored_def same_store_def by simp

lemma stored_perm:
  assumes "mset xs = mset ys" "stored H m xs"
  shows "stored H m ys"
proof -
  have eq: "distinct (map fst ys) = distinct (map fst xs)" "distinct (map (fst \<circ> snd) ys) = distinct (map (fst \<circ> snd) xs)"
    "set ys = set xs" "length ys = length xs"
    using assms(1) by (metis mset_eq_imp_distinct_iff mset_map, metis mset_eq_imp_distinct_iff mset_map, metis mset_eq_setD,
      metis mset_eq_length)
  show ?thesis using assms(2) unfolding stored_def eq .
qed

lemmas link_defs = set_prev_def set_next_def set_node_def same_store_def core_def

lemma lru_unlink_ok:
  assumes "linked m (as @ a # bs)"
  shows "\<exists>m'. lru_unlink a m = Some m' \<and> linked m' (as @ bs) \<and> same_store m m'"
proof (cases as rule: rev_cases)
  case Nil
  then show ?thesis
    using assms by (cases bs) (auto simp: lru_unlink_def linked_def link_defs fun_eq_iff)
next
  case (snoc ps p)
  then show ?thesis
    using assms by (cases bs) (auto simp: lru_unlink_def linked_def link_defs seg_append fun_eq_iff)
qed

lemma lru_push_ok:
  assumes "linked m as" "a \<notin> set as" "lm_heap m a = Some n"
  shows "\<exists>m'. lru_push a m = Some m' \<and> linked m' (as @ [a]) \<and> same_store m m'"
  using assms by (cases as rule: rev_cases) (auto simp: lru_push_def linked_def link_defs seg_append fun_eq_iff)

section \<open>The operations on what is represented\<close>

lemma bucket_lt: "0 < unat nb \<Longrightarrow> bucket nb h < unat nb"
proof -
  assume nb: "0 < unat nb"
  have "unat (nb - 1) < 2 ^ 32" by (rule order.strict_trans2 [OF unsigned_less]) simp
  then have "unat (ucast (nb - 1) :: u64) = unat (nb - 1)" by (simp add: unsigned_ucast_eq take_bit_nat_eq_self)
  moreover have "h AND ucast (nb - 1) \<le> (ucast (nb - 1) :: u64)" by (rule word_and_le1)
  ultimately have "unat (h AND ucast (nb - 1)) \<le> unat (nb - 1)" by (simp add: word_le_nat_alt)
  moreover have "unat (nb - 1) < unat nb" using nb unat_minus_one [of nb] by (cases "nb = 0") auto
  moreover have "bucket nb h \<le> unat (h AND ucast (nb - 1))" by (simp add: bucket_def unsigned_ucast_eq take_bit_nat_less_eq_self)
  ultimately show ?thesis by linarith
qed

lemma storedD:
  assumes "stored H m xs"
  shows "distinct (map fst xs)" "distinct (map (fst \<circ> snd) xs)"
    "core m a = Some (k, v, h) \<longleftrightarrow> (a, k, v) \<in> set xs \<and> h = H k"
    "x \<in> set xs \<Longrightarrow> fst x < lm_brk m" "lm_count m = of_nat (length xs)" "length xs \<le> 2 ^ 28"
    "length (lm_chains m) = unat (lm_nb m)" "0 < unat (lm_nb m)" "unat (lm_nb m) \<le> 2 ^ 30"
    "i < unat (lm_nb m) \<Longrightarrow> distinct (lm_chains m ! i)"
    "i < unat (lm_nb m) \<Longrightarrow> a \<in> set (lm_chains m ! i) \<longleftrightarrow> (\<exists>k v. (a, k, v) \<in> set xs \<and> bucket (lm_nb m) (H k) = i)"
  using assms unfolding stored_def by auto

lemma storedI:
  assumes "distinct (map fst xs)" "distinct (map (fst \<circ> snd) xs)"
    "\<And>a k v h. core m a = Some (k, v, h) \<longleftrightarrow> (a, k, v) \<in> set xs \<and> h = H k"
    "\<And>x. x \<in> set xs \<Longrightarrow> fst x < lm_brk m" "lm_count m = of_nat (length xs)" "length xs \<le> 2 ^ 28"
    "length (lm_chains m) = unat (lm_nb m)" "0 < unat (lm_nb m)" "unat (lm_nb m) \<le> 2 ^ 30"
    "\<And>i. i < unat (lm_nb m) \<Longrightarrow> distinct (lm_chains m ! i)"
    "\<And>i a. i < unat (lm_nb m) \<Longrightarrow> a \<in> set (lm_chains m ! i) \<longleftrightarrow> (\<exists>k v. (a, k, v) \<in> set xs \<and> bucket (lm_nb m) (H k) = i)"
  shows "stored H m xs"
  unfolding stored_def using assms(6,9) by (intro conjI allI ballI impI) (simp_all add: assms(1-5,7,8,10,11) set_eq_iff)

lemma stored_node:
  assumes "stored H m xs" "(a, k, v) \<in> set xs"
  obtains n where "lm_heap m a = Some n" "n_key n = k" "n_val n = v" "n_hash n = H k"
proof -
  have "core m a = Some (k, v, H k)" using storedD(3) [OF assms(1)] assms(2) by simp
  then show ?thesis using that by (auto simp: core_def)
qed

lemma stored_chain:
  assumes "stored H m xs"
  shows "idx (lm_chains m) (bucket (lm_nb m) h) = Some (lm_chains m ! bucket (lm_nb m) h)"
  using bucket_lt [of "lm_nb m" h] storedD(7,8) [OF assms] by simp

lemma stored_count: "stored H m xs \<Longrightarrow> unat (lm_count m) = length xs"
  using storedD(5,6) [of H m xs] by (simp add: unat_of_nat)

lemma chain_find_eq:
  "(\<And>a. a \<in> set c \<Longrightarrow> \<exists>n. lm_heap m a = Some n) \<Longrightarrow>
    chain_find m k h c = Some (find (\<lambda>a. \<exists>v. core m a = Some (k, v, h)) c)"
proof (induction c)
  case (Cons a c)
  from Cons.prems obtain n where "lm_heap m a = Some n" by auto
  with Cons show ?case by (auto simp: core_def)
qed simp

lemma lm_find_eq:
  assumes "stored H m xs"
  shows "lm_find k (H k) m = Some (find (\<lambda>a. \<exists>v. (a, k, v) \<in> set xs) (lm_chains m ! bucket (lm_nb m) (H k)))"
proof -
  have b: "bucket (lm_nb m) (H k) < unat (lm_nb m)" by (rule bucket_lt [OF storedD(8) [OF assms]])
  have "\<exists>n. lm_heap m a = Some n" if "a \<in> set (lm_chains m ! bucket (lm_nb m) (H k))" for a
    using that storedD(11) [OF assms b] stored_node [OF assms] by metis
  then show ?thesis
    by (simp add: lm_find_def stored_chain [OF assms] chain_find_eq storedD(3) [OF assms])
qed

lemma lm_find_in:
  assumes "stored H m xs" "(a, k, v) \<in> set xs"
  shows "lm_find k (H k) m = Some (Some a)"
proof -
  let ?c = "lm_chains m ! bucket (lm_nb m) (H k)"
  have b: "bucket (lm_nb m) (H k) < unat (lm_nb m)" by (rule bucket_lt [OF storedD(8) [OF assms(1)]])
  have u: "(a', k, v') \<in> set xs \<Longrightarrow> a' = a" for a' v'
    using storedD(2) [OF assms(1)] assms(2) by (fastforce simp: distinct_map inj_on_def)
  have "a \<in> set ?c" using storedD(11) [OF assms(1) b] assms(2) by blast
  then have "find (\<lambda>a. \<exists>v. (a, k, v) \<in> set xs) ?c \<noteq> None" using assms(2) by (auto simp: find_None_iff)
  then obtain a' where a': "find (\<lambda>a. \<exists>v. (a, k, v) \<in> set xs) ?c = Some a'" by auto
  then have "a' = a" using u by (auto simp: find_Some_iff)
  with a' show ?thesis by (simp add: lm_find_eq [OF assms(1)])
qed

lemma lm_find_out:
  assumes "stored H m xs" "\<And>a v. (a, k, v) \<notin> set xs"
  shows "lm_find k (H k) m = Some None"
  using assms by (simp add: lm_find_eq find_None_iff)

lemma lm_touch_ok:
  assumes "lm_rep H m (as @ (a, k, v) # bs)"
  shows "\<exists>m1 m2. lru_unlink a m = Some m1 \<and> lru_push a m1 = Some m2 \<and> lm_rep H m2 (as @ bs @ [(a, k, v)])"
proof -
  have st: "stored H m (as @ (a, k, v) # bs)" and li: "linked m (map fst as @ a # map fst bs)"
    using assms by (simp_all add: lm_rep_def)
  obtain m1 where m1: "lru_unlink a m = Some m1" "linked m1 (map fst as @ map fst bs)" "same_store m m1"
    using lru_unlink_ok [OF li] by auto
  have st1: "stored H m1 (as @ (a, k, v) # bs)" by (rule stored_same [OF m1(3) st])
  then obtain n where "lm_heap m1 a = Some n" by (rule stored_node [of H m1 _ a k v]) simp_all
  moreover have "a \<notin> set (map fst as @ map fst bs)" using storedD(1) [OF st] by auto
  ultimately obtain m2 where m2: "lru_push a m1 = Some m2" "linked m2 ((map fst as @ map fst bs) @ [a])" "same_store m1 m2"
    using lru_push_ok [OF m1(2)] by blast
  have "stored H m2 (as @ bs @ [(a, k, v)])"
    by (rule stored_perm [OF _ stored_same [OF m2(3) st1]]) simp
  with m1(1) m2(1,2) show ?thesis by (simp add: lm_rep_def)
qed

lemma set_val_ok:
  assumes "lm_rep H m (as @ (a, k, v) # bs)"
  shows "\<exists>m'. set_val a v' m = Some m' \<and> lm_rep H m' (as @ (a, k, v') # bs) \<and> lm_brk m' = lm_brk m"
proof -
  have st: "stored H m (as @ (a, k, v) # bs)" and li: "linked m (map fst as @ a # map fst bs)"
    using assms by (simp_all add: lm_rep_def)
  obtain n where n: "lm_heap m a = Some n" "n_key n = k" "n_val n = v" "n_hash n = H k"
    by (rule stored_node [OF st, of a k v]) simp_all
  define m' where "m' = m\<lparr>lm_heap := (lm_heap m)(a := Some (n\<lparr>n_val := v'\<rparr>))\<rparr>"
  have ni: "a \<notin> set (map fst as)" "a \<notin> set (map fst bs)" using storedD(1) [OF st] by auto
  have "linked m' (map fst as @ a # map fst bs)"
    using li ni n(1) by (auto simp: linked_def m'_def seg_append)
  moreover have "stored H m' (as @ (a, k, v') # bs)"
  proof -
    have c: "core m' = (core m)(a := Some (k, v', H k))" using n by (auto simp: core_def m'_def)
    have core: "core m' a' = Some (k', w, h) \<longleftrightarrow> (a', k', w) \<in> set (as @ (a, k, v') # bs) \<and> h = H k'" for a' k' w h
    proof (cases "a' = a")
      case True
      then show ?thesis using ni by (force simp: c)
    next
      case False
      then show ?thesis using storedD(3) [OF st, of a' k' w h] by (auto simp: c)
    qed
    have e: "lm_chains m' = lm_chains m" "lm_nb m' = lm_nb m" "lm_brk m' = lm_brk m" "lm_count m' = lm_count m"
      by (simp_all add: m'_def)
    have eq: "(\<exists>y w. (x, y, w) \<in> set (as @ (a, k, v') # bs) \<and> bucket nb (H y) = i) \<longleftrightarrow>
        (\<exists>y w. (x, y, w) \<in> set (as @ (a, k, v) # bs) \<and> bucket nb (H y) = i)" for x nb i by auto
    show ?thesis
    proof (rule storedI)
      show "distinct (map fst (as @ (a, k, v') # bs))" "distinct (map (fst \<circ> snd) (as @ (a, k, v') # bs))"
        using storedD(1,2) [OF st] by simp_all
      show "lm_count m' = of_nat (length (as @ (a, k, v') # bs))" "length (as @ (a, k, v') # bs) \<le> 2 ^ 28"
        using storedD(5,6) [OF st] by (simp_all add: e)
      show "\<And>x. x \<in> set (as @ (a, k, v') # bs) \<Longrightarrow> fst x < lm_brk m'"
        using storedD(4) [OF st] by (fastforce simp: e)
    qed (use core storedD(7-11) [OF st] in \<open>simp_all only: e eq\<close>)
  qed
  ultimately show ?thesis by (simp add: set_val_def set_node_def n(1) m'_def lm_rep_def)
qed

lemma other_entry:
  assumes "distinct (map fst (as @ (a, k, v) # bs))"
  shows "(x, k', v') \<in> set (as @ bs) \<longleftrightarrow> (x, k', v') \<in> set (as @ (a, k, v) # bs) \<and> x \<noteq> a"
proof -
  have "a \<notin> fst ` set as" "a \<notin> fst ` set bs" using assms by simp_all
  then have "(a, k', v') \<notin> set as" "(a, k', v') \<notin> set bs" by (metis fst_conv imageI)+
  then show ?thesis by auto
qed

lemma lm_remove_ok:
  assumes "lm_rep H m (as @ (a, k, v) # bs)"
  shows "\<exists>m'. lm_remove a m = Some m' \<and> lm_rep H m' (as @ bs) \<and> lm_brk m' = lm_brk m"
proof -
  let ?xs = "as @ (a, k, v) # bs"
  have st: "stored H m ?xs" and li: "linked m (map fst as @ a # map fst bs)"
    using assms by (simp_all add: lm_rep_def)
  obtain n where n: "lm_heap m a = Some n" "n_key n = k" "n_val n = v" "n_hash n = H k"
    by (rule stored_node [OF st, of a k v]) simp_all
  define b c where "b = bucket (lm_nb m) (H k)" and "c = lm_chains m ! b"
  define m0 where "m0 = m\<lparr>lm_chains := (lm_chains m)[b := remove1 a c]\<rparr>"
  have "linked m0 (map fst as @ a # map fst bs)" using li by (simp add: m0_def linked_def)
  then obtain m1 where m1: "lru_unlink a m0 = Some m1" "linked m1 (map fst as @ map fst bs)" "same_store m0 m1"
    using lru_unlink_ok by blast
  define m' where "m' = m1\<lparr>lm_count := lm_count m1 - 1, lm_heap := (lm_heap m1)(a := None)\<rparr>"
  have ni: "a \<notin> set (map fst as)" "a \<notin> set (map fst bs)" using storedD(1) [OF st] by auto
  have "lm_remove a m = Some m'"
    using n m1(1) stored_chain [OF st, of "H k"] by (simp add: lm_remove_def m'_def m0_def b_def c_def)
  moreover have "linked m' (map fst as @ map fst bs)"
    using m1(2) ni by (auto simp: linked_def m'_def seg_append)
  moreover have "stored H m' (as @ bs)"
  proof -
    have same: "core m1 = core m" "lm_brk m' = lm_brk m" "lm_chains m' = (lm_chains m)[b := remove1 a c]" "lm_nb m' = lm_nb m"
      "lm_count m' = lm_count m - 1"
      using m1(3) by (auto simp: same_store_def m0_def m'_def core_def fun_eq_iff)
    have c': "core m' = (core m)(a := None)"
      using same(1) by (auto simp: core_def m'_def fun_eq_iff)
    have core: "core m' a' = Some (k', w, h) \<longleftrightarrow> (a', k', w) \<in> set (as @ bs) \<and> h = H k'" for a' k' w h
    proof (cases "a' = a")
      case True
      then show ?thesis using ni by (force simp: c')
    next
      case False
      then show ?thesis using storedD(3) [OF st, of a' k' w h] by (auto simp: c')
    qed
    have bl: "b < unat (lm_nb m)" unfolding b_def by (rule bucket_lt [OF storedD(8) [OF st]])
    have chain: "distinct (lm_chains m' ! i) \<and> (x \<in> set (lm_chains m' ! i) \<longleftrightarrow>
        (\<exists>k v. (x, k, v) \<in> set (as @ bs) \<and> bucket (lm_nb m') (H k) = i))" if i: "i < unat (lm_nb m')" for i x
    proof -
      have i': "i < unat (lm_nb m)" using i by (simp add: same)
      have d: "distinct (lm_chains m ! i)" by (rule storedD(10) [OF st i'])
      have s: "x \<in> set (lm_chains m ! i) \<and> x \<noteq> a \<longleftrightarrow> (\<exists>k v. (x, k, v) \<in> set (as @ bs) \<and> bucket (lm_nb m) (H k) = i)"
        unfolding storedD(11) [OF st i'] using other_entry [OF storedD(1) [OF st]] by (metis)
      show ?thesis
      proof (cases "i = b")
        case True
        then show ?thesis using d s i' bl storedD(7) [OF st] by (auto simp: same c_def)
      next
        case False
        have "x \<noteq> a" if xin: "x \<in> set (lm_chains m ! i)"
        proof
          assume "x = a"
          then obtain k' v' where "(a, k', v') \<in> set ?xs" "bucket (lm_nb m) (H k') = i"
            using storedD(11) [OF st i', of x] xin by blast
          then show False using ni False by (force simp: b_def)
        qed
        then show ?thesis using d s False by (auto simp: same)
      qed
    qed
    show ?thesis
    proof (rule storedI)
      show "distinct (map fst (as @ bs))" "distinct (map (fst \<circ> snd) (as @ bs))" using storedD(1,2) [OF st] by simp_all
      show "lm_count m' = of_nat (length (as @ bs))" "length (as @ bs) \<le> 2 ^ 28"
        using storedD(5,6) [OF st] by (simp_all add: same)
      show "\<And>x. x \<in> set (as @ bs) \<Longrightarrow> fst x < lm_brk m'" using storedD(4) [OF st] by (simp add: same)
      show "length (lm_chains m') = unat (lm_nb m')" using storedD(7) [OF st] by (simp add: same)
    qed (use core chain storedD(8,9) [OF st] in \<open>simp_all only: same\<close>)
  qed
  moreover have "lm_brk m' = lm_brk m" using m1(3) by (simp add: same_store_def m0_def m'_def)
  ultimately show ?thesis by (simp add: lm_rep_def)
qed

lemma lm_insert_ok:
  assumes "lm_rep H m xs" "k \<notin> fst ` snd ` set xs" "length xs < 2 ^ 28"
  shows "\<exists>a m'. lm_insert k (H k) v m = Some (a, m') \<and> lm_rep H m' (xs @ [(a, k, v)]) \<and> a = lm_brk m"
proof -
  have st: "stored H m xs" and li: "linked m (map fst xs)" using assms by (simp_all add: lm_rep_def)
  define a b where "a = lm_brk m" and "b = bucket (lm_nb m) (H k)"
  define nd where "nd = \<lparr>n_key = k, n_val = v, n_hash = H k, lru_prev = None, lru_next = None\<rparr>"
  define m0 where "m0 = m\<lparr>lm_brk := a + 1, lm_heap := (lm_heap m)(a := Some nd), lm_chains := (lm_chains m)[b := a # lm_chains m ! b]\<rparr>"
  have fresh: "a \<notin> fst ` set xs" using storedD(4) [OF st] by (fastforce simp: a_def)
  have free: "core m a = None"
  proof (rule ccontr)
    assume "core m a \<noteq> None"
    then obtain k' w h where "core m a = Some (k', w, h)" by auto
    then have "(a, k', w) \<in> set xs" using storedD(3) [OF st] by simp
    then show False using fresh by (metis fst_conv imageI)
  qed
  have "linked m0 (map fst xs)" using li fresh by (simp add: linked_def m0_def)
  then obtain m1 where m1: "lru_push a m0 = Some m1" "linked m1 (map fst xs @ [a])" "same_store m0 m1"
    using lru_push_ok [of m0 "map fst xs" a nd] fresh by (auto simp: m0_def)
  define m' where "m' = m1\<lparr>lm_count := lm_count m1 + 1\<rparr>"
  have "lm_insert k (H k) v m = Some (a, m')"
    using m1(1) [unfolded m0_def] stored_chain [OF st, of "H k"]
    by (simp add: lm_insert_def Let_def a_def [symmetric] b_def [symmetric] nd_def [symmetric] m'_def)
  moreover have "linked m' (map fst (xs @ [(a, k, v)]))" using m1(2) by (simp add: linked_def m'_def)
  moreover have "stored H m' (xs @ [(a, k, v)])"
  proof -
    have same: "core m' = core m0" "lm_brk m' = a + 1" "lm_chains m' = (lm_chains m)[b := a # lm_chains m ! b]" "lm_nb m' = lm_nb m"
      "lm_count m' = lm_count m + 1"
      using m1(3) by (auto simp: same_store_def m0_def m'_def core_def fun_eq_iff)
    have c0: "core m0 = (core m)(a := Some (k, v, H k))" by (auto simp: core_def m0_def nd_def fun_eq_iff)
    have core: "core m' a' = Some (k', w, h) \<longleftrightarrow> (a', k', w) \<in> set (xs @ [(a, k, v)]) \<and> h = H k'" for a' k' w h
    proof (cases "a' = a")
      case True
      have "(a, k', w) \<notin> set xs" using fresh by (metis fst_conv imageI)
      with True show ?thesis by (auto simp: same(1) c0)
    next
      case False
      then show ?thesis using storedD(3) [OF st, of a' k' w h] by (auto simp: same(1) c0)
    qed
    have bl: "b < unat (lm_nb m)" unfolding b_def by (rule bucket_lt [OF storedD(8) [OF st]])
    have chain: "distinct (lm_chains m' ! i) \<and> (x \<in> set (lm_chains m' ! i) \<longleftrightarrow>
        (\<exists>y w. (x, y, w) \<in> set (xs @ [(a, k, v)]) \<and> bucket (lm_nb m') (H y) = i))" if i: "i < unat (lm_nb m')" for i x
    proof -
      have i': "i < unat (lm_nb m)" using i by (simp add: same)
      have d: "distinct (lm_chains m ! i)" by (rule storedD(10) [OF st i'])
      have s: "x \<in> set (lm_chains m ! i) \<longleftrightarrow> (\<exists>y w. (x, y, w) \<in> set xs \<and> bucket (lm_nb m) (H y) = i)" for x
        by (rule storedD(11) [OF st i'])
      have "a \<notin> set (lm_chains m ! i)" unfolding s using fresh by (metis fst_conv imageI)
      then show ?thesis
        using d s [of x] i' bl storedD(7) [OF st] by (cases "i = b") (auto simp: same b_def)
    qed
    show ?thesis
    proof (rule storedI)
      show "distinct (map fst (xs @ [(a, k, v)]))" "distinct (map (fst \<circ> snd) (xs @ [(a, k, v)]))"
        using storedD(1,2) [OF st] fresh assms(2) by (simp_all add: image_image)
      show "lm_count m' = of_nat (length (xs @ [(a, k, v)]))" "length (xs @ [(a, k, v)]) \<le> 2 ^ 28"
        using storedD(5) [OF st] assms(3) by (simp_all add: same)
      show "\<And>x. x \<in> set (xs @ [(a, k, v)]) \<Longrightarrow> fst x < lm_brk m'" using storedD(4) [OF st] by (fastforce simp: same a_def)
      show "length (lm_chains m') = unat (lm_nb m')" using storedD(7) [OF st] by (simp add: same)
    qed (use core chain storedD(8,9) [OF st] in \<open>simp_all only: same\<close>)
  qed
  ultimately show ?thesis by (auto simp: lm_rep_def a_def)
qed

lemma rechain_ok:
  assumes st: "stored H m xs" and nn: "0 < unat nn" and as: "\<And>a. a \<in> set as \<Longrightarrow> a \<in> fst ` set xs" "distinct as"
  shows "\<exists>cs. mfold (rechain nn m) as (replicate (unat nn) []) = Some cs \<and> length cs = unat nn \<and>
    (\<forall>i < unat nn. distinct (cs ! i) \<and>
      (\<forall>x. x \<in> set (cs ! i) \<longleftrightarrow> x \<in> set as \<and> (\<exists>k v. (x, k, v) \<in> set xs \<and> bucket nn (H k) = i)))"
proof -
  define I where "I ys cs \<longleftrightarrow> length cs = unat nn \<and> (\<forall>i < unat nn. distinct (cs ! i) \<and>
      (\<forall>x. x \<in> set (cs ! i) \<longleftrightarrow> x \<in> set ys \<and> (\<exists>k v. (x, k, v) \<in> set xs \<and> bucket nn (H k) = i)))" for ys cs
  have "\<exists>cs. mfold (rechain nn m) as (replicate (unat nn) []) = Some cs \<and> I as cs"
  proof (rule mfold_inv)
    show "I [] (replicate (unat nn) [])" by (simp add: I_def)
    fix ys a zs cs assume e: "as = ys @ a # zs" and I: "I ys cs"
    then have "a \<in> fst ` set xs" using as(1) [of a] by simp
    then obtain k v where kv: "(a, k, v) \<in> set xs" by auto
    obtain n where n: "lm_heap m a = Some n" "n_key n = k" "n_val n = v" "n_hash n = H k" by (rule stored_node [OF st kv])
    define b where "b = bucket nn (H k)"
    have b: "b < unat nn" unfolding b_def by (rule bucket_lt [OF nn])
    have ay: "a \<notin> set ys" using as(2) e by simp
    have u: "(a, k', v') \<in> set xs \<longleftrightarrow> k' = k \<and> v' = v" for k' v'
      using storedD(3) [OF st, of a k v "H k"] storedD(3) [OF st, of a k' v' "H k'"] kv by auto
    have "rechain nn m a cs = Some (cs[b := a # cs ! b])"
      using I b n by (simp add: rechain_def I_def b_def)
    moreover have "I (ys @ [a]) (cs[b := a # cs ! b])"
      unfolding I_def
    proof (intro conjI allI impI)
      show "length (cs[b := a # cs ! b]) = unat nn" using I by (simp add: I_def)
      fix i assume i: "i < unat nn"
      have d: "distinct (cs ! i)" and s: "x \<in> set (cs ! i) \<longleftrightarrow> x \<in> set ys \<and> (\<exists>k v. (x, k, v) \<in> set xs \<and> bucket nn (H k) = i)" for x
        using I i by (auto simp: I_def)
      have l: "length cs = unat nn" using I by (simp add: I_def)
      show "distinct (cs[b := a # cs ! b] ! i)" using d s [of a] ay i l by (cases "i = b") auto
      fix x
      show "x \<in> set (cs[b := a # cs ! b] ! i) \<longleftrightarrow> x \<in> set (ys @ [a]) \<and> (\<exists>k v. (x, k, v) \<in> set xs \<and> bucket nn (H k) = i)"
        using s [of x] u ay i l b by (cases "i = b"; cases "x = a") (auto simp: b_def)
    qed
    ultimately show "\<exists>cs'. rechain nn m a cs = Some cs' \<and> I (ys @ [a]) cs'" by blast
  qed
  then show ?thesis unfolding I_def .
qed

lemma distinct_concat_disjoint:
  assumes "\<And>i. i < n \<Longrightarrow> distinct (f i)" "\<And>i j x. i < n \<Longrightarrow> j < n \<Longrightarrow> x \<in> set (f i) \<Longrightarrow> x \<in> set (f j) \<Longrightarrow> i = j"
  shows "distinct (concat (map f [0..<n]))"
  using assms
proof (induction n)
  case (Suc n)
  have "distinct (concat (map f [0..<n]))" using Suc.prems by (intro Suc.IH) (meson less_Suc_eq)+
  moreover have "x \<notin> set (f n)" if "x \<in> set (f i)" "i < n" for x i
    using Suc.prems(2) [of i n x] that by auto
  ultimately show ?case using Suc.prems(1) [of n] by auto
qed simp

lemma lm_crowded_nat:
  assumes "stored H m xs" "length xs < 2 ^ 28"
  shows "lm_crowded m \<longleftrightarrow> (3 * unat (lm_nb m)) div 4 < length xs + 1"
proof -
  have "unat (lm_count m + 1) = length xs + 1"
    using stored_count [OF assms(1)] assms(2) by (simp add: unat_word_ariths)
  moreover have "unat (lm_nb m * 3) = 3 * unat (lm_nb m)"
    using storedD(9) [OF assms(1)] by (simp add: unat_word_ariths)
  ultimately show ?thesis by (simp add: lm_crowded_def word_less_nat_alt unat_div)
qed

lemma lm_grow_ok:
  assumes "lm_rep H m xs" "length xs < 2 ^ 28" "lm_crowded m"
  shows "\<exists>m'. lm_grow m = Some m' \<and> lm_rep H m' xs \<and> lm_brk m' = lm_brk m"
proof -
  have st: "stored H m xs" and li: "linked m (map fst xs)" using assms by (simp_all add: lm_rep_def)
  define nn where "nn = push_bit 1 (lm_nb m)"
  have "(3 * unat (lm_nb m)) div 4 < 2 ^ 28" using assms(2,3) lm_crowded_nat [OF st assms(2)] by simp
  then have "unat (lm_nb m) \<le> 2 ^ 29" by simp
  then have nn: "unat nn = 2 * unat (lm_nb m)" "unat nn \<le> 2 ^ 30" "0 < unat nn"
    using storedD(8) [OF st] by (simp_all add: nn_def push_bit_eq_mult unat_word_ariths)
  let ?c = "lm_chains m"
  have cc: "concat ?c = concat (map (nth ?c) [0..<unat (lm_nb m)])" unfolding storedD(7) [OF st, symmetric] map_nth ..
  have dc: "distinct (concat ?c)"
    unfolding cc
  proof (rule distinct_concat_disjoint)
    show "\<And>i. i < unat (lm_nb m) \<Longrightarrow> distinct (?c ! i)" by (rule storedD(10) [OF st])
    fix i j x assume i: "i < unat (lm_nb m)" and j: "j < unat (lm_nb m)" and x: "x \<in> set (?c ! i)" "x \<in> set (?c ! j)"
    then obtain k v k' v' where "(x, k, v) \<in> set xs" "(x, k', v') \<in> set xs" "bucket (lm_nb m) (H k) = i" "bucket (lm_nb m) (H k') = j"
      using storedD(11) [OF st] by metis
    then show "i = j" using storedD(3) [OF st, of x k v "H k"] storedD(3) [OF st, of x k' v' "H k'"] by auto
  qed
  have sc: "x \<in> set (concat ?c) \<longleftrightarrow> x \<in> fst ` set xs" for x
  proof
    assume "x \<in> set (concat ?c)"
    then obtain i where "i < unat (lm_nb m)" "x \<in> set (?c ! i)"
      unfolding storedD(7) [OF st, symmetric] set_concat by (metis UN_E in_set_conv_nth)
    then show "x \<in> fst ` set xs" using storedD(11) [OF st] by force
  next
    assume "x \<in> fst ` set xs"
    then obtain k v where "(x, k, v) \<in> set xs" by auto
    then have "x \<in> set (?c ! bucket (lm_nb m) (H k))" "bucket (lm_nb m) (H k) < length ?c"
      using storedD(7,8,11) [OF st] bucket_lt by auto
    then show "x \<in> set (concat ?c)" unfolding set_concat by (meson UN_I nth_mem)
  qed
  obtain cs where cs: "mfold (rechain nn m) (concat ?c) (replicate (unat nn) []) = Some cs" "length cs = unat nn"
    "\<forall>i < unat nn. distinct (cs ! i) \<and>
      (\<forall>x. x \<in> set (cs ! i) \<longleftrightarrow> x \<in> set (concat ?c) \<and> (\<exists>k v. (x, k, v) \<in> set xs \<and> bucket nn (H k) = i))"
    using rechain_ok [OF st nn(3) _ dc] sc by blast
  define m' where "m' = m\<lparr>lm_chains := cs, lm_nb := nn\<rparr>"
  have "linked m' (map fst xs)" using li by (simp add: linked_def m'_def)
  moreover have "stored H m' xs"
  proof (rule storedI)
    show "\<And>a k v h. core m' a = Some (k, v, h) \<longleftrightarrow> (a, k, v) \<in> set xs \<and> h = H k"
      using storedD(3) [OF st] by (simp add: core_def m'_def)
    show "length (lm_chains m') = unat (lm_nb m')" "0 < unat (lm_nb m')" "unat (lm_nb m') \<le> 2 ^ 30"
      using cs(2) nn by (simp_all add: m'_def)
    fix i x assume i: "i < unat (lm_nb m')"
    show "distinct (lm_chains m' ! i)" using cs(3) i by (simp add: m'_def)
    have "x \<in> fst ` set xs" if "(x, k, v) \<in> set xs" for k v using that by force
    then show "x \<in> set (lm_chains m' ! i) \<longleftrightarrow> (\<exists>k v. (x, k, v) \<in> set xs \<and> bucket (lm_nb m') (H k) = i)"
      using cs(3) i unfolding sc by (simp add: m'_def) blast
  qed (use storedD(1,2,4,5,6) [OF st] in \<open>simp_all add: m'_def\<close>)
  ultimately show ?thesis
    using cs(1) unfolding lm_grow_def Let_def nn_def [symmetric] by (simp add: lm_rep_def m'_def)
qed

lemma lm_new_rep:
  assumes "0 < unat nb" "unat nb \<le> 2 ^ 30"
  shows "lm_rep H (lm_new nb) []"
proof -
  have "stored H (lm_new nb) []"
    by (rule storedI) (use assms in \<open>simp_all add: lm_new_def core_def\<close>)
  then show ?thesis by (simp add: lm_rep_def linked_def lm_new_def)
qed

lemma lm_admit_ok:
  assumes "lm_rep H m xs" "k \<notin> fst ` snd ` set xs" "0 < unat cap" "unat cap \<le> 2 ^ 28" "length xs \<le> unat cap"
  shows "\<exists>a m'. lm_admit cap k (H k) v m = Some (a, unat cap \<le> length xs, m') \<and>
    lm_rep H m' ((if unat cap \<le> length xs then tl xs else xs) @ [(a, k, v)]) \<and> lm_brk m \<le> a"
proof -
  define ys where "ys = (if unat cap \<le> length xs then tl xs else xs)"
  have st: "stored H m xs" using assms(1) by (simp add: lm_rep_def)
  have full: "lm_count m \<ge> cap \<longleftrightarrow> unat cap \<le> length xs" using stored_count [OF st] by (simp add: word_le_nat_alt)
  obtain m1 where m1: "(if lm_count m \<ge> cap
      then (case lm_head m of None \<Rightarrow> Some (m, False) | Some a \<Rightarrow> do { m \<leftarrow> lm_remove a m; Some (m, True) })
      else Some (m, False)) = Some (m1, unat cap \<le> length xs)" "lm_rep H m1 ys" "lm_brk m1 = lm_brk m"
  proof (cases "unat cap \<le> length xs")
    case True
    then obtain a k' v' zs where xs: "xs = (a, k', v') # zs" using assms(3) by (cases xs) auto
    then obtain m1 where "lm_remove a m = Some m1" "lm_rep H m1 zs" "lm_brk m1 = lm_brk m"
      using lm_remove_ok [of H m "[]" a k' v' zs] assms(1) by auto
    moreover have "lm_head m = Some a" using assms(1) by (simp add: xs lm_rep_def linked_def)
    ultimately show ?thesis using that True full by (simp add: ys_def xs)
  next
    case False
    then show ?thesis using that assms(1) full by (simp add: ys_def)
  qed
  have ly: "length ys < 2 ^ 28" using assms(3-5) by (auto simp: ys_def)
  have ky: "k \<notin> fst ` snd ` set ys" using assms(2) list.set_sel(2) [of xs] by (cases xs) (auto simp: ys_def)
  obtain m2 where m2: "(if lm_crowded m1 then lm_grow m1 else Some m1) = Some m2" "lm_rep H m2 ys" "lm_brk m2 = lm_brk m1"
    using lm_grow_ok [OF m1(2) ly] m1(2) by (cases "lm_crowded m1") auto
  obtain a m3 where m3: "lm_insert k (H k) v m2 = Some (a, m3)" "lm_rep H m3 (ys @ [(a, k, v)])" "a = lm_brk m2"
    using lm_insert_ok [OF m2(2) ky ly] by blast
  show ?thesis
    unfolding lm_admit_def m1(1) using m1(3) m2(1,3) m3 by (simp add: ys_def)
qed

section \<open>Dropping entries along the recency list\<close>

partial_function (option) lm_drop :: "('v \<Rightarrow> bool) \<Rightarrow> nat option \<Rightarrow> ('k, 'v) lmap \<Rightarrow> ('k, 'v) lmap option" where
  "lm_drop P e m =
     (case e of
        None \<Rightarrow> Some m
      | Some a \<Rightarrow>
          do { n \<leftarrow> lm_heap m a;
               m \<leftarrow> (if P (n_val n) then lm_remove a m else Some m);
               lm_drop P (lru_next n) m })"

lemma lm_drop_ok:
  assumes "lm_rep H m (xs @ ys)" "e = first (map fst ys) None"
  shows "\<exists>m'. lm_drop P e m = Some m' \<and> lm_rep H m' (xs @ filter (\<lambda>(a, k, v). \<not> P v) ys) \<and> lm_brk m' = lm_brk m"
  using assms
proof (induction ys arbitrary: xs m e)
  case Nil
  then show ?case by (simp add: lm_drop.simps)
next
  case (Cons y ys)
  obtain a k v where y: "y = (a, k, v)" by (metis prod_cases3)
  have rep: "lm_rep H m (xs @ (a, k, v) # ys)" using Cons.prems(1) y by simp
  then have st: "stored H m (xs @ (a, k, v) # ys)" and li: "linked m (map fst xs @ a # map fst ys)"
    by (simp_all add: lm_rep_def)
  obtain n where n: "lm_heap m a = Some n" "n_key n = k" "n_val n = v" "n_hash n = H k"
    by (rule stored_node [OF st, of a k v]) simp_all
  have nx: "lru_next n = first (map fst ys) None" using li n(1) by (auto simp: linked_def seg_append)
  have e: "e = Some a" using Cons.prems(2) y by simp
  show ?case
  proof (cases "P v")
    case True
    obtain m1 where m1: "lm_remove a m = Some m1" "lm_rep H m1 (xs @ ys)" "lm_brk m1 = lm_brk m"
      using lm_remove_ok [OF rep] by blast
    from Cons.IH [OF m1(2) nx] show ?thesis
      using True m1(1,3) n(1,3) e y by (subst lm_drop.simps) auto
  next
    case False
    have "lm_rep H m ((xs @ [(a, k, v)]) @ ys)" using rep by simp
    from Cons.IH [OF this nx] show ?thesis
      using False n(1,3) e y by (subst lm_drop.simps) auto
  qed
qed

section \<open>The interface of a recency table\<close>

text \<open>
  What the clients of a table rely on: looking a key up, making a node the most recently used
  one, writing its payload, and admitting a new key. A client that looks up and admits what is
  missing gets the node of its key at the recent end, and at most the least recently used
  node is gone.
\<close>

locale lru_table =
  fixes rep :: "'m \<Rightarrow> (nat \<times> 'k \<times> 'v) list \<Rightarrow> bool"
    and lookup :: "'k \<Rightarrow> 'm \<Rightarrow> nat option option"
    and touch :: "nat \<Rightarrow> 'm \<Rightarrow> 'm option"
    and put :: "nat \<Rightarrow> 'v \<Rightarrow> 'm \<Rightarrow> 'm option"
    and admit :: "u32 \<Rightarrow> 'k \<Rightarrow> 'v \<Rightarrow> 'm \<Rightarrow> (nat \<times> bool \<times> 'm) option"
  assumes keys_distinct: "rep m xs \<Longrightarrow> distinct (map (fst \<circ> snd) xs)"
    and lookup_in: "rep m xs \<Longrightarrow> (a, k, v) \<in> set xs \<Longrightarrow> lookup k m = Some (Some a)"
    and lookup_out: "rep m xs \<Longrightarrow> k \<notin> fst ` snd ` set xs \<Longrightarrow> lookup k m = Some None"
    and touch: "rep m (as @ (a, k, v) # bs) \<Longrightarrow> \<exists>m'. touch a m = Some m' \<and> rep m' (as @ bs @ [(a, k, v)])"
    and put: "rep m (as @ (a, k, v) # bs) \<Longrightarrow> \<exists>m'. put a w m = Some m' \<and> rep m' (as @ (a, k, w) # bs)"
    and admit: "rep m xs \<Longrightarrow> k \<notin> fst ` snd ` set xs \<Longrightarrow> 0 < unat cap \<Longrightarrow> unat cap \<le> 2 ^ 28 \<Longrightarrow> length xs \<le> unat cap \<Longrightarrow>
      \<exists>a m'. admit cap k v m = Some (a, unat cap \<le> length xs, m') \<and>
        rep m' ((if unat cap \<le> length xs then tl xs else xs) @ [(a, k, v)])"
begin

lemma lookup_total:
  assumes "rep m xs"
  obtains as a v bs where "xs = as @ (a, k, v) # bs" "lookup k m = Some (Some a)"
  | "k \<notin> fst ` snd ` set xs" "lookup k m = Some None"
proof (cases "k \<in> fst ` snd ` set xs")
  case True
  then obtain a v where "(a, k, v) \<in> set xs" by auto
  moreover then obtain as bs where "xs = as @ (a, k, v) # bs" by (meson split_list)
  ultimately show ?thesis using that(1) lookup_in [OF assms] by blast
next
  case False
  then show ?thesis using that(2) lookup_out [OF assms] by blast
qed

lemma get_or_admit:
  assumes "rep m xs" "0 < unat cap" "unat cap \<le> 2 ^ 28" "length xs \<le> unat cap"
  obtains (hit) as a v bs m' where "xs = as @ (a, k, v) # bs" "lookup k m = Some (Some a)" "touch a m = Some m'"
      "rep m' (as @ bs @ [(a, k, v)])"
  | (miss) a m' where "k \<notin> fst ` snd ` set xs" "lookup k m = Some None"
      "admit cap k v0 m = Some (a, unat cap \<le> length xs, m')"
      "rep m' ((if unat cap \<le> length xs then tl xs else xs) @ [(a, k, v0)])"
proof (rule lookup_total [OF assms(1), of k])
  fix as a v bs assume xs: "xs = as @ (a, k, v) # bs" and l: "lookup k m = Some (Some a)"
  obtain m' where "touch a m = Some m'" "rep m' (as @ bs @ [(a, k, v)])" using touch [OF assms(1) [unfolded xs]] by blast
  with xs l show thesis by (rule hit)
next
  assume out: "k \<notin> fst ` snd ` set xs" and l: "lookup k m = Some None"
  obtain a m' where "admit cap k v0 m = Some (a, unat cap \<le> length xs, m')"
    "rep m' ((if unat cap \<le> length xs then tl xs else xs) @ [(a, k, v0)])"
    using admit [OF assms(1) out assms(2-4), where v = v0] by (elim exE conjE)
  with out l show thesis by (rule miss)
qed

lemma put_last:
  assumes "rep m (xs @ [(a, k, v)])"
  obtains m' where "put a w m = Some m'" "rep m' (xs @ [(a, k, w)])"
  using put [OF assms] by auto

text \<open>The table never grows beyond its cap.\<close>

lemma admit_bounded:
  "0 < unat cap \<Longrightarrow> length xs \<le> unat cap \<Longrightarrow> length ((if unat cap \<le> length xs then tl xs else xs) @ [x]) \<le> unat cap"
  by auto

end

definition lm_touch :: "nat \<Rightarrow> ('k, 'v) lmap \<Rightarrow> ('k, 'v) lmap option" where
  "lm_touch a m = do { m \<leftarrow> lru_unlink a m; lru_push a m }"

lemma lm_touch_rep: "lm_rep H m (as @ (a, k, v) # bs) \<Longrightarrow> \<exists>m'. lm_touch a m = Some m' \<and> lm_rep H m' (as @ bs @ [(a, k, v)])"
  using lm_touch_ok [of H m as a k v bs] by (auto simp: lm_touch_def)

text \<open>Every hash function makes the chained table such a table.\<close>

interpretation chained: lru_table "lm_rep H" "\<lambda>k. lm_find k (H k)" lm_touch set_val "\<lambda>cap k. lm_admit cap k (H k)"
  for H :: "'k \<Rightarrow> u64"
proof unfold_locales
  fix m :: "('k, 'v) lmap" and xs and as bs and a k v w cap
  show "lm_rep H m xs \<Longrightarrow> distinct (map (fst \<circ> snd) xs)"
    unfolding lm_rep_def by (blast dest: storedD(2))
  show "lm_rep H m xs \<Longrightarrow> (a, k, v) \<in> set xs \<Longrightarrow> lm_find k (H k) m = Some (Some a)"
    unfolding lm_rep_def by (elim conjE) (rule lm_find_in)
  show "lm_rep H m xs \<Longrightarrow> k \<notin> fst ` snd ` set xs \<Longrightarrow> lm_find k (H k) m = Some None"
    unfolding lm_rep_def by (intro lm_find_out) force+
  show "lm_rep H m (as @ (a, k, v) # bs) \<Longrightarrow> \<exists>m'. lm_touch a m = Some m' \<and> lm_rep H m' (as @ bs @ [(a, k, v)])"
    by (rule lm_touch_rep)
  show "lm_rep H m (as @ (a, k, v) # bs) \<Longrightarrow> \<exists>m'. set_val a w m = Some m' \<and> lm_rep H m' (as @ (a, k, w) # bs)"
    using set_val_ok [of H m as a k v bs w] by blast
  show "lm_rep H m xs \<Longrightarrow> k \<notin> fst ` snd ` set xs \<Longrightarrow> 0 < unat cap \<Longrightarrow> unat cap \<le> 2 ^ 28 \<Longrightarrow> length xs \<le> unat cap \<Longrightarrow>
      \<exists>a m'. lm_admit cap k (H k) v m = Some (a, unat cap \<le> length xs, m') \<and>
        lm_rep H m' ((if unat cap \<le> length xs then tl xs else xs) @ [(a, k, v)])"
    using lm_admit_ok [of H m xs k cap v] by blast
qed

end
