(* ===== verification/Corr_Model.thy ===== *)
theory Corr_Model
  imports C_Stdlib Lru_Map
begin

text \<open>
  The data of the correlation engine (\<open>src/src/classify_corr.h\<close>): rules, caps, counters and
  fired activations, the fidelity tiers, and the hashes of \<open>src/src/classify_corr.c\<close>.
  A C string is its characters before the NUL and a null pointer is \<open>None\<close>; an array with its
  length is a list, null and empty alike. \<open>int32_t\<close> and \<open>int64_t\<close> fields that the code only
  compares or converts are integers.
\<close>

section \<open>Rules\<close>

text \<open>\<open>CORR_TYPE_MAX\<close> marks an unknown type (\<open>CORR_TYPE__MAX\<close>).\<close>

datatype corr_type =
    CORR_EVENT_COUNT | CORR_VALUE_COUNT | CORR_TEMPORAL | CORR_TEMPORAL_ORDERED | CORR_VALUE_SUM
  | CORR_VALUE_AVG | CORR_BEACONING | CORR_VALUE_PERCENTILE | CORR_VALUE_MEDIAN | CORR_TYPE_MAX

datatype corr_op = CORR_OP_GTE | CORR_OP_GT | CORR_OP_LTE | CORR_OP_LT | CORR_OP_EQ

text \<open>A condition token; \<open>C_BAD\<close> stands for every other value of the \<open>kind\<close> byte.\<close>

datatype corr_ctok = C_SEL u32 | C_AND | C_OR | C_NOT | C_BAD

text \<open>
  \<open>r_group_by\<close> and each aliased list hold \<open>n_group_by\<close> field names; a null array of names is a
  list of nulls.
\<close>

record corr_rule =
  r_id :: "bytes option"
  r_title :: "bytes option"
  r_type :: corr_type
  r_base :: "u32 list"
  r_ordered :: "u32 list"
  r_group_by :: "bytes option list"
  r_alias :: "bytes option list option list"
  r_value_field :: "bytes option"
  r_op :: corr_op
  r_count :: int
  r_timespan :: int
  r_level :: "bytes option"
  r_mitre :: "bytes option"
  r_cond :: "corr_ctok list"
  r_cv_permille :: int
  r_n_buckets :: int
  r_percentile :: int

section \<open>Caps, counters and fires\<close>

record corr_caps =
  max_groups :: u32
  max_distinct :: u32
  max_events_per_group :: u32
  sweep_interval_s :: f64
  event_time_ordering :: bool
  watermark_s :: f64

definition corr_caps_default :: corr_caps where
  "corr_caps_default = \<lparr>max_groups = 50000, max_distinct = 10000, max_events_per_group = 4096,
     sweep_interval_s = Fin 30, event_time_ordering = False, watermark_s = Fin 0\<rparr>"

record corr_stats =
  groups_evicted :: u64
  distinct_evicted :: u64
  events_overwritten :: u64
  fires_suppressed :: u64
  fires_truncated :: u64
  rules_rejected :: u64
  event_skipped_missing_field :: u64
  seen_truncated :: u64
  hits_truncated :: u64
  group_evidence_dropped :: u64
  oom_dropped :: u64
  values_nonnumeric :: u64
  cond_over_arity :: u64
  watermark_late :: u64
  hotkey_fallback :: u64

definition zero_stats :: corr_stats where
  "zero_stats = \<lparr>groups_evicted = 0, distinct_evicted = 0, events_overwritten = 0, fires_suppressed = 0, fires_truncated = 0,
     rules_rejected = 0, event_skipped_missing_field = 0, seen_truncated = 0, hits_truncated = 0, group_evidence_dropped = 0,
     oom_dropped = 0, values_nonnumeric = 0, cond_over_arity = 0, watermark_late = 0, hotkey_fallback = 0\<rparr>"

datatype corr_tier = CORR_TIER_WEAK | CORR_TIER_STRONG

record corr_fire =
  f_rule_id :: "bytes option"
  f_title :: "bytes option"
  f_type :: corr_type
  f_technique :: "bytes option"
  f_level :: bytes
  f_tier :: corr_tier
  f_weight :: f64
  f_group_by :: "bytes option list"
  f_group :: "bytes list option"
  f_observed :: int
  f_threshold :: int
  f_value_field :: "bytes option"
  f_base :: "u32 list"
  f_remote :: bool

section \<open>Fidelity tiers\<close>

definition corr_tier_name :: "corr_tier \<Rightarrow> bytes" where
  "corr_tier_name t = (if t = CORR_TIER_STRONG then lit ''strong'' else lit ''weak'')"

definition corr_tier_weight :: "corr_tier \<Rightarrow> f64" where
  "corr_tier_weight t = (if t = CORR_TIER_STRONG then rnd (6 / 10) else rnd (3 / 10))"

fun str_ieq :: "bytes \<Rightarrow> bytes \<Rightarrow> bool" where
  "str_ieq (a # as) (b # bs) = (if c_lower a \<noteq> c_lower b then False else str_ieq as bs)"
| "str_ieq as bs = (as = [] \<and> bs = [])"

definition corr_tier_for :: "corr_type \<Rightarrow> bytes option \<Rightarrow> corr_tier" where
  "corr_tier_for ty level =
     (if ty = CORR_TEMPORAL \<or> ty = CORR_TEMPORAL_ORDERED \<or> ty = CORR_BEACONING then CORR_TIER_STRONG
      else
        let lvl = (case level of Some l \<Rightarrow> if l \<noteq> [] then l else lit ''medium'' | None \<Rightarrow> lit ''medium'') in
        if str_ieq lvl (lit ''high'') \<or> str_ieq lvl (lit ''critical'') then CORR_TIER_STRONG else CORR_TIER_WEAK)"

section \<open>Hashes\<close>

definition fnv_step :: "u64 \<Rightarrow> u8 \<Rightarrow> u64" where
  "fnv_step h b = (h XOR ucast b) * 1099511628211"

definition fnv1a :: "bytes \<Rightarrow> u64" where
  "fnv1a s = foldl fnv_step 1469598103934665603 s"

text \<open>Every component is followed by a NUL.\<close>

definition hash_group_key :: "bytes list \<Rightarrow> u64" where
  "hash_group_key vals = foldl (\<lambda>h v. fnv_step (foldl fnv_step h v) 0) 1469598103934665603 vals"

fun group_key_eq :: "bytes list \<Rightarrow> bytes list \<Rightarrow> bool" where
  "group_key_eq (a # as) (b # bs) = (if a \<noteq> b then False else group_key_eq as bs)"
| "group_key_eq _ _ = True"

section \<open>Properties of the helpers\<close>

lemma str_ieq_iff: "str_ieq as bs \<longleftrightarrow> map c_lower as = map c_lower bs"
  by (induction as bs rule: str_ieq.induct) auto

lemma group_key_eq_iff: "length as = length bs \<Longrightarrow> group_key_eq as bs \<longleftrightarrow> as = bs"
  by (induction as bs rule: group_key_eq.induct) auto

text \<open>The group hash is the byte hash of the values with their terminators.\<close>

lemma hash_group_key_eq: "hash_group_key vals = fnv1a (concat (map (\<lambda>v. v @ [0]) vals))"
proof -
  have "foldl (\<lambda>h v. fnv_step (foldl fnv_step h v) 0) h vals = foldl fnv_step h (concat (map (\<lambda>v. v @ [0]) vals))" for h
    by (induction vals arbitrary: h) simp_all
  then show ?thesis by (simp add: hash_group_key_def fnv1a_def)
qed

text \<open>The terminated values determine the key, so keys are only confused by a hash collision.\<close>

lemma terminated_inj:
  assumes "length as = length bs" "\<forall>v \<in> set as \<union> set bs. 0 \<notin> set v"
    "concat (map (\<lambda>v. v @ [0 :: u8]) as) = concat (map (\<lambda>v. v @ [0]) bs)"
  shows "as = bs"
  using assms
proof (induction as bs rule: list_induct2)
  case (Cons a as b bs)
  have split: "takeWhile (\<lambda>c. c \<noteq> 0) (v @ 0 # r) = v" if "0 \<notin> set v" for v r :: bytes
    using that by (induction v) auto
  let ?ra = "concat (map (\<lambda>v. v @ [0]) as)" and ?rb = "concat (map (\<lambda>v. v @ [0]) bs)"
  have e: "a @ 0 # ?ra = b @ 0 # ?rb" using Cons.prems(2) by simp
  have n: "0 \<notin> set a" "0 \<notin> set b" using Cons.prems(1) by simp_all
  have ab: "a = b" using arg_cong [OF e, of "takeWhile (\<lambda>c. c \<noteq> 0)"] split [OF n(1), of ?ra] split [OF n(2), of ?rb] by metis
  with e have "?ra = ?rb" by simp
  with Cons.IH Cons.prems(1) ab show ?case by simp
qed simp

section \<open>A sample\<close>

text \<open>A rule and caps with which the properties are applied.\<close>

definition sample_rule :: corr_rule where
  "sample_rule = \<lparr>r_id = Some (lit ''s1''), r_title = None, r_type = CORR_EVENT_COUNT, r_base = [7], r_ordered = [],
     r_group_by = [], r_alias = [], r_value_field = None, r_op = CORR_OP_GTE, r_count = 2, r_timespan = 10, r_level = None,
     r_mitre = None, r_cond = [], r_cv_permille = 100, r_n_buckets = 0, r_percentile = 0\<rparr>"

definition sample_caps :: corr_caps where
  "sample_caps = \<lparr>max_groups = 4, max_distinct = 4, max_events_per_group = 4, sweep_interval_s = Fin 30,
     event_time_ordering = False, watermark_s = Fin 0\<rparr>"

lemma sample_simps [simp]:
  "r_type sample_rule = CORR_EVENT_COUNT" "r_base sample_rule = [7]" "r_ordered sample_rule = []" "r_op sample_rule = CORR_OP_GTE"
  "r_count sample_rule = 2" "r_timespan sample_rule = 10" "r_cond sample_rule = []" "r_cv_permille sample_rule = 100"
  "r_n_buckets sample_rule = 0" "max_groups sample_caps = 4" "max_distinct sample_caps = 4" "max_events_per_group sample_caps = 4"
  by (simp_all add: sample_rule_def sample_caps_def)

lemma f64_ten: "f64_of_int 10 = Fin 10"
  using rnd_of_int [of 10] by (simp add: f64_of_int_def)

end
