(* ===== verification/Corr_Dset.thy ===== *)
theory Corr_Dset
  imports Corr_Model
begin

text \<open>
  The distinct values of a group (\<open>dset_*\<close> in \<open>src/src/classify_corr.c\<close>): a recency table from
  values to the time each was last seen, expired by time and capped in size.
\<close>

type_synonym dset = "(bytes, f64) lmap"

definition dset_init :: dset where
  "dset_init = lm_new 16"

definition dset_unlink_lru :: "nat \<Rightarrow> dset \<Rightarrow> dset option" where
  "dset_unlink_lru = lru_unlink"

definition dset_push_mru :: "nat \<Rightarrow> dset \<Rightarrow> dset option" where
  "dset_push_mru = lru_push"

definition dset_remove :: "nat \<Rightarrow> dset \<Rightarrow> dset option" where
  "dset_remove = lm_remove"

definition dset_find :: "bytes \<Rightarrow> u64 \<Rightarrow> dset \<Rightarrow> nat option option" where
  "dset_find = lm_find"

definition dset_grow :: "dset \<Rightarrow> dset option" where
  "dset_grow = lm_grow"

definition dset_expire :: "f64 \<Rightarrow> dset \<Rightarrow> dset option" where
  "dset_expire window_start d = lm_drop (\<lambda>ts. f64_lt ts window_start) (lm_head d) d"

definition dset_admit :: "u32 \<Rightarrow> bytes \<Rightarrow> u64 \<Rightarrow> f64 \<Rightarrow> dset \<Rightarrow> (nat \<times> bool \<times> dset) option" where
  "dset_admit = lm_admit"

definition dset_observe :: "dset \<Rightarrow> bytes \<Rightarrow> f64 \<Rightarrow> f64 \<Rightarrow> u32 \<Rightarrow> corr_stats \<Rightarrow> (u32 \<times> dset \<times> corr_stats) option" where
  "dset_observe d val ts window_start cap stats =
     do { d \<leftarrow> dset_expire window_start d;
          let h = fnv1a val;
          hit \<leftarrow> dset_find val h d;
          case hit of
            Some a \<Rightarrow>
              do { d \<leftarrow> set_val a ts d;
                   d \<leftarrow> dset_unlink_lru a d;
                   d \<leftarrow> dset_push_mru a d;
                   Some (lm_count d, d, stats) }
          | None \<Rightarrow>
              do { (a, ev, d) \<leftarrow> dset_admit cap val h ts d;
                   Some (lm_count d, d, if ev then stats\<lparr>distinct_evicted := distinct_evicted stats + 1\<rparr> else stats) } }"

lemmas dset_defs = dset_unlink_lru_def dset_push_mru_def dset_remove_def dset_find_def dset_grow_def dset_admit_def

section \<open>The values and their times\<close>

text \<open>The set holds these values with these times, least recently seen first.\<close>

definition dset_rep :: "dset \<Rightarrow> (bytes \<times> f64) list \<Rightarrow> bool" where
  "dset_rep d vs \<longleftrightarrow> (\<exists>xs. lm_rep fnv1a d xs \<and> map snd xs = vs)"

text \<open>What observing a value does, without hashing and pointers.\<close>

definition observe :: "bytes \<Rightarrow> f64 \<Rightarrow> f64 \<Rightarrow> nat \<Rightarrow> (bytes \<times> f64) list \<Rightarrow> (bytes \<times> f64) list" where
  "observe val ts window_start cap vs =
     (let live = filter (\<lambda>(_, t). \<not> f64_lt t window_start) vs in
      (if val \<in> fst ` set live then filter (\<lambda>(v, _). v \<noteq> val) live
       else if cap \<le> length live then tl live else live) @ [(val, ts)])"

text \<open>Whether the cap made it drop a value that was still in the window.\<close>

definition observe_evicts :: "bytes \<Rightarrow> f64 \<Rightarrow> nat \<Rightarrow> (bytes \<times> f64) list \<Rightarrow> bool" where
  "observe_evicts val window_start cap vs =
     (let live = filter (\<lambda>(_, t). \<not> f64_lt t window_start) vs in val \<notin> fst ` set live \<and> cap \<le> length live)"

lemma dset_init_rep: "dset_rep dset_init []"
  using lm_new_rep [of 16 fnv1a] by (auto simp: dset_rep_def dset_init_def)

lemma dset_rep_distinct: "dset_rep d vs \<Longrightarrow> distinct (map fst vs)"
  unfolding dset_rep_def using chained.keys_distinct by fastforce

lemma dset_count: "dset_rep d vs \<Longrightarrow> unat (lm_count d) = length vs"
  unfolding dset_rep_def lm_rep_def using stored_count by fastforce

lemma filter_other_key:
  assumes "distinct (map fst (as @ (k, v) # bs))"
  shows "filter (\<lambda>(x, _). x \<noteq> k) (as @ (k, v) # bs) = as @ bs"
proof -
  have "k \<notin> fst ` set as" "k \<notin> fst ` set bs" using assms by simp_all
  then have "filter (\<lambda>(x, _). x \<noteq> k) as = as" "filter (\<lambda>(x, _). x \<noteq> k) bs = bs"
    by (force simp: filter_id_conv)+
  then show ?thesis by simp
qed

lemma dset_observe_ok:
  assumes "dset_rep d vs" "0 < unat cap" "unat cap \<le> 2 ^ 28" "length vs \<le> unat cap"
  shows "\<exists>d'. dset_observe d val ts ws cap stats =
      Some (of_nat (length (observe val ts ws (unat cap) vs)), d',
        if observe_evicts val ws (unat cap) vs then stats\<lparr>distinct_evicted := distinct_evicted stats + 1\<rparr> else stats) \<and>
    dset_rep d' (observe val ts ws (unat cap) vs)"
proof -
  obtain xs where xs: "lm_rep fnv1a d xs" "map snd xs = vs" using assms(1) by (auto simp: dset_rep_def)
  define ys where "ys = filter (\<lambda>(a, k, v). \<not> f64_lt v ws) xs"
  define live where "live = filter (\<lambda>(_, t). \<not> f64_lt t ws) vs"
  have live: "map snd ys = live"
    unfolding ys_def live_def xs(2) [symmetric] by (induction xs) auto
  have "lm_head d = first (map fst xs) None" using xs(1) by (simp add: lm_rep_def linked_def)
  then obtain d1 where d1: "dset_expire ws d = Some d1" "lm_rep fnv1a d1 ys"
    using lm_drop_ok [of fnv1a d "[]" xs "lm_head d" "\<lambda>ts. f64_lt ts ws"] xs(1) by (auto simp: dset_expire_def ys_def)
  have "length ys \<le> length xs" unfolding ys_def by (rule length_filter_le)
  then have len: "length ys \<le> unat cap" using assms(4) by (simp flip: xs(2))
  have ll: "length live = length ys" by (simp flip: live)
  show ?thesis
  proof (rule chained.get_or_admit [OF d1(2) assms(2,3) len, of val])
    fix as a v bs d2
    assume ys: "ys = as @ (a, val, v) # bs" and f: "lm_find val (fnv1a val) d1 = Some (Some a)"
    obtain d3 where d3: "set_val a ts d1 = Some d3" "lm_rep fnv1a d3 (as @ (a, val, ts) # bs)"
      using chained.put [of fnv1a d1 as a val v bs ts] d1(2) ys by auto
    obtain d4 where d4: "lm_touch a d3 = Some d4" "lm_rep fnv1a d4 (as @ bs @ [(a, val, ts)])"
      using chained.touch [OF d3(2)] by blast
    have lv: "live = map snd as @ (val, v) # map snd bs" using live ys by simp
    have "distinct (map fst live)"
      using chained.keys_distinct [OF d1(2)] live by (metis map_map)
    then have "observe val ts ws (unat cap) vs = map snd (as @ bs @ [(a, val, ts)])"
      using filter_other_key [of "map snd as" val v "map snd bs"] lv
      by (simp add: observe_def live_def [symmetric])
    moreover have "\<not> observe_evicts val ws (unat cap) vs" by (simp add: observe_evicts_def live_def [symmetric] lv)
    moreover have "lm_count d4 = of_nat (length (as @ bs @ [(a, val, ts)]))"
      using d4(2) storedD(5) unfolding lm_rep_def by blast
    moreover have "dset_observe d val ts ws cap stats = Some (lm_count d4, d4, stats)"
      using d1(1) f d3(1) d4(1) by (auto simp: dset_observe_def dset_defs lm_touch_def Let_def split: bind_splits)
    ultimately show ?thesis using d4(2) unfolding dset_rep_def by fastforce
  next
    fix a d2
    let ?zs = "(if unat cap \<le> length ys then tl ys else ys) @ [(a, val, ts)]"
    assume out: "val \<notin> fst ` snd ` set ys" and f: "lm_find val (fnv1a val) d1 = Some None"
      and ad: "lm_admit cap val (fnv1a val) ts d1 = Some (a, unat cap \<le> length ys, d2)" and rep: "lm_rep fnv1a d2 ?zs"
    have "val \<notin> fst ` set live" using out by (simp flip: live)
    then have "observe val ts ws (unat cap) vs = map snd ?zs" "observe_evicts val ws (unat cap) vs = (unat cap \<le> length ys)"
      using ll by (simp_all add: observe_def observe_evicts_def live_def [symmetric] map_tl flip: live)
    moreover have "lm_count d2 = of_nat (length ?zs)"
      using rep storedD(5) unfolding lm_rep_def by blast
    moreover have "dset_observe d val ts ws cap stats = Some (lm_count d2, d2,
        if unat cap \<le> length ys then stats\<lparr>distinct_evicted := distinct_evicted stats + 1\<rparr> else stats)"
      using d1(1) f ad by (simp add: dset_observe_def dset_defs Let_def)
    ultimately show ?thesis using rep unfolding dset_rep_def by fastforce
  qed
qed

lemma observe_length:
  assumes "length vs \<le> cap" "0 < cap"
  shows "length (observe val ts ws cap vs) \<le> cap"
proof -
  define live where "live = filter (\<lambda>(_, t). \<not> f64_lt t ws) vs"
  have "length live \<le> cap" unfolding live_def using assms(1) length_filter_le le_trans by blast
  moreover have "length (filter (\<lambda>(v, _). v \<noteq> val) live) < length live" if v: "val \<in> fst ` set live"
  proof -
    obtain t where "(val, t) \<in> set live" using v by auto
    then show ?thesis by (rule length_filter_less) simp
  qed
  ultimately show ?thesis
    using assms(2) unfolding observe_def live_def [symmetric] Let_def by (cases "val \<in> fst ` set live") (simp_all, arith)
qed

text \<open>
  Below the cap the set is exactly the values last seen inside the window: the sequence of
  observations determines it.
\<close>

lemma observe_map_of:
  assumes "distinct (map fst vs)" "length vs < cap"
  shows "map_of (observe val ts ws cap vs) x =
    (if x = val then Some ts else case map_of vs x of Some t \<Rightarrow> if f64_lt t ws then None else Some t | None \<Rightarrow> None)"
proof -
  define live where "live = filter (\<lambda>(_, t). \<not> f64_lt t ws) vs"
  have live: "map_of live x = (case map_of vs x of Some t \<Rightarrow> if f64_lt t ws then None else Some t | None \<Rightarrow> None)" for x
    using assms(1) unfolding live_def
  proof (induction vs)
    case (Cons y ys)
    have "map_of ys (fst y) = None" using Cons.prems by (simp add: map_of_eq_None_iff)
    moreover have "fst y \<notin> fst ` set (filter (\<lambda>(_, t). \<not> f64_lt t ws) ys)" using Cons.prems by auto
    ultimately show ?case using Cons by (cases y) (auto simp: map_of_eq_None_iff)
  qed simp
  have "length live \<le> length vs" unfolding live_def by (rule length_filter_le)
  with assms(2) have nf: "\<not> cap \<le> length live" by simp
  have "map_of (filter (\<lambda>(v, _). v \<noteq> val) live) x = map_of live x" if "x \<noteq> val"
    using that by (induction live) auto
  moreover have "map_of (filter (\<lambda>(v, _). v \<noteq> val) live) val = None" by (auto simp: map_of_eq_None_iff)
  moreover have "map_of live val = None" if "val \<notin> fst ` set live" using that by (simp add: map_of_eq_None_iff)
  ultimately show ?thesis
    using nf by (auto simp: observe_def live_def [symmetric] Let_def map_add_def live split: option.split)
qed

section \<open>Property\<close>

text \<open>
  C34. The distinct-value set, with its hash chains, its recency list, its growth and its
  eviction, behaves like a list of values with their last times: observing a value drops what
  is older than the window, then the least recent value when a new one finds the set full, and
  puts the value at the recent end; the count returned is the length of that list.
\<close>

theorem dset_observe_refines:
  assumes "dset_rep d vs" "0 < unat cap" "unat cap \<le> 2 ^ 28" "length vs \<le> unat cap"
  shows "\<exists>d'. dset_observe d val ts ws cap stats =
      Some (of_nat (length (observe val ts ws (unat cap) vs)), d',
        if observe_evicts val ws (unat cap) vs then stats\<lparr>distinct_evicted := distinct_evicted stats + 1\<rparr> else stats) \<and>
    dset_rep d' (observe val ts ws (unat cap) vs) \<and> length (observe val ts ws (unat cap) vs) \<le> unat cap"
  using dset_observe_ok [OF assms] observe_length [OF assms(4,2)] by blast

theorem dset_observe_refines_witness:
  "\<exists>d'. dset_observe dset_init [97] (Fin 5) (Fin 2) 4 zero_stats = Some (1, d', zero_stats) \<and> dset_rep d' [([97], Fin 5)]"
  using dset_observe_refines [OF dset_init_rep, of 4 "[97]" "Fin 5" "Fin 2" zero_stats] by (simp add: observe_def observe_evicts_def)

end
