(* ===== verification/Corr_Groups.thy ===== *)
theory Corr_Groups
  imports Corr_Dset
begin

text \<open>
  The groups of a correlation (\<open>group_t\<close> and \<open>cstate_*\<close> in \<open>src/src/classify_corr.c\<close>): the
  window state of one tuple of group-by values, and the capped recency table of all groups.
  Allocation succeeds. The arrays of a group are lists; \<open>seen_rid\<close>/\<open>seen_ts\<close> and \<open>wm\<close>, of which
  the code uses a prefix, are the lists of their used entries.
\<close>

record group =
  ev_ts :: "f64 list"
  ev_cap :: u32
  ev_head :: u32
  ev_len :: u32
  bbuckets :: "(u32 \<times> u32) list option"
  ev_val :: "f64 list option"
  distinct_set :: dset
  seen :: "(u32 \<times> f64) list"
  ordered_progress :: u32
  ordered_anchor_ts :: f64
  ordered_last_ts :: f64
  last_update :: f64
  fired_until :: f64
  merge_sum :: f64
  merge_n :: u32
  merge_seen :: u64
  merge_remote :: bool
  wm :: "(f64 \<times> u32) list"
  wm_max_ts :: f64

definition group_new :: "u32 \<Rightarrow> group" where
  "group_new cap =
     (let n = (if cap \<noteq> 0 then cap else 1) in
      \<lparr>ev_ts = replicate (unat n) (Fin 0), ev_cap = n, ev_head = 0, ev_len = 0, bbuckets = None, ev_val = None,
       distinct_set = dset_init, seen = [], ordered_progress = 0, ordered_anchor_ts = Fin 0, ordered_last_ts = Fin 0,
       last_update = Fin 0, fired_until = Fin 0, merge_sum = Fin 0, merge_n = 0, merge_seen = 0, merge_remote = False,
       wm = [], wm_max_ts = Fin 0\<rparr>)"

type_synonym cstate_map = "(bytes list, group) lmap"

record corr_state =
  st_rule :: corr_rule
  st_map :: cstate_map

definition cstate_unlink_lru :: "nat \<Rightarrow> cstate_map \<Rightarrow> cstate_map option" where
  "cstate_unlink_lru = lru_unlink"

definition cstate_push_mru :: "nat \<Rightarrow> cstate_map \<Rightarrow> cstate_map option" where
  "cstate_push_mru = lru_push"

definition cstate_remove :: "nat \<Rightarrow> cstate_map \<Rightarrow> cstate_map option" where
  "cstate_remove = lm_remove"

definition cstate_grow :: "cstate_map \<Rightarrow> cstate_map option" where
  "cstate_grow = lm_grow"

definition cstate_find :: "bytes list \<Rightarrow> u64 \<Rightarrow> cstate_map \<Rightarrow> nat option option" where
  "cstate_find = lm_find"

definition cstate_admit :: "u32 \<Rightarrow> bytes list \<Rightarrow> u64 \<Rightarrow> group \<Rightarrow> cstate_map \<Rightarrow> (nat \<times> bool \<times> cstate_map) option" where
  "cstate_admit = lm_admit"

lemmas cstate_defs = cstate_unlink_lru_def cstate_push_mru_def cstate_remove_def cstate_grow_def cstate_find_def cstate_admit_def

definition cstate_get_or_create ::
  "corr_caps \<Rightarrow> bytes list \<Rightarrow> cstate_map \<Rightarrow> corr_stats \<Rightarrow> (nat \<times> cstate_map \<times> corr_stats) option" where
  "cstate_get_or_create caps vals m stats =
     do { let h = hash_group_key vals;
          hit \<leftarrow> cstate_find vals h m;
          case hit of
            Some a \<Rightarrow>
              do { m \<leftarrow> cstate_unlink_lru a m;
                   m \<leftarrow> cstate_push_mru a m;
                   Some (a, m, stats) }
          | None \<Rightarrow>
              do { (a, ev, m) \<leftarrow> cstate_admit (max_groups caps) vals h (group_new (max_events_per_group caps)) m;
                   Some (a, m, if ev then stats\<lparr>groups_evicted := groups_evicted stats + 1\<rparr> else stats) } }"

definition cstate_drop_expired :: "f64 \<Rightarrow> cstate_map \<Rightarrow> cstate_map option" where
  "cstate_drop_expired horizon m = lm_drop (\<lambda>g. f64_lt (last_update g) horizon) (lm_head m) m"

section \<open>The groups and their state\<close>

text \<open>The groups with their keys, least recently used first.\<close>

definition groups_rep :: "cstate_map \<Rightarrow> (bytes list \<times> group) list \<Rightarrow> bool" where
  "groups_rep m gs \<longleftrightarrow> (\<exists>xs. lm_rep hash_group_key m xs \<and> map snd xs = gs)"

definition get_group :: "nat \<Rightarrow> bytes list \<Rightarrow> group \<Rightarrow> (bytes list \<times> group) list \<Rightarrow> (bytes list \<times> group) list" where
  "get_group cap k new gs =
     (case map_of gs k of
        Some g \<Rightarrow> filter (\<lambda>(x, _). x \<noteq> k) gs @ [(k, g)]
      | None \<Rightarrow> (if cap \<le> length gs then tl gs else gs) @ [(k, new)])"

definition get_evicts :: "nat \<Rightarrow> bytes list \<Rightarrow> (bytes list \<times> group) list \<Rightarrow> bool" where
  "get_evicts cap k gs \<longleftrightarrow> map_of gs k = None \<and> cap \<le> length gs"

text \<open>The node at \<open>a\<close> is the most recently used one, and holds the last of the groups.\<close>

definition at_last :: "nat \<Rightarrow> cstate_map \<Rightarrow> (bytes list \<times> group) list \<Rightarrow> bool" where
  "at_last a m gs \<longleftrightarrow> (\<exists>xs k g. lm_rep hash_group_key m (xs @ [(a, k, g)]) \<and> map snd xs @ [(k, g)] = gs)"

lemma at_last_rep: "at_last a m gs \<Longrightarrow> groups_rep m gs"
  unfolding at_last_def groups_rep_def by force

lemma groups_distinct: "groups_rep m gs \<Longrightarrow> distinct (map fst gs)"
  unfolding groups_rep_def using chained.keys_distinct by fastforce

lemma groups_count: "groups_rep m gs \<Longrightarrow> unat (lm_count m) = length gs"
  unfolding groups_rep_def lm_rep_def using stored_count by fastforce

lemma cstate_get_ok:
  fixes k :: "bytes list"
  assumes "groups_rep m gs" "0 < unat (max_groups caps)" "unat (max_groups caps) \<le> 2 ^ 28" "length gs \<le> unat (max_groups caps)"
  defines "gs' \<equiv> get_group (unat (max_groups caps)) k (group_new (max_events_per_group caps)) gs"
  shows "\<exists>a m'. cstate_get_or_create caps k m stats = Some (a, m',
      if get_evicts (unat (max_groups caps)) k gs then stats\<lparr>groups_evicted := groups_evicted stats + 1\<rparr> else stats) \<and>
    at_last a m' gs'"
proof -
  obtain xs where xs: "lm_rep hash_group_key m xs" "map snd xs = gs" using assms(1) by (auto simp: groups_rep_def)
  have len: "length xs \<le> unat (max_groups caps)" using assms(4) by (simp flip: xs(2))
  have ds: "distinct (map fst gs)" by (rule groups_distinct [OF assms(1)])
  show ?thesis
  proof (rule chained.get_or_admit [OF xs(1) assms(2,3) len, of k])
    fix as a g bs m'
    assume e: "xs = as @ (a, k, g) # bs" and f: "lm_find k (hash_group_key k) m = Some (Some a)"
      and t: "lm_touch a m = Some m'" and rep: "lm_rep hash_group_key m' (as @ bs @ [(a, k, g)])"
    have gs: "gs = map snd as @ (k, g) # map snd bs" using xs(2) e by simp
    then have kg: "map_of gs k = Some g" using ds by (intro map_of_is_SomeI) simp_all
    then have "gs' = map snd as @ map snd bs @ [(k, g)]"
      using filter_other_key [of "map snd as" k g "map snd bs"] ds gs by (simp add: gs'_def get_group_def)
    moreover have "\<not> get_evicts (unat (max_groups caps)) k gs" by (simp add: get_evicts_def kg)
    moreover have "cstate_get_or_create caps k m stats = Some (a, m', stats)"
      using f t by (auto simp: cstate_get_or_create_def cstate_defs lm_touch_def Let_def split: bind_splits)
    moreover have "lm_rep hash_group_key m' ((as @ bs) @ [(a, k, g)])" using rep by simp
    ultimately show ?thesis unfolding at_last_def by fastforce
  next
    fix a m'
    let ?new = "group_new (max_events_per_group caps)"
    assume out: "k \<notin> fst ` snd ` set xs" and f: "lm_find k (hash_group_key k) m = Some None"
      and ad: "lm_admit (max_groups caps) k (hash_group_key k) ?new m = Some (a, unat (max_groups caps) \<le> length xs, m')"
      and rep: "lm_rep hash_group_key m' ((if unat (max_groups caps) \<le> length xs then tl xs else xs) @ [(a, k, ?new)])"
    have "k \<notin> fst ` set gs" using out by (simp flip: xs(2))
    then have kg: "map_of gs k = None" by (simp add: map_of_eq_None_iff)
    have "length gs = length xs" by (simp flip: xs(2))
    then have gs': "gs' = map snd (if unat (max_groups caps) \<le> length xs then tl xs else xs) @ [(k, ?new)]"
      and ev: "get_evicts (unat (max_groups caps)) k gs = (unat (max_groups caps) \<le> length xs)"
      using kg by (simp_all add: gs'_def get_group_def get_evicts_def map_tl flip: xs(2))
    have "cstate_get_or_create caps k m stats = Some (a, m',
        if unat (max_groups caps) \<le> length xs then stats\<lparr>groups_evicted := groups_evicted stats + 1\<rparr> else stats)"
      using f ad by (simp add: cstate_get_or_create_def cstate_defs Let_def)
    moreover have "at_last a m' gs'" using rep unfolding at_last_def gs' by blast
    ultimately show ?thesis unfolding ev by blast
  qed
qed

text \<open>The state of the group just fetched is read and written through its address.\<close>

lemma at_last_read:
  assumes "at_last a m (gs @ [(k, g)])"
  obtains n where "lm_heap m a = Some n" "n_val n = g"
proof -
  obtain xs where "lm_rep hash_group_key m (xs @ [(a, k, g)])" "map snd xs = gs"
    using assms by (auto simp: at_last_def)
  then have "stored hash_group_key m (xs @ [(a, k, g)])" by (simp add: lm_rep_def)
  then obtain n where "lm_heap m a = Some n" "n_val n = g" by (rule stored_node [of _ _ _ a k g]) simp_all
  then show ?thesis by (rule that)
qed

lemma at_last_write:
  assumes "at_last a m (gs @ [(k, g)])"
  obtains m' where "set_val a g' m = Some m'" "at_last a m' (gs @ [(k, g')])"
proof -
  obtain xs where xs: "lm_rep hash_group_key m (xs @ [(a, k, g)])" "map snd xs = gs"
    using assms by (auto simp: at_last_def)
  obtain m' where "set_val a g' m = Some m'" "lm_rep hash_group_key m' (xs @ [(a, k, g')])"
    by (rule chained.put_last [OF xs(1)])
  with xs(2) show ?thesis using that unfolding at_last_def by blast
qed

lemma cstate_drop_ok:
  assumes "groups_rep m gs"
  shows "\<exists>m'. cstate_drop_expired horizon m = Some m' \<and>
    groups_rep m' (filter (\<lambda>(_, g). \<not> f64_lt (last_update g) horizon) gs)"
proof -
  obtain xs where xs: "lm_rep hash_group_key m xs" "map snd xs = gs" using assms by (auto simp: groups_rep_def)
  have "lm_head m = first (map fst xs) None" using xs(1) by (simp add: lm_rep_def linked_def)
  then obtain m' where "cstate_drop_expired horizon m = Some m'"
    "lm_rep hash_group_key m' (filter (\<lambda>(a, k, g). \<not> f64_lt (last_update g) horizon) xs)"
    using lm_drop_ok [of hash_group_key m "[]" xs "lm_head m"] xs(1) by (auto simp: cstate_drop_expired_def)
  moreover have "map snd (filter (\<lambda>(a, k, g). \<not> f64_lt (last_update g) horizon) xs) =
      filter (\<lambda>(_, g). \<not> f64_lt (last_update g) horizon) gs"
    unfolding xs(2) [symmetric] by (induction xs) auto
  ultimately show ?thesis unfolding groups_rep_def by blast
qed

lemma get_group_length:
  assumes "length gs \<le> cap" "0 < cap"
  shows "length (get_group cap k new gs) \<le> cap"
proof (cases "map_of gs k")
  case (Some g)
  then have "(k, g) \<in> set gs" by (rule map_of_SomeD)
  then have "length (filter (\<lambda>(x, _). x \<noteq> k) gs) < length gs" by (rule length_filter_less) simp
  with Some assms show ?thesis by (simp add: get_group_def)
next
  case None
  with assms show ?thesis by (auto simp: get_group_def)
qed

section \<open>Property\<close>

text \<open>
  C33. The group map behaves like a list of groups in recency order: a lookup finds the group of
  the key or admits a new one, pushing out the least recent group when the map is full, and
  moves it to the recent end; the sweep drops exactly the groups last updated before the horizon.
\<close>

theorem group_map_refines:
  fixes k :: "bytes list"
  assumes "groups_rep m gs" "0 < unat (max_groups caps)" "unat (max_groups caps) \<le> 2 ^ 28" "length gs \<le> unat (max_groups caps)"
  shows "(\<exists>a m'. cstate_get_or_create caps k m stats = Some (a, m',
        if get_evicts (unat (max_groups caps)) k gs then stats\<lparr>groups_evicted := groups_evicted stats + 1\<rparr> else stats) \<and>
      at_last a m' (get_group (unat (max_groups caps)) k (group_new (max_events_per_group caps)) gs)) \<and>
    length (get_group (unat (max_groups caps)) k (group_new (max_events_per_group caps)) gs) \<le> unat (max_groups caps) \<and>
    (\<exists>m'. cstate_drop_expired horizon m = Some m' \<and> groups_rep m' (filter (\<lambda>(_, g). \<not> f64_lt (last_update g) horizon) gs))"
  using cstate_get_ok [OF assms] cstate_drop_ok [OF assms(1)] get_group_length [OF assms(4,2)] by blast

theorem group_map_refines_witness:
  "\<exists>a m'. cstate_get_or_create sample_caps [[97]] (lm_new 16) zero_stats = Some (a, m', zero_stats) \<and> at_last a m' [([[97]], group_new 4)]"
proof -
  have "groups_rep (lm_new 16) []" using lm_new_rep [of 16 hash_group_key] by (auto simp: groups_rep_def)
  from group_map_refines [OF this, of sample_caps "[[97]]" zero_stats] show ?thesis by (simp add: get_evicts_def get_group_def)
qed

end
