(* ===== verification/Corr_Windows.thy ===== *)
theory Corr_Windows
  imports Corr_Groups
begin

text \<open>
  The window logic of each correlation type (\<open>eval_*\<close> in \<open>src/src/classify_corr.c\<close>). A function
  that reads or writes the arrays of a group runs in the option monad, where \<open>None\<close> is an access
  out of range or a conversion that C leaves undefined.
\<close>

section \<open>Thresholds\<close>

fun cmp_threshold :: "int \<Rightarrow> corr_op \<Rightarrow> int \<Rightarrow> bool" where
  "cmp_threshold observed CORR_OP_GTE n = (observed \<ge> n)"
| "cmp_threshold observed CORR_OP_GT n = (observed > n)"
| "cmp_threshold observed CORR_OP_LTE n = (observed \<le> n)"
| "cmp_threshold observed CORR_OP_LT n = (observed < n)"
| "cmp_threshold observed CORR_OP_EQ n = (observed = n)"

fun cond_satisfied_f :: "corr_op \<Rightarrow> f64 \<Rightarrow> f64 \<Rightarrow> bool" where
  "cond_satisfied_f CORR_OP_GTE val thr = f64_le thr val"
| "cond_satisfied_f CORR_OP_GT val thr = f64_lt thr val"
| "cond_satisfied_f CORR_OP_LTE val thr = f64_le val thr"
| "cond_satisfied_f CORR_OP_LT val thr = f64_lt val thr"
| "cond_satisfied_f CORR_OP_EQ val thr = f64_eq val thr"

section \<open>The event ring\<close>

text \<open>Store a time in the next slot; a full ring loses its oldest time, which is returned.\<close>

definition ring_slot :: "group \<Rightarrow> u32" where
  "ring_slot g = (if ev_len g = ev_cap g then ev_head g else (ev_head g + ev_len g) mod ev_cap g)"

definition ring_put :: "f64 \<Rightarrow> group \<Rightarrow> (group \<times> f64 option) option" where
  "ring_put now g =
     (if ev_len g = ev_cap g then
        do { oldest \<leftarrow> idx (ev_ts g) (unat (ev_head g));
             ts \<leftarrow> upd (ev_ts g) (unat (ring_slot g)) now;
             Some (g\<lparr>ev_ts := ts, ev_head := (ev_head g + 1) mod ev_cap g\<rparr>, Some oldest) }
      else
        do { ts \<leftarrow> upd (ev_ts g) (unat (ring_slot g)) now;
             Some (g\<lparr>ev_ts := ts, ev_len := ev_len g + 1\<rparr>, None) })"

definition count_overwrite :: "f64 \<Rightarrow> f64 \<Rightarrow> f64 option \<Rightarrow> corr_stats \<Rightarrow> corr_stats" where
  "count_overwrite now window_start old stats =
     (case old of
        None \<Rightarrow> stats
      | Some oldest \<Rightarrow>
          let stats = stats\<lparr>events_overwritten := events_overwritten stats + 1\<rparr> in
          if f64_lt (f64_add window_start (f64_mul (f64_sub now window_start) (Fin (1 / 2)))) oldest
          then stats\<lparr>hotkey_fallback := hotkey_fallback stats + 1\<rparr> else stats)"

text \<open>The loop runs at most once per stored time.\<close>

fun ev_prune_loop :: "nat \<Rightarrow> f64 \<Rightarrow> group \<Rightarrow> group option" where
  "ev_prune_loop 0 window_start g = Some g"
| "ev_prune_loop (Suc n) window_start g =
     (if ev_len g > 0 then
        do { t \<leftarrow> idx (ev_ts g) (unat (ev_head g));
             if f64_lt t window_start
             then ev_prune_loop n window_start (g\<lparr>ev_head := (ev_head g + 1) mod ev_cap g, ev_len := ev_len g - 1\<rparr>)
             else Some g }
      else Some g)"

definition ev_prune :: "f64 \<Rightarrow> group \<Rightarrow> group option" where
  "ev_prune window_start g = ev_prune_loop (unat (ev_len g)) window_start g"

definition ring_ix :: "group \<Rightarrow> nat \<Rightarrow> nat" where
  "ring_ix g i = unat ((ev_head g + of_nat i) mod ev_cap g)"

section \<open>Event count\<close>

definition eval_event_count :: "corr_rule \<Rightarrow> f64 \<Rightarrow> f64 \<Rightarrow> group \<Rightarrow> corr_stats \<Rightarrow> (bool \<times> group \<times> corr_stats) option" where
  "eval_event_count r now window_start g stats =
     do { (g, old) \<leftarrow> ring_put now g;
          let stats = count_overwrite now window_start old stats;
          g \<leftarrow> ev_prune window_start g;
          Some (cmp_threshold (uint (ev_len g) + uint (merge_n g)) (r_op r) (r_count r), g, stats) }"

section \<open>Value count\<close>

definition eval_value_count ::
  "corr_rule \<Rightarrow> bytes option \<Rightarrow> u32 \<Rightarrow> f64 \<Rightarrow> f64 \<Rightarrow> group \<Rightarrow> corr_stats \<Rightarrow> (bool \<times> group \<times> corr_stats) option" where
  "eval_value_count r vv cap now window_start g stats =
     (case vv of
        None \<Rightarrow> Some (False, g, stats)
      | Some v \<Rightarrow>
          do { (cnt, d, stats) \<leftarrow> dset_observe (distinct_set g) v now window_start cap stats;
               Some (cmp_threshold (uint cnt) (r_op r) (r_count r), g\<lparr>distinct_set := d\<rparr>, stats) })"

section \<open>Sums and averages\<close>

definition sg_to_f64 :: "bytes \<Rightarrow> f64 option" where
  "sg_to_f64 s =
     (if s = [] then None
      else let (v, k) = c_strtod s in if k = 0 \<or> \<not> f64_finite v then None else Some v)"

definition ev_push_val :: "f64 \<Rightarrow> f64 \<Rightarrow> f64 \<Rightarrow> group \<Rightarrow> corr_stats \<Rightarrow> (group \<times> corr_stats) option" where
  "ev_push_val now val window_start g stats =
     do { let vals = (case ev_val g of None \<Rightarrow> replicate (unat (ev_cap g)) (Fin 0) | Some vs \<Rightarrow> vs);
          vals \<leftarrow> upd vals (unat (ring_slot g)) val;
          (g, old) \<leftarrow> ring_put now (g\<lparr>ev_val := Some vals\<rparr>);
          let stats = count_overwrite now window_start old stats;
          g \<leftarrow> ev_prune window_start g;
          Some (g, stats) }"

text \<open>A value that is not a number only ages the window.\<close>

definition ev_take_value :: "bytes option \<Rightarrow> f64 \<Rightarrow> f64 \<Rightarrow> group \<Rightarrow> corr_stats \<Rightarrow> (group \<times> corr_stats) option" where
  "ev_take_value vv now window_start g stats =
     (case Option.bind vv sg_to_f64 of
        Some v \<Rightarrow> ev_push_val now v window_start g stats
      | None \<Rightarrow>
          do { g \<leftarrow> ev_prune window_start g;
               Some (g, stats\<lparr>values_nonnumeric := values_nonnumeric stats + 1\<rparr>) })"

definition ring_sum :: "group \<Rightarrow> f64 option" where
  "ring_sum g =
     (case ev_val g of
        None \<Rightarrow> Some (merge_sum g)
      | Some vs \<Rightarrow>
          mfold (\<lambda>i s. do { v \<leftarrow> idx vs (ring_ix g i); Some (f64_add s v) }) [0..<unat (ev_len g)] (merge_sum g))"

text \<open>The aggregate of the live window; an empty average has none.\<close>

definition window_agg :: "bool \<Rightarrow> group \<Rightarrow> f64 option option" where
  "window_agg is_avg g =
     do { sum \<leftarrow> ring_sum g;
          if is_avg then
            (let n = ev_len g + merge_n g in
             if n = 0 then Some None else Some (Some (f64_div sum (f64_of_int (uint n)))))
          else Some (Some sum) }"

definition eval_value_sum_avg ::
  "corr_rule \<Rightarrow> bytes option \<Rightarrow> bool \<Rightarrow> f64 \<Rightarrow> f64 \<Rightarrow> group \<Rightarrow> corr_stats \<Rightarrow> (bool \<times> f64 \<times> group \<times> corr_stats) option" where
  "eval_value_sum_avg r vv is_avg now window_start g stats =
     do { (g, stats) \<leftarrow> ev_take_value vv now window_start g stats;
          agg \<leftarrow> window_agg is_avg g;
          case agg of
            None \<Rightarrow> Some (False, Fin 0, g, stats)
          | Some a \<Rightarrow> Some (cond_satisfied_f (r_op r) a (f64_of_int (r_count r)), a, g, stats) }"

section \<open>Percentiles\<close>

text \<open>The order of \<open>cmp_dbl_asc\<close>, made linear by putting NaN last; no NaN is ever stored.\<close>

instantiation f64 :: linorder
begin

fun less_eq_f64 :: "f64 \<Rightarrow> f64 \<Rightarrow> bool" where
  "less_eq_f64 _ NaN = True"
| "less_eq_f64 NaN _ = False"
| "less_eq_f64 a b = f64_le a b"

definition less_f64 :: "f64 \<Rightarrow> f64 \<Rightarrow> bool" where
  "less_f64 a b \<longleftrightarrow> a \<le> b \<and> \<not> b \<le> a"

instance
proof
  fix x y z :: f64
  show "x < y \<longleftrightarrow> x \<le> y \<and> \<not> y \<le> x" by (simp add: less_f64_def)
  show "x \<le> x" by (cases x) auto
  show "x \<le> y \<Longrightarrow> y \<le> z \<Longrightarrow> x \<le> z" by (cases x; cases y; cases z) auto
  show "x \<le> y \<Longrightarrow> y \<le> x \<Longrightarrow> x = y" by (cases x; cases y) auto
  show "x \<le> y \<or> y \<le> x" by (cases x; cases y) auto
qed

end

definition cmp_dbl_asc :: "f64 \<Rightarrow> f64 \<Rightarrow> int" where
  "cmp_dbl_asc a b = (if f64_lt b a then 1 else 0) - (if f64_lt a b then 1 else 0)"

definition percentile_rank :: "int \<Rightarrow> u32 \<Rightarrow> u32" where
  "percentile_rank p n =
     (let i = ucast ((word_of_int p * ucast n + 99) div 100 :: u64);
          i = (if i = 0 then 1 else i) - 1
      in if i \<ge> n then n - 1 else i)"

definition eval_value_percentile ::
  "corr_rule \<Rightarrow> bytes option \<Rightarrow> f64 \<Rightarrow> f64 \<Rightarrow> group \<Rightarrow> corr_stats \<Rightarrow> u32 \<Rightarrow> (bool \<times> f64 \<times> group \<times> corr_stats) option" where
  "eval_value_percentile r vv now window_start g stats scratch_cap =
     do { (g, stats) \<leftarrow> ev_take_value vv now window_start g stats;
          case ev_val g of
            None \<Rightarrow> Some (False, Fin 0, g, stats)
          | Some vs \<Rightarrow>
              if ev_len g = 0 \<or> scratch_cap < ev_len g then Some (False, Fin 0, g, stats)
              else
                let p = (if r_type r = CORR_VALUE_MEDIAN then 50 else r_percentile r);
                    p = (if p \<le> 0 then 95 else p);
                    p = (if p > 100 then 100 else p) in
                do { scratch \<leftarrow> mfold (\<lambda>i s. do { v \<leftarrow> idx vs (ring_ix g i); Some (s @ [v]) }) [0..<unat (ev_len g)] [];
                     a \<leftarrow> idx (sort scratch) (unat (percentile_rank p (ev_len g)));
                     Some (cond_satisfied_f (r_op r) a (f64_of_int (r_count r)), a, g, stats) } }"

section \<open>Beaconing\<close>

text \<open>The tolerance test on the gaps: their variance against the squared tolerated deviation.\<close>

definition within_cv :: "corr_rule \<Rightarrow> f64 \<Rightarrow> f64 \<Rightarrow> bool" where
  "within_cv r mean var =
     (let tol = f64_div (f64_of_int (r_cv_permille r)) (Fin 1000);
          bound = f64_mul tol mean in
      f64_le var (f64_mul bound bound))"

text \<open>The regularity of the gaps between the times of the window.\<close>

definition add_gap :: "f64 \<Rightarrow> f64 \<times> f64 \<times> u32 \<Rightarrow> f64 \<times> f64 \<times> u32" where
  "add_gap t = (\<lambda>(sum, prev, ng). (f64_add sum (f64_sub t prev), t, ng + 1))"

definition add_deviation :: "f64 \<Rightarrow> f64 \<Rightarrow> f64 \<times> f64 \<Rightarrow> f64 \<times> f64" where
  "add_deviation mean t = (\<lambda>(var, prev). let d = f64_sub (f64_sub t prev) mean in (f64_add var (f64_mul d d), t))"

definition raw_cadence :: "corr_rule \<Rightarrow> group \<Rightarrow> bool option" where
  "raw_cadence r g =
     do { t0 \<leftarrow> idx (ev_ts g) (unat (ev_head g));
          (sum, _, ng) \<leftarrow> mfold (\<lambda>i s. do { t \<leftarrow> idx (ev_ts g) (ring_ix g i); Some (add_gap t s) })
            [1..<unat (ev_len g)] (Fin 0, t0, 0);
          let mean = f64_div sum (f64_of_int (uint ng));
          if ng = 0 \<or> f64_le mean (Fin 0) then Some False
          else do {
            (var, _) \<leftarrow> mfold (\<lambda>i s. do { t \<leftarrow> idx (ev_ts g) (ring_ix g i); Some (add_deviation mean t s) })
              [1..<unat (ev_len g)] (Fin 0, t0);
            Some (within_cv r mean (f64_div var (f64_of_int (uint ng)))) } }"

definition eval_beaconing_raw :: "corr_rule \<Rightarrow> f64 \<Rightarrow> f64 \<Rightarrow> group \<Rightarrow> corr_stats \<Rightarrow> (bool \<times> group \<times> corr_stats) option" where
  "eval_beaconing_raw r now window_start g stats =
     do { (g, old) \<leftarrow> ring_put now g;
          let stats = (if old = None then stats else stats\<lparr>events_overwritten := events_overwritten stats + 1\<rparr>);
          g \<leftarrow> ev_prune window_start g;
          if uint (ev_len g) < r_count r \<or> ev_len g < 3 then Some (False, g, stats)
          else map_option (\<lambda>f. (f, g, stats)) (raw_cadence r g) }"

text \<open>One slot of the activity histogram is an epoch and a count.\<close>

definition bucket_active :: "(u32 \<times> u32) list \<Rightarrow> u32 \<Rightarrow> u32 \<Rightarrow> bool option" where
  "bucket_active bb nb e = do { (ep, cnt) \<leftarrow> idx bb (unat (e mod nb)); Some (ep = e \<and> cnt > 0) }"

text \<open>
  First pass: the active epochs of the window with their number, the first, the last and the
  gaps between them. Second pass: the squared deviations of the gaps.
\<close>

definition beacon_pass1 ::
  "(u32 \<times> u32) list \<Rightarrow> u32 \<Rightarrow> u32 \<Rightarrow> u32 \<times> u32 \<times> u32 \<times> u32 option \<times> u32 \<times> f64 \<Rightarrow>
    (u32 \<times> u32 \<times> u32 \<times> u32 option \<times> u32 \<times> f64) option" where
  "beacon_pass1 bb nb e = (\<lambda>(active, first_e, last_e, prev, ngap, gap_sum).
     do { on \<leftarrow> bucket_active bb nb e;
          if \<not> on then Some (active, first_e, last_e, prev, ngap, gap_sum)
          else
            (let first_e = (if active = 0 then e else first_e) in
             case prev of
               Some p \<Rightarrow> Some (active + 1, first_e, e, Some e, ngap + 1, f64_add gap_sum (f64_of_int (uint (e - p))))
             | None \<Rightarrow> Some (active + 1, first_e, e, Some e, ngap, gap_sum)) })"

definition beacon_pass2 :: "(u32 \<times> u32) list \<Rightarrow> u32 \<Rightarrow> f64 \<Rightarrow> u32 \<Rightarrow> u32 option \<times> f64 \<Rightarrow> (u32 option \<times> f64) option" where
  "beacon_pass2 bb nb gap_mean e = (\<lambda>(prev, var).
     do { on \<leftarrow> bucket_active bb nb e;
          if \<not> on then Some (prev, var)
          else
            (case prev of
               Some p \<Rightarrow>
                 (let d = f64_sub (f64_of_int (uint (e - p))) gap_mean in Some (Some e, f64_add var (f64_mul d d)))
             | None \<Rightarrow> Some (Some e, var)) })"

definition eval_beaconing_bucketed :: "corr_rule \<Rightarrow> f64 \<Rightarrow> group \<Rightarrow> (bool \<times> group) option" where
  "eval_beaconing_bucketed r now g =
     (let nb = word_of_int (r_n_buckets r) :: u32;
          bb = (case bbuckets g of None \<Rightarrow> replicate (unat nb) (0, 0) | Some b \<Rightarrow> b);
          bucket_secs = f64_div (f64_of_int (r_timespan r)) (f64_of_int (uint nb)) in
      if f64_le bucket_secs (Fin 0) \<or> f64_lt now (Fin 0) then Some (False, g\<lparr>bbuckets := Some bb\<rparr>)
      else do {
        ne \<leftarrow> f64_trunc 0 (2 ^ 32 - 1) (f64_div now bucket_secs);
        let now_e = (word_of_int ne :: u32);
        let slot = unat (now_e mod nb);
        (ep, cnt0) \<leftarrow> idx bb slot;
        let cnt = (if ep \<noteq> now_e then 0 else cnt0);
        bb \<leftarrow> upd bb slot (now_e, if cnt < u32_max then cnt + 1 else cnt);
        let g = g\<lparr>bbuckets := Some bb\<rparr>;
        let win_start = (if now_e \<ge> nb - 1 then now_e - (nb - 1) else 0);
        let window = map of_nat [unat win_start..<Suc (unat now_e)];
        (active, first_e, last_e, _, ngap, gap_sum) \<leftarrow> mfold (beacon_pass1 bb nb) window (0, 0, 0, None, 0, Fin 0);
        if uint active < r_count r \<or> active < 3 then Some (False, g)
        else if unat active * 1000 < 700 * unat (last_e - first_e + 1) \<or> ngap = 0 then Some (False, g)
        else
          let gap_mean = f64_div gap_sum (f64_of_int (uint ngap)) in
          if f64_le gap_mean (Fin 0) then Some (False, g)
          else do {
            (_, var) \<leftarrow> mfold (beacon_pass2 bb nb gap_mean) window (None, Fin 0);
            Some (within_cv r gap_mean (f64_div var (f64_of_int (uint ngap))), g) } })"

definition eval_beaconing :: "corr_rule \<Rightarrow> f64 \<Rightarrow> f64 \<Rightarrow> group \<Rightarrow> corr_stats \<Rightarrow> (bool \<times> group \<times> corr_stats) option" where
  "eval_beaconing r now window_start g stats =
     (if r_n_buckets r > 0 then map_option (\<lambda>(b, g). (b, g, stats)) (eval_beaconing_bucketed r now g)
      else eval_beaconing_raw r now window_start g stats)"

end
