(* ===== verification/Corr_Temporal.thy ===== *)
theory Corr_Temporal
  imports Corr_Windows
begin

text \<open>
  The temporal correlations of \<open>src/src/classify_corr.c\<close>: the table of base rules seen in the
  window, the boolean conditions over it, the greedy ordered sequence, and its reorder buffer.
\<close>

section \<open>Base rules seen in the window\<close>

fun refresh_seen :: "u32 \<Rightarrow> f64 \<Rightarrow> (u32 \<times> f64) list \<Rightarrow> (u32 \<times> f64) list option" where
  "refresh_seen rid now [] = None"
| "refresh_seen rid now ((r, t) # xs) =
     (if r = rid then Some ((r, now) # xs) else map_option (\<lambda>ys. (r, t) # ys) (refresh_seen rid now xs))"

definition record_hit :: "f64 \<Rightarrow> u32 \<Rightarrow> (u32 \<times> f64) list \<times> corr_stats \<Rightarrow> (u32 \<times> f64) list \<times> corr_stats" where
  "record_hit now rid = (\<lambda>(xs, stats).
     case refresh_seen rid now xs of
       Some ys \<Rightarrow> (ys, stats)
     | None \<Rightarrow>
         if length xs < 64 then (xs @ [(rid, now)], stats)
         else (xs, stats\<lparr>seen_truncated := seen_truncated stats + 1\<rparr>))"

definition temporal_record_seen :: "u32 list \<Rightarrow> f64 \<Rightarrow> f64 \<Rightarrow> group \<Rightarrow> corr_stats \<Rightarrow> group \<times> corr_stats" where
  "temporal_record_seen hits now window_start g stats =
     (let (xs, stats) = fold (record_hit now) hits (seen g, stats) in
      (g\<lparr>seen := filter (\<lambda>(_, t). f64_le window_start t) xs\<rparr>, stats))"

section \<open>Conditions\<close>

text \<open>One token on the stack, whose top comes first; \<open>None\<close> makes the evaluation yield 0.\<close>

fun cond_step :: "u64 \<Rightarrow> corr_ctok \<Rightarrow> bool list \<Rightarrow> bool list option" where
  "cond_step bits (C_SEL i) st = (if length st \<ge> 64 \<or> i \<ge> 64 then None else Some (bit bits (unat i) # st))"
| "cond_step bits C_NOT (x # st) = Some ((\<not> x) # st)"
| "cond_step bits C_AND (y # x # st) = Some ((x \<and> y) # st)"
| "cond_step bits C_OR (y # x # st) = Some ((x \<or> y) # st)"
| "cond_step bits _ _ = None"

definition corr_cond_eval :: "corr_ctok list \<Rightarrow> u64 \<Rightarrow> bool" where
  "corr_cond_eval c bits =
     (case mfold (cond_step bits) c [] of Some [x] \<Rightarrow> x | _ \<Rightarrow> False)"

definition corr_seen_mask :: "corr_rule \<Rightarrow> group \<Rightarrow> u64" where
  "corr_seen_mask r g =
     fold (\<lambda>i bits. if (\<exists>x \<in> set (seen g). fst x = r_base r ! i) then bits OR push_bit i 1 else bits)
       [0..<min (length (r_base r)) 64] (merge_seen g)"

definition eval_temporal :: "corr_rule \<Rightarrow> u32 list \<Rightarrow> f64 \<Rightarrow> f64 \<Rightarrow> group \<Rightarrow> corr_stats \<Rightarrow> bool \<times> group \<times> corr_stats" where
  "eval_temporal r hits now window_start g stats =
     (let (g, stats) = temporal_record_seen hits now window_start g stats;
          bits = corr_seen_mask r g in
      if r_cond r \<noteq> [] then (corr_cond_eval (r_cond r) bits, g, stats)
      else (\<forall>i \<in> set [0..<min (length (r_base r)) 64]. bits AND push_bit i 1 \<noteq> 0, g, stats))"

section \<open>Ordered sequences\<close>

text \<open>The expected rules still to come, against one event: progress, anchor and last step.\<close>

fun ordered_advance :: "bool \<Rightarrow> u32 list \<Rightarrow> f64 \<Rightarrow> u32 list \<Rightarrow> u32 \<times> f64 \<times> f64 \<Rightarrow> u32 \<times> f64 \<times> f64" where
  "ordered_advance et hits now [] s = s"
| "ordered_advance et hits now (e # es) (p, anchor, last_ts) =
     (if e \<in> set hits then
        (if p = 0 then ordered_advance et hits now es (p + 1, now, now)
         else if \<not> et \<or> f64_le last_ts now then ordered_advance et hits now es (p + 1, anchor, now)
         else (p, anchor, last_ts))
      else (p, anchor, last_ts))"

definition set_progress :: "u32 \<times> f64 \<times> f64 \<Rightarrow> group \<Rightarrow> group" where
  "set_progress s g = (case s of (p, anchor, last_ts) \<Rightarrow>
     g\<lparr>ordered_progress := p, ordered_anchor_ts := anchor, ordered_last_ts := last_ts\<rparr>)"

definition rule_order :: "corr_rule \<Rightarrow> u32 list" where
  "rule_order r = (if r_ordered r \<noteq> [] then r_ordered r else r_base r)"

definition eval_temporal_ordered :: "corr_rule \<Rightarrow> u32 list \<Rightarrow> f64 \<Rightarrow> f64 \<Rightarrow> bool \<Rightarrow> group \<Rightarrow> bool \<times> group" where
  "eval_temporal_ordered r hits now window_start event_time g =
     (let order = rule_order r; n = length order in
      if n = 0 then (False, g)
      else
        let g = (if ordered_progress g > 0 \<and> f64_lt (ordered_anchor_ts g) window_start
                 then set_progress (0, Fin 0, Fin 0) g else g);
            s = ordered_advance event_time hits now (drop (unat (ordered_progress g)) order)
              (ordered_progress g, ordered_anchor_ts g, ordered_last_ts g) in
        if unat (fst s) \<ge> n then (True, set_progress (0, Fin 0, Fin 0) g)
        else (False, set_progress s g))"

section \<open>The reorder buffer\<close>

text \<open>The first entry with the least time.\<close>

fun wm_min :: "nat \<Rightarrow> f64 \<Rightarrow> nat \<Rightarrow> (f64 \<times> u32) list \<Rightarrow> nat" where
  "wm_min best t i [] = best"
| "wm_min best t i ((u, _) # xs) = (if f64_lt u t then wm_min i u (Suc i) xs else wm_min best t (Suc i) xs)"

definition wm_evict :: "(f64 \<times> u32) list \<Rightarrow> (f64 \<times> u32) list" where
  "wm_evict xs = (let m = wm_min 0 (fst (xs ! 0)) 1 (tl xs) in butlast (xs[m := xs ! (length xs - 1)]))"

definition wm_place :: "f64 \<Rightarrow> u32 \<Rightarrow> (f64 \<times> u32) list \<Rightarrow> (f64 \<times> u32) list" where
  "wm_place ts rid xs =
     (let n = length xs - length (takeWhile (\<lambda>(t, _). f64_lt ts t) (rev xs)) in take n xs @ [(ts, rid)] @ drop n xs)"

definition wm_insert :: "f64 \<Rightarrow> u32 \<Rightarrow> group \<times> corr_stats \<Rightarrow> group \<times> corr_stats" where
  "wm_insert ts rid = (\<lambda>(g, stats).
     let full = 32 \<le> length (wm g);
         xs = (if full then wm_evict (wm g) else wm g) in
     (g\<lparr>wm := wm_place ts rid xs, wm_max_ts := (if f64_lt (wm_max_ts g) ts then ts else wm_max_ts g)\<rparr>,
      if full then stats\<lparr>watermark_late := watermark_late stats + 1\<rparr> else stats))"

text \<open>Replay what is not later than the cutoff, keep the rest.\<close>

definition wm_replay :: "corr_rule \<Rightarrow> f64 \<Rightarrow> f64 \<Rightarrow> f64 \<times> u32 \<Rightarrow> bool \<times> (f64 \<times> u32) list \<times> group \<Rightarrow> bool \<times> (f64 \<times> u32) list \<times> group" where
  "wm_replay r window_start cutoff = (\<lambda>(t, rid) (fired, kept, g).
     if f64_le t cutoff then
       (let (f, g) = eval_temporal_ordered r [rid] t window_start True g in (fired \<or> f, kept, g))
     else (fired, kept @ [(t, rid)], g))"

definition eval_temporal_ordered_wm ::
  "corr_rule \<Rightarrow> u32 list \<Rightarrow> f64 \<Rightarrow> f64 \<Rightarrow> f64 \<Rightarrow> group \<Rightarrow> corr_stats \<Rightarrow> bool \<times> group \<times> corr_stats" where
  "eval_temporal_ordered_wm r hits now window_start slack g stats =
     (if f64_lt (Fin 0) (wm_max_ts g) \<and> f64_lt (f64_add now slack) (wm_max_ts g) then
        (let (f, g) = eval_temporal_ordered r hits now window_start True g in
         (f, g, stats\<lparr>watermark_late := watermark_late stats + 1\<rparr>))
      else
        let (g, stats) = fold (wm_insert now) hits (g, stats);
            g = (if f64_lt (wm_max_ts g) now then g\<lparr>wm_max_ts := now\<rparr> else g);
            cutoff = f64_sub (wm_max_ts g) slack;
            (fired, kept, g) = fold (wm_replay r window_start cutoff) (wm g) (False, [], g) in
        (fired, g\<lparr>wm := kept\<rparr>, stats))"

end
