(* ===== verification/Corr_Engine.thy ===== *)
theory Corr_Engine
  imports Corr_Temporal
begin

text \<open>
  The correlation engine (\<open>corr_engine_*\<close>, \<open>corr_on_event*\<close> and \<open>corr_on_contribution\<close> in
  \<open>src/src/classify_corr.c\<close>): the index from base rules to correlations, rule admission, the
  sweep, and the evaluation of an event or of a remote contribution. The locks serialise the
  operations on one correlation, and every operation runs here in one step; the caller's field
  resolver and ownership test are functions.
\<close>

section \<open>The engine\<close>

record corr_engine =
  e_states :: "corr_state list"
  e_caps :: corr_caps
  e_last_sweep :: f64
  e_sweep_seen :: bool
  e_rid_buckets :: "(u32 \<times> u32 list) list list"
  e_n_rid_buckets :: u32
  e_stats :: corr_stats
  e_pct_cap :: u32

definition next_pow2 :: "u32 \<Rightarrow> u32" where
  "next_pow2 v =
     (if v < 8 then 8
      else
        let v = v - 1; v = v OR drop_bit 1 v; v = v OR drop_bit 2 v; v = v OR drop_bit 4 v;
            v = v OR drop_bit 8 v; v = v OR drop_bit 16 v in v + 1)"

subsection \<open>The index of base rules\<close>

definition rid_bucket :: "u32 \<Rightarrow> u32 \<Rightarrow> nat" where
  "rid_bucket n rid = unat (rid AND (n - 1))"

text \<open>Append a correlation to the entry of a rule, once; a new entry goes in front.\<close>

definition watch :: "u32 \<Rightarrow> u32 list \<Rightarrow> u32 list" where
  "watch ci cs = (if ci \<in> set cs then cs else cs @ [ci])"

fun watch_chain :: "u32 \<Rightarrow> u32 \<Rightarrow> (u32 \<times> u32 list) list \<Rightarrow> (u32 \<times> u32 list) list option" where
  "watch_chain rid ci [] = None"
| "watch_chain rid ci ((r, cs) # ws) =
     (if r = rid then Some ((r, watch ci cs) # ws) else map_option (\<lambda>vs. (r, cs) # vs) (watch_chain rid ci ws))"

definition rid_index_add :: "u32 \<Rightarrow> u32 \<Rightarrow> corr_engine \<Rightarrow> corr_engine option" where
  "rid_index_add rid ci e =
     (let b = rid_bucket (e_n_rid_buckets e) rid in
      do { ws \<leftarrow> idx (e_rid_buckets e) b;
           let ws' = (case watch_chain rid ci ws of Some vs \<Rightarrow> vs | None \<Rightarrow> (rid, watch ci []) # ws);
           bs \<leftarrow> upd (e_rid_buckets e) b ws';
           Some (e\<lparr>e_rid_buckets := bs\<rparr>) })"

definition rid_index_find :: "corr_engine \<Rightarrow> u32 \<Rightarrow> u32 list option option" where
  "rid_index_find e rid =
     do { ws \<leftarrow> idx (e_rid_buckets e) (rid_bucket (e_n_rid_buckets e) rid);
          Some (map_of ws rid) }"

subsection \<open>Rules\<close>

fun alias_fields :: "u32 \<Rightarrow> u32 list \<Rightarrow> bytes option list option list \<Rightarrow> bytes option list option" where
  "alias_fields rid (b # bs) (a # as) = (if b = rid \<and> a \<noteq> None then a else alias_fields rid bs as)"
| "alias_fields rid _ _ = None"

definition corr_group_fields :: "corr_rule \<Rightarrow> u32 \<Rightarrow> bytes option list" where
  "corr_group_fields r rid =
     (if r_alias r \<noteq> [] \<and> length (r_alias r) = length (r_base r)
      then (case alias_fields rid (r_base r) (r_alias r) of Some fs \<Rightarrow> fs | None \<Rightarrow> r_group_by r)
      else r_group_by r)"

definition is_empty_str :: "bytes option \<Rightarrow> bool" where
  "is_empty_str s \<longleftrightarrow> s = None \<or> s = Some []"

definition rule_valid :: "corr_rule \<Rightarrow> bool" where
  "rule_valid r =
     (if is_empty_str (r_id r) then False
      else if r_type r = CORR_TYPE_MAX then False
      else if r_base r = [] then False
      else if r_timespan r \<le> 0 then False
      else if length (r_group_by r) > 8 then False
      else if r_alias r \<noteq> [] \<and> length (r_alias r) \<noteq> length (r_base r) then False
      else if r_type r \<in> {CORR_VALUE_COUNT, CORR_VALUE_SUM, CORR_VALUE_AVG, CORR_VALUE_PERCENTILE, CORR_VALUE_MEDIAN} \<and>
        is_empty_str (r_value_field r) then False
      else if r_type r = CORR_VALUE_PERCENTILE \<and> (r_percentile r < 0 \<or> r_percentile r > 100) then False
      else if r_type r = CORR_BEACONING then
        (if r_cv_permille r \<le> 0 \<or> r_count r < 3 then False
         else if r_n_buckets r < 0 then False
         else if r_n_buckets r > 0 \<and> (r_n_buckets r < 2 \<or> r_n_buckets r > 1024 \<or> r_timespan r < r_n_buckets r) then False
         else True)
      else True)"

text \<open>The admitted states and the counters, rule by rule.\<close>

definition admit_rule :: "corr_rule \<Rightarrow> corr_state list \<times> corr_stats \<Rightarrow> corr_state list \<times> corr_stats" where
  "admit_rule r = (\<lambda>(sts, stats).
     if r_cond r \<noteq> [] \<and> length (r_base r) > 64
     then (sts, stats\<lparr>cond_over_arity := cond_over_arity stats + 1, rules_rejected := rules_rejected stats + 1\<rparr>)
     else if \<not> rule_valid r then (sts, stats\<lparr>rules_rejected := rules_rejected stats + 1\<rparr>)
     else (sts @ [\<lparr>st_rule = r, st_map = lm_new 16\<rparr>], stats))"

definition sane_caps :: "corr_caps \<Rightarrow> corr_caps" where
  "sane_caps c = c\<lparr>
     max_groups := (if max_groups c = 0 then 50000 else max_groups c),
     max_distinct := (if max_distinct c = 0 then 10000 else max_distinct c),
     max_events_per_group := (if max_events_per_group c = 0 then 4096 else max_events_per_group c),
     sweep_interval_s := (if f64_le (sweep_interval_s c) (Fin 0) then Fin 30 else sweep_interval_s c)\<rparr>"

definition corr_engine_new :: "corr_rule list \<Rightarrow> corr_caps \<Rightarrow> corr_engine option" where
  "corr_engine_new rules caps =
     (let caps = sane_caps caps;
          (sts, stats) = fold admit_rule rules ([], zero_stats);
          nb = next_pow2 (of_nat (length sts * 4 + 8));
          e = \<lparr>e_states = sts, e_caps = caps, e_last_sweep = Fin 0, e_sweep_seen = False,
               e_rid_buckets = replicate (unat nb) [], e_n_rid_buckets = nb, e_stats = stats,
               e_pct_cap = max_events_per_group caps\<rparr> in
      mfold (\<lambda>i. mfold (\<lambda>rid. rid_index_add rid (of_nat i)) (r_base (st_rule (sts ! i)))) [0..<length sts] e)"

definition corr_engine_rule_count :: "corr_engine \<Rightarrow> nat" where
  "corr_engine_rule_count e = length (e_states e)"

definition corr_engine_total_groups :: "corr_engine \<Rightarrow> nat" where
  "corr_engine_total_groups e = fold (\<lambda>st tot. tot + unat (lm_count (st_map st))) (e_states e) 0"

text \<open>The snapshot of the counters, one load each; a null engine has all of them zero.\<close>

definition corr_engine_stats :: "corr_engine option \<Rightarrow> corr_stats" where
  "corr_engine_stats e =
     (case e of
        None \<Rightarrow> zero_stats
      | Some e \<Rightarrow>
          (let s = e_stats e in
           \<lparr>groups_evicted = groups_evicted s, distinct_evicted = distinct_evicted s, events_overwritten = events_overwritten s,
            fires_suppressed = fires_suppressed s, fires_truncated = fires_truncated s, rules_rejected = rules_rejected s,
            event_skipped_missing_field = event_skipped_missing_field s, seen_truncated = seen_truncated s,
            hits_truncated = hits_truncated s, group_evidence_dropped = group_evidence_dropped s, oom_dropped = oom_dropped s,
            values_nonnumeric = values_nonnumeric s, cond_over_arity = cond_over_arity s, watermark_late = watermark_late s,
            hotkey_fallback = hotkey_fallback s\<rparr>))"

definition same_id :: "bytes \<Rightarrow> corr_state \<Rightarrow> bool" where
  "same_id cid st \<longleftrightarrow> r_id (st_rule st) = Some cid"

definition corr_engine_groups_for :: "corr_engine \<Rightarrow> bytes option \<Rightarrow> nat" where
  "corr_engine_groups_for e cid =
     (case cid of
        None \<Rightarrow> 0
      | Some c \<Rightarrow> (case find (same_id c) (e_states e) of Some st \<Rightarrow> unat (lm_count (st_map st)) | None \<Rightarrow> 0))"

definition corr_engine_rule_at :: "corr_engine \<Rightarrow> nat \<Rightarrow> corr_rule option" where
  "corr_engine_rule_at e i = (if i \<ge> length (e_states e) then None else Some (st_rule (e_states e ! i)))"

definition corr_rule_hits :: "corr_rule \<Rightarrow> u32 list \<Rightarrow> bool" where
  "corr_rule_hits r rids = (\<exists>b \<in> set (r_base r). \<exists>k \<in> set rids. k = b)"

datatype contrib_kind =
    CORR_CONTRIB_EVENT | CORR_CONTRIB_COUNT | CORR_CONTRIB_SUM | CORR_CONTRIB_DISTINCT | CORR_CONTRIB_SEEN

text \<open>\<open>None\<close> is the return value \<open>-1\<close>.\<close>

fun corr_contrib_kind_for :: "corr_type \<Rightarrow> contrib_kind option" where
  "corr_contrib_kind_for CORR_EVENT_COUNT = Some CORR_CONTRIB_COUNT"
| "corr_contrib_kind_for CORR_VALUE_SUM = Some CORR_CONTRIB_SUM"
| "corr_contrib_kind_for CORR_VALUE_AVG = Some CORR_CONTRIB_SUM"
| "corr_contrib_kind_for CORR_VALUE_COUNT = Some CORR_CONTRIB_DISTINCT"
| "corr_contrib_kind_for CORR_TEMPORAL = Some CORR_CONTRIB_SEEN"
| "corr_contrib_kind_for _ = None"

subsection \<open>The sweep\<close>

definition sweep_state :: "f64 \<Rightarrow> corr_state \<Rightarrow> corr_state option" where
  "sweep_state now st =
     (if r_timespan (st_rule st) > 0
      then do { m \<leftarrow> cstate_drop_expired (f64_sub now (f64_of_int (r_timespan (st_rule st)))) (st_map st);
                Some (st\<lparr>st_map := m\<rparr>) }
      else Some st)"

definition sweep_if_due :: "f64 \<Rightarrow> corr_engine \<Rightarrow> corr_engine option" where
  "sweep_if_due now e =
     (if \<not> e_sweep_seen e then Some (e\<lparr>e_last_sweep := now, e_sweep_seen := True\<rparr>)
      else if f64_lt (f64_sub now (e_last_sweep e)) (sweep_interval_s (e_caps e)) then Some e
      else do { sts \<leftarrow> mfold (\<lambda>st done. do { st' \<leftarrow> sweep_state now st; Some (done @ [st']) }) (e_states e) [];
                Some (e\<lparr>e_last_sweep := now, e_states := sts\<rparr>) })"

section \<open>Events\<close>

text \<open>The group-by values of an event; \<open>Some None\<close> when a field is missing.\<close>

definition resolve_group :: "(bytes \<Rightarrow> bytes option) \<Rightarrow> bytes option list \<Rightarrow> nat \<Rightarrow> bytes list option option" where
  "resolve_group field_fn names n =
     mfold (\<lambda>i r. case r of
         None \<Rightarrow> Some None
       | Some vs \<Rightarrow>
           do { fname \<leftarrow> idx names i;
                Some (map_option (\<lambda>v. vs @ [v]) (Option.bind fname field_fn)) })
       [0..<n] (Some [])"

text \<open>The base rules of a correlation that matched the event, at most 64.\<close>

definition event_hits :: "corr_rule \<Rightarrow> u32 list \<Rightarrow> corr_stats \<Rightarrow> u32 list \<times> corr_stats" where
  "event_hits r rids stats =
     fold (\<lambda>want (hits, stats).
         if want \<in> set rids
         then (if length hits < 64 then (hits @ [want], stats) else (hits, stats\<lparr>hits_truncated := hits_truncated stats + 1\<rparr>))
         else (hits, stats))
       (r_base r) ([], stats)"

text \<open>The evaluation by type: whether it fires, and the aggregate for the fire record.\<close>

definition eval_group ::
  "corr_rule \<Rightarrow> corr_caps \<Rightarrow> u32 \<Rightarrow> (bytes \<Rightarrow> bytes option) \<Rightarrow> u32 list \<Rightarrow> f64 \<Rightarrow> f64 \<Rightarrow> group \<Rightarrow> corr_stats \<Rightarrow>
    (bool \<times> f64 \<times> group \<times> corr_stats) option" where
  "eval_group r caps pct_cap field_fn hits ts window_start g stats =
     (let vv = Option.bind (r_value_field r) field_fn in
      case r_type r of
        CORR_EVENT_COUNT \<Rightarrow>
          do { (f, g, stats) \<leftarrow> eval_event_count r ts window_start g stats; Some (f, Fin 0, g, stats) }
      | CORR_VALUE_COUNT \<Rightarrow>
          do { (f, g, stats) \<leftarrow> eval_value_count r vv (max_distinct caps) ts window_start g stats; Some (f, Fin 0, g, stats) }
      | CORR_VALUE_SUM \<Rightarrow> eval_value_sum_avg r vv False ts window_start g stats
      | CORR_VALUE_AVG \<Rightarrow> eval_value_sum_avg r vv True ts window_start g stats
      | CORR_VALUE_PERCENTILE \<Rightarrow> eval_value_percentile r vv ts window_start g stats pct_cap
      | CORR_VALUE_MEDIAN \<Rightarrow> eval_value_percentile r vv ts window_start g stats pct_cap
      | CORR_TEMPORAL \<Rightarrow>
          (let (f, g, stats) = eval_temporal r hits ts window_start g stats in Some (f, Fin 0, g, stats))
      | CORR_TEMPORAL_ORDERED \<Rightarrow>
          (let (g, stats) = (if r_cond r \<noteq> [] then temporal_record_seen hits ts window_start g stats else (g, stats));
               (f, g, stats) =
                 (if f64_lt (Fin 0) (watermark_s caps) \<and> event_time_ordering caps
                  then eval_temporal_ordered_wm r hits ts window_start (watermark_s caps) g stats
                  else (let (f, g) = eval_temporal_ordered r hits ts window_start (event_time_ordering caps) g in (f, g, stats)));
               f = (if f \<and> r_cond r \<noteq> [] then corr_cond_eval (r_cond r) (corr_seen_mask r g) else f) in
           Some (f, Fin 0, g, stats))
      | CORR_BEACONING \<Rightarrow>
          do { (f, g, stats) \<leftarrow> eval_beaconing r ts window_start g stats; Some (f, Fin 0, g, stats) }
      | CORR_TYPE_MAX \<Rightarrow> Some (False, Fin 0, g, stats))"

text \<open>The observed count of a fire; the aggregate is converted to \<open>int64_t\<close>.\<close>

definition observed_of :: "corr_rule \<Rightarrow> group \<Rightarrow> f64 \<Rightarrow> int option" where
  "observed_of r g agg =
     (case r_type r of
        CORR_VALUE_COUNT \<Rightarrow> Some (uint (lm_count (distinct_set g)))
      | CORR_EVENT_COUNT \<Rightarrow> Some (uint (ev_len g) + uint (merge_n g))
      | CORR_BEACONING \<Rightarrow> Some (uint (ev_len g))
      | CORR_TEMPORAL \<Rightarrow> Some (int (length (r_base r)))
      | CORR_TEMPORAL_ORDERED \<Rightarrow> Some (int (length (r_base r)))
      | CORR_TYPE_MAX \<Rightarrow> Some (int (length (r_base r)))
      | _ \<Rightarrow> f64_trunc (- (2 ^ 63)) (2 ^ 63 - 1) agg)"

definition observed_field :: "corr_rule \<Rightarrow> bytes option" where
  "observed_field r =
     (if r_type r \<in> {CORR_VALUE_COUNT, CORR_VALUE_SUM, CORR_VALUE_AVG, CORR_VALUE_PERCENTILE, CORR_VALUE_MEDIAN}
      then r_value_field r else None)"

definition mk_fire :: "corr_rule \<Rightarrow> bytes list option \<Rightarrow> int \<Rightarrow> bytes option \<Rightarrow> bool \<Rightarrow> corr_fire" where
  "mk_fire r evidence observed vfield remote =
     (let tier = corr_tier_for (r_type r) (r_level r) in
      \<lparr>f_rule_id = r_id r, f_title = r_title r, f_type = r_type r, f_technique = r_mitre r,
       f_level = (case r_level r of Some l \<Rightarrow> l | None \<Rightarrow> lit ''medium''), f_tier = tier, f_weight = corr_tier_weight tier,
       f_group_by = r_group_by r, f_group = evidence, f_observed = observed, f_threshold = r_count r,
       f_value_field = vfield, f_base = r_base r, f_remote = remote\<rparr>)"

text \<open>
  What the evaluation of one correlation leaves: its group map, the counters, and the fire it
  wants to report, without the caller's evidence.
\<close>

definition eval_state ::
  "corr_rule \<Rightarrow> corr_caps \<Rightarrow> u32 \<Rightarrow> (bytes \<Rightarrow> bytes option) \<Rightarrow> u32 list \<Rightarrow> f64 \<Rightarrow> bytes list \<Rightarrow> cstate_map \<Rightarrow> corr_stats \<Rightarrow>
    (cstate_map \<times> corr_stats \<times> (int \<times> bool) option) option" where
  "eval_state r caps pct_cap field_fn rids ts gvals m stats =
     (let timespan = f64_of_int (r_timespan r); window_start = f64_sub ts timespan in
      do { (a, m, stats) \<leftarrow> cstate_get_or_create caps gvals m stats;
           n \<leftarrow> lm_heap m a;
           let g = (n_val n)\<lparr>last_update := ts\<rparr>;
           let (hits, stats) = event_hits r rids stats;
           if hits = [] then do { m \<leftarrow> set_val a g m; Some (m, stats, None) }
           else do {
             (fired, agg, g, stats) \<leftarrow> eval_group r caps pct_cap field_fn hits ts window_start g stats;
             if \<not> fired then do { m \<leftarrow> set_val a g m; Some (m, stats, None) }
             else if f64_lt ts (fired_until g)
             then do { m \<leftarrow> set_val a g m; Some (m, stats\<lparr>fires_suppressed := fires_suppressed stats + 1\<rparr>, None) }
             else do {
               let g = g\<lparr>fired_until := f64_add ts (f64_mul timespan (Fin 1))\<rparr>;
               obs \<leftarrow> observed_of r g agg;
               m \<leftarrow> set_val a g m;
               Some (m, stats, Some (obs, merge_remote g)) } } })"

text \<open>
  One call: the engine, which correlations were visited, the fires written, their number, and
  the evidence slots used. The caller's buffers hold \<open>o_max\<close> fires and \<open>o_slots\<close> evidence
  values, \<open>None\<close> for no evidence buffer.
\<close>

record corr_call =
  c_engine :: corr_engine
  c_visited :: "bool list"
  c_out :: "corr_fire list"
  c_fired :: nat
  c_used :: nat

record corr_input =
  i_field :: "bytes \<Rightarrow> bytes option"
  i_rids :: "u32 list"
  i_ts :: f64
  i_apply :: "corr_rule \<Rightarrow> bytes list \<Rightarrow> bool"
  o_max :: nat
  o_slots :: "nat option"

definition map_stats :: "(corr_stats \<Rightarrow> corr_stats) \<Rightarrow> corr_engine \<Rightarrow> corr_engine" where
  "map_stats f e = e\<lparr>e_stats := f (e_stats e)\<rparr>"

definition report_fire :: "corr_input \<Rightarrow> corr_rule \<Rightarrow> bytes list \<Rightarrow> int \<times> bool \<Rightarrow> corr_call \<Rightarrow> corr_call" where
  "report_fire inp r gvals = (\<lambda>(obs, remote) c.
     let n = length (r_group_by r) in
     if c_fired c < o_max inp then
       (if n > 0 \<and> (case o_slots inp of Some cap \<Rightarrow> c_used c + n \<le> cap | None \<Rightarrow> False)
        then c\<lparr>c_out := c_out c @ [mk_fire r (Some gvals) obs (observed_field r) remote], c_used := c_used c + n,
               c_fired := c_fired c + 1\<rparr>
        else c\<lparr>c_out := c_out c @ [mk_fire r None obs (observed_field r) remote],
               c_engine := (if n > 0 then map_stats (\<lambda>s. s\<lparr>group_evidence_dropped := group_evidence_dropped s + 1\<rparr>) (c_engine c)
                            else c_engine c),
               c_fired := c_fired c + 1\<rparr>)
     else c\<lparr>c_engine := map_stats (\<lambda>s. s\<lparr>fires_truncated := fires_truncated s + 1\<rparr>) (c_engine c),
            c_fired := c_fired c + 1\<rparr>)"

definition on_correlation :: "corr_input \<Rightarrow> u32 \<Rightarrow> u32 \<Rightarrow> corr_call \<Rightarrow> corr_call option" where
  "on_correlation inp rid ci c =
     do { v \<leftarrow> idx (c_visited c) (unat ci);
          if v then Some c
          else do {
            vis \<leftarrow> upd (c_visited c) (unat ci) True;
            let c = c\<lparr>c_visited := vis\<rparr>;
            let e = c_engine c;
            st \<leftarrow> idx (e_states e) (unat ci);
            let r = st_rule st;
            gv \<leftarrow> resolve_group (i_field inp) (corr_group_fields r rid) (length (r_group_by r));
            case gv of
              None \<Rightarrow>
                Some (c\<lparr>c_engine := map_stats (\<lambda>s. s\<lparr>event_skipped_missing_field := event_skipped_missing_field s + 1\<rparr>) e\<rparr>)
            | Some gvals \<Rightarrow>
                if \<not> i_apply inp r gvals then Some c
                else do {
                  (m, stats, fire) \<leftarrow> eval_state r (e_caps e) (e_pct_cap e) (i_field inp) (i_rids inp) (i_ts inp) gvals (st_map st) (e_stats e);
                  let c = c\<lparr>c_engine := e\<lparr>e_states := (e_states e)[unat ci := st\<lparr>st_map := m\<rparr>], e_stats := stats\<rparr>\<rparr>;
                  case fire of None \<Rightarrow> Some c | Some f \<Rightarrow> Some (report_fire inp r gvals f c) } } }"

definition on_rid :: "corr_input \<Rightarrow> u32 \<Rightarrow> corr_call \<Rightarrow> corr_call option" where
  "on_rid inp rid c =
     do { w \<leftarrow> rid_index_find (c_engine c) rid;
          case w of None \<Rightarrow> Some c | Some cs \<Rightarrow> mfold (on_correlation inp rid) cs c }"

definition corr_on_event_apply :: "corr_input \<Rightarrow> corr_engine \<Rightarrow> (corr_engine \<times> corr_fire list \<times> nat) option" where
  "corr_on_event_apply inp e =
     (if e_states e = [] \<or> i_rids inp = [] then Some (e, [], 0)
      else do {
        e \<leftarrow> sweep_if_due (i_ts inp) e;
        c \<leftarrow> mfold (on_rid inp) (i_rids inp)
           \<lparr>c_engine = e, c_visited = replicate (length (e_states e)) False, c_out = [], c_fired = 0, c_used = 0\<rparr>;
        Some (c_engine c, c_out c, c_fired c) })"

definition corr_on_event :: "corr_input \<Rightarrow> corr_engine \<Rightarrow> (corr_engine \<times> corr_fire list \<times> nat) option" where
  "corr_on_event inp e = corr_on_event_apply (inp\<lparr>i_apply := (\<lambda>_ _. True)\<rparr>) e"

section \<open>Contributions\<close>

record corr_contrib =
  ct_kind :: contrib_kind
  ct_corr_id :: "bytes option"
  ct_rids :: "u32 list"
  ct_group_vals :: "bytes option list"
  ct_ts :: f64
  ct_value :: "bytes option"
  ct_numeric :: f64
  ct_count :: u32
  ct_seen_mask :: u64

definition find_state :: "bytes \<Rightarrow> corr_engine \<Rightarrow> nat option" where
  "find_state cid e = find (\<lambda>i. same_id cid (e_states e ! i)) [0..<length (e_states e)]"

definition merge_group ::
  "corr_rule \<Rightarrow> corr_caps \<Rightarrow> corr_contrib \<Rightarrow> f64 \<Rightarrow> group \<Rightarrow> corr_stats \<Rightarrow> (bool \<times> f64 \<times> group \<times> corr_stats) option" where
  "merge_group r caps c window_start g stats =
     (let add = (if ct_count c \<noteq> 0 then ct_count c else 1) in
      case ct_kind c of
        CORR_CONTRIB_COUNT \<Rightarrow>
          do { g \<leftarrow> ev_prune window_start (g\<lparr>merge_n := merge_n g + add\<rparr>);
               Some (r_type r = CORR_EVENT_COUNT \<and> cmp_threshold (uint (ev_len g) + uint (merge_n g)) (r_op r) (r_count r),
                     Fin 0, g, stats) }
      | CORR_CONTRIB_SUM \<Rightarrow>
          do { g \<leftarrow> ev_prune window_start (g\<lparr>merge_sum := f64_add (merge_sum g) (ct_numeric c), merge_n := merge_n g + add\<rparr>);
               if r_type r = CORR_VALUE_SUM \<or> r_type r = CORR_VALUE_AVG then
                 do { agg \<leftarrow> window_agg (r_type r = CORR_VALUE_AVG) g;
                      case agg of
                        None \<Rightarrow> Some (False, Fin 0, g, stats)
                      | Some a \<Rightarrow> Some (cond_satisfied_f (r_op r) a (f64_of_int (r_count r)), a, g, stats) }
               else Some (False, Fin 0, g, stats) }
      | CORR_CONTRIB_DISTINCT \<Rightarrow>
          (if r_type r = CORR_VALUE_COUNT \<and> ct_value c \<noteq> None then
             do { (f, g, stats) \<leftarrow> eval_value_count r (ct_value c) (max_distinct caps) (ct_ts c) window_start g stats;
                  Some (f, Fin 0, g, stats) }
           else Some (False, Fin 0, g, stats))
      | CORR_CONTRIB_SEEN \<Rightarrow>
          (let g = g\<lparr>merge_seen := merge_seen g OR ct_seen_mask c\<rparr> in
           if r_type r = CORR_TEMPORAL
           then (let (f, g, stats) = eval_temporal r [] (ct_ts c) window_start g stats in Some (f, Fin 0, g, stats))
           else Some (False, Fin 0, g, stats))
      | CORR_CONTRIB_EVENT \<Rightarrow> Some (False, Fin 0, g, stats))"

definition merge_observed :: "corr_rule \<Rightarrow> group \<Rightarrow> f64 \<Rightarrow> int option" where
  "merge_observed r g agg =
     (case r_type r of
        CORR_VALUE_COUNT \<Rightarrow> Some (uint (lm_count (distinct_set g)))
      | CORR_VALUE_SUM \<Rightarrow> f64_trunc (- (2 ^ 63)) (2 ^ 63 - 1) agg
      | CORR_VALUE_AVG \<Rightarrow> f64_trunc (- (2 ^ 63)) (2 ^ 63 - 1) agg
      | CORR_EVENT_COUNT \<Rightarrow> Some (uint (ev_len g) + uint (merge_n g))
      | _ \<Rightarrow> Some (int (length (r_base r))))"

definition merge_field :: "corr_rule \<Rightarrow> bytes option" where
  "merge_field r = (if r_type r \<in> {CORR_VALUE_COUNT, CORR_VALUE_SUM, CORR_VALUE_AVG} then r_value_field r else None)"

definition merge_state ::
  "corr_rule \<Rightarrow> corr_caps \<Rightarrow> corr_contrib \<Rightarrow> bytes list \<Rightarrow> cstate_map \<Rightarrow> corr_stats \<Rightarrow> (cstate_map \<times> corr_stats \<times> int option) option" where
  "merge_state r caps c gvals m stats =
     (let timespan = f64_of_int (r_timespan r); window_start = f64_sub (ct_ts c) timespan in
      do { (a, m, stats) \<leftarrow> cstate_get_or_create caps gvals m stats;
           n \<leftarrow> lm_heap m a;
           let g = (n_val n)\<lparr>last_update := ct_ts c, merge_remote := True\<rparr>;
           (fired, agg, g, stats) \<leftarrow> merge_group r caps c window_start g stats;
           if \<not> fired then do { m \<leftarrow> set_val a g m; Some (m, stats, None) }
           else if f64_lt (ct_ts c) (fired_until g)
           then do { m \<leftarrow> set_val a g m; Some (m, stats\<lparr>fires_suppressed := fires_suppressed stats + 1\<rparr>, None) }
           else do {
             let g = g\<lparr>fired_until := f64_add (ct_ts c) (f64_mul timespan (Fin 1))\<rparr>;
             obs \<leftarrow> merge_observed r g agg;
             m \<leftarrow> set_val a g m;
             Some (m, stats, Some obs) } })"

definition corr_on_contribution ::
  "corr_contrib \<Rightarrow> (bytes \<Rightarrow> bytes option) \<Rightarrow> nat \<Rightarrow> nat option \<Rightarrow> corr_engine \<Rightarrow> (corr_engine \<times> corr_fire list \<times> nat) option" where
  "corr_on_contribution c field_fn max_out slots e =
     (if ct_kind c = CORR_CONTRIB_EVENT then
        corr_on_event \<lparr>i_field = field_fn, i_rids = ct_rids c, i_ts = ct_ts c, i_apply = (\<lambda>_ _. True), o_max = max_out, o_slots = slots\<rparr> e
      else case ct_corr_id c of
        None \<Rightarrow> Some (e, [], 0)
      | Some cid \<Rightarrow>
          if cid = [] then Some (e, [], 0)
          else do {
            e \<leftarrow> sweep_if_due (ct_ts c) e;
            let skip = map_stats (\<lambda>s. s\<lparr>event_skipped_missing_field := event_skipped_missing_field s + 1\<rparr>) e;
            case find_state cid e of
              None \<Rightarrow> Some (e, [], 0)
            | Some i \<Rightarrow>
                let st = e_states e ! i; r = st_rule st; n = length (r_group_by r) in
                if length (ct_group_vals c) \<noteq> n \<or> None \<in> set (ct_group_vals c) then Some (skip, [], 0)
                else do {
                  let gvals = map the (ct_group_vals c);
                  (m, stats, fire) \<leftarrow> merge_state r (e_caps e) c gvals (st_map st) (e_stats e);
                  let e = e\<lparr>e_states := (e_states e)[i := st\<lparr>st_map := m\<rparr>], e_stats := stats\<rparr>;
                  case fire of
                    None \<Rightarrow> Some (e, [], 0)
                  | Some obs \<Rightarrow>
                      if max_out = 0
                      then Some (map_stats (\<lambda>s. s\<lparr>fires_truncated := fires_truncated s + 1\<rparr>) e, [], 1)
                      else if n > 0 \<and> (case slots of Some cap \<Rightarrow> n \<le> cap | None \<Rightarrow> False)
                      then Some (e, [mk_fire r (Some gvals) obs (merge_field r) True], 1)
                      else Some (if n > 0 then map_stats (\<lambda>s. s\<lparr>group_evidence_dropped := group_evidence_dropped s + 1\<rparr>) e else e,
                                 [mk_fire r None obs (merge_field r) True], 1) } })"

end
