(* ===== verification/Corr_Owner.thy ===== *)
theory Corr_Owner
  imports Corr_Model
begin

text \<open>
  Which instance owns a group (\<open>corr_owner_key\<close> and \<open>corr_owner_index\<close> in
  \<open>src/src/classify_corr.c\<close>): the routing key as text, its djb2 hash, and the murmur3 finalizer.
\<close>

definition corr_djb2_feed :: "u32 \<Rightarrow> bytes \<Rightarrow> u32" where
  "corr_djb2_feed h s = foldl (\<lambda>h c. (push_bit 5 h + h) + ucast c) h s"

definition corr_fmix32 :: "u32 \<Rightarrow> u32" where
  "corr_fmix32 h0 =
     (let h = h0 XOR drop_bit 16 h0; h = h * 0x85ebca6b;
          h = h XOR drop_bit 13 h; h = h * 0xc2b2ae35 in
      h XOR drop_bit 16 h)"

text \<open>The characters of a string that may be null.\<close>

definition str_or_empty :: "bytes option \<Rightarrow> bytes" where
  "str_or_empty s = (case s of Some v \<Rightarrow> v | None \<Rightarrow> [])"

fun key_values :: "nat \<Rightarrow> bytes \<Rightarrow> bytes option list \<Rightarrow> bytes option" where
  "key_values cap key [] = Some key"
| "key_values cap key (v # vs) =
     (if length key + 1 + length (str_or_empty v) + 1 > cap then None
      else key_values cap (key @ [9] @ str_or_empty v) vs)"

text \<open>
  The key written into a buffer of \<open>cap\<close> bytes, with a NUL after it, when it fits; the code
  returns its length, and 0 when it does not fit.
\<close>

definition corr_owner_key :: "nat \<Rightarrow> bytes option \<Rightarrow> bytes option list \<Rightarrow> bytes option" where
  "corr_owner_key cap cid vals =
     (if cap = 0 then None
      else if length (str_or_empty cid) + 1 > cap then None
      else key_values cap (str_or_empty cid) vals)"

text \<open>The peer count is narrowed to \<open>unsigned\<close> before the division; \<open>None\<close> is a division by zero.\<close>

definition corr_owner_index :: "bytes option \<Rightarrow> bytes option list \<Rightarrow> u64 \<Rightarrow> nat option" where
  "corr_owner_index cid vals n_peers =
     (if n_peers = 0 then Some 0
      else
        let h = corr_djb2_feed 5381 (str_or_empty cid);
            h = foldl (\<lambda>h v. corr_djb2_feed ((push_bit 5 h + h) + 9) (str_or_empty v)) h vals;
            n = (ucast n_peers :: u32) in
        if n = 0 then None else Some (unat (corr_fmix32 h mod n)))"

section \<open>The key and its owner\<close>

text \<open>The whole key of a group.\<close>

definition full_key :: "bytes option \<Rightarrow> bytes option list \<Rightarrow> bytes" where
  "full_key cid vals = str_or_empty cid @ concat (map (\<lambda>v. 9 # str_or_empty v) vals)"

lemma key_values_eq:
  "length key < cap \<Longrightarrow> key_values cap key vals =
    (if length (key @ concat (map (\<lambda>v. 9 # str_or_empty v) vals)) < cap
     then Some (key @ concat (map (\<lambda>v. 9 # str_or_empty v) vals)) else None)"
proof (induction vals arbitrary: key)
  case (Cons v vs)
  show ?case
  proof (cases "length key + 1 + length (str_or_empty v) + 1 > cap")
    case False
    then have "length (key @ [9] @ str_or_empty v) < cap" by simp
    from Cons.IH [OF this] False show ?thesis by simp
  qed auto
qed simp

text \<open>The key is written exactly when it fits with its NUL.\<close>

lemma corr_owner_key_eq:
  "corr_owner_key cap cid vals = (if length (full_key cid vals) < cap then Some (full_key cid vals) else None)"
  using key_values_eq [of "str_or_empty cid" cap vals]
  by (auto simp: corr_owner_key_def full_key_def)

lemma djb2_feed_append: "corr_djb2_feed h (xs @ ys) = corr_djb2_feed (corr_djb2_feed h xs) ys"
  by (simp add: corr_djb2_feed_def)

lemma djb2_stream:
  "foldl (\<lambda>h v. corr_djb2_feed ((push_bit 5 h + h) + 9) (str_or_empty v)) h vals =
    corr_djb2_feed h (concat (map (\<lambda>v. 9 # str_or_empty v) vals))"
proof (induction vals arbitrary: h)
  case (Cons v vs)
  have "corr_djb2_feed ((push_bit 5 h + h) + 9) s = corr_djb2_feed h (9 # s)" for s
    by (simp add: corr_djb2_feed_def)
  with Cons show ?case by (simp add: djb2_feed_append [symmetric])
qed (simp add: corr_djb2_feed_def)

text \<open>The owner is the hash of the whole key, of any length.\<close>

lemma corr_owner_index_eq:
  assumes "0 < unat n_peers" "unat n_peers < 2 ^ 32"
  shows "corr_owner_index cid vals n_peers =
    Some (unat (corr_fmix32 (corr_djb2_feed 5381 (full_key cid vals))) mod unat n_peers)"
proof -
  have u: "unat (ucast n_peers :: u32) = unat n_peers"
    using assms(2) by (simp add: unsigned_ucast_eq take_bit_nat_eq_self)
  then have "(ucast n_peers :: u32) \<noteq> 0" using assms(1) by auto
  moreover have "n_peers \<noteq> 0" using assms(1) by auto
  ultimately show ?thesis
    by (simp add: corr_owner_index_def djb2_stream full_key_def djb2_feed_append unat_mod u)
qed

text \<open>With a multiple of \<open>2\<^sup>3\<^sup>2\<close> peers the code divides by zero.\<close>

lemma corr_owner_index_wraps: "corr_owner_index cid vals 0x100000000 = None"
  by (simp add: corr_owner_index_def)

section \<open>The finalizer loses nothing\<close>

lemma xorshift_16: "(h XOR drop_bit 16 h) XOR drop_bit 16 (h XOR drop_bit 16 h) = (h :: u32)"
  by (rule bit_word_eqI) (auto simp: bit_simps)

lemma xorshift_13: "y XOR drop_bit 13 y XOR drop_bit 26 y = h" if "y = h XOR drop_bit 13 h" for y h :: u32
  unfolding that by (rule bit_word_eqI) (auto simp: bit_simps)

definition fmix32_inverse :: "u32 \<Rightarrow> u32" where
  "fmix32_inverse k0 =
     (let k = k0 XOR drop_bit 16 k0; k = k * 0x7ed1b41d;
          k = k XOR drop_bit 13 k XOR drop_bit 26 k; k = k * 0xa5cb9243 in
      k XOR drop_bit 16 k)"

lemma fmix32_inverse: "fmix32_inverse (corr_fmix32 h) = h"
proof -
  define a where "a = h XOR drop_bit 16 h"
  define b where "b = a * 0x85ebca6b"
  define c where "c = b XOR drop_bit 13 b"
  define d where "d = c * 0xc2b2ae35"
  have f: "corr_fmix32 h = d XOR drop_bit 16 d"
    by (simp add: corr_fmix32_def Let_def a_def b_def c_def d_def)
  have one: "(0xc2b2ae35 :: u32) * 0x7ed1b41d = 1" "(0x85ebca6b :: u32) * 0xa5cb9243 = 1" by simp_all
  have "d * 0x7ed1b41d = c" unfolding d_def mult.assoc one by (rule mult_1_right)
  moreover have "c XOR drop_bit 13 c XOR drop_bit 26 c = b" by (rule xorshift_13) (rule c_def)
  moreover have "b * 0xa5cb9243 = a" unfolding b_def mult.assoc one by (rule mult_1_right)
  moreover have "a XOR drop_bit 16 a = h" unfolding a_def by (rule xorshift_16)
  ultimately show ?thesis unfolding fmix32_inverse_def f Let_def xorshift_16 by simp
qed

lemma corr_fmix32_bij: "bij corr_fmix32"
proof -
  have "inj corr_fmix32" by (rule inj_on_inverseI [where g = fmix32_inverse]) (rule fmix32_inverse)
  moreover have "finite (UNIV :: u32 set)" by simp
  ultimately show ?thesis by (simp add: bij_def finite_UNIV_inj_surj)
qed

section \<open>Property\<close>

text \<open>
  C40. With at least one and less than \<open>2\<^sup>3\<^sup>2\<close> peers every group has exactly one owner among them,
  computed from the same text that the key function writes when it fits the buffer: the peers
  agree on the owner whatever their buffers.
\<close>

theorem corr_owner_correct:
  assumes "0 < unat n_peers" "unat n_peers < 2 ^ 32"
  shows "\<exists>i < unat n_peers. corr_owner_index cid vals n_peers = Some i \<and>
    (\<forall>cap key. corr_owner_key cap cid vals = Some key \<longrightarrow>
      length key < cap \<and> i = unat (corr_fmix32 (corr_djb2_feed 5381 key)) mod unat n_peers)"
  using assms corr_owner_index_eq [OF assms, of cid vals] by (auto simp: corr_owner_key_eq split: if_splits)

theorem corr_owner_correct_witness: "\<exists>i < 3. corr_owner_index (Some (lit ''c1'')) [Some (lit ''bob'')] 3 = Some i"
  using corr_owner_correct [of 3 "Some (lit ''c1'')" "[Some (lit ''bob'')]"] by auto

end
