(* ===== verification/Window_Spec.thy ===== *)
theory Window_Spec
  imports Corr_Temporal
begin

text \<open>
  The event ring holds the most recent times of the window, in order, and the counting and
  aggregating correlations compute over exactly those.
\<close>

section \<open>Rotated arrays\<close>

definition rot :: "nat \<Rightarrow> nat \<Rightarrow> nat \<Rightarrow> 'a list \<Rightarrow> 'a list" where
  "rot cap h n xs = map (\<lambda>i. xs ! ((h + i) mod cap)) [0..<n]"

lemma length_rot [simp]: "length (rot cap h n xs) = n"
  by (simp add: rot_def)

lemma rot_nth [simp]: "i < n \<Longrightarrow> rot cap h n xs ! i = xs ! ((h + i) mod cap)"
  by (simp add: rot_def)

lemma mod_shift_inj:
  assumes "i < cap" "j < cap" "(h + i) mod cap = (h + j) mod (cap :: nat)"
  shows "i = j"
proof -
  have "(h + i) mod cap = (h + j) mod cap \<longleftrightarrow> i mod cap = j mod cap" by (simp add: mod_add_cong nat_mod_eq_iff)
  then show ?thesis using assms by simp
qed

lemma rot_append:
  assumes "length xs = cap" "n < cap"
  shows "rot cap h (Suc n) (xs[(h + n) mod cap := x]) = rot cap h n xs @ [x]"
proof (rule nth_equalityI)
  fix i assume "i < length (rot cap h (Suc n) (xs[(h + n) mod cap := x]))"
  then have i: "i < Suc n" by simp
  have "(h + n) mod cap < cap" using assms(2) by simp
  then show "rot cap h (Suc n) (xs[(h + n) mod cap := x]) ! i = (rot cap h n xs @ [x]) ! i"
    using i assms mod_shift_inj [of i cap n h] by (cases "i = n") (auto simp: nth_append nth_list_update simp del: rot_nth simp: rot_def)
qed simp

lemma rot_tl: "rot cap (Suc h mod cap) n xs = tl (rot cap h (Suc n) xs)"
  by (rule nth_equalityI) (simp_all add: nth_tl mod_add_left_eq)

lemma rot_overwrite:
  assumes "length xs = cap" "h < cap"
  shows "rot cap (Suc h mod cap) cap (xs[h := x]) = tl (rot cap h cap xs) @ [x]"
proof -
  obtain n where n: "cap = Suc n" using assms(2) by (cases cap) auto
  have e: "(Suc h mod cap + n) mod cap = h"
  proof -
    have "(Suc h mod cap + n) mod cap = (Suc h + n) mod cap" by (rule mod_add_left_eq)
    also have "Suc h + n = h + cap" using n by simp
    also have "(h + cap) mod cap = h" using assms(2) by simp
    finally show ?thesis .
  qed
  have "rot cap (Suc h mod cap) (Suc n) (xs[(Suc h mod cap + n) mod cap := x]) = rot cap (Suc h mod cap) n xs @ [x]"
    using assms n by (intro rot_append) simp_all
  then show ?thesis unfolding e by (simp add: rot_tl n)
qed

section \<open>The ring of a group\<close>

definition ring_ok :: "group \<Rightarrow> bool" where
  "ring_ok g \<longleftrightarrow> length (ev_ts g) = unat (ev_cap g) \<and> 0 < unat (ev_cap g) \<and> unat (ev_cap g) \<le> 2 ^ 28 \<and>
     unat (ev_head g) < unat (ev_cap g) \<and> unat (ev_len g) \<le> unat (ev_cap g) \<and>
     (\<forall>vs. ev_val g = Some vs \<longrightarrow> length vs = unat (ev_cap g))"

text \<open>An array of the group, read from its head.\<close>

definition live :: "group \<Rightarrow> 'a list \<Rightarrow> 'a list" where
  "live g xs = rot (unat (ev_cap g)) (unat (ev_head g)) (unat (ev_len g)) xs"

definition ring_times :: "group \<Rightarrow> f64 list" where
  "ring_times g = live g (ev_ts g)"

definition ring_vals :: "group \<Rightarrow> f64 list" where
  "ring_vals g = (case ev_val g of None \<Rightarrow> [] | Some vs \<Rightarrow> live g vs)"

lemma length_live [simp]: "length (live g xs) = unat (ev_len g)"
  by (simp add: live_def)

lemma length_ring_times [simp]: "length (ring_times g) = unat (ev_len g)"
  by (simp add: ring_times_def)

lemma ring_okD:
  assumes "ring_ok g"
  shows "length (ev_ts g) = unat (ev_cap g)" "0 < unat (ev_cap g)" "unat (ev_cap g) \<le> 2 ^ 28"
    "unat (ev_head g) < unat (ev_cap g)" "unat (ev_len g) \<le> unat (ev_cap g)"
    "ev_val g = Some vs \<Longrightarrow> length vs = unat (ev_cap g)"
  using assms by (auto simp: ring_ok_def)

lemma ring_next:
  assumes "ring_ok g"
  shows "unat ((ev_head g + 1) mod ev_cap g) = Suc (unat (ev_head g)) mod unat (ev_cap g)"
    "unat ((ev_head g + ev_len g) mod ev_cap g) = (unat (ev_head g) + unat (ev_len g)) mod unat (ev_cap g)"
    "i \<le> 2 ^ 28 \<Longrightarrow> ring_ix g i = (unat (ev_head g) + i) mod unat (ev_cap g)"
  using ring_okD(3-5) [OF assms] by (simp_all add: unat_mod unat_word_ariths ring_ix_def unat_of_nat)

lemma ring_ix_lt: "ring_ok g \<Longrightarrow> ring_ix g i < unat (ev_cap g)"
  using ring_okD(2) by (simp add: ring_ix_def unat_mod)

lemma slot_lt:
  assumes "ring_ok g"
  shows "unat (ring_slot g) < unat (ev_cap g)"
  using ring_okD(2,4) [OF assms] by (simp add: ring_slot_def unat_mod)

text \<open>Storing an element in the next slot of any array of the group, and moving the ring on.\<close>

definition push_full :: "group \<Rightarrow> bool" where
  "push_full g \<longleftrightarrow> ev_len g = ev_cap g"

definition advanced :: "group \<Rightarrow> group" where
  "advanced g = (if push_full g then g\<lparr>ev_head := (ev_head g + 1) mod ev_cap g\<rparr> else g\<lparr>ev_len := ev_len g + 1\<rparr>)"

lemma advanced_fields [simp]:
  "ev_cap (advanced g) = ev_cap g" "ev_ts (advanced g) = ev_ts g" "ev_val (advanced g) = ev_val g"
  by (simp_all add: advanced_def)

lemma live_push:
  assumes "ring_ok g" "length xs = unat (ev_cap g)"
  shows "live (advanced g) (xs[unat (ring_slot g) := x]) = (if push_full g then tl (live g xs) else live g xs) @ [x]"
proof (cases "push_full g")
  case True
  then have "unat (ev_len g) = unat (ev_cap g)" by (simp add: push_full_def)
  then show ?thesis
    using True assms ring_okD(4) [OF assms(1)] rot_overwrite [of xs "unat (ev_cap g)" "unat (ev_head g)" x]
    by (simp add: live_def advanced_def ring_slot_def push_full_def ring_next [OF assms(1)])
next
  case False
  then have lt: "unat (ev_len g) < unat (ev_cap g)"
    using ring_okD(5) [OF assms(1)] by (simp add: push_full_def word_unat_eq_iff)
  then have "unat (ev_len g + 1) = Suc (unat (ev_len g))"
    using ring_okD(3) [OF assms(1)] by (simp add: unat_word_ariths)
  then show ?thesis
    using False assms(2) lt rot_append [of xs "unat (ev_cap g)" "unat (ev_len g)" "unat (ev_head g)" x]
    by (simp add: live_def advanced_def ring_slot_def push_full_def ring_next [OF assms(1)])
qed

lemma advanced_ok:
  assumes "ring_ok g"
  shows "ring_ok (advanced g)"
proof -
  note ok = ring_okD [OF assms]
  have "unat (ev_len g + 1) \<le> unat (ev_cap g)" if "ev_len g \<noteq> ev_cap g"
  proof -
    have "unat (ev_len g) < unat (ev_cap g)" using that ok(5) by (simp add: word_unat_eq_iff)
    then show ?thesis using ok(3) by (simp add: unat_word_ariths)
  qed
  then show ?thesis
    using ok ring_next(1) [OF assms] by (auto simp: ring_ok_def advanced_def push_full_def)
qed

lemma ring_put_ok:
  assumes "ring_ok g"
  shows "ring_put now g = Some ((advanced g)\<lparr>ev_ts := (ev_ts g)[unat (ring_slot g) := now]\<rparr>,
    if push_full g then Some (hd (ring_times g)) else None)"
proof -
  note ok = ring_okD [OF assms]
  have "hd (ring_times g) = ev_ts g ! unat (ev_head g)" if "push_full g"
  proof -
    have "0 < unat (ev_len g)" using that ok(2) by (simp add: push_full_def)
    then have "hd (ring_times g) = ring_times g ! 0" by (simp add: hd_conv_nth flip: length_greater_0_conv)
    then show ?thesis using \<open>0 < unat (ev_len g)\<close> ok(4) by (simp add: ring_times_def live_def)
  qed
  then show ?thesis
    using ok slot_lt [OF assms] by (auto simp: ring_put_def advanced_def push_full_def)
qed

text \<open>Forgetting the oldest \<open>k\<close> entries.\<close>

definition drop_oldest :: "group \<Rightarrow> group" where
  "drop_oldest g = g\<lparr>ev_head := (ev_head g + 1) mod ev_cap g, ev_len := ev_len g - 1\<rparr>"

definition dropped :: "nat \<Rightarrow> group \<Rightarrow> group" where
  "dropped k g = (drop_oldest ^^ k) g"

lemma drop_oldest_fields [simp]:
  "ev_cap (drop_oldest g) = ev_cap g" "ev_ts (drop_oldest g) = ev_ts g" "ev_val (drop_oldest g) = ev_val g"
  by (simp_all add: drop_oldest_def)

lemma drop_oldest_ok:
  assumes "ring_ok g" "0 < unat (ev_len g)"
  shows "ring_ok (drop_oldest g)" "unat (ev_len (drop_oldest g)) = unat (ev_len g) - 1"
    "live (drop_oldest g) xs = tl (live g xs)"
proof -
  note ok = ring_okD [OF assms(1)]
  have l: "unat (ev_len g - 1) = unat (ev_len g) - 1" using assms(2) unat_minus_one [of "ev_len g"] by (cases "ev_len g = 0") auto
  then show "unat (ev_len (drop_oldest g)) = unat (ev_len g) - 1" by (simp add: drop_oldest_def)
  show "ring_ok (drop_oldest g)"
    using ok l ring_next(1) [OF assms(1)] by (auto simp: ring_ok_def drop_oldest_def)
  obtain n where "unat (ev_len g) = Suc n" using assms(2) by (cases "unat (ev_len g)") auto
  then show "live (drop_oldest g) xs = tl (live g xs)"
    by (simp add: live_def drop_oldest_def l ring_next(1) [OF assms(1)] rot_tl)
qed

lemma dropped_Suc: "dropped (Suc k) g = dropped k (drop_oldest g)"
  by (simp add: dropped_def funpow_swap1)

lemma dropped_0 [simp]: "dropped 0 g = g"
  by (simp add: dropped_def)

lemma dropped_ok:
  "ring_ok g \<Longrightarrow> k \<le> unat (ev_len g) \<Longrightarrow>
    ring_ok (dropped k g) \<and> unat (ev_len (dropped k g)) = unat (ev_len g) - k \<and> live (dropped k g) xs = drop k (live g xs)"
proof (induction k arbitrary: g)
  case (Suc k)
  have pos: "0 < unat (ev_len g)" using Suc.prems(2) by simp
  note d = drop_oldest_ok [OF Suc.prems(1) pos]
  have "k \<le> unat (ev_len (drop_oldest g))" using Suc.prems(2) d(2) by simp
  from Suc.IH [OF d(1) this] show ?case by (simp add: dropped_Suc drop_Suc d)
qed simp

lemma dropped_arrays: "ev_ts (dropped k g) = ev_ts g" "ev_val (dropped k g) = ev_val g"
  by (induction k arbitrary: g) (simp_all add: dropped_Suc)

text \<open>What a prune or a push leaves alone.\<close>

definition ring_only :: "group \<Rightarrow> group \<Rightarrow> bool" where
  "ring_only g g' \<longleftrightarrow> (\<exists>h l ts vs. g' = g\<lparr>ev_head := h, ev_len := l, ev_ts := ts, ev_val := vs\<rparr>)"

lemma ring_only_refl [simp]: "ring_only g g"
proof -
  have "g = g\<lparr>ev_head := ev_head g, ev_len := ev_len g, ev_ts := ev_ts g, ev_val := ev_val g\<rparr>" by simp
  then show ?thesis unfolding ring_only_def by blast
qed

lemma ring_only_trans: "ring_only g g' \<Longrightarrow> ring_only g' g'' \<Longrightarrow> ring_only g g''"
  unfolding ring_only_def by fastforce

lemma ring_only_upd [simp]:
  "ring_only g (g\<lparr>ev_ts := ts\<rparr>)" "ring_only g (g\<lparr>ev_val := vs\<rparr>)" "ring_only g (g\<lparr>ev_head := h\<rparr>)" "ring_only g (g\<lparr>ev_len := l\<rparr>)"
proof -
  have "g\<lparr>ev_ts := ts\<rparr> = g\<lparr>ev_head := ev_head g, ev_len := ev_len g, ev_ts := ts, ev_val := ev_val g\<rparr>"
    "g\<lparr>ev_val := vs\<rparr> = g\<lparr>ev_head := ev_head g, ev_len := ev_len g, ev_ts := ev_ts g, ev_val := vs\<rparr>"
    "g\<lparr>ev_head := h\<rparr> = g\<lparr>ev_head := h, ev_len := ev_len g, ev_ts := ev_ts g, ev_val := ev_val g\<rparr>"
    "g\<lparr>ev_len := l\<rparr> = g\<lparr>ev_head := ev_head g, ev_len := l, ev_ts := ev_ts g, ev_val := ev_val g\<rparr>" by simp_all
  then show "ring_only g (g\<lparr>ev_ts := ts\<rparr>)" "ring_only g (g\<lparr>ev_val := vs\<rparr>)" "ring_only g (g\<lparr>ev_head := h\<rparr>)" "ring_only g (g\<lparr>ev_len := l\<rparr>)"
    unfolding ring_only_def by blast+
qed

lemma ring_only_drop [simp]: "ring_only g (drop_oldest g)"
  unfolding drop_oldest_def by (rule ring_only_trans [OF ring_only_upd(3) ring_only_upd(4)])

lemma ring_only_dropped: "ring_only g (dropped k g)"
  by (induction k arbitrary: g) (auto simp: dropped_Suc intro: ring_only_trans [OF ring_only_drop])

lemma ring_only_advanced [simp]: "ring_only g (advanced g)"
  by (simp add: advanced_def)

lemma ring_onlyD:
  assumes "ring_only g g'"
  shows "ev_cap g' = ev_cap g" "merge_n g' = merge_n g" "merge_sum g' = merge_sum g" "distinct_set g' = distinct_set g"
    "bbuckets g' = bbuckets g" "seen g' = seen g" "wm g' = wm g" "last_update g' = last_update g" "fired_until g' = fired_until g"
    "merge_remote g' = merge_remote g" "merge_seen g' = merge_seen g" "ordered_progress g' = ordered_progress g"
    "ordered_anchor_ts g' = ordered_anchor_ts g" "ordered_last_ts g' = ordered_last_ts g" "wm_max_ts g' = wm_max_ts g"
  using assms by (auto simp: ring_only_def)

definition expired :: "f64 \<Rightarrow> f64 list \<Rightarrow> nat" where
  "expired window_start ts = length (takeWhile (\<lambda>t. f64_lt t window_start) ts)"

lemma expired_le: "expired ws ts \<le> length ts"
  unfolding expired_def by (rule length_takeWhile_le)

lemma ev_prune_loop_ok:
  "ring_ok g \<Longrightarrow> unat (ev_len g) \<le> n \<Longrightarrow> ev_prune_loop n ws g = Some (dropped (expired ws (ring_times g)) g)"
proof (induction n arbitrary: g)
  case 0
  then show ?case by (simp add: expired_def ring_times_def live_def rot_def)
next
  case (Suc n)
  note ok = ring_okD [OF Suc.prems(1)]
  show ?case
  proof (cases "ev_len g = 0")
    case True
    then show ?thesis by (simp add: expired_def ring_times_def live_def rot_def)
  next
    case False
    then have pos: "0 < unat (ev_len g)" "ev_len g > 0" by (simp_all add: unat_gt_0 word_neq_0_conv)
    note d = drop_oldest_ok [OF Suc.prems(1) pos(1)]
    define t where "t = ev_ts g ! unat (ev_head g)"
    have ts: "ring_times g = t # ring_times (drop_oldest g)"
    proof -
      have "ring_times g \<noteq> []" using pos(1) by (simp flip: length_greater_0_conv)
      moreover have "ring_times g ! 0 = t" using pos(1) ok(4) by (simp add: ring_times_def live_def t_def)
      moreover have "ring_times (drop_oldest g) = tl (ring_times g)" by (simp add: ring_times_def d(3))
      ultimately show ?thesis by (cases "ring_times g") simp_all
    qed
    show ?thesis
    proof (cases "f64_lt t ws")
      case True
      have "ev_prune_loop n ws (drop_oldest g) = Some (dropped (expired ws (ring_times (drop_oldest g))) (drop_oldest g))"
        using d(1,2) Suc.prems(2) by (intro Suc.IH) simp_all
      then show ?thesis
        using True pos(2) ok by (simp add: t_def [symmetric] drop_oldest_def [symmetric] ts expired_def dropped_Suc)
    next
      case False
      then show ?thesis using pos(2) ok by (simp add: t_def [symmetric] ts expired_def)
    qed
  qed
qed

lemma ev_prune_ok:
  fixes ws
  assumes "ring_ok g"
  defines "g' \<equiv> dropped (expired ws (ring_times g)) g"
  shows "ev_prune ws g = Some g'" "ring_ok g'" "live g' xs = drop (expired ws (ring_times g)) (live g xs)" "ring_only g g'"
    "ring_times g' = dropWhile (\<lambda>t. f64_lt t ws) (ring_times g)" "unat (ev_len g') = length (ring_times g')"
proof -
  have k: "expired ws (ring_times g) \<le> unat (ev_len g)" using expired_le [of ws "ring_times g"] by simp
  note d = dropped_ok [OF assms(1) k]
  show "ev_prune ws g = Some g'" unfolding ev_prune_def g'_def by (rule ev_prune_loop_ok [OF assms(1)]) simp
  show ok: "ring_ok g'" and live: "live g' xs = drop (expired ws (ring_times g)) (live g xs)" for xs by (simp_all add: g'_def d)
  show ro: "ring_only g g'" unfolding g'_def by (rule ring_only_dropped)
  have "ev_ts g' = ev_ts g" by (simp add: g'_def dropped_arrays)
  then show "ring_times g' = dropWhile (\<lambda>t. f64_lt t ws) (ring_times g)"
    by (simp add: ring_times_def live dropWhile_eq_drop expired_def)
  show "unat (ev_len g') = length (ring_times g')" by simp
qed

section \<open>Counting events\<close>

text \<open>A bounded list of the newest entries.\<close>

definition push_newest :: "nat \<Rightarrow> 'a \<Rightarrow> 'a list \<Rightarrow> 'a list" where
  "push_newest cap x xs = (if length xs = cap then tl xs else xs) @ [x]"

definition window_push :: "nat \<Rightarrow> f64 \<Rightarrow> f64 \<Rightarrow> f64 list \<Rightarrow> f64 list" where
  "window_push cap window_start now ts = dropWhile (\<lambda>t. f64_lt t window_start) (push_newest cap now ts)"

lemma push_full_len: "push_full g \<longleftrightarrow> length (live g xs) = unat (ev_cap g)"
  by (simp add: push_full_def word_unat_eq_iff)

lemma stored_push:
  fixes now
  assumes "ring_ok g"
  defines "g1 \<equiv> (advanced g)\<lparr>ev_ts := (ev_ts g)[unat (ring_slot g) := now]\<rparr>"
  shows "ring_ok g1" "ring_times g1 = push_newest (unat (ev_cap g)) now (ring_times g)" "ring_only g g1"
    "live g1 xs = live (advanced g) xs" "ev_val g1 = ev_val g"
proof -
  show "ring_ok g1" using advanced_ok [OF assms(1)] by (simp add: ring_ok_def g1_def)
  show "live g1 xs = live (advanced g) xs" for xs :: "'a list" by (simp add: live_def g1_def)
  have "ring_times g1 = live (advanced g) ((ev_ts g)[unat (ring_slot g) := now])"
    by (simp add: ring_times_def g1_def live_def)
  then show "ring_times g1 = push_newest (unat (ev_cap g)) now (ring_times g)"
    using live_push [OF assms(1) ring_okD(1) [OF assms(1)]] push_full_len [of g "ev_ts g"]
    by (simp add: push_newest_def ring_times_def)
  show "ring_only g g1" unfolding g1_def by (rule ring_only_trans [OF ring_only_advanced ring_only_upd(1)])
  show "ev_val g1 = ev_val g" by (simp add: g1_def)
qed

lemma eval_event_count_ok:
  fixes ws now
  assumes "ring_ok g"
  defines "w \<equiv> window_push (unat (ev_cap g)) ws now (ring_times g)"
  obtains g' stats' where
    "eval_event_count r now ws g stats =
      Some (cmp_threshold (int (length w) + uint (merge_n g)) (r_op r) (r_count r), g', stats')"
    "ring_ok g'" "ring_times g' = w" "ring_only g g'"
proof -
  define g1 where "g1 = (advanced g)\<lparr>ev_ts := (ev_ts g)[unat (ring_slot g) := now]\<rparr>"
  note s = stored_push [OF assms(1), where now = now, folded g1_def]
  obtain g2 where g2: "ev_prune ws g1 = Some g2" "ring_ok g2" "ring_only g1 g2" "ring_times g2 = w" "unat (ev_len g2) = length w"
    using ev_prune_ok [OF s(1), of ws] by (simp add: w_def window_push_def s(2))
  have ro: "ring_only g g2" by (rule ring_only_trans [OF s(3) g2(3)])
  have "uint (ev_len g2) = int (length w)" using g2(5) by (metis uint_nat)
  then have "\<exists>stats'. eval_event_count r now ws g stats =
      Some (cmp_threshold (int (length w) + uint (merge_n g)) (r_op r) (r_count r), g2, stats')"
    using ring_put_ok [OF assms(1), where now = now] g2(1) ring_onlyD(2) [OF ro]
    by (simp add: eval_event_count_def g1_def [symmetric])
  then show ?thesis using that g2(2,4) ro by blast
qed

text \<open>
  When time does not go backwards, the ring after a sequence of events holds exactly the events
  of the last window, up to the cap.
\<close>

definition nondecreasing :: "f64 list \<Rightarrow> bool" where
  "nondecreasing ts \<longleftrightarrow> sorted_wrt f64_le ts"

lemma dropWhile_filter_sorted:
  "nondecreasing ts \<Longrightarrow> f64_finite ws \<Longrightarrow> dropWhile (\<lambda>t. f64_lt t ws) ts = filter (\<lambda>t. \<not> f64_lt t ws) ts"
proof (induction ts)
  case (Cons t ts)
  show ?case
  proof (cases "f64_lt t ws")
    case False
    have "\<not> f64_lt u ws" if "u \<in> set ts" for u
      using Cons.prems(1) that False f64_le_lt_trans by (auto simp: nondecreasing_def)
    then have "filter (\<lambda>t. \<not> f64_lt t ws) ts = ts" by (simp add: filter_id_conv)
    with False show ?thesis by simp
  next
    case True
    with Cons show ?thesis by (simp add: nondecreasing_def)
  qed
qed simp

text \<open>The last \<open>n\<close> elements.\<close>

definition newest :: "nat \<Rightarrow> 'a list \<Rightarrow> 'a list" where
  "newest n xs = drop (length xs - n) xs"

lemma length_newest [simp]: "length (newest n xs) = min n (length xs)"
  by (simp add: newest_def)

lemma newest_snoc: "0 < n \<Longrightarrow> newest n (xs @ [x]) = push_newest n x (newest n xs)"
  by (auto simp: newest_def push_newest_def tl_drop drop_Suc Suc_diff_le not_le intro: arg_cong2 [where f = drop])

lemma newest_sorted: "nondecreasing xs \<Longrightarrow> nondecreasing (newest n xs)"
  unfolding nondecreasing_def newest_def by (metis append_take_drop_id sorted_wrt_append)

lemma in_window_mono:
  assumes "f64_le ws ws'"
  shows "f64_lt u ws \<Longrightarrow> f64_lt u ws'"
  using assms f64_lt_le_trans by blast

lemma window_step:
  assumes "0 < cap" "nondecreasing (xs @ [t])" "f64_le ws ws'" "f64_le ws' t" "f64_finite ws" "f64_finite ws'"
  shows "window_push cap ws' t (filter (\<lambda>u. \<not> f64_lt u ws) (newest cap xs)) = filter (\<lambda>u. \<not> f64_lt u ws') (newest cap (xs @ [t]))"
proof -
  define l w where "l = newest cap xs" and "w = filter (\<lambda>u. \<not> f64_lt u ws) l"
  have sx: "nondecreasing xs" and st: "\<And>u. u \<in> set xs \<Longrightarrow> f64_le u t"
    using assms(2) by (auto simp: nondecreasing_def sorted_wrt_append)
  have sl: "nondecreasing l" unfolding l_def by (rule newest_sorted [OF sx])
  have lx: "set l \<subseteq> set xs" by (auto simp: l_def newest_def dest: in_set_dropD)
  have t: "\<not> f64_lt t ws'" using assms(4) f64_le_lt_trans f64_lt_irrefl by blast
  have sub: "filter (\<lambda>u. \<not> f64_lt u ws') (filter (\<lambda>u. \<not> f64_lt u ws) ys) = filter (\<lambda>u. \<not> f64_lt u ws') ys" for ys
    using in_window_mono [OF assms(3)] by (auto intro: filter_cong)
  have sw: "nondecreasing (push_newest cap t w)"
  proof -
    have "nondecreasing w" using sl by (simp add: w_def nondecreasing_def sorted_wrt_filter)
    moreover have "f64_le u t" if "u \<in> set w" for u using that lx st by (auto simp: w_def)
    moreover have "set (tl w) \<subseteq> set w" by (cases w) auto
    moreover have "sorted_wrt f64_le (tl w)" if "sorted_wrt f64_le w" using that by (cases w) auto
    ultimately show ?thesis by (auto simp: push_newest_def nondecreasing_def sorted_wrt_append)
  qed
  have "window_push cap ws' t w = filter (\<lambda>u. \<not> f64_lt u ws') (push_newest cap t w)"
    unfolding window_push_def by (rule dropWhile_filter_sorted [OF sw assms(6)])
  also have "\<dots> = filter (\<lambda>u. \<not> f64_lt u ws') (push_newest cap t l)"
  proof (cases "length w = cap")
    case True
    have "length w \<le> length l" unfolding w_def by (rule length_filter_le)
    moreover have "length l \<le> cap" by (simp add: l_def)
    ultimately have "length w = length l" using True by simp
    then have "w = l" unfolding w_def by (metis filter_id_conv length_filter_less not_less_iff_gr_or_eq)
    then show ?thesis by simp
  next
    case False
    have pw: "filter (\<lambda>u. \<not> f64_lt u ws') (push_newest cap t w) = filter (\<lambda>u. \<not> f64_lt u ws') l @ [t]"
      using False t by (simp add: push_newest_def) (simp only: w_def sub)
    show ?thesis
    proof (cases "length l = cap")
      case True
      then obtain a as where l: "l = a # as" using assms(1) by (cases l) auto
      have "f64_lt a ws"
      proof (rule ccontr)
        assume a: "\<not> f64_lt a ws"
        then have "w = l"
          unfolding w_def dropWhile_filter_sorted [OF sl assms(5), symmetric] by (simp add: l)
        with False True show False by simp
      qed
      then have "f64_lt a ws'" by (rule in_window_mono [OF assms(3)])
      then show ?thesis using True t unfolding pw by (simp add: push_newest_def l)
    next
      case nl: False
      then show ?thesis using t unfolding pw by (simp add: push_newest_def)
    qed
  qed
  also have "\<dots> = filter (\<lambda>u. \<not> f64_lt u ws') (newest cap (xs @ [t]))"
    unfolding l_def newest_snoc [OF assms(1)] ..
  finally show ?thesis unfolding w_def l_def .
qed

lemma window_run:
  assumes "0 < cap" "nondecreasing ts" "\<And>t. t \<in> set ts \<Longrightarrow> f64_finite (f64_sub t T) \<and> f64_le (f64_sub t T) t"
    and mono: "\<And>t u. f64_le t u \<Longrightarrow> t \<in> set ts \<Longrightarrow> u \<in> set ts \<Longrightarrow> f64_le (f64_sub t T) (f64_sub u T)"
    and "ts \<noteq> []"
  shows "fold (\<lambda>t. window_push cap (f64_sub t T) t) ts [] =
    filter (\<lambda>u. \<not> f64_lt u (f64_sub (last ts) T)) (newest cap ts)"
  using assms
proof (induction ts rule: rev_induct)
  case (snoc t ts)
  show ?case
  proof (cases "ts = []")
    case True
    have "\<not> f64_lt t (f64_sub t T)" using snoc.prems(3) f64_le_lt_trans f64_lt_irrefl by force
    then show ?thesis using True snoc.prems(1) by (simp add: window_push_def push_newest_def newest_def)
  next
    case False
    have nd: "nondecreasing ts" using snoc.prems(2) by (simp add: nondecreasing_def sorted_wrt_append)
    have "f64_le (last ts) t" using snoc.prems(2) False by (simp add: nondecreasing_def sorted_wrt_append)
    then have ws: "f64_le (f64_sub (last ts) T) (f64_sub t T)" using snoc.prems(4) False by simp
    have "fold (\<lambda>t. window_push cap (f64_sub t T) t) ts [] =
        filter (\<lambda>u. \<not> f64_lt u (f64_sub (last ts) T)) (newest cap ts)"
      using snoc.prems False nd by (intro snoc.IH) auto
    then show ?thesis
      using window_step [OF snoc.prems(1,2) ws] snoc.prems(3) False by simp
  qed
qed simp

text \<open>Plausible times: representable, from the epoch to \<open>2\<^sup>5\<^sup>2\<close> seconds after it.\<close>

definition time_ok :: "f64 \<Rightarrow> bool" where
  "time_ok t \<longleftrightarrow> f64_ok t \<and> f64_le (Fin 0) t \<and> f64_le t (Fin (2 ^ 52))"

lemma rnd_finite: "\<bar>x\<bar> \<le> 2 ^ 53 \<Longrightarrow> \<exists>y. rnd x = Fin y \<and> \<bar>y\<bar> \<le> 2 ^ 53"
proof -
  assume x: "\<bar>x\<bar> \<le> 2 ^ 53"
  have "rnd (of_int (2 ^ 53)) = Fin (of_int (2 ^ 53))" "rnd (of_int (- (2 ^ 53))) = Fin (of_int (- (2 ^ 53)))"
    by (intro rnd_of_int; simp)+
  moreover have "f64_le (rnd (of_int (- (2 ^ 53)))) (rnd x)" "f64_le (rnd x) (rnd (of_int (2 ^ 53)))"
    using x by (intro rnd_mono; simp)+
  ultimately show ?thesis by (cases "rnd x") auto
qed

lemma time_sub:
  assumes "time_ok t" "0 \<le> T" "T \<le> 2 ^ 31"
  shows "f64_finite (f64_sub t (Fin T))" "f64_le (f64_sub t (Fin T)) t"
proof -
  obtain a where a: "t = Fin a" "0 \<le> a" "a \<le> 2 ^ 52" using assms(1) by (cases t) (auto simp: time_ok_def)
  then have "\<bar>a - T\<bar> \<le> 2 ^ 53" using assms(2,3) by (simp add: abs_le_iff)
  from rnd_finite [OF this] show "f64_finite (f64_sub t (Fin T))" by (auto simp: a f64_sub_def)
  show "f64_le (f64_sub t (Fin T)) t" using assms a by (intro f64_sub_le) (simp_all add: time_ok_def)
qed

lemma time_sub_mono:
  assumes "time_ok t" "time_ok u" "f64_le t u"
  shows "f64_le (f64_sub t (Fin T)) (f64_sub u (Fin T))"
  using assms by (cases t; cases u) (auto simp: time_ok_def f64_sub_def intro: rnd_mono)

text \<open>A stream of events of one group, through the evaluation of \<open>event_count\<close>.\<close>

definition count_stream :: "corr_rule \<Rightarrow> f64 list \<Rightarrow> group \<Rightarrow> corr_stats \<Rightarrow> (bool \<times> group \<times> corr_stats) option" where
  "count_stream r ts g stats =
     mfold (\<lambda>t (_, g, stats). eval_event_count r t (f64_sub t (f64_of_int (r_timespan r))) g stats) ts (False, g, stats)"

lemma count_stream_ring:
  assumes "ring_ok g"
  shows "\<exists>f g' stats'. count_stream r ts g stats = Some (f, g', stats') \<and> ring_ok g' \<and> ring_only g g' \<and>
    ring_times g' = fold (\<lambda>t. window_push (unat (ev_cap g)) (f64_sub t (f64_of_int (r_timespan r))) t) ts (ring_times g) \<and>
    (ts \<noteq> [] \<longrightarrow> f = cmp_threshold (int (length (ring_times g')) + uint (merge_n g)) (r_op r) (r_count r))"
proof (induction ts rule: rev_induct)
  case Nil
  show ?case using assms by (auto simp: count_stream_def)
next
  case (snoc t ts)
  then obtain f g1 st1 where 1: "count_stream r ts g stats = Some (f, g1, st1)" "ring_ok g1" "ring_only g g1"
    "ring_times g1 = fold (\<lambda>t. window_push (unat (ev_cap g)) (f64_sub t (f64_of_int (r_timespan r))) t) ts (ring_times g)" by blast
  let ?ws = "f64_sub t (f64_of_int (r_timespan r))"
  obtain g2 st2 where 2: "eval_event_count r t ?ws g1 st1 =
      Some (cmp_threshold (int (length (window_push (unat (ev_cap g1)) ?ws t (ring_times g1))) + uint (merge_n g1)) (r_op r) (r_count r), g2, st2)"
    "ring_ok g2" "ring_times g2 = window_push (unat (ev_cap g1)) ?ws t (ring_times g1)" "ring_only g1 g2"
    by (rule eval_event_count_ok [OF 1(2), where now = t and ws = ?ws and r = r and stats = st1])
  show ?case
    using 1 2 ring_onlyD(1,2) [OF 1(3)] ring_only_trans [OF 1(3) 2(4)]
    by (simp add: count_stream_def mfold_append del: length_ring_times)
qed

text \<open>Fired at the last event: the events of the group in the window that ends there, up to the cap.\<close>

lemma event_count_window:
  assumes "ring_ok g" "ring_times g = []" "ts \<noteq> []" "nondecreasing ts" "\<And>t. t \<in> set ts \<Longrightarrow> time_ok t"
    "0 \<le> r_timespan r" "r_timespan r \<le> 2 ^ 31"
  defines "ws \<equiv> f64_sub (last ts) (f64_of_int (r_timespan r))"
  shows "\<exists>g' stats'. count_stream r ts g stats =
    Some (cmp_threshold (int (length (filter (\<lambda>u. \<not> f64_lt u ws) (newest (unat (ev_cap g)) ts))) + uint (merge_n g)) (r_op r) (r_count r),
      g', stats')"
proof -
  define T where "T = (of_int (r_timespan r) :: rat)"
  have T: "f64_of_int (r_timespan r) = Fin T" "0 \<le> T" "T \<le> 2 ^ 31"
    using assms(6,7) of_int_le_iff [of "r_timespan r" "2 ^ 31", where ?'a = rat]
    by (simp_all add: f64_of_int_def T_def rnd_of_int)
  obtain f g' stats' where c: "count_stream r ts g stats = Some (f, g', stats')"
    "ring_times g' = fold (\<lambda>t. window_push (unat (ev_cap g)) (f64_sub t (Fin T)) t) ts []"
    "f = cmp_threshold (int (length (ring_times g')) + uint (merge_n g)) (r_op r) (r_count r)"
    using count_stream_ring [OF assms(1), of r ts stats] assms(3) unfolding T(1) assms(2) by blast
  have "ring_times g' = filter (\<lambda>u. \<not> f64_lt u (f64_sub (last ts) (Fin T))) (newest (unat (ev_cap g)) ts)"
    unfolding c(2)
    using assms(3-5) ring_okD(2) [OF assms(1)] time_sub T(2,3) time_sub_mono by (intro window_run) auto
  then show ?thesis using c(1) unfolding c(3) ws_def T(1) by metis
qed

section \<open>Property\<close>

lemma ring_ok_new:
  assumes "0 < unat cap" "unat cap \<le> 2 ^ 28"
  shows "ring_ok (group_new cap)" "ring_times (group_new cap) = []" "ev_cap (group_new cap) = cap" "merge_n (group_new cap) = 0"
proof -
  have "cap \<noteq> 0" using assms(1) by auto
  then show "ring_ok (group_new cap)" "ev_cap (group_new cap) = cap" "merge_n (group_new cap) = 0"
    using assms by (simp_all add: group_new_def ring_ok_def)
  show "ring_times (group_new cap) = []" by (simp add: ring_times_def live_def rot_def group_new_def Let_def)
qed

text \<open>
  C14. An event count over any stream of events in time order: at each event the rule compares
  the number of events inside the window that ends there, counting no more than the ring holds.
  The ring with its head, its wrap-around and its lazy pruning computes exactly that.
\<close>

theorem event_count_correct:
  assumes "0 < unat cap" "unat cap \<le> 2 ^ 28" "ts \<noteq> []" "nondecreasing ts" "\<forall>t \<in> set ts. time_ok t"
    "0 \<le> r_timespan r" "r_timespan r \<le> 2 ^ 31"
  shows "\<exists>g' stats'. count_stream r ts (group_new cap) stats =
    Some (cmp_threshold (int (length (filter (\<lambda>u. \<not> f64_lt u (f64_sub (last ts) (f64_of_int (r_timespan r)))) (newest (unat cap) ts))))
      (r_op r) (r_count r), g', stats')"
  using event_count_window [OF ring_ok_new(1,2) [OF assms(1,2)] assms(3,4) _ assms(6,7)] assms(5) ring_ok_new(3,4) [OF assms(1,2)]
  by simp

theorem event_count_correct_witness:
  "\<exists>g' stats'. count_stream sample_rule [Fin 5, Fin 7] (group_new 4) zero_stats = Some (True, g', stats')"
proof -
  have "\<forall>t \<in> set [Fin 5, Fin 7]. time_ok t" using f64_ok_int [of 5] f64_ok_int [of 7] by (simp add: time_ok_def)
  moreover have "f64_sub (Fin 7) (f64_of_int 10) = Fin (- 3)" using rnd_of_int [of "- 3"] by (simp add: f64_sub_def f64_ten)
  ultimately show ?thesis using event_count_correct [of 4 "[Fin 5, Fin 7]" sample_rule zero_stats]
    by (simp add: nondecreasing_def newest_def)
qed

end
