(* ===== verification/Aggregate_Spec.thy ===== *)
theory Aggregate_Spec
  imports Window_Spec
begin

text \<open>
  The numeric correlations over the window: sums and averages add the values of the window in
  order, a percentile is the nearest-rank value of the window, and evenly spaced events are a
  beacon under every tolerance.
\<close>

section \<open>Reading the window\<close>

lemma ring_read:
  assumes "ring_ok g" "length xs = unat (ev_cap g)" "i < unat (ev_len g)"
  shows "idx xs (ring_ix g i) = Some (live g xs ! i)"
proof -
  have "i \<le> 2 ^ 28" using assms(3) ring_okD(3,5) [OF assms(1)] by linarith
  then show ?thesis
    using assms ring_ix_lt [OF assms(1), of i] ring_next(3) [OF assms(1), of i] by (simp add: live_def)
qed

lemma mfold_read:
  assumes "ring_ok g" "length xs = unat (ev_cap g)" "\<And>i s. i < unat (ev_len g) \<Longrightarrow> f i s = map_option (\<lambda>v. F v s) (idx xs (ring_ix g i))"
  shows "mfold f [a..<unat (ev_len g)] s = Some (fold F (drop a (live g xs)) s)"
proof -
  have "b \<le> unat (ev_len g) \<Longrightarrow> mfold f [a..<b] s = Some (fold F (map (nth (live g xs)) [a..<b]) s)" for b
  proof (induction b)
    case (Suc b)
    then have "f b s' = Some (F (live g xs ! b) s')" for s'
      using assms(3) [of b s'] ring_read [OF assms(1,2), of b] by simp
    with Suc show ?case by (cases "a \<le> b") (simp_all add: mfold_append)
  qed simp
  from this [of "unat (ev_len g)"] have "mfold f [a..<unat (ev_len g)] s = Some (fold F (map (nth (live g xs)) [a..<length (live g xs)]) s)"
    by simp
  also have "map (nth (live g xs)) [a..<length (live g xs)] = drop a (live g xs)"
    by (rule nth_equalityI) simp_all
  finally show ?thesis .
qed

section \<open>Values with their times\<close>

text \<open>A group of a numeric correlation: the value array exists once an event is stored.\<close>

definition vals_ok :: "group \<Rightarrow> bool" where
  "vals_ok g \<longleftrightarrow> ring_ok g \<and> (ev_val g = None \<longrightarrow> ev_len g = 0)"

definition samples :: "group \<Rightarrow> (f64 \<times> f64) list" where
  "samples g = zip (ring_times g) (ring_vals g)"

lemma length_ring_vals: "vals_ok g \<Longrightarrow> length (ring_vals g) = unat (ev_len g)"
  by (auto simp: vals_ok_def ring_vals_def split: option.split)

lemma dropWhile_zip:
  "length xs = length ys \<Longrightarrow> dropWhile (\<lambda>(x, _). P x) (zip xs ys) = zip (dropWhile P xs) (drop (length (takeWhile P xs)) ys)"
  by (induction xs ys rule: list_induct2) auto

lemma tl_zip: "tl (zip xs ys) = zip (tl xs) (tl ys)"
  by (cases xs; cases ys) auto

lemma vals_nonempty: "vals_ok g \<Longrightarrow> samples g = [] \<longleftrightarrow> ev_len g = 0"
  using length_ring_vals [of g] by (auto simp: samples_def zip_eq_Nil_iff unat_eq_0 simp flip: length_0_conv)

lemma ev_prune_vals:
  assumes "vals_ok g"
  obtains g' where "ev_prune ws g = Some g'" "vals_ok g'" "ring_only g g'"
    "samples g' = dropWhile (\<lambda>(t, _). f64_lt t ws) (samples g)" "ev_val g = None \<longleftrightarrow> ev_val g' = None"
proof -
  have ok: "ring_ok g" using assms by (simp add: vals_ok_def)
  note p = ev_prune_ok [OF ok, of ws]
  let ?g = "dropped (expired ws (ring_times g)) g"
  have v: "ev_val ?g = ev_val g" by (simp add: dropped_arrays)
  have "ev_len ?g = 0" if "ev_val g = None"
    using that assms p(5,6) by (simp add: vals_ok_def ring_times_def live_def rot_def unat_eq_0)
  then have "vals_ok ?g" using p(2) v by (simp add: vals_ok_def)
  moreover have "samples ?g = dropWhile (\<lambda>(t, _). f64_lt t ws) (samples g)"
  proof (cases "ev_val g")
    case None
    then show ?thesis by (simp add: samples_def ring_vals_def v)
  next
    case (Some vs)
    then have "ring_vals ?g = drop (expired ws (ring_times g)) (ring_vals g)" by (simp add: ring_vals_def v p(3))
    then show ?thesis
      using dropWhile_zip [of "ring_times g" "ring_vals g"] length_ring_vals [OF assms] p(5)
      by (simp add: samples_def expired_def)
  qed
  ultimately show ?thesis using that p(1,4) v by simp
qed

lemma ev_push_val_ok:
  assumes "vals_ok g"
  obtains g' stats' where "ev_push_val now v ws g stats = Some (g', stats')" "vals_ok g'" "ring_only g g'" "ev_val g' \<noteq> None"
    "samples g' = dropWhile (\<lambda>(t, _). f64_lt t ws) (push_newest (unat (ev_cap g)) (now, v) (samples g))"
proof -
  have ok: "ring_ok g" using assms by (simp add: vals_ok_def)
  define vs where "vs = (case ev_val g of None \<Rightarrow> replicate (unat (ev_cap g)) (Fin 0) | Some vs \<Rightarrow> vs)"
  have lvs: "length vs = unat (ev_cap g)" using ring_okD(6) [OF ok] by (auto simp: vs_def split: option.split)
  define slot where "slot = unat (ring_slot g)"
  have slot: "slot < unat (ev_cap g)" unfolding slot_def by (rule slot_lt [OF ok])
  define g0 where "g0 = g\<lparr>ev_val := Some (vs[slot := v])\<rparr>"
  have ok0: "ring_ok g0" using ok lvs by (auto simp: ring_ok_def g0_def)
  have same: "ring_slot g0 = ring_slot g" "ring_times g0 = ring_times g" "ev_cap g0 = ev_cap g" "ring_only g g0"
    by (simp_all add: g0_def ring_slot_def ring_times_def live_def)
  define g1 where "g1 = (advanced g0)\<lparr>ev_ts := (ev_ts g0)[unat (ring_slot g0) := now]\<rparr>"
  note s = stored_push [OF ok0, where now = now, folded g1_def]
  have tv: "length (ring_times g) = length (ring_vals g)" using length_ring_vals [OF assms] by simp
  have rv: "live g vs = ring_vals g"
  proof (cases "ev_val g")
    case None
    then have "ev_len g = 0" using assms by (simp add: vals_ok_def)
    then show ?thesis by (simp add: ring_vals_def None live_def rot_def)
  qed (simp add: ring_vals_def vs_def)
  have "ring_vals g1 = live g1 (vs[slot := v])" by (simp add: ring_vals_def s(5)) (simp add: g0_def)
  also have "\<dots> = live (advanced g0) (vs[slot := v])" by (rule s(4))
  also have "live (advanced g0) (vs[slot := v]) = push_newest (unat (ev_cap g)) v (ring_vals g)"
  proof -
    have "live g0 vs = live g vs" by (simp add: live_def g0_def)
    then show ?thesis
      using live_push [OF ok0, of vs v] lvs push_full_len [of g0 vs]
      unfolding same(1,3) slot_def [symmetric] by (simp add: push_newest_def rv)
  qed
  finally have "samples g1 = push_newest (unat (ev_cap g)) (now, v) (samples g)"
    using tv s(2) by (auto simp: samples_def push_newest_def same zip_append tl_zip simp del: length_ring_times)
  moreover have "vals_ok g1" using s(1,5) by (simp add: vals_ok_def g0_def)
  then obtain g2 where g2: "ev_prune ws g1 = Some g2" "vals_ok g2" "ring_only g1 g2"
    "samples g2 = dropWhile (\<lambda>(t, _). f64_lt t ws) (samples g1)" "ev_val g1 = None \<longleftrightarrow> ev_val g2 = None"
    by (rule ev_prune_vals)
  moreover have "\<exists>stats'. ev_push_val now v ws g stats = Some (g2, stats')"
    using slot lvs g2(1) ring_put_ok [OF ok0, where now = now]
    by (simp add: ev_push_val_def Let_def vs_def [symmetric] slot_def [symmetric] g0_def [symmetric] g1_def [symmetric])
  moreover have "ring_only g g2" by (rule ring_only_trans [OF same(4) ring_only_trans [OF s(3) g2(3)]])
  moreover have "ev_val g1 \<noteq> None" using s(5) by (simp add: g0_def)
  ultimately show ?thesis using that by auto
qed

section \<open>Sums and averages\<close>

text \<open>The samples of the window after an event: one more when its value is a number.\<close>

definition next_samples :: "bytes option \<Rightarrow> nat \<Rightarrow> f64 \<Rightarrow> f64 \<Rightarrow> (f64 \<times> f64) list \<Rightarrow> (f64 \<times> f64) list" where
  "next_samples vv cap now ws xs =
     dropWhile (\<lambda>(t, _). f64_lt t ws)
       (case Option.bind vv sg_to_f64 of Some v \<Rightarrow> push_newest cap (now, v) xs | None \<Rightarrow> xs)"

lemma ev_take_value_ok:
  assumes "vals_ok g"
  obtains g' stats' where "ev_take_value vv now ws g stats = Some (g', stats')" "vals_ok g'" "ring_only g g'"
    "samples g' = next_samples vv (unat (ev_cap g)) now ws (samples g)"
proof (cases "Option.bind vv sg_to_f64")
  case None
  obtain g' where "ev_prune ws g = Some g'" "vals_ok g'" "ring_only g g'"
    "samples g' = dropWhile (\<lambda>(t, _). f64_lt t ws) (samples g)" by (rule ev_prune_vals [OF assms])
  then show ?thesis using that None by (simp add: ev_take_value_def next_samples_def)
next
  case (Some v)
  obtain g' stats' where "ev_push_val now v ws g stats = Some (g', stats')" "vals_ok g'" "ring_only g g'"
    "samples g' = dropWhile (\<lambda>(t, _). f64_lt t ws) (push_newest (unat (ev_cap g)) (now, v) (samples g))"
    by (rule ev_push_val_ok [OF assms])
  then show ?thesis using that Some by (simp add: ev_take_value_def next_samples_def)
qed

lemma map_snd_samples: "vals_ok g \<Longrightarrow> map snd (samples g) = ring_vals g"
  using length_ring_vals [of g] by (simp add: samples_def)

lemma ring_sum_eq:
  assumes "vals_ok g"
  shows "ring_sum g = Some (fold (\<lambda>v s. f64_add s v) (map snd (samples g)) (merge_sum g))"
proof (cases "ev_val g")
  case None
  then show ?thesis using map_snd_samples [OF assms] by (simp add: ring_sum_def ring_vals_def)
next
  case (Some vs)
  have ok: "ring_ok g" using assms by (simp add: vals_ok_def)
  have "mfold (\<lambda>i s. do { v \<leftarrow> idx vs (ring_ix g i); Some (f64_add s v) }) [0..<unat (ev_len g)] (merge_sum g) =
      Some (fold (\<lambda>v s. f64_add s v) (drop 0 (live g vs)) (merge_sum g))"
    by (rule mfold_read [OF ok ring_okD(6) [OF ok Some]]) (auto split: bind_split)
  then show ?thesis using map_snd_samples [OF assms] by (simp add: ring_sum_def Some ring_vals_def)
qed

text \<open>The aggregate of a list of samples with the merged remote partials.\<close>

definition agg_of :: "bool \<Rightarrow> f64 list \<Rightarrow> f64 \<Rightarrow> u32 \<Rightarrow> f64 option" where
  "agg_of is_avg vs msum mn =
     (let sum = fold (\<lambda>v s. f64_add s v) vs msum; n = of_nat (length vs) + mn in
      if is_avg then (if n = 0 then None else Some (f64_div sum (f64_of_int (uint n)))) else Some sum)"

lemma window_agg_eq:
  assumes "vals_ok g"
  shows "window_agg is_avg g = Some (agg_of is_avg (map snd (samples g)) (merge_sum g) (merge_n g))"
proof -
  have "of_nat (length (map snd (samples g))) = ev_len g"
    using length_ring_vals [OF assms] by (simp add: map_snd_samples [OF assms])
  then show ?thesis by (simp add: window_agg_def ring_sum_eq [OF assms] agg_of_def Let_def)
qed

lemma eval_value_sum_avg_ok:
  fixes now ws vv is_avg
  assumes "vals_ok g"
  defines "xs \<equiv> next_samples vv (unat (ev_cap g)) now ws (samples g)"
  defines "a \<equiv> agg_of is_avg (map snd xs) (merge_sum g) (merge_n g)"
  obtains g' stats' where
    "eval_value_sum_avg r vv is_avg now ws g stats =
      Some (case a of None \<Rightarrow> False | Some a \<Rightarrow> cond_satisfied_f (r_op r) a (f64_of_int (r_count r)),
        case a of None \<Rightarrow> Fin 0 | Some a \<Rightarrow> a, g', stats')"
    "vals_ok g'" "samples g' = xs" "ring_only g g'"
proof -
  obtain g' stats' where g': "ev_take_value vv now ws g stats = Some (g', stats')" "vals_ok g'" "ring_only g g'" "samples g' = xs"
    unfolding xs_def by (rule ev_take_value_ok [OF assms(1)])
  then show ?thesis
    using that ring_onlyD(2,3) [OF g'(3)] window_agg_eq [OF g'(2), of is_avg]
    by (cases a) (auto simp: eval_value_sum_avg_def a_def)
qed

section \<open>Nearest rank\<close>

lemma cmp_dbl_asc_sign:
  assumes "a \<noteq> NaN" "b \<noteq> NaN"
  shows "cmp_dbl_asc a b < 0 \<longleftrightarrow> a < b" "cmp_dbl_asc a b = 0 \<longleftrightarrow> a = b" "cmp_dbl_asc a b > 0 \<longleftrightarrow> b < a"
  using assms by (cases a; cases b; auto simp: cmp_dbl_asc_def less_f64_def)+

text \<open>The rank of the \<open>p\<close>th percentile of \<open>n\<close> values, counted from one.\<close>

definition nearest_rank :: "nat \<Rightarrow> nat \<Rightarrow> nat" where
  "nearest_rank p n = (p * n + 99) div 100"

lemma nearest_rank_bounds:
  assumes "1 \<le> p" "p \<le> 100" "0 < n"
  shows "1 \<le> nearest_rank p n" "nearest_rank p n \<le> n" "p * n \<le> 100 * nearest_rank p n" "100 * (nearest_rank p n - 1) < p * n"
proof -
  have pn: "1 \<le> p * n" using assms by simp
  have "p * n \<le> 100 * n" using assms(2) by simp
  then show "nearest_rank p n \<le> n" unfolding nearest_rank_def by linarith
  show "1 \<le> nearest_rank p n" using pn unfolding nearest_rank_def by linarith
  show "p * n \<le> 100 * nearest_rank p n" unfolding nearest_rank_def by linarith
  show "100 * (nearest_rank p n - 1) < p * n" using pn unfolding nearest_rank_def by linarith
qed

lemma percentile_rank_eq:
  assumes "1 \<le> p" "p \<le> 100" "0 < unat n" "unat n \<le> 2 ^ 28"
  shows "unat (percentile_rank p n) = nearest_rank (nat p) (unat n) - 1"
proof -
  define k where "k = nearest_rank (nat p) (unat n)"
  have k: "1 \<le> k" "k \<le> unat n" using nearest_rank_bounds(1,2) [of "nat p" "unat n"] assms by (simp_all add: k_def)
  have wp: "unat (word_of_int p :: u64) = nat p" using assms by (simp add: unsigned_of_int take_bit_int_eq_self)
  have wn: "unat (ucast n :: u64) = unat n" using assms(4) by (simp add: unsigned_ucast_eq take_bit_nat_eq_self)
  have pn: "nat p * unat n \<le> 100 * 2 ^ 28" using assms by (intro mult_le_mono) simp_all
  then have "unat ((word_of_int p :: u64) * ucast n) = nat p * unat n" by (simp add: unat_word_ariths wp wn)
  then have "unat ((word_of_int p :: u64) * ucast n + 99) = nat p * unat n + 99" using pn by (simp add: unat_word_ariths)
  then have q: "unat (((word_of_int p :: u64) * ucast n + 99) div 100) = k" by (simp add: unat_div k_def nearest_rank_def)
  have i: "unat (ucast (((word_of_int p :: u64) * ucast n + 99) div 100) :: u32) = k"
    using k assms(4) by (simp add: unsigned_ucast_eq q take_bit_nat_eq_self)
  define w where "w = (ucast (((word_of_int p :: u64) * ucast n + 99) div 100) :: u32)"
  have w: "unat w = k" "w \<noteq> 0" using i k by (auto simp: w_def)
  then have "unat (w - 1) = k - 1" by (simp add: unat_minus_one)
  moreover have "\<not> w - 1 \<ge> n" using calculation k by (simp add: word_le_nat_alt)
  ultimately show ?thesis
    unfolding percentile_rank_def Let_def w_def [symmetric] using w by (simp add: k_def)
qed

text \<open>At least \<open>p\<close> percent of the values are at most the chosen one, fewer are below it.\<close>

lemma sorted_rank:
  fixes xs :: "'a :: linorder list"
  assumes "i < length xs"
  defines "a \<equiv> sort xs ! i"
  shows "i < length (filter (\<lambda>x. x \<le> a) xs)" "length (filter (\<lambda>x. x < a) xs) \<le> i"
proof -
  let ?s = "sort xs"
  have perm: "length (filter P xs) = length (filter P ?s)" for P
    by (metis mset_filter mset_sort size_mset)
  have s: "?s = take i ?s @ a # drop (Suc i) ?s" using assms by (simp add: id_take_nth_drop)
  have so: "sorted (take i ?s @ a # drop (Suc i) ?s)" using s sorted_sort by metis
  have le: "\<forall>x \<in> set (take i ?s). x \<le> a" and ge: "\<forall>x \<in> set (drop (Suc i) ?s). a \<le> x"
    using so by (auto simp: sorted_append)
  have "length (filter (\<lambda>x. x \<le> a) ?s) \<ge> length (filter (\<lambda>x. x \<le> a) (take i ?s @ [a]))"
    by (subst s) simp
  moreover have "filter (\<lambda>x. x \<le> a) (take i ?s @ [a]) = take i ?s @ [a]" using le by (simp add: filter_id_conv)
  ultimately show "i < length (filter (\<lambda>x. x \<le> a) xs)" unfolding perm using assms(1) by simp
  have "filter (\<lambda>x. x < a) (drop (Suc i) ?s) = []" using ge by (auto simp: filter_empty_conv not_less)
  then have "length (filter (\<lambda>x. x < a) ?s) = length (filter (\<lambda>x. x < a) (take i ?s))" by (subst s) simp
  also have "\<dots> \<le> length (take i ?s)" by (rule length_filter_le)
  finally have "length (filter (\<lambda>x. x < a) ?s) \<le> length (take i ?s)" .
  then show "length (filter (\<lambda>x. x < a) xs) \<le> i" unfolding perm by simp
qed

text \<open>The percentile the rule asks for.\<close>

definition rule_percent :: "corr_rule \<Rightarrow> int" where
  "rule_percent r =
     (let p = (if r_type r = CORR_VALUE_MEDIAN then 50 else r_percentile r) in if p \<le> 0 then 95 else if p > 100 then 100 else p)"

lemma rule_percent_range: "1 \<le> rule_percent r" "rule_percent r \<le> 100"
  by (simp_all add: rule_percent_def Let_def)

lemma eval_value_percentile_ok:
  fixes now ws vv r
  assumes "vals_ok g" "ev_cap g \<le> scratch_cap"
  defines "xs \<equiv> next_samples vv (unat (ev_cap g)) now ws (samples g)"
  defines "a \<equiv> sort (map snd xs) ! (nearest_rank (nat (rule_percent r)) (length xs) - 1)"
  obtains g' stats' where
    "eval_value_percentile r vv now ws g stats scratch_cap =
      Some (xs \<noteq> [] \<and> cond_satisfied_f (r_op r) a (f64_of_int (r_count r)), if xs = [] then Fin 0 else a, g', stats')"
    "vals_ok g'" "samples g' = xs" "ring_only g g'"
proof -
  obtain g' stats' where g': "ev_take_value vv now ws g stats = Some (g', stats')" "vals_ok g'" "ring_only g g'" "samples g' = xs"
    unfolding xs_def by (rule ev_take_value_ok [OF assms(1)])
  have ok: "ring_ok g'" using g'(2) by (simp add: vals_ok_def)
  have len: "length xs = unat (ev_len g')" using length_ring_vals [OF g'(2)] g'(4) by (metis length_map map_snd_samples g'(2))
  show ?thesis
  proof (cases "xs = []")
    case True
    then have "ev_len g' = 0" using len by (simp add: unat_eq_0)
    then have "eval_value_percentile r vv now ws g stats scratch_cap = Some (False, Fin 0, g', stats')"
      using g'(1) by (simp add: eval_value_percentile_def split: option.split)
    then show ?thesis using that g' True by simp
  next
    case False
    then have nz: "ev_len g' \<noteq> 0" using len by auto
    then obtain vs where vs: "ev_val g' = Some vs" using g'(2) by (auto simp: vals_ok_def)
    have "unat (ev_len g') \<le> unat scratch_cap"
      using ring_okD(5) [OF ok] ring_onlyD(1) [OF g'(3)] assms(2) by (simp add: word_le_nat_alt)
    then have sc: "\<not> scratch_cap < ev_len g'" by (simp add: word_less_nat_alt)
    have "mfold (\<lambda>i s. do { v \<leftarrow> idx vs (ring_ix g' i); Some (s @ [v]) }) [0..<unat (ev_len g')] [] =
        Some (fold (\<lambda>v s. s @ [v]) (drop 0 (live g' vs)) [])"
      by (rule mfold_read [OF ok ring_okD(6) [OF ok vs]]) (auto split: bind_split)
    moreover have "fold (\<lambda>v s. s @ [v]) ys zs = zs @ ys" for ys zs :: "f64 list" by (induction ys arbitrary: zs) simp_all
    moreover have "live g' vs = map snd xs" using map_snd_samples [OF g'(2)] g'(4) by (simp add: ring_vals_def vs)
    ultimately have scr: "mfold (\<lambda>i s. do { v \<leftarrow> idx vs (ring_ix g' i); Some (s @ [v]) }) [0..<unat (ev_len g')] [] = Some (map snd xs)"
      by simp
    have n: "0 < unat (ev_len g')" "unat (ev_len g') \<le> 2 ^ 28" using nz ring_okD(3,5) [OF ok] by (auto simp: unat_gt_0)
    have rk: "unat (percentile_rank (rule_percent r) (ev_len g')) = nearest_rank (nat (rule_percent r)) (length xs) - 1"
      using percentile_rank_eq [OF rule_percent_range n, of r] len by simp
    have "nearest_rank (nat (rule_percent r)) (length xs) \<le> length xs" "1 \<le> nearest_rank (nat (rule_percent r)) (length xs)"
      using nearest_rank_bounds(1,2) [of "nat (rule_percent r)" "length xs"] rule_percent_range [of r] False by simp_all
    then have "idx (sort (map snd xs)) (unat (percentile_rank (rule_percent r) (ev_len g'))) = Some a"
      unfolding rk a_def by simp
    then have "eval_value_percentile r vv now ws g stats scratch_cap =
        Some (cond_satisfied_f (r_op r) a (f64_of_int (r_count r)), a, g', stats')"
      using g'(1) vs nz sc scr
      by (simp add: eval_value_percentile_def rule_percent_def Let_def split: if_splits)
    then show ?thesis using that g' False by simp
  qed
qed

section \<open>Evenly spaced events\<close>

text \<open>The test of the raw mode on the times of the window.\<close>

definition gap_total :: "f64 list \<Rightarrow> f64" where
  "gap_total w = fst (fold add_gap (tl w) (Fin 0, hd w, 0))"

definition gap_spread :: "f64 \<Rightarrow> f64 list \<Rightarrow> f64" where
  "gap_spread mean w = fst (fold (add_deviation mean) (tl w) (Fin 0, hd w))"

definition raw_beacon :: "corr_rule \<Rightarrow> f64 list \<Rightarrow> bool" where
  "raw_beacon r w \<longleftrightarrow>
     (let n = f64_of_int (int (length w) - 1); mean = f64_div (gap_total w) n in
      r_count r \<le> int (length w) \<and> 3 \<le> length w \<and> \<not> f64_le mean (Fin 0) \<and> within_cv r mean (f64_div (gap_spread mean w) n))"

lemma add_gap_count: "snd (snd (fold add_gap xs s)) = snd (snd s) + of_nat (length xs)"
  by (induction xs arbitrary: s) (simp_all add: add_gap_def split_beta)

lemma raw_cadence_eq:
  assumes "ring_ok g" "3 \<le> unat (ev_len g)"
  defines "w \<equiv> ring_times g"
  defines "n \<equiv> f64_of_int (int (length w) - 1)"
  defines "mean \<equiv> f64_div (gap_total w) n"
  shows "raw_cadence r g = Some (\<not> f64_le mean (Fin 0) \<and> within_cv r mean (f64_div (gap_spread mean w) n))"
proof -
  have lw: "live g (ev_ts g) = w" by (simp add: w_def ring_times_def)
  have len: "length w = unat (ev_len g)" by (simp add: w_def)
  have t0: "idx (ev_ts g) (unat (ev_head g)) = Some (hd w)"
  proof -
    have "w ! 0 = ev_ts g ! unat (ev_head g)"
      using assms(2) ring_okD(4) [OF assms(1)] unfolding lw [symmetric] by (simp add: live_def)
    moreover have "hd w = w ! 0" using assms(2) len by (intro hd_conv_nth) auto
    ultimately show ?thesis using ring_okD(1,4) [OF assms(1)] by simp
  qed
  have rd: "mfold (\<lambda>i s. do { t \<leftarrow> idx (ev_ts g) (ring_ix g i); Some (F t s) }) [1..<unat (ev_len g)] s = Some (fold F (tl w) s)"
    for F :: "f64 \<Rightarrow> 'x \<Rightarrow> 'x" and s
    using mfold_read [OF assms(1) ring_okD(1) [OF assms(1)], of "\<lambda>i s. do { t \<leftarrow> idx (ev_ts g) (ring_ix g i); Some (F t s) }" F 1 s]
    by (auto simp: lw drop_Suc split: bind_split)
  define ng where "ng = (of_nat (length w - 1) :: u32)"
  have small: "length w \<le> 2 ^ 28" using ring_okD(3,5) [OF assms(1)] len by simp
  have "uint (of_nat m :: u32) = int m" if "m \<le> 2 ^ 28" for m
    using that by (simp add: unsigned_of_nat take_bit_nat_eq_self)
  moreover have "length w - 1 \<le> 2 ^ 28" "int (length w - 1) = int (length w) - 1" using small assms(2) len by linarith+
  ultimately have ng: "uint ng = int (length w) - 1" unfolding ng_def by metis
  have "2 \<le> uint ng" unfolding ng using assms(2) unfolding len by linarith
  then have nz: "ng \<noteq> 0" by auto
  obtain p where gaps: "fold add_gap (tl w) (Fin 0, hd w, 0) = (gap_total w, p, ng)"
    using add_gap_count [of "tl w" "(Fin 0, hd w, 0)"] by (metis gap_total_def ng_def add_0 length_tl prod.collapse snd_conv)
  obtain q where dev: "fold (add_deviation mean) (tl w) (Fin 0, hd w) = (gap_spread mean w, q)"
    by (metis gap_spread_def prod.collapse)
  show ?thesis
    unfolding raw_cadence_def t0 by (simp add: rd [simplified] gaps dev nz ng mean_def [symmetric] n_def [symmetric])
qed

lemma eval_beaconing_raw_ok:
  fixes now ws r
  assumes "ring_ok g"
  defines "w \<equiv> window_push (unat (ev_cap g)) ws now (ring_times g)"
  obtains g' stats' where "eval_beaconing_raw r now ws g stats = Some (raw_beacon r w, g', stats')"
    "ring_ok g'" "ring_times g' = w" "ring_only g g'"
proof -
  define g1 where "g1 = (advanced g)\<lparr>ev_ts := (ev_ts g)[unat (ring_slot g) := now]\<rparr>"
  note s = stored_push [OF assms(1), where now = now, folded g1_def]
  obtain g2 where g2: "ev_prune ws g1 = Some g2" "ring_ok g2" "ring_only g1 g2" "ring_times g2 = w" "unat (ev_len g2) = length w"
    using ev_prune_ok [OF s(1), of ws] by (simp add: w_def window_push_def s(2))
  have ro: "ring_only g g2" by (rule ring_only_trans [OF s(3) g2(3)])
  have ul: "uint (ev_len g2) = int (length w)" using g2(5) by (metis uint_nat)
  have few: "ev_len g2 < 3 \<longleftrightarrow> length w < 3" using g2(5) by (simp add: word_less_nat_alt)
  have "raw_cadence r g2 = Some (raw_beacon r w)" if "r_count r \<le> int (length w)" "3 \<le> length w"
    using raw_cadence_eq [OF g2(2), of r] that g2(4,5) by (simp add: raw_beacon_def Let_def)
  then have "\<exists>stats'. eval_beaconing_raw r now ws g stats = Some (raw_beacon r w, g2, stats')"
    using ring_put_ok [OF assms(1), where now = now] g2(1)
    by (cases "int (length w) < r_count r \<or> length w < 3")
      (auto simp: eval_beaconing_raw_def g1_def [symmetric] ul few raw_beacon_def Let_def)
  then show ?thesis using that g2(2,4) ro by blast
qed

text \<open>Times with a constant distance: the gaps are exact, and their variance is 0.\<close>

definition every :: "int \<Rightarrow> int \<Rightarrow> nat \<Rightarrow> f64 list" where
  "every t0 d n = map (\<lambda>i. Fin (of_int (t0 + int i * d))) [0..<n]"

lemma every_Suc: "every t0 d (Suc n) = Fin (of_int t0) # every (t0 + d) d n"
  by (simp add: every_def upt_rec [of 0] map_Suc_upt [symmetric] algebra_simps del: upt_Suc)

lemma f64_int_sub: "\<bar>a - b\<bar> \<le> 2 ^ 53 \<Longrightarrow> f64_sub (Fin (of_int a)) (Fin (of_int b)) = Fin (of_int (a - b))"
  using rnd_of_int [of "a - b"] by (simp add: f64_sub_def)

lemma f64_int_add: "\<bar>a + b\<bar> \<le> 2 ^ 53 \<Longrightarrow> f64_add (Fin (of_int a)) (Fin (of_int b)) = Fin (of_int (a + b))"
  using rnd_of_int [of "a + b"] by simp

lemma every_gaps:
  assumes "0 \<le> d" "0 \<le> a" "a + int n * d \<le> 2 ^ 53"
  shows "fst (fold add_gap (every (t + d) d n) (Fin (of_int a), Fin (of_int t), k)) = Fin (of_int (a + int n * d))"
  using assms
proof (induction n arbitrary: a t k)
  case (Suc n)
  have nd: "0 \<le> int n * d" using Suc.prems(1) by simp
  have e: "int (Suc n) * d = int n * d + d" by (simp add: algebra_simps)
  have "a + d \<le> 2 ^ 53" "d \<le> 2 ^ 53" using Suc.prems nd e by linarith+
  then have "add_gap (Fin (of_int (t + d))) (Fin (of_int a), Fin (of_int t), k) = (Fin (of_int (a + d)), Fin (of_int (t + d)), k + 1)"
    using Suc.prems(1,2) f64_int_sub [of "t + d" t] f64_int_add [of a d] by (simp add: add_gap_def)
  moreover have "fst (fold add_gap (every (t + d + d) d n) (Fin (of_int (a + d)), Fin (of_int (t + d)), k + 1)) =
      Fin (of_int (a + d + int n * d))"
    using Suc.prems e by (intro Suc.IH) linarith+
  ultimately show ?case by (simp only: every_Suc fold_simps e add.assoc add.commute)
qed (simp add: every_def)

lemma every_spread:
  assumes "0 \<le> d" "d \<le> 2 ^ 53"
  shows "fst (fold (add_deviation (Fin (of_int d))) (every (t + d) d n) (Fin 0, Fin (of_int t))) = Fin 0"
proof (induction n arbitrary: t)
  case (Suc n)
  have "add_deviation (Fin (of_int d)) (Fin (of_int (t + d))) (Fin 0, Fin (of_int t)) = (Fin 0, Fin (of_int (t + d)))"
    using assms f64_int_sub [of "t + d" t] f64_int_sub [of d d] rnd_of_int [of 0] by (simp add: add_deviation_def)
  with Suc [of "t + d"] show ?case by (simp only: every_Suc fold_simps)
qed (simp add: every_def)

lemma within_cv_zero:
  assumes "0 \<le> m" "m \<le> 2 ^ 53" "0 \<le> r_cv_permille r" "r_cv_permille r \<le> 2 ^ 31"
  shows "within_cv r (Fin m) (Fin 0)"
proof -
  define c where "c = (of_int (r_cv_permille r) :: rat)"
  have c: "f64_of_int (r_cv_permille r) = Fin c" "0 \<le> c" "c \<le> 2 ^ 31"
    using assms(3,4) of_int_le_iff [of "r_cv_permille r" "2 ^ 31", where ?'a = rat] by (simp_all add: f64_of_int_def c_def rnd_of_int)
  obtain t where t: "rnd (c / 1000) = Fin t" "0 \<le> t"
  proof -
    have "\<bar>c / 1000\<bar> \<le> 2 ^ 53" using c by simp
    then obtain t where "rnd (c / 1000) = Fin t" using rnd_finite by blast
    moreover have "f64_le (rnd 0) (rnd (c / 1000))" using c by (intro rnd_mono) simp
    ultimately show ?thesis using that by (simp add: rnd_def)
  qed
  have nn: "f64_le (Fin 0) (f64_mul b b)" if "f64_le (Fin 0) b" for b
  proof (cases b)
    case (Fin x)
    then have "f64_le (rnd 0) (rnd (x * x))" by (intro rnd_mono) simp
    then show ?thesis using Fin by (simp add: rnd_def)
  qed (use that in auto)
  have "f64_le (rnd 0) (rnd (t * m))" using t(2) assms(1) by (intro rnd_mono) simp
  then have "f64_le (Fin 0) (f64_mul (Fin t) (Fin m))" by (simp add: rnd_def)
  from nn [OF this] show ?thesis using t(1) by (simp add: within_cv_def c(1) Let_def)
qed

lemma raw_beacon_every:
  assumes "3 \<le> n" "r_count r \<le> int n" "0 < d" "int n * d \<le> 2 ^ 53" "0 < r_cv_permille r" "r_cv_permille r \<le> 2 ^ 31" "n \<le> 2 ^ 28"
  shows "raw_beacon r (every t0 d n)"
proof -
  obtain k where k: "n = Suc k" "2 \<le> k" using assms(1) by (cases n) auto
  have kd: "int k * d \<le> 2 ^ 53" "d \<le> 2 ^ 53"
  proof -
    have "int k * d \<le> int n * d" "1 * d \<le> int n * d" using assms(1,3) k by (auto intro: mult_right_mono)
    then show "int k * d \<le> 2 ^ 53" "d \<le> 2 ^ 53" using assms(4) by simp_all
  qed
  have g: "gap_total (every t0 d n) = Fin (of_int (int k * d))"
    using every_gaps [of d 0 k t0 0] assms(3) kd by (simp add: gap_total_def k every_Suc)
  have n: "f64_of_int (int n - 1) = Fin (of_int (int k))" using assms(7) k rnd_of_int [of "int k"] by (simp add: f64_of_int_def)
  have m: "f64_div (gap_total (every t0 d n)) (f64_of_int (int n - 1)) = Fin (of_int d)"
    using k kd(2) assms(3) rnd_of_int [of d] unfolding g n by simp
  have s: "gap_spread (Fin (of_int d)) (every t0 d n) = Fin 0"
    using every_spread [of d t0 k] assms(3) kd(2) by (simp add: gap_spread_def k every_Suc)
  have z: "f64_div (Fin 0) (f64_of_int (int n - 1)) = Fin 0" using k unfolding n by (simp add: rnd_def)
  have d: "(of_int d :: rat) \<le> 2 ^ 53" using kd(2) of_int_le_iff [of d "2 ^ 53", where ?'a = rat] by simp
  have "length (every t0 d n) = n" by (simp add: every_def)
  then show ?thesis
    using assms m s z within_cv_zero [of "of_int d" r] d by (simp add: raw_beacon_def)
qed

section \<open>Properties\<close>

text \<open>
  C30. A percentile rule takes the event's number into its window, drops what is too old and
  what the ring cannot hold, and compares the nearest-rank percentile of the rest: the value at
  a rank with at least \<open>p\<close> of 100 of the window at or below it, and fewer than \<open>p\<close> of 100
  strictly below it. An empty window never fires.
\<close>

theorem percentile_correct:
  assumes "vals_ok g" "ev_cap g \<le> scratch_cap"
  shows "\<exists>g' stats'. let xs = next_samples vv (unat (ev_cap g)) now ws (samples g); p = nat (rule_percent r); vs = map snd xs;
      a = sort vs ! (nearest_rank p (length vs) - 1) in
    eval_value_percentile r vv now ws g stats scratch_cap =
      Some (xs \<noteq> [] \<and> cond_satisfied_f (r_op r) a (f64_of_int (r_count r)), if xs = [] then Fin 0 else a, g', stats') \<and>
    samples g' = xs \<and>
    (xs \<noteq> [] \<longrightarrow> p * length vs \<le> 100 * length (filter (\<lambda>v. v \<le> a) vs) \<and> 100 * length (filter (\<lambda>v. v < a) vs) < p * length vs)"
proof -
  define xs where "xs = next_samples vv (unat (ev_cap g)) now ws (samples g)"
  define p where "p = nat (rule_percent r)"
  define i where "i = nearest_rank p (length xs) - 1"
  obtain g' stats' where e: "eval_value_percentile r vv now ws g stats scratch_cap =
      Some (xs \<noteq> [] \<and> cond_satisfied_f (r_op r) (sort (map snd xs) ! i) (f64_of_int (r_count r)), if xs = [] then Fin 0 else sort (map snd xs) ! i, g', stats')"
    "samples g' = xs"
    by (rule eval_value_percentile_ok [OF assms, where now = now and ws = ws and vv = vv and r = r and stats = stats, folded xs_def p_def, folded i_def])
  have p: "1 \<le> p" "p \<le> 100" using rule_percent_range [of r] by (simp_all add: p_def)
  have rank: "p * length xs \<le> 100 * Suc i" "100 * i < p * length xs" "i < length xs" if "xs \<noteq> []"
  proof -
    have "0 < length xs" using that by simp
    note r = nearest_rank_bounds [OF p this]
    then have "nearest_rank p (length xs) = Suc i" by (simp add: i_def)
    with r show "p * length xs \<le> 100 * Suc i" "100 * i < p * length xs" "i < length xs" by simp_all
  qed
  have between: "n \<le> 100 * c \<and> 100 * b < n" if "i < c" "b \<le> i" "n \<le> 100 * Suc i" "100 * i < n" for i n b c :: nat
    using that mult_le_mono2 [of "Suc i" c 100] mult_le_mono2 [of b i 100] le_trans le_less_trans Suc_leI by blast
  have "p * length xs \<le> 100 * length (filter (\<lambda>v. v \<le> sort (map snd xs) ! i) (map snd xs)) \<and>
      100 * length (filter (\<lambda>v. v < sort (map snd xs) ! i) (map snd xs)) < p * length xs" if "xs \<noteq> []"
  proof -
    note r = rank [OF that]
    have l: "i < length (map snd xs)" using r(3) by simp
    show ?thesis by (rule between [OF sorted_rank [OF l] r(1,2)])
  qed
  then show ?thesis using e unfolding Let_def xs_def [symmetric] p_def [symmetric] length_map i_def [symmetric] by blast
qed

lemma vals_ok_new: "vals_ok (group_new 4)"
  by (simp add: vals_ok_def ring_ok_def group_new_def)

theorem percentile_correct_witness:
  "\<exists>g' stats'. eval_value_percentile sample_rule None (Fin 5) (Fin 1) (group_new 4) zero_stats 4 = Some (False, Fin 0, g', stats')"
proof -
  have "samples (group_new 4) = []" using vals_nonempty [OF vals_ok_new] by (simp add: group_new_def)
  then show ?thesis using percentile_correct [OF vals_ok_new, of 4 None "Fin 5" "Fin 1" sample_rule zero_stats]
    by (auto simp: Let_def next_samples_def group_new_def)
qed

end
