(* ===== verification/Temporal_Spec.thy ===== *)
theory Temporal_Spec
  imports Window_Spec
begin

text \<open>
  The temporal correlations against their meaning: conditions are boolean expressions over the
  base rules, and the seen table answers which rules matched inside the window.
\<close>

section \<open>Conditions\<close>

datatype corr_exp = Sel u32 | And corr_exp corr_exp | Or corr_exp corr_exp | Not corr_exp

fun holds :: "(nat \<Rightarrow> bool) \<Rightarrow> corr_exp \<Rightarrow> bool" where
  "holds P (Sel i) = P (unat i)"
| "holds P (And a b) = (holds P a \<and> holds P b)"
| "holds P (Or a b) = (holds P a \<or> holds P b)"
| "holds P (Not a) = (\<not> holds P a)"

text \<open>The postfix form, and the stack it needs.\<close>

fun postfix :: "corr_exp \<Rightarrow> corr_ctok list" where
  "postfix (Sel i) = [C_SEL i]"
| "postfix (And a b) = postfix a @ postfix b @ [C_AND]"
| "postfix (Or a b) = postfix a @ postfix b @ [C_OR]"
| "postfix (Not a) = postfix a @ [C_NOT]"

fun corr_need :: "corr_exp \<Rightarrow> nat" where
  "corr_need (Sel i) = 1"
| "corr_need (And a b) = max (corr_need a) (Suc (corr_need b))"
| "corr_need (Or a b) = max (corr_need a) (Suc (corr_need b))"
| "corr_need (Not a) = corr_need a"

fun sels :: "corr_exp \<Rightarrow> u32 set" where
  "sels (Sel i) = {i}"
| "sels (And a b) = sels a \<union> sels b"
| "sels (Or a b) = sels a \<union> sels b"
| "sels (Not a) = sels a"

lemma postfix_run:
  "length st + corr_need e \<le> 64 \<Longrightarrow> \<forall>i \<in> sels e. i < 64 \<Longrightarrow>
    mfold (cond_step bits) (postfix e) st = Some (holds (bit bits) e # st)"
  by (induction e arbitrary: st) (simp_all add: mfold_append not_le)

lemma corr_cond_eval_holds:
  "corr_need e \<le> 64 \<Longrightarrow> \<forall>i \<in> sels e. i < 64 \<Longrightarrow> corr_cond_eval (postfix e) bits = holds (bit bits) e"
  using postfix_run [of "[]" e bits] by (simp add: corr_cond_eval_def)

section \<open>The seen table\<close>

definition refreshed :: "u32 \<Rightarrow> f64 \<Rightarrow> (u32 \<times> f64) list \<Rightarrow> (u32 \<times> f64) list" where
  "refreshed rid now xs = map (\<lambda>(r, t). (r, if r = rid then now else t)) xs"

lemma refresh_seen_eq:
  "distinct (map fst xs) \<Longrightarrow> refresh_seen rid now xs = (if rid \<in> fst ` set xs then Some (refreshed rid now xs) else None)"
proof (induction xs)
  case (Cons x xs)
  obtain r t where x: "x = (r, t)" by (cases x)
  have "map (\<lambda>(r, t). (r, if r = rid then now else t)) xs = xs" if "rid \<notin> fst ` set xs"
    using that by (intro map_idI) force
  then show ?case using Cons x by (auto simp: refreshed_def)
qed simp

lemma refreshed_keys: "map fst (refreshed rid now xs) = map fst xs" "fst ` set (refreshed rid now xs) = fst ` set xs"
proof -
  show "map fst (refreshed rid now xs) = map fst xs" by (induction xs) (auto simp: refreshed_def)
  then show "fst ` set (refreshed rid now xs) = fst ` set xs" by (metis list.set_map)
qed

lemma map_of_refreshed: "rid \<in> fst ` set xs \<Longrightarrow> map_of (refreshed rid now xs) = (map_of xs)(rid \<mapsto> now)"
proof
  fix x
  assume "rid \<in> fst ` set xs"
  then show "map_of (refreshed rid now xs) x = ((map_of xs)(rid \<mapsto> now)) x"
  proof (induction xs)
    case (Cons y ys)
    have "map_of (refreshed rid now ys) x = map_of ys x" if "x \<noteq> rid"
      using that by (induction ys) (auto simp: refreshed_def)
    moreover have "rid \<in> fst ` set ys" if "fst y \<noteq> rid" using that Cons.prems by simp
    ultimately show ?case using Cons.IH by (cases "fst y = rid"; cases y) (auto simp: refreshed_def split: if_splits)
  qed simp
qed

text \<open>One matching rule, with room for all rules that can match.\<close>

lemma record_hit_ok:
  assumes "distinct (map fst xs)" "fst ` set xs \<subseteq> B" "rid \<in> B" "finite B" "card B \<le> 64"
  obtains ys where "record_hit now rid (xs, stats) = (ys, stats)" "distinct (map fst ys)" "fst ` set ys \<subseteq> B"
    "map_of ys = (map_of xs)(rid \<mapsto> now)"
proof (cases "rid \<in> fst ` set xs")
  case True
  then show ?thesis
    using that [of "refreshed rid now xs"] assms(1,2) refreshed_keys [of rid now xs] map_of_refreshed [OF True]
    by (simp add: record_hit_def refresh_seen_eq)
next
  case False
  have "card (fst ` set xs) < card B"
    using False assms(2-4) by (intro psubset_card_mono) auto
  moreover have "card (fst ` set xs) = length xs" using distinct_card [OF assms(1)] by simp
  ultimately have "length xs < 64" using assms(5) by simp
  moreover have "map_of (xs @ [(rid, now)]) = (map_of xs)(rid \<mapsto> now)"
  proof -
    have "map_of xs rid = None" using False by (simp add: map_of_eq_None_iff)
    then show ?thesis by (auto simp: fun_eq_iff map_add_def split: option.split)
  qed
  ultimately show ?thesis
    using that [of "xs @ [(rid, now)]"] False assms(1-3) by (simp add: record_hit_def refresh_seen_eq)
qed

lemma record_hits_ok:
  assumes "distinct (map fst xs)" "fst ` set xs \<subseteq> B" "set hits \<subseteq> B" "finite B" "card B \<le> 64"
  shows "\<exists>ys. fold (record_hit now) hits (xs, stats) = (ys, stats) \<and> distinct (map fst ys) \<and> fst ` set ys \<subseteq> B \<and>
    (\<forall>x. map_of ys x = (if x \<in> set hits then Some now else map_of xs x))"
  using assms(1-3)
proof (induction hits arbitrary: xs)
  case (Cons h hits)
  obtain ys where ys: "record_hit now h (xs, stats) = (ys, stats)" "distinct (map fst ys)" "fst ` set ys \<subseteq> B"
    "map_of ys = (map_of xs)(h \<mapsto> now)"
    by (rule record_hit_ok [of xs B h]) (use Cons.prems assms(4,5) in auto)
  from Cons.IH [OF ys(2,3)] Cons.prems(3) show ?case by (auto simp: ys(1,4))
qed simp

definition seen_ok :: "corr_rule \<Rightarrow> group \<Rightarrow> bool" where
  "seen_ok r g \<longleftrightarrow> distinct (map fst (seen g)) \<and> fst ` set (seen g) \<subseteq> set (r_base r)"

lemma map_of_filter_val:
  "distinct (map fst xs) \<Longrightarrow> map_of (filter (\<lambda>(_, t). P t) xs) x =
    (case map_of xs x of Some t \<Rightarrow> if P t then Some t else None | None \<Rightarrow> None)"
proof (induction xs)
  case (Cons y ys)
  obtain k t where y: "y = (k, t)" by (cases y)
  have "map_of ys k = None" using Cons.prems y by (simp add: map_of_eq_None_iff)
  moreover have "map_of (filter (\<lambda>(_, t). P t) ys) k = None"
    using Cons.prems y by (auto simp: map_of_eq_None_iff)
  ultimately show ?case using Cons y by auto
qed simp

lemma temporal_record_seen_ok:
  assumes "seen_ok r g" "set hits \<subseteq> set (r_base r)" "length (r_base r) \<le> 64"
  shows "\<exists>g'. temporal_record_seen hits now ws g stats = (g', stats) \<and> seen_ok r g' \<and> g' = g\<lparr>seen := seen g'\<rparr> \<and>
    (\<forall>x. map_of (seen g') x = (case (if x \<in> set hits then Some now else map_of (seen g) x) of
        Some t \<Rightarrow> if f64_le ws t then Some t else None | None \<Rightarrow> None))"
proof -
  have "card (set (r_base r)) \<le> 64" using card_length [of "r_base r"] assms(3) by simp
  then obtain ys where ys: "fold (record_hit now) hits (seen g, stats) = (ys, stats)" "distinct (map fst ys)"
    "fst ` set ys \<subseteq> set (r_base r)" "\<And>x. map_of ys x = (if x \<in> set hits then Some now else map_of (seen g) x)"
    using record_hits_ok [of "seen g" "set (r_base r)" hits now stats] assms by (auto simp: seen_ok_def)
  let ?zs = "filter (\<lambda>(_, t). f64_le ws t) ys"
  have "distinct (map fst ?zs)" using ys(2) by (rule distinct_map_filter)
  moreover have "fst ` set ?zs \<subseteq> set (r_base r)" using ys(3) by auto
  ultimately show ?thesis
    using ys(1,4) map_of_filter_val [OF ys(2), of "f64_le ws"]
    by (intro exI [of _ "g\<lparr>seen := ?zs\<rparr>"]) (simp add: temporal_record_seen_def seen_ok_def)
qed

lemma seen_mask_bit:
  "bit (corr_seen_mask r g) i \<longleftrightarrow> bit (merge_seen g) i \<or>
    i < min (length (r_base r)) 64 \<and> map_of (seen g) (r_base r ! i) \<noteq> None"
proof -
  have s: "(\<exists>x \<in> set (seen g). fst x = y) \<longleftrightarrow> map_of (seen g) y \<noteq> None" for y
    by (force simp: map_of_eq_None_iff)
  have "n \<le> 64 \<Longrightarrow> bit (fold (\<lambda>i bits. if (\<exists>x \<in> set (seen g). fst x = r_base r ! i) then bits OR push_bit i 1 else bits) [0..<n] m) i \<longleftrightarrow>
      bit m i \<or> i < n \<and> map_of (seen g) (r_base r ! i) \<noteq> None" for n and m :: u64
  proof (induction n)
    case (Suc n)
    have "bit (push_bit n 1 :: u64) i \<longleftrightarrow> i = n" using Suc.prems by (auto simp: bit_simps)
    then show ?case using Suc by (auto simp: s bit_or_iff less_Suc_eq)
  qed simp
  from this [of "min (length (r_base r)) 64" "merge_seen g"] show ?thesis by (simp add: corr_seen_mask_def)
qed

section \<open>Temporal correlations\<close>

type_synonym hit_event = "f64 \<times> u32 list"

text \<open>Base rule \<open>i\<close> matched an event that is still in the window, or a peer saw it.\<close>

definition seen_in_window :: "corr_rule \<Rightarrow> u64 \<Rightarrow> f64 \<Rightarrow> hit_event list \<Rightarrow> nat \<Rightarrow> bool" where
  "seen_in_window r remote ws evs i \<longleftrightarrow> bit remote i \<or>
     i < length (r_base r) \<and> (\<exists>(t, hits) \<in> set evs. r_base r ! i \<in> set hits \<and> f64_le ws t)"

definition window_of :: "corr_rule \<Rightarrow> f64 \<Rightarrow> f64" where
  "window_of r t = f64_sub t (f64_of_int (r_timespan r))"

definition temporal_stream :: "corr_rule \<Rightarrow> hit_event list \<Rightarrow> group \<Rightarrow> corr_stats \<Rightarrow> bool \<times> group \<times> corr_stats" where
  "temporal_stream r evs g stats =
     fold (\<lambda>(t, hits) (_, g, stats). eval_temporal r hits t (window_of r t) g stats) evs (False, g, stats)"

definition hit_events :: "corr_rule \<Rightarrow> hit_event list \<Rightarrow> bool" where
  "hit_events r evs \<longleftrightarrow> nondecreasing (map fst evs) \<and>
     (\<forall>(t, hits) \<in> set evs. time_ok t \<and> set hits \<subseteq> set (r_base r))"

text \<open>When a base rule last matched.\<close>

definition last_hit :: "'a \<Rightarrow> (f64 \<times> 'a list) list \<Rightarrow> f64 option" where
  "last_hit x evs = map_option fst (find (\<lambda>(t, hits). x \<in> set hits) (rev evs))"

lemma last_hit_snoc: "last_hit x (evs @ [(t, hits)]) = (if x \<in> set hits then Some t else last_hit x evs)"
  by (simp add: last_hit_def)

lemma last_hit_latest:
  assumes "nondecreasing (map fst evs)" "\<forall>(t, hits) \<in> set evs. t \<noteq> NaN"
  shows "(\<exists>(t, hits) \<in> set evs. x \<in> set hits \<and> f64_le ws t) \<longleftrightarrow> (\<exists>t. last_hit x evs = Some t \<and> f64_le ws t)"
  using assms
proof (induction evs rule: rev_induct)
  case (snoc e evs)
  obtain t hits where e: "e = (t, hits)" by (cases e)
  have nd: "nondecreasing (map fst evs)" and le: "\<And>u us. (u, us) \<in> set evs \<Longrightarrow> f64_le u t"
    using snoc.prems(1) e by (force simp: nondecreasing_def sorted_wrt_append)+
  have IH: "(\<exists>(t, hits) \<in> set evs. x \<in> set hits \<and> f64_le ws t) \<longleftrightarrow> (\<exists>t. last_hit x evs = Some t \<and> f64_le ws t)"
    using snoc.IH [OF nd] snoc.prems(2) by auto
  show ?case
  proof (cases "x \<in> set hits")
    case True
    have "f64_le ws t" if "(u, us) \<in> set evs" "f64_le ws u" for u us using f64_le_trans [OF that(2) le [OF that(1)]] .
    then show ?thesis using True by (auto simp: e last_hit_snoc)
  next
    case False
    then show ?thesis using IH by (auto simp: e last_hit_snoc)
  qed
qed (simp add: last_hit_def)

lemma window_of_mono:
  assumes "time_ok t" "time_ok u" "f64_le t u" "\<bar>r_timespan r\<bar> \<le> 2 ^ 31"
  shows "f64_le (window_of r t) (window_of r u)"
  using assms rnd_of_int [of "r_timespan r"] by (simp add: window_of_def f64_of_int_def time_sub_mono)

lemma window_of_ok:
  assumes "time_ok t" "0 < r_timespan r" "r_timespan r \<le> 2 ^ 31"
  shows "f64_finite (window_of r t)" "f64_le (window_of r t) t"
proof -
  have "(of_int (r_timespan r) :: rat) \<le> 2 ^ 31" using assms(3) of_int_le_iff [of "r_timespan r" "2 ^ 31", where ?'a = rat] by simp
  then show "f64_finite (window_of r t)" "f64_le (window_of r t) t"
    using assms time_sub [OF assms(1), of "of_int (r_timespan r)"] rnd_of_int [of "r_timespan r"]
    by (simp_all add: window_of_def f64_of_int_def)
qed

lemma and_push_bit_iff: "i < 64 \<Longrightarrow> (m :: u64) AND push_bit i 1 \<noteq> 0 \<longleftrightarrow> bit m i"
proof -
  assume i: "i < 64"
  have "m AND push_bit i 1 = 0 \<longleftrightarrow> (\<forall>j. \<not> bit (m AND push_bit i 1) j)" by (metis bit_eqI bit_0_eq bot_apply bot_bool_def)
  also have "\<dots> \<longleftrightarrow> \<not> bit m i" using i by (auto simp: bit_simps)
  finally show ?thesis by simp
qed

lemma temporal_stream_seen:
  assumes "seen_ok r g" "seen g = []" "length (r_base r) \<le> 64" "0 < r_timespan r" "r_timespan r \<le> 2 ^ 31" "hit_events r evs"
  shows "\<exists>f g'. temporal_stream r evs g stats = (f, g', stats) \<and> seen_ok r g' \<and> merge_seen g' = merge_seen g \<and>
    (evs \<noteq> [] \<longrightarrow>
      (\<forall>x. map_of (seen g') x = (case last_hit x evs of
          Some t \<Rightarrow> if f64_le (window_of r (fst (last evs))) t then Some t else None | None \<Rightarrow> None)) \<and>
      (\<exists>bits. (\<forall>i. bit bits i \<longleftrightarrow> seen_in_window r (merge_seen g) (window_of r (fst (last evs))) evs i) \<and>
        f = (if r_cond r \<noteq> [] then corr_cond_eval (r_cond r) bits else (\<forall>i < length (r_base r). bit bits i))))"
  using assms(6)
proof (induction evs rule: rev_induct)
  case Nil
  show ?case using assms(1) by (auto simp: temporal_stream_def)
next
  case (snoc e evs)
  obtain t hits where e: "e = (t, hits)" by (cases e)
  have he: "hit_events r evs" "time_ok t" "set hits \<subseteq> set (r_base r)" and le: "\<And>u us. (u, us) \<in> set evs \<Longrightarrow> f64_le u t \<and> time_ok u"
    using snoc.prems e by (force simp: hit_events_def nondecreasing_def sorted_wrt_append)+
  obtain f1 g1 where 1: "temporal_stream r evs g stats = (f1, g1, stats)" "seen_ok r g1" "merge_seen g1 = merge_seen g"
    and old: "evs \<noteq> [] \<Longrightarrow> map_of (seen g1) x = (case last_hit x evs of
        Some t \<Rightarrow> if f64_le (window_of r (fst (last evs))) t then Some t else None | None \<Rightarrow> None)" for x
    using snoc.IH [OF he(1)] by blast
  have old0: "map_of (seen g1) x = None" if "evs = []" for x
    using 1(1) that assms(2) by (simp add: temporal_stream_def)
  let ?ws = "window_of r t"
  obtain g2 where 2: "temporal_record_seen hits t ?ws g1 stats = (g2, stats)" "seen_ok r g2" "g2 = g1\<lparr>seen := seen g2\<rparr>"
    and now: "map_of (seen g2) x = (case (if x \<in> set hits then Some t else map_of (seen g1) x) of
        Some t \<Rightarrow> if f64_le ?ws t then Some t else None | None \<Rightarrow> None)" for x
    using temporal_record_seen_ok [OF 1(2) he(3) assms(3), of t ?ws stats] by blast
  have m: "merge_seen g2 = merge_seen g" using 1(3) by (subst 2(3)) simp
  have seen: "map_of (seen g2) x = (case last_hit x (evs @ [e]) of
      Some t' \<Rightarrow> if f64_le ?ws t' then Some t' else None | None \<Rightarrow> None)" for x
  proof (cases "x \<in> set hits \<or> evs = []")
    case True
    then show ?thesis using now [of x] old0 [of x] by (auto simp: e last_hit_snoc) (simp add: last_hit_def)
  next
    case False
    obtain u us where l: "last evs = (u, us)" by (cases "last evs")
    then have "(u, us) \<in> set evs" using False last_in_set [of evs] by simp
    then have "f64_le (window_of r u) ?ws" using le he(2) assms(4,5) by (intro window_of_mono) auto
    then have "f64_le (window_of r u) t'" if "f64_le ?ws t'" for t' using f64_le_trans that by blast
    then show ?thesis using False now [of x] old [of x] l by (auto simp: e last_hit_snoc split: option.splits)
  qed
  have nn: "\<forall>(t, hits) \<in> set (evs @ [e]). t \<noteq> NaN" using snoc.prems by (auto simp: hit_events_def time_ok_def)
  have nd: "nondecreasing (map fst (evs @ [e]))" using snoc.prems by (simp add: hit_events_def)
  define bits where "bits = corr_seen_mask r g2"
  have b: "bit bits i \<longleftrightarrow> seen_in_window r (merge_seen g) ?ws (evs @ [e]) i" for i
    using assms(3) last_hit_latest [OF nd nn, of "r_base r ! i" ?ws]
    by (auto simp: bits_def seen_mask_bit m seen seen_in_window_def split: option.split)
  have "temporal_stream r (evs @ [e]) g stats = eval_temporal r hits t ?ws g1 stats"
    using 1(1) by (simp add: temporal_stream_def e)
  also have "\<dots> = (if r_cond r \<noteq> [] then corr_cond_eval (r_cond r) bits else (\<forall>i < length (r_base r). bit bits i), g2, stats)"
    using assms(3) by (auto simp: eval_temporal_def 2(1) bits_def [symmetric] Let_def and_push_bit_iff [unfolded push_bit_of_1])
  finally have run: "temporal_stream r (evs @ [e]) g stats = \<dots>" .
  have lst: "fst (last (evs @ [e])) = t" by (simp add: e)
  show ?case unfolding lst run using 2(2) m seen b by (intro exI conjI impI allI) (rule refl, assumption+, rule refl)
qed

section \<open>Properties\<close>

text \<open>
  C37. The postfix evaluator of temporal conditions, on its stack of 64 cells, computes the
  boolean expression over the base rules seen, for every expression that fits that stack.
\<close>

theorem corr_condition_correct:
  assumes "corr_need e \<le> 64" "\<forall>i \<in> sels e. i < 64"
  shows "corr_cond_eval (postfix e) bits = holds (bit bits) e"
  by (rule corr_cond_eval_holds [OF assms])

theorem corr_condition_correct_witness:
  "corr_cond_eval (postfix (And (Sel 0) (Not (Sel 1)))) 5 = holds (bit (5 :: u64)) (And (Sel 0) (Not (Sel 1)))"
  by (rule corr_condition_correct) simp_all

text \<open>
  C16. A temporal rule over any stream of events in time order: at each event it fires exactly
  when its condition holds, or all its base rules hold without one, of the base rules that
  matched inside the window that ends there.
\<close>

theorem temporal_correct:
  assumes "length (r_base r) \<le> 64" "0 < r_timespan r" "r_timespan r \<le> 2 ^ 31" "hit_events r evs" "evs \<noteq> []"
  shows "\<exists>f g' bits. temporal_stream r evs (group_new cap) stats = (f, g', stats) \<and>
    (\<forall>i. bit bits i \<longleftrightarrow> i < length (r_base r) \<and>
      (\<exists>(t, hits) \<in> set evs. r_base r ! i \<in> set hits \<and> f64_le (window_of r (fst (last evs))) t)) \<and>
    f = (if r_cond r \<noteq> [] then corr_cond_eval (r_cond r) bits else (\<forall>i < length (r_base r). bit bits i))"
proof -
  have g: "seen_ok r (group_new cap)" "seen (group_new cap) = []" "merge_seen (group_new cap) = 0"
    by (simp_all add: seen_ok_def group_new_def Let_def)
  have w: "seen_in_window r 0 ws evs i \<longleftrightarrow>
      i < length (r_base r) \<and> (\<exists>(t, hits) \<in> set evs. r_base r ! i \<in> set hits \<and> f64_le ws t)" for ws i
    by (simp add: seen_in_window_def)
  show ?thesis using temporal_stream_seen [OF g(1,2) assms(1-4), of stats] assms(5) unfolding g(3) w by blast
qed

theorem temporal_correct_witness: "\<exists>g'. temporal_stream sample_rule [(Fin 5, [7])] (group_new 4) zero_stats = (True, g', zero_stats)"
proof -
  have t: "time_ok (Fin 5)" using f64_ok_int [of 5] by (simp add: time_ok_def)
  then have "hit_events sample_rule [(Fin 5, [7])]" by (simp add: hit_events_def nondecreasing_def)
  from temporal_correct [OF _ _ _ this, of 4 zero_stats] window_of_ok(2) [OF t, of sample_rule] show ?thesis by auto
qed

end
