(* ===== verification/Sigma_Cli.thy ===== *)
theory Sigma_Cli
  imports Sigma_Eval Corr_Engine
begin

text \<open>
  The command line driver (\<open>src/src/sigma_cli.c\<close>): one line of input is parsed to an event,
  the rules run on it, and the ids of the rules that matched drive the correlation engine.
  What is printed is kept as the lists of hits and fires; theory Sigma_Main adds the files, the
  loop over the lines and the messages. Field names are shorter than \<open>2\<^sup>3\<^sup>2\<close>.
\<close>

type_synonym kv_event = "(bytes \<times> bytes) list"

abbreviation MAX_KV :: nat where "MAX_KV \<equiv> 64"

fun ev_lookup :: "kv_event \<Rightarrow> bytes \<Rightarrow> bytes option" where
  "ev_lookup [] name = None"
| "ev_lookup ((k, v) # kvs) name = (if length k = length name \<and> k = name then Some v else ev_lookup kvs name)"

text \<open>\<open>strtok_r\<close>: the pieces between tabs, without the empty ones.\<close>

fun tab_split :: "bytes \<Rightarrow> bytes \<Rightarrow> bytes list" where
  "tab_split cur [] = (if cur = [] then [] else [cur])"
| "tab_split cur (c # cs) = (if c = 9 then (if cur = [] then tab_split [] cs else cur # tab_split [] cs) else tab_split (cur @ [c]) cs)"

text \<open>The token loop: a token without \<open>=\<close> is skipped, and the event holds 64 pairs.\<close>

fun parse_tokens :: "bytes list \<Rightarrow> kv_event \<Rightarrow> kv_event" where
  "parse_tokens [] e = e"
| "parse_tokens (t # ts) e =
     (if length e < MAX_KV then
        (if 61 \<notin> set t then parse_tokens ts e
         else parse_tokens ts (e @ [(takeWhile (\<lambda>c. c \<noteq> 61) t, tl (dropWhile (\<lambda>c. c \<noteq> 61) t))]))
      else e)"

definition parse_event :: "bytes \<Rightarrow> kv_event" where
  "parse_event line = parse_tokens (tab_split [] line) []"

definition verdict_name :: "u8 \<Rightarrow> bytes" where
  "verdict_name v = (if v = 1 then lit ''benign'' else if v = 2 then lit ''escalate'' else lit ''alert'')"

definition corr_lookup :: "kv_event \<Rightarrow> bytes \<Rightarrow> bytes option" where
  "corr_lookup e name = (case ev_lookup e name of Some v \<Rightarrow> if v = [] then None else Some v | None \<Rightarrow> None)"

text \<open>The field \<open>_ts\<close>, cut at 63 characters, or the line number.\<close>

definition event_ts :: "kv_event \<Rightarrow> int \<Rightarrow> f64" where
  "event_ts e lno =
     (case ev_lookup e (lit ''_ts'') of
        Some v \<Rightarrow> if v \<noteq> [] then fst (c_strtod (take 63 v)) else f64_of_int lno
      | None \<Rightarrow> f64_of_int lno)"

text \<open>
  The rules and then the correlations on one event. The ids are copied to an array of 64, but
  the count is the number of matches: with more of them the engine reads behind the array.
\<close>

definition cli_event ::
  "'re sigma_lib \<Rightarrow> sigma_db \<Rightarrow> 're sigma_derived \<Rightarrow> kv_event \<Rightarrow> int \<Rightarrow> sigma_eval \<times> corr_engine option
     \<Rightarrow> ((sigma_eval \<times> corr_engine option) \<times> sigma_hit list \<times> corr_fire list) option" where
  "cli_event x d dv kvs lno = (\<lambda>(e, ce).
     do { (e, hits, n) \<leftarrow> sigma_eval_run x d dv (ev_lookup kvs) (Some 64) e;
          case ce of
            None \<Rightarrow> Some ((e, None), hits, [])
          | Some ce \<Rightarrow>
              if n = 0 then Some ((e, Some ce), hits, [])
              else if n > 64 then None
              else do {
                (ce, fires, nf) \<leftarrow> corr_on_event \<lparr>i_field = corr_lookup kvs, i_rids = map hit_rule_id hits, i_ts = event_ts kvs lno,
                  i_apply = (\<lambda>_ _. True), o_max = 16, o_slots = Some (64 * 8)\<rparr> ce;
                Some ((e, Some ce), hits, fires) } })"

text \<open>One line with its end; an empty line is not an event. A C string ends at its first NUL.\<close>

definition cli_line ::
  "'re sigma_lib \<Rightarrow> sigma_db \<Rightarrow> 're sigma_derived \<Rightarrow> bytes \<Rightarrow> (sigma_eval \<times> corr_engine option) \<times> int
     \<Rightarrow> (((sigma_eval \<times> corr_engine option) \<times> int) \<times> (sigma_hit list \<times> corr_fire list) option) option" where
  "cli_line x d dv line = (\<lambda>(st, lno).
     let line = (if line \<noteq> [] \<and> last line = 10 then butlast line else line) in
     if line = [] then Some ((st, lno), None)
     else do {
       (st, hits, fires) \<leftarrow> cli_event x d dv (parse_event (takeWhile (\<lambda>c. c \<noteq> 0) line)) (lno + 1) st;
       Some ((st, lno + 1), Some (hits, fires)) })"

end
