(* ===== verification/Json_Api.thy ===== *)
theory Json_Api
  imports Binary64
begin

text \<open>
  The JSON library (json-c or libfastjson) as the sources use it. It is not part of the
  repository, so its values are a type parameter and its functions the fields of a record;
  \<open>json_ok\<close> states the documented behaviour the round trips rely on. A JSON \<open>null\<close> is the null
  pointer, which is a value of type \<open>J_NULL\<close> here.
\<close>

datatype json_kind = J_NULL | J_BOOLEAN | J_DOUBLE | J_INT | J_OBJECT | J_ARRAY | J_STRING

record 'j json_lib =
  j_kind :: "'j \<Rightarrow> json_kind"
  j_get :: "'j \<Rightarrow> bytes \<Rightarrow> 'j option"
  j_length :: "'j \<Rightarrow> nat"
  j_idx :: "'j \<Rightarrow> nat \<Rightarrow> 'j"
  j_string :: "'j \<Rightarrow> bytes"
  j_int :: "'j \<Rightarrow> int"
  j_int64 :: "'j \<Rightarrow> int"
  j_double :: "'j \<Rightarrow> f64"
  j_parse :: "bytes \<Rightarrow> 'j option"
  j_object :: 'j
  j_add :: "'j \<Rightarrow> bytes \<Rightarrow> 'j \<Rightarrow> 'j"
  j_array :: 'j
  j_push :: "'j \<Rightarrow> 'j \<Rightarrow> 'j"
  j_new_int :: "int \<Rightarrow> 'j"
  j_new_double :: "f64 \<Rightarrow> 'j"
  j_new_string :: "bytes \<Rightarrow> 'j"

text \<open>What was built is read back, in the ranges of \<open>int\<close> and \<open>int64_t\<close>.\<close>

definition json_ok :: "'j json_lib \<Rightarrow> bool" where
  "json_ok J \<longleftrightarrow>
     j_kind J (j_object J) = J_OBJECT \<and> (\<forall>k. j_get J (j_object J) k = None) \<and>
     (\<forall>j k v. j_kind J j = J_OBJECT \<longrightarrow> j_kind J (j_add J j k v) = J_OBJECT \<and>
        (\<forall>k'. j_get J (j_add J j k v) k' = (if k' = k then Some v else j_get J j k'))) \<and>
     j_kind J (j_array J) = J_ARRAY \<and> j_length J (j_array J) = 0 \<and>
     (\<forall>a v. j_kind J a = J_ARRAY \<longrightarrow> j_kind J (j_push J a v) = J_ARRAY \<and> j_length J (j_push J a v) = Suc (j_length J a) \<and>
        (\<forall>i \<le> j_length J a. j_idx J (j_push J a v) i = (if i = j_length J a then v else j_idx J a i))) \<and>
     (\<forall>i. - (2 ^ 63) \<le> i \<and> i < 2 ^ 63 \<longrightarrow> j_kind J (j_new_int J i) = J_INT \<and> j_int64 J (j_new_int J i) = i \<and>
        (- (2 ^ 31) \<le> i \<and> i < 2 ^ 31 \<longrightarrow> j_int J (j_new_int J i) = i)) \<and>
     (\<forall>x. j_double J (j_new_double J x) = x) \<and>
     (\<forall>s. j_kind J (j_new_string J s) = J_STRING \<and> j_string J (j_new_string J s) = s)"

lemma json_okD:
  assumes "json_ok J"
  shows "j_kind J (j_object J) = J_OBJECT" "j_get J (j_object J) k = None"
    "j_kind J j = J_OBJECT \<Longrightarrow> j_kind J (j_add J j k v) = J_OBJECT"
    "j_kind J j = J_OBJECT \<Longrightarrow> j_get J (j_add J j k v) k' = (if k' = k then Some v else j_get J j k')"
    "j_kind J (j_array J) = J_ARRAY" "j_length J (j_array J) = 0"
    "j_kind J a = J_ARRAY \<Longrightarrow> j_kind J (j_push J a v) = J_ARRAY"
    "j_kind J a = J_ARRAY \<Longrightarrow> j_length J (j_push J a v) = Suc (j_length J a)"
    "j_kind J a = J_ARRAY \<Longrightarrow> i \<le> j_length J a \<Longrightarrow> j_idx J (j_push J a v) i = (if i = j_length J a then v else j_idx J a i)"
    "- (2 ^ 63) \<le> n \<Longrightarrow> n < 2 ^ 63 \<Longrightarrow> j_kind J (j_new_int J n) = J_INT"
    "- (2 ^ 63) \<le> n \<Longrightarrow> n < 2 ^ 63 \<Longrightarrow> j_int64 J (j_new_int J n) = n"
    "- (2 ^ 31) \<le> n \<Longrightarrow> n < 2 ^ 31 \<Longrightarrow> j_int J (j_new_int J n) = n"
    "j_double J (j_new_double J x) = x"
    "j_kind J (j_new_string J s) = J_STRING" "j_string J (j_new_string J s) = s"
  using assms unfolding json_ok_def by auto

section \<open>Building\<close>

text \<open>An array of strings.\<close>

definition string_array :: "'j json_lib \<Rightarrow> bytes list \<Rightarrow> 'j" where
  "string_array J ss = foldl (\<lambda>a s. j_push J a (j_new_string J s)) (j_array J) ss"

lemma string_array_ok:
  assumes "json_ok J"
  shows "j_kind J (string_array J ss) = J_ARRAY \<and> j_length J (string_array J ss) = length ss \<and>
    (\<forall>i < length ss. j_idx J (string_array J ss) i = j_new_string J (ss ! i))"
proof (induction ss rule: rev_induct)
  case (snoc s ss)
  then show ?case by (auto simp: string_array_def json_okD [OF assms] nth_append less_Suc_eq)
qed (simp add: string_array_def json_okD [OF assms])

section \<open>An instance\<close>

text \<open>Plain JSON trees, to show that the laws can hold.\<close>

datatype json = JNull | JBool bool | JInt int | JDouble f64 | JString bytes | JArray "json list" | JObject "(bytes \<times> json) list"

fun json_kind_of :: "json \<Rightarrow> json_kind" where
  "json_kind_of JNull = J_NULL"
| "json_kind_of (JBool _) = J_BOOLEAN"
| "json_kind_of (JInt _) = J_INT"
| "json_kind_of (JDouble _) = J_DOUBLE"
| "json_kind_of (JString _) = J_STRING"
| "json_kind_of (JArray _) = J_ARRAY"
| "json_kind_of (JObject _) = J_OBJECT"

definition tree_lib :: "json json_lib" where
  "tree_lib = \<lparr>j_kind = json_kind_of,
     j_get = (\<lambda>j k. case j of JObject fs \<Rightarrow> map_of fs k | _ \<Rightarrow> None),
     j_length = (\<lambda>j. case j of JArray xs \<Rightarrow> length xs | _ \<Rightarrow> 0),
     j_idx = (\<lambda>j i. case j of JArray xs \<Rightarrow> if i < length xs then xs ! i else JNull | _ \<Rightarrow> JNull),
     j_string = (\<lambda>j. case j of JString s \<Rightarrow> s | _ \<Rightarrow> []),
     j_int = (\<lambda>j. case j of JInt i \<Rightarrow> i | _ \<Rightarrow> 0),
     j_int64 = (\<lambda>j. case j of JInt i \<Rightarrow> i | _ \<Rightarrow> 0),
     j_double = (\<lambda>j. case j of JDouble x \<Rightarrow> x | JInt i \<Rightarrow> f64_of_int i | _ \<Rightarrow> Fin 0),
     j_parse = (\<lambda>_. None),
     j_object = JObject [],
     j_add = (\<lambda>j k v. case j of JObject fs \<Rightarrow> JObject ((k, v) # fs) | _ \<Rightarrow> j),
     j_array = JArray [],
     j_push = (\<lambda>j v. case j of JArray xs \<Rightarrow> JArray (xs @ [v]) | _ \<Rightarrow> j),
     j_new_int = JInt, j_new_double = JDouble, j_new_string = JString\<rparr>"

lemma tree_lib_ok: "json_ok tree_lib"
proof -
  have o: "json_kind_of j = J_OBJECT \<Longrightarrow> \<exists>fs. j = JObject fs" for j by (cases j) simp_all
  have a: "json_kind_of j = J_ARRAY \<Longrightarrow> \<exists>xs. j = JArray xs" for j by (cases j) simp_all
  show ?thesis unfolding json_ok_def by (auto simp: tree_lib_def nth_append dest!: o a)
qed

end
