(* ===== verification/Corr_Format.thy ===== *)
theory Corr_Format
  imports Corr_Engine Json_Api
begin

text \<open>
  The loader of the correlation artifact (\<open>src/src/corr_format.c\<close>): from the JSON text to the
  rules of the engine, with the counters of what it dropped. The arena only owns memory and has
  no effect here; allocation succeeds. A malformed rule is skipped, so a rule is an option.
\<close>

record corr_load_stats =
  l_rejected :: u64
  l_groupby :: u64
  l_baserules :: u64
  l_rids :: u64

section \<open>JSON helpers\<close>

definition jstr :: "'j json_lib \<Rightarrow> 'j \<Rightarrow> bytes \<Rightarrow> bytes option" where
  "jstr J o1 k = (case j_get J o1 k of Some v \<Rightarrow> if j_kind J v = J_STRING then Some (j_string J v) else None | None \<Rightarrow> None)"

definition jint :: "'j json_lib \<Rightarrow> 'j \<Rightarrow> bytes \<Rightarrow> int option" where
  "jint J o1 k =
     (case j_get J o1 k of
        Some v \<Rightarrow> if j_kind J v = J_INT \<or> j_kind J v = J_DOUBLE then Some (j_int64 J v) else None
      | None \<Rightarrow> None)"

definition jarray :: "'j json_lib \<Rightarrow> 'j \<Rightarrow> bytes \<Rightarrow> 'j option" where
  "jarray J o1 k = (case j_get J o1 k of Some v \<Rightarrow> if j_kind J v = J_ARRAY then Some v else None | None \<Rightarrow> None)"

definition parse_type :: "bytes option \<Rightarrow> corr_type" where
  "parse_type t =
     (case t of
        None \<Rightarrow> CORR_TYPE_MAX
      | Some s \<Rightarrow>
          if s = lit ''event_count'' then CORR_EVENT_COUNT
          else if s = lit ''value_count'' then CORR_VALUE_COUNT
          else if s = lit ''temporal'' then CORR_TEMPORAL
          else if s = lit ''temporal_ordered'' then CORR_TEMPORAL_ORDERED
          else if s = lit ''value_sum'' then CORR_VALUE_SUM
          else if s = lit ''value_avg'' then CORR_VALUE_AVG
          else if s = lit ''beaconing'' then CORR_BEACONING
          else if s = lit ''value_percentile'' then CORR_VALUE_PERCENTILE
          else if s = lit ''value_median'' then CORR_VALUE_MEDIAN
          else CORR_TYPE_MAX)"

definition parse_op :: "bytes option \<Rightarrow> corr_op" where
  "parse_op op =
     (case op of
        None \<Rightarrow> CORR_OP_GTE
      | Some s \<Rightarrow>
          if s = lit ''gt'' then CORR_OP_GT
          else if s = lit ''lte'' then CORR_OP_LTE
          else if s = lit ''lt'' then CORR_OP_LT
          else if s = lit ''eq'' then CORR_OP_EQ
          else CORR_OP_GTE)"

section \<open>Arrays\<close>

abbreviation MAX_RULE_IDS :: nat where "MAX_RULE_IDS \<equiv> 4096"
abbreviation MAX_GROUP_FIELDS :: nat where "MAX_GROUP_FIELDS \<equiv> 8"
abbreviation MAX_COND_TOKENS :: nat where "MAX_COND_TOKENS \<equiv> 256"

text \<open>One id of an array; an id that is no \<open>uint32_t\<close> is dropped and counted.\<close>

definition u32_element :: "'j json_lib \<Rightarrow> 'j \<Rightarrow> nat \<Rightarrow> u32 list \<times> corr_load_stats \<Rightarrow> u32 list \<times> corr_load_stats" where
  "u32_element J arr i = (\<lambda>(out, ls).
     let v = j_int64 J (j_idx J arr i) in
     if v < 0 \<or> v > 2 ^ 32 - 1 then (out, ls\<lparr>l_rids := l_rids ls + 1\<rparr>) else (out @ [word_of_int v], ls))"

definition parse_u32_array :: "'j json_lib \<Rightarrow> 'j \<Rightarrow> bytes \<Rightarrow> corr_load_stats \<Rightarrow> u32 list \<times> corr_load_stats" where
  "parse_u32_array J o1 k ls =
     (case jarray J o1 k of
        None \<Rightarrow> ([], ls)
      | Some arr \<Rightarrow>
          let orig = j_length J arr;
              ls = (if orig > MAX_RULE_IDS then ls\<lparr>l_baserules := l_baserules ls + of_nat (orig - MAX_RULE_IDS)\<rparr> else ls) in
          fold (u32_element J arr) [0..<min orig MAX_RULE_IDS] ([], ls))"

definition string_element :: "'j json_lib \<Rightarrow> 'j \<Rightarrow> nat \<Rightarrow> bytes option" where
  "string_element J arr i = (let el = j_idx J arr i in Some (if j_kind J el = J_STRING then j_string J el else []))"

definition parse_str_array :: "'j json_lib \<Rightarrow> 'j \<Rightarrow> bytes \<Rightarrow> corr_load_stats \<Rightarrow> bytes option list \<times> corr_load_stats" where
  "parse_str_array J o1 k ls =
     (case jarray J o1 k of
        None \<Rightarrow> ([], ls)
      | Some arr \<Rightarrow>
          let n = j_length J arr;
              ls = (if n > MAX_GROUP_FIELDS then ls\<lparr>l_groupby := l_groupby ls + of_nat (n - MAX_GROUP_FIELDS)\<rparr> else ls) in
          (map (string_element J arr) [0..<min n MAX_GROUP_FIELDS], ls))"

section \<open>Conditions\<close>

definition cond_token :: "'j json_lib \<Rightarrow> nat \<Rightarrow> 'j \<Rightarrow> corr_ctok option" where
  "cond_token J n_base el =
     do { k \<leftarrow> (if j_kind J el = J_OBJECT then jstr J el (lit ''k'') else None);
          if k = lit ''sel'' then
            do { r \<leftarrow> jint J el (lit ''r'');
                 if r < 0 \<or> nat r \<ge> n_base \<or> r \<ge> 64 then None else Some (C_SEL (word_of_int r)) }
          else if k = lit ''and'' then Some C_AND
          else if k = lit ''or'' then Some C_OR
          else if k = lit ''not'' then Some C_NOT
          else None }"

text \<open>\<open>None\<close> is the null pointer, for an empty, too long or malformed condition.\<close>

definition parse_cond_rpn :: "'j json_lib \<Rightarrow> 'j \<Rightarrow> nat \<Rightarrow> corr_ctok list option" where
  "parse_cond_rpn J arr n_base =
     (let n = j_length J arr in
      if n = 0 \<or> n > MAX_COND_TOKENS then None
      else mfold (\<lambda>i out. map_option (\<lambda>t. out @ [t]) (cond_token J n_base (j_idx J arr i))) [0..<n] [])"

section \<open>One rule\<close>

text \<open>The rows of aliases: \<open>None\<close> rejects the rule.\<close>

definition parse_aliases :: "'j json_lib \<Rightarrow> 'j \<Rightarrow> nat \<Rightarrow> nat \<Rightarrow> bytes option list option list option" where
  "parse_aliases J c n_base n_group =
     (case jarray J c (lit ''alias_group_by'') of
        None \<Rightarrow> Some []
      | Some ag \<Rightarrow>
          let n_rows = j_length J ag in
          if n_rows \<noteq> n_base \<or> n_group = 0 then None
          else mfold (\<lambda>i rows.
              let row = j_idx J ag i in
              if j_kind J row \<noteq> J_ARRAY \<or> j_length J row \<noteq> n_group then None
              else Some (rows @ [Some (map (string_element J row) [0..<n_group])]))
            [0..<n_rows] [])"

text \<open>A conversion to \<open>int32_t\<close>, and the clamp before it.\<close>

definition to_i32 :: "int \<Rightarrow> int" where
  "to_i32 v = sint (word_of_int v :: 32 word)"

definition clamp_i32 :: "int \<Rightarrow> int" where
  "clamp_i32 v = (let v = (if v > 2 ^ 31 - 1 then 2 ^ 31 - 1 else v) in to_i32 (if v < - (2 ^ 31) then - (2 ^ 31) else v))"

text \<open>The members of the \<open>condition\<close> object.\<close>

definition parse_condition :: "'j json_lib \<Rightarrow> 'j \<Rightarrow> corr_rule \<Rightarrow> corr_rule" where
  "parse_condition J c r =
     (case j_get J c (lit ''condition'') of
        Some cond \<Rightarrow>
          if j_kind J cond = J_OBJECT
          then r\<lparr>r_op := parse_op (jstr J cond (lit ''op'')),
                 r_count := (case jint J cond (lit ''count'') of Some n \<Rightarrow> n | None \<Rightarrow> r_count r),
                 r_value_field := jstr J cond (lit ''field''),
                 r_cv_permille := (case jint J cond (lit ''cv_permille'') of Some n \<Rightarrow> clamp_i32 n | None \<Rightarrow> r_cv_permille r),
                 r_percentile := (case jint J cond (lit ''percentile'') of Some n \<Rightarrow> clamp_i32 n | None \<Rightarrow> r_percentile r),
                 r_n_buckets := (case jint J cond (lit ''n_buckets'') of Some n \<Rightarrow> clamp_i32 n | None \<Rightarrow> r_n_buckets r)\<rparr>
          else r\<lparr>r_op := CORR_OP_GTE\<rparr>
      | None \<Rightarrow> r\<lparr>r_op := CORR_OP_GTE\<rparr>)"

definition parse_timespan :: "'j json_lib \<Rightarrow> 'j \<Rightarrow> int" where
  "parse_timespan J c =
     (case jint J c (lit ''timespan_s'') of Some ts \<Rightarrow> to_i32 (if ts > 2 ^ 31 - 1 then 2 ^ 31 - 1 else ts) | None \<Rightarrow> 0)"

definition parse_one :: "'j json_lib \<Rightarrow> 'j \<Rightarrow> corr_load_stats \<Rightarrow> corr_rule option \<times> corr_load_stats" where
  "parse_one J c ls =
     (let (base, ls) = parse_u32_array J c (lit ''base_rule_ids'') ls;
          (ordered, ls) = parse_u32_array J c (lit ''ordered_rule_ids'') ls;
          (group, ls) = parse_str_array J c (lit ''group_by'') ls in
      (do { aliases \<leftarrow> parse_aliases J c (length base) (length group);
            let r = \<lparr>r_id = jstr J c (lit ''id''), r_title = jstr J c (lit ''title''), r_type = parse_type (jstr J c (lit ''type'')),
              r_base = base, r_ordered = ordered, r_group_by = group, r_alias = aliases, r_value_field = None,
              r_op = CORR_OP_GTE, r_count = 0, r_timespan = parse_timespan J c, r_level = jstr J c (lit ''level''),
              r_mitre = jstr J c (lit ''mitre''), r_cond = [], r_cv_permille = 0, r_n_buckets = 0, r_percentile = 0\<rparr>;
            let r = parse_condition J c r;
            cond \<leftarrow> (case jarray J c (lit ''condition_rpn'') of Some rpn \<Rightarrow> parse_cond_rpn J rpn (length base) | None \<Rightarrow> Some []);
            if r_id r = None then None else Some (r\<lparr>r_cond := cond\<rparr>) },
       ls))"

section \<open>The artifact\<close>

definition parse_element :: "'j json_lib \<Rightarrow> 'j \<Rightarrow> nat \<Rightarrow> corr_rule list \<times> corr_load_stats \<Rightarrow> corr_rule list \<times> corr_load_stats" where
  "parse_element J arr i = (\<lambda>(rules, ls).
     let c = j_idx J arr i in
     if j_kind J c \<noteq> J_OBJECT then (rules, ls\<lparr>l_rejected := l_rejected ls + 1\<rparr>)
     else case parse_one J c ls of
       (Some r, ls) \<Rightarrow> (rules @ [r], ls)
     | (None, ls) \<Rightarrow> (rules, ls\<lparr>l_rejected := l_rejected ls + 1\<rparr>))"

definition corr_artifact_parse :: "'j json_lib \<Rightarrow> bytes \<Rightarrow> (corr_rule list \<times> corr_load_stats) option" where
  "corr_artifact_parse J json =
     do { root \<leftarrow> j_parse J json;
          if j_kind J root \<noteq> J_OBJECT then None
          else do {
            ver \<leftarrow> j_get J root (lit ''version'');
            if j_kind J ver \<noteq> J_INT \<or> j_int J ver \<noteq> 1 then None
            else do {
              arr \<leftarrow> jarray J root (lit ''correlations'');
              Some (fold (parse_element J arr) [0..<j_length J arr] ([], \<lparr>l_rejected = 0, l_groupby = 0, l_baserules = 0, l_rids = 0\<rparr>)) } } }"

end
