(* ===== verification/Sigma_Main.thy ===== *)
theory Sigma_Main
  imports Sigma_Cli Finalize Corr_Format
begin

text \<open>
  The driver as a program (\<open>main\<close> of \<open>src/src/sigma_cli.c\<close>) and the two file loaders it calls:
  from the arguments, the files and the standard input to the exit code and what is printed. A
  \<open>printf\<close> is a message with the values it formats. Allocation succeeds, and what is freed at
  the end has no effect here.
\<close>

section \<open>Files\<close>

text \<open>
  An open file by what the C library answers: whether seeking to the end and back succeeds, the
  position at the end, and the bytes that can be read. A path without a file is \<open>None\<close>.
\<close>

record c_file =
  f_seek_end :: bool
  f_tell :: int
  f_seek_set :: bool
  f_data :: bytes

type_synonym file_system = "bytes \<Rightarrow> c_file option"

definition sigma_db_load_file ::
  "'re sigma_lib \<Rightarrow> file_system \<Rightarrow> bytes \<Rightarrow> (sigma_status + sigma_db \<times> 're sigma_derived) option" where
  "sigma_db_load_file x fs path =
     (case fs path of
        None \<Rightarrow> Some (Inl ERR_IO)
      | Some f \<Rightarrow>
          if \<not> f_seek_end f then Some (Inl ERR_IO)
          else if f_tell f \<le> 0 then Some (Inl ERR_SIZE)
          else let buf = take (nat (f_tell f)) (f_data f) in
            if length buf \<noteq> nat (f_tell f) then Some (Inl ERR_IO) else sigma_db_load_buffer x buf)"

definition corr_artifact_load_file :: "'j json_lib \<Rightarrow> file_system \<Rightarrow> bytes \<Rightarrow> (corr_rule list \<times> corr_load_stats) option" where
  "corr_artifact_load_file J fs path =
     (case fs path of
        None \<Rightarrow> None
      | Some f \<Rightarrow>
          if \<not> f_seek_end f then None
          else if f_tell f < 0 \<or> \<not> f_seek_set f then None
          else corr_artifact_parse J (take (nat (f_tell f)) (f_data f)))"

section \<open>Messages\<close>

datatype cli_msg =
    Usage
  | Load_Failed bytes sigma_status
  | Loaded bytes nat nat nat nat
  | Corr_Failed bytes
  | Corr_Loaded bytes nat
  | No_Match int
  | Rule_Line int u32 bytes u8 u16 bytes
  | Corr_Line int bytes int

definition rule_line :: "int \<Rightarrow> sigma_hit \<Rightarrow> cli_msg" where
  "rule_line lno h = Rule_Line lno (hit_rule_id h) (verdict_name (hit_verdict h)) (hit_severity h) (hit_score h)
     (case hit_mitre h of Some m \<Rightarrow> m | None \<Rightarrow> lit ''-'')"

definition corr_line :: "int \<Rightarrow> corr_fire \<Rightarrow> cli_msg" where
  "corr_line lno f = Corr_Line lno (case f_rule_id f of Some i \<Rightarrow> i | None \<Rightarrow> lit ''-'') (f_observed f)"

text \<open>What is printed for an event. There is no hit in the buffer of 64 exactly when none was counted.\<close>

definition event_lines :: "int \<Rightarrow> sigma_hit list \<Rightarrow> corr_fire list \<Rightarrow> cli_msg list" where
  "event_lines lno hits fires = (if hits = [] then [No_Match lno] else map (rule_line lno) hits) @ map (corr_line lno) fires"

section \<open>The program\<close>

text \<open>\<open>getline\<close>: each line with its end; the last one may have none.\<close>

fun split_lines :: "bytes \<Rightarrow> bytes \<Rightarrow> bytes list" where
  "split_lines cur [] = (if cur = [] then [] else [cur])"
| "split_lines cur (c # cs) = (if c = 10 then (cur @ [c]) # split_lines [] cs else split_lines (cur @ [c]) cs)"

type_synonym cli_state = "(sigma_eval \<times> corr_engine option) \<times> int"

definition print_line ::
  "'re sigma_lib \<Rightarrow> sigma_db \<Rightarrow> 're sigma_derived \<Rightarrow> bytes \<Rightarrow> cli_state \<times> cli_msg list \<Rightarrow> (cli_state \<times> cli_msg list) option" where
  "print_line x d dv line = (\<lambda>(st, out).
     do { (st, ev) \<leftarrow> cli_line x d dv line st;
          case ev of
            None \<Rightarrow> Some (st, out)
          | Some (hits, fires) \<Rightarrow> Some (st, out @ event_lines (snd st) hits fires) })"

definition cli_events ::
  "'re sigma_lib \<Rightarrow> sigma_db \<Rightarrow> 're sigma_derived \<Rightarrow> corr_engine option \<Rightarrow> bytes \<Rightarrow> cli_msg list \<Rightarrow> (int \<times> cli_msg list) option" where
  "cli_events x d dv ce stdin out =
     do { (_, out) \<leftarrow> mfold (print_line x d dv) (split_lines [] stdin) (((sigma_eval_create d dv, ce), 0), out);
          Some (0, out) }"

definition cli_main ::
  "'re sigma_lib \<Rightarrow> 'j json_lib \<Rightarrow> file_system \<Rightarrow> bytes list \<Rightarrow> bytes \<Rightarrow> (int \<times> cli_msg list) option" where
  "cli_main x J fs argv stdin =
     (if length argv < 2 then Some (2, [Usage])
      else do {
        loaded \<leftarrow> sigma_db_load_file x fs (argv ! 1);
        case loaded of
          Inl err \<Rightarrow> Some (1, [Load_Failed (argv ! 1) err])
        | Inr (d, dv) \<Rightarrow>
            let out = [Loaded (argv ! 1) (length (db_rules d)) (length (db_preds d)) (length (db_fields d)) (length (db_cidrs d))] in
            if length argv < 3 then cli_events x d dv None stdin out
            else case corr_artifact_load_file J fs (argv ! 2) of
                None \<Rightarrow> Some (1, out @ [Corr_Failed (argv ! 2)])
              | Some (rules, _) \<Rightarrow>
                  do { ce \<leftarrow> corr_engine_new rules corr_caps_default;
                       cli_events x d dv (Some ce) stdin (out @ [Corr_Loaded (argv ! 2) (length rules)]) } })"

end
