(* ===== verification/Group_Spec.thy ===== *)
theory Group_Spec
  imports Corr_Engine Aggregate_Spec Temporal_Spec
begin

text \<open>
  One correlation over the list of its groups: what an event does to the group it belongs to,
  the invariant of a group, and that no evaluation leaves its arrays or converts a number out
  of range while times and values are moderate.
\<close>

section \<open>The group of an event\<close>

text \<open>What is done to the group, once it is found or created.\<close>

definition step_group ::
  "corr_rule \<Rightarrow> corr_caps \<Rightarrow> u32 \<Rightarrow> (bytes \<Rightarrow> bytes option) \<Rightarrow> u32 list \<Rightarrow> f64 \<Rightarrow> group \<Rightarrow> corr_stats \<Rightarrow>
    (group \<times> corr_stats \<times> (int \<times> bool) option) option" where
  "step_group r caps pct_cap field_fn rids ts g stats =
     (let timespan = f64_of_int (r_timespan r); g = g\<lparr>last_update := ts\<rparr>; (hits, stats) = event_hits r rids stats in
      if hits = [] then Some (g, stats, None)
      else do {
        (fired, agg, g, stats) \<leftarrow> eval_group r caps pct_cap field_fn hits ts (f64_sub ts timespan) g stats;
        if \<not> fired then Some (g, stats, None)
        else if f64_lt ts (fired_until g) then Some (g, stats\<lparr>fires_suppressed := fires_suppressed stats + 1\<rparr>, None)
        else do {
          let g = g\<lparr>fired_until := f64_add ts (f64_mul timespan (Fin 1))\<rparr>;
          obs \<leftarrow> observed_of r g agg;
          Some (g, stats, Some (obs, merge_remote g)) } })"

text \<open>The group of a key and the groups that stay, in recency order; the counter of evictions.\<close>

definition the_group :: "corr_caps \<Rightarrow> bytes list \<Rightarrow> (bytes list \<times> group) list \<Rightarrow> group" where
  "the_group caps k gs = (case map_of gs k of Some g \<Rightarrow> g | None \<Rightarrow> group_new (max_events_per_group caps))"

definition others :: "corr_caps \<Rightarrow> bytes list \<Rightarrow> (bytes list \<times> group) list \<Rightarrow> (bytes list \<times> group) list" where
  "others caps k gs =
     (case map_of gs k of
        Some g \<Rightarrow> filter (\<lambda>(x, _). x \<noteq> k) gs
      | None \<Rightarrow> if unat (max_groups caps) \<le> length gs then tl gs else gs)"

definition count_evict :: "corr_caps \<Rightarrow> bytes list \<Rightarrow> (bytes list \<times> group) list \<Rightarrow> corr_stats \<Rightarrow> corr_stats" where
  "count_evict caps k gs stats =
     (if get_evicts (unat (max_groups caps)) k gs then stats\<lparr>groups_evicted := groups_evicted stats + 1\<rparr> else stats)"

definition caps_ok :: "corr_caps \<Rightarrow> bool" where
  "caps_ok caps \<longleftrightarrow> 0 < unat (max_groups caps) \<and> unat (max_groups caps) \<le> 2 ^ 28 \<and>
     0 < unat (max_distinct caps) \<and> unat (max_distinct caps) \<le> 2 ^ 28 \<and>
     0 < unat (max_events_per_group caps) \<and> unat (max_events_per_group caps) \<le> 2 ^ 28"

lemma get_group_eq:
  "get_group (unat (max_groups caps)) k (group_new (max_events_per_group caps)) gs = others caps k gs @ [(k, the_group caps k gs)]"
  by (simp add: get_group_def others_def the_group_def split: option.split)

text \<open>The pointer structure behaves like the list of groups.\<close>

lemma eval_state_refines:
  assumes "groups_rep m gs" "caps_ok caps" "length gs \<le> unat (max_groups caps)"
  shows "case step_group r caps pct field_fn rids ts (the_group caps k gs) (count_evict caps k gs stats) of
      None \<Rightarrow> eval_state r caps pct field_fn rids ts k m stats = None
    | Some (g, stats', fire) \<Rightarrow> \<exists>m'. eval_state r caps pct field_fn rids ts k m stats = Some (m', stats', fire) \<and>
        groups_rep m' (others caps k gs @ [(k, g)])"
proof -
  have c: "0 < unat (max_groups caps)" "unat (max_groups caps) \<le> 2 ^ 28" using assms(2) by (simp_all add: caps_ok_def)
  obtain a m1 where get: "cstate_get_or_create caps k m stats = Some (a, m1, count_evict caps k gs stats)"
    and last: "at_last a m1 (others caps k gs @ [(k, the_group caps k gs)])"
    using cstate_get_ok [OF assms(1) c assms(3), of k stats] unfolding get_group_eq count_evict_def by blast
  obtain n where n: "lm_heap m1 a = Some n" "n_val n = the_group caps k gs" by (rule at_last_read [OF last])
  have st: "eval_state r caps pct field_fn rids ts k m stats =
      (case step_group r caps pct field_fn rids ts (the_group caps k gs) (count_evict caps k gs stats) of
        None \<Rightarrow> None
      | Some (g, stats', fire) \<Rightarrow> map_option (\<lambda>m'. (m', stats', fire)) (set_val a g m1))"
  proof (cases "event_hits r rids (count_evict caps k gs stats)")
    case (Pair hits st1)
    define g0 where "g0 = (the_group caps k gs)\<lparr>last_update := ts\<rparr>"
    show ?thesis
    proof (cases "eval_group r caps pct field_fn hits ts (f64_sub ts (f64_of_int (r_timespan r))) g0 st1")
      case None
      then show ?thesis by (simp add: eval_state_def step_group_def get n Pair g0_def [symmetric] map_option_case Let_def split: bind_split option.split)
    next
      case (Some q)
      obtain f agg g st2 where "q = (f, agg, g, st2)" by (cases q)
      with Some show ?thesis
        by (cases "observed_of r (g\<lparr>fired_until := f64_add ts (f64_mul (f64_of_int (r_timespan r)) (Fin 1))\<rparr>) agg")
          (simp_all add: eval_state_def step_group_def get n Pair g0_def [symmetric] map_option_case Let_def split: bind_split option.split)
    qed
  qed
  show ?thesis
  proof (cases "step_group r caps pct field_fn rids ts (the_group caps k gs) (count_evict caps k gs stats)")
    case None
    then show ?thesis by (simp add: st)
  next
    case (Some p)
    obtain g stats' fire where p: "p = (g, stats', fire)" by (cases p)
    obtain m' where "set_val a g m1 = Some m'" "at_last a m' (others caps k gs @ [(k, g)])"
      by (rule at_last_write [OF last, of g])
    then show ?thesis using at_last_rep by (simp add: Some p st)
  qed
qed

section \<open>Moderate numbers\<close>

definition moderate :: "f64 \<Rightarrow> bool" where
  "moderate v \<longleftrightarrow> (\<exists>a. v = Fin a \<and> \<bar>a\<bar> \<le> 2 ^ 31)"

lemma rnd_abs_le:
  assumes "\<bar>x\<bar> \<le> of_int m * 2 ^ k" "0 \<le> m" "m \<le> 2 ^ 53" "k \<le> 100"
  shows "\<exists>y. rnd x = Fin y \<and> \<bar>y\<bar> \<le> of_int m * 2 ^ k"
proof -
  let ?b = "of_int m * 2 ^ k :: rat"
  have "(of_int m :: rat) \<le> of_int (2 ^ 53)" using assms(3) by (simp only: of_int_le_iff)
  then have "?b \<le> 2 ^ 53 * 2 ^ 100" using assms(4) by (intro mult_mono power_increasing) simp_all
  also have "\<dots> < (2 :: rat) ^ 1024" by simp
  finally have b: "?b < 2 ^ 1024" .
  have "rval ?b = ?b" using rval_53 [of m "int k"] assms(2,3) by simp
  moreover have "rval (- ?b) = - ?b" using rval_53 [of "- m" "int k"] assms(2,3) by simp
  ultimately have "rnd ?b = Fin ?b" "rnd (- ?b) = Fin (- ?b)" using b assms(2) by (simp_all add: rnd_rval)
  moreover have "f64_le (rnd (- ?b)) (rnd x)" "f64_le (rnd x) (rnd ?b)" using assms(1) by (intro rnd_mono; simp)+
  ultimately show ?thesis by (cases "rnd x") auto
qed

lemma moderate_sum:
  assumes "\<forall>v \<in> set vs. moderate v" "\<bar>a\<bar> \<le> of_nat j * 2 ^ 31" "j + length vs \<le> 2 ^ 28"
  shows "\<exists>b. fold (\<lambda>v s. f64_add s v) vs (Fin a) = Fin b \<and> \<bar>b\<bar> \<le> of_nat (j + length vs) * 2 ^ 31"
  using assms
proof (induction vs arbitrary: a j)
  case (Cons v vs)
  obtain c where c: "v = Fin c" "\<bar>c\<bar> \<le> 2 ^ 31" using Cons.prems(1) by (auto simp: moderate_def)
  have "\<bar>a + c\<bar> \<le> of_int (int (Suc j)) * 2 ^ 31" using Cons.prems(2) c(2) by (simp add: algebra_simps)
  then obtain d where d: "rnd (a + c) = Fin d" "\<bar>d\<bar> \<le> of_nat (Suc j) * 2 ^ 31"
    using rnd_abs_le [of "a + c" "int (Suc j)" 31] Cons.prems(3) by auto
  from Cons.IH [OF _ d(2)] Cons.prems(1,3) show ?case by (simp add: c(1) d(1) algebra_simps)
qed simp

lemma int64_fits:
  assumes y: "\<bar>y\<bar> \<le> 2 ^ 59"
  shows "f64_trunc (- (2 ^ 63)) (2 ^ 63 - 1) (Fin y) \<noteq> None"
proof -
  have "- (2 ^ 59) \<le> y" "y \<le> 2 ^ 59" using y by simp_all
  then have fl: "\<lfloor>y\<rfloor> \<le> 2 ^ 59" "\<lfloor>- y\<rfloor> \<le> 2 ^ 59"
    using floor_mono [of y "2 ^ 59"] floor_mono [of "- y" "2 ^ 59"] by simp_all
  have z: "0 \<le> z \<Longrightarrow> z \<le> 2 ^ 59 \<Longrightarrow> - (2 ^ 63) \<le> - z \<and> - z \<le> 2 ^ 63 - 1"
    "0 \<le> z \<Longrightarrow> z \<le> 2 ^ 59 \<Longrightarrow> - (2 ^ 63) \<le> z \<and> z \<le> 2 ^ 63 - 1" for z :: int by simp_all
  show ?thesis
  proof (cases "y < 0")
    case True
    then have "0 \<le> \<lfloor>- y\<rfloor>" by simp
    from z(1) [OF this fl(2)] have "- (2 ^ 63) \<le> - \<lfloor>- y\<rfloor> \<and> - \<lfloor>- y\<rfloor> \<le> 2 ^ 63 - 1" .
    with True show ?thesis unfolding f64_trunc_def Let_def f64.case if_P [OF True] by (metis option.discI)
  next
    case False
    then have "0 \<le> \<lfloor>y\<rfloor>" by simp
    from z(2) [OF this fl(1)] have "- (2 ^ 63) \<le> \<lfloor>y\<rfloor> \<and> \<lfloor>y\<rfloor> \<le> 2 ^ 63 - 1" .
    then show ?thesis unfolding f64_trunc_def Let_def f64.case if_not_P [OF False] by (metis option.discI)
  qed
qed

text \<open>The aggregate of moderate samples without remote partials fits \<open>int64_t\<close>.\<close>

lemma moderate_agg:
  assumes "\<forall>v \<in> set vs. moderate v" "length vs \<le> 2 ^ 28" "agg_of is_avg vs (Fin 0) 0 = Some a"
  shows "f64_trunc (- (2 ^ 63)) (2 ^ 63 - 1) a \<noteq> None"
proof -
  obtain b where b: "fold (\<lambda>v s. f64_add s v) vs (Fin 0) = Fin b" "\<bar>b\<bar> \<le> of_nat (length vs) * 2 ^ 31"
    using moderate_sum [OF assms(1), of 0 0] assms(2) by auto
  have bb: "\<bar>b\<bar> \<le> 2 ^ 28 * 2 ^ 31"
  proof -
    have "(of_nat (length vs) :: rat) \<le> of_nat (2 ^ 28)" using assms(2) by (simp only: of_nat_le_iff)
    then show ?thesis using b(2) by simp
  qed
  show ?thesis
  proof (cases is_avg)
    case True
    define n where "n = (of_nat (length vs) :: u32)"
    have nz: "n \<noteq> 0" and a: "a = f64_div (Fin b) (f64_of_int (uint n))"
      using assms(3) True by (simp_all add: agg_of_def b(1) n_def Let_def split: if_splits)
    have u: "uint n = int (length vs)" unfolding n_def using assms(2) by (simp add: unsigned_of_nat take_bit_nat_eq_self)
    have l: "1 \<le> length vs"
    proof (rule ccontr)
      assume "\<not> 1 \<le> length vs"
      then show False using nz by (simp add: n_def not_le)
    qed
    have "f64_of_int (uint n) = Fin (of_nat (length vs))"
      unfolding u f64_of_int_def using rnd_of_int [of "int (length vs)"] assms(2) by simp
    then have a': "a = rnd (b / of_nat (length vs))" using a l by auto
    have "\<bar>b / of_nat (length vs)\<bar> \<le> \<bar>b\<bar>" using l by (simp add: abs_divide divide_le_eq mult_le_cancel_left1 order_trans [OF abs_ge_zero])
    then have "\<bar>b / of_nat (length vs)\<bar> \<le> of_int 1 * 2 ^ 59" using bb by simp
    from rnd_abs_le [OF this] show ?thesis unfolding a' using int64_fits by fastforce
  next
    case False
    then have "a = Fin b" using assms(3) by (simp add: agg_of_def b(1) Let_def)
    then show ?thesis using int64_fits [of b] bb by simp
  qed
qed

section \<open>The activity histogram stays in bounds\<close>

lemma mfold_total: "(\<And>x s. x \<in> set xs \<Longrightarrow> f x s \<noteq> None) \<Longrightarrow> mfold f xs s \<noteq> None"
  by (induction xs arbitrary: s) (auto split: bind_split)

lemma bucket_active_total: "unat (e mod nb) < length bb \<Longrightarrow> bucket_active bb nb e \<noteq> None"
  by (simp add: bucket_active_def split: prod.split)

lemma beacon_passes_total:
  assumes "unat nb = length bb" "nb \<noteq> 0"
  shows "mfold (beacon_pass1 bb nb) w s \<noteq> None" "mfold (beacon_pass2 bb nb m) w s2 \<noteq> None"
proof -
  have "unat (e mod nb) < length bb" for e
    using assms unat_gt_0 [of nb] by (simp add: unat_mod flip: assms(1))
  then have "bucket_active bb nb e = Some (the (bucket_active bb nb e))" for e
    using bucket_active_total [of e nb bb] by simp
  moreover define on where "on = (\<lambda>e. the (bucket_active bb nb e))"
  ultimately have on: "bucket_active bb nb e = Some (on e)" for e by simp
  show "mfold (beacon_pass1 bb nb) w s \<noteq> None"
    by (rule mfold_total) (auto simp: beacon_pass1_def on Let_def split: option.split)
  show "mfold (beacon_pass2 bb nb m) w s2 \<noteq> None"
    by (rule mfold_total) (auto simp: beacon_pass2_def on Let_def split: option.split)
qed

text \<open>Times up to \<open>2\<^sup>3\<^sup>2 - 1\<close> (the year 2106).\<close>

definition clock_ok :: "f64 \<Rightarrow> bool" where
  "clock_ok t \<longleftrightarrow> (\<exists>a. t = Fin a \<and> 0 \<le> a \<and> a \<le> 2 ^ 32 - 1)"

definition hist_ok :: "corr_rule \<Rightarrow> group \<Rightarrow> bool" where
  "hist_ok r g \<longleftrightarrow> (\<forall>b. bbuckets g = Some b \<longrightarrow> int (length b) = r_n_buckets r)"

lemma epoch_in_range:
  assumes "clock_ok now" "1 \<le> n" "n \<le> T" "T \<le> 2 ^ 31" "n \<le> 1024"
  shows "\<exists>ne. f64_trunc 0 (2 ^ 32 - 1) (f64_div now (f64_div (f64_of_int T) (f64_of_int n))) = Some ne"
    "\<not> f64_le (f64_div (f64_of_int T) (f64_of_int n)) (Fin 0)"
proof -
  obtain a where a: "now = Fin a" "0 \<le> a" "a \<le> 2 ^ 32 - 1" using assms(1) by (auto simp: clock_ok_def)
  have i: "f64_of_int T = Fin (of_int T)" "f64_of_int n = Fin (of_int n)"
    using assms by (simp_all add: f64_of_int_def rnd_of_int)
  have q: "(1 :: rat) \<le> of_int T / of_int n" "of_int T / of_int n \<le> (2 ^ 31 :: rat)"
  proof -
    have "(of_int n :: rat) \<le> of_int T" "(of_int T :: rat) \<le> 2 ^ 31" "(1 :: rat) \<le> of_int n"
      using assms of_int_le_iff [of T "2 ^ 31", where ?'a = rat] by simp_all
    then show "(1 :: rat) \<le> of_int T / of_int n" "of_int T / of_int n \<le> (2 ^ 31 :: rat)"
      by (simp_all add: le_divide_eq divide_le_eq mult_mono order_trans)
  qed
  have r1: "rnd 1 = Fin 1" using rnd_of_int [of 1] by simp
  have "\<bar>of_int T / of_int n :: rat\<bar> \<le> of_int 1 * 2 ^ 31" using q by simp
  then obtain s where s: "rnd (of_int T / of_int n) = Fin s" using rnd_abs_le [of "of_int T / of_int n" 1 31] by auto
  have s1: "1 \<le> s" using rnd_mono [OF q(1)] by (simp add: r1 s)
  have d: "f64_div (f64_of_int T) (f64_of_int n) = Fin s" using assms(2) by (simp add: i s)
  then show "\<not> f64_le (f64_div (f64_of_int T) (f64_of_int n)) (Fin 0)" using s1 by simp
  have as: "0 \<le> a / s" "a / s \<le> a" using a s1 by (simp_all add: divide_le_eq mult_le_cancel_left1)
  have "rnd (of_int (2 ^ 32 - 1)) = Fin (of_int (2 ^ 32 - 1))" "rnd 0 = Fin 0" by (intro rnd_of_int; simp) (simp add: rnd_def)
  moreover have "f64_le (rnd 0) (rnd (a / s))" using as(1) by (rule rnd_mono)
  moreover have "f64_le (rnd (a / s)) (rnd (of_int (2 ^ 32 - 1)))" using as(2) a(3) by (intro rnd_mono) simp
  ultimately obtain e where e: "rnd (a / s) = Fin e" "0 \<le> e" "e \<le> of_int (2 ^ 32 - 1)" by (cases "rnd (a / s)") auto
  have "\<lfloor>e\<rfloor> \<le> 2 ^ 32 - 1" "0 \<le> \<lfloor>e\<rfloor>" using e(2) floor_mono [OF e(3)] by simp_all
  then have "f64_trunc 0 (2 ^ 32 - 1) (Fin e) = Some \<lfloor>e\<rfloor>" using e(2) by (simp add: f64_trunc_def)
  then show "\<exists>ne. f64_trunc 0 (2 ^ 32 - 1) (f64_div now (f64_div (f64_of_int T) (f64_of_int n))) = Some ne"
    using s1 e(1) unfolding d a(1) by auto
qed

lemma eval_beaconing_bucketed_total:
  assumes "1 \<le> r_n_buckets r" "r_n_buckets r \<le> 1024" "r_n_buckets r \<le> r_timespan r" "r_timespan r \<le> 2 ^ 31"
    "hist_ok r g" "clock_ok now"
  shows "\<exists>f b. eval_beaconing_bucketed r now g = Some (f, g\<lparr>bbuckets := Some b\<rparr>) \<and> int (length b) = r_n_buckets r"
proof -
  define nb where "nb = (word_of_int (r_n_buckets r) :: u32)"
  have u: "uint nb = r_n_buckets r" using assms(1,2) by (simp add: nb_def take_bit_int_eq_self unsigned_of_int)
  then have nb: "unat nb = nat (r_n_buckets r)" "nb \<noteq> 0" using assms(1) by (simp add: unat_eq_nat_uint) (use u assms(1) in auto)
  define bb where "bb = (case bbuckets g of None \<Rightarrow> replicate (unat nb) (0, 0) | Some b \<Rightarrow> b)"
  have bb: "length bb = unat nb" using assms(5) nb(1) by (auto simp: bb_def hist_ok_def split: option.split)
  note ep = epoch_in_range [OF assms(6,1,3,4,2)]
  obtain ne where ne: "f64_trunc 0 (2 ^ 32 - 1) (f64_div now (f64_div (f64_of_int (r_timespan r)) (f64_of_int (uint nb)))) = Some ne"
    using ep(1) unfolding u by blast
  define slot where "slot = unat ((word_of_int ne :: u32) mod nb)"
  have slot: "slot < length bb" using nb(2) unat_gt_0 [of nb] by (simp add: bb slot_def unat_mod)
  define b2 where "b2 = bb[slot := (word_of_int ne, let cnt = (if fst (bb ! slot) \<noteq> word_of_int ne then 0 else snd (bb ! slot)) in
    if cnt < u32_max then cnt + 1 else cnt)]"
  have b2: "length b2 = unat nb" by (simp add: b2_def bb)
  define w :: "u32 list" where "w = map of_nat [unat (if word_of_int ne \<ge> nb - 1 then word_of_int ne - (nb - 1) else 0)..<Suc (unat (word_of_int ne :: u32))]"
  obtain s1 where s1: "mfold (beacon_pass1 b2 nb) w (0, 0, 0, None, 0, Fin 0) = Some s1"
    using beacon_passes_total(1) [of nb b2] b2 nb(2) by fastforce
  have s2: "\<exists>p. mfold (beacon_pass2 b2 nb m) w (None, Fin 0) = Some p" for m
    using beacon_passes_total(2) [of nb b2] b2 nb(2) by fastforce
  have nn: "\<not> f64_lt now (Fin 0)" using assms(6) by (auto simp: clock_ok_def)
  have "\<exists>f. eval_beaconing_bucketed r now g = Some (f, g\<lparr>bbuckets := Some b2\<rparr>)"
  proof -
    obtain active first_e last_e prev ngap gap_sum where "s1 = (active, first_e, last_e, prev, ngap, gap_sum)" by (cases s1)
    then show ?thesis
      using slot s2 [of "f64_div gap_sum (f64_of_int (uint ngap))"] s1 ne ep(2) nn
      unfolding eval_beaconing_bucketed_def nb_def [symmetric] bb_def [symmetric] Let_def u w_def b2_def slot_def
      by (auto simp: split_beta)
  qed
  moreover have "int (length b2) = r_n_buckets r" using b2 nb(1) assms(1) by simp
  ultimately show ?thesis by blast
qed

section \<open>The invariant of a group\<close>

definition numeric :: "corr_rule \<Rightarrow> bool" where
  "numeric r \<longleftrightarrow> r_type r \<in> {CORR_VALUE_SUM, CORR_VALUE_AVG, CORR_VALUE_PERCENTILE, CORR_VALUE_MEDIAN}"

definition group_ok :: "corr_rule \<Rightarrow> corr_caps \<Rightarrow> group \<Rightarrow> bool" where
  "group_ok r caps g \<longleftrightarrow>
     ring_ok g \<and> ev_cap g = max_events_per_group caps \<and> (numeric r \<longrightarrow> vals_ok g) \<and> hist_ok r g \<and>
     (\<exists>vs. dset_rep (distinct_set g) vs \<and> length vs \<le> unat (max_distinct caps)) \<and>
     length (seen g) \<le> 64 \<and> length (wm g) \<le> 32 \<and>
     (rule_order r \<noteq> [] \<longrightarrow> unat (ordered_progress g) < length (rule_order r))"

text \<open>No remote partials, and moderate values.\<close>

definition local_ok :: "corr_rule \<Rightarrow> group \<Rightarrow> bool" where
  "local_ok r g \<longleftrightarrow> merge_n g = 0 \<and> merge_sum g = Fin 0 \<and> (numeric r \<longrightarrow> (\<forall>v \<in> snd ` set (samples g). moderate v))"

text \<open>What an evaluation leaves alone.\<close>

definition keeps :: "group \<Rightarrow> group \<Rightarrow> bool" where
  "keeps g g' \<longleftrightarrow> last_update g' = last_update g \<and> fired_until g' = fired_until g \<and> merge_sum g' = merge_sum g \<and>
     merge_n g' = merge_n g \<and> merge_seen g' = merge_seen g \<and> merge_remote g' = merge_remote g"

text \<open>Updates of other members.\<close>

lemma ring_ok_upd [simp]:
  "ring_ok (g\<lparr>last_update := t\<rparr>) = ring_ok g"
  "ring_ok (g\<lparr>fired_until := t\<rparr>) = ring_ok g"
  "ring_ok (g\<lparr>seen := xs\<rparr>) = ring_ok g"
  "ring_ok (g\<lparr>wm := ws\<rparr>) = ring_ok g"
  "ring_ok (g\<lparr>wm_max_ts := t\<rparr>) = ring_ok g"
  "ring_ok (g\<lparr>distinct_set := d\<rparr>) = ring_ok g"
  "ring_ok (g\<lparr>merge_n := k\<rparr>) = ring_ok g"
  "ring_ok (g\<lparr>merge_sum := m\<rparr>) = ring_ok g"
  "ring_ok (g\<lparr>merge_seen := b\<rparr>) = ring_ok g"
  "ring_ok (g\<lparr>merge_remote := c\<rparr>) = ring_ok g"
  "ring_ok (set_progress s g) = ring_ok g"
  "ring_ok (g\<lparr>bbuckets := bb\<rparr>) = ring_ok g"
  by (simp_all add: ring_ok_def set_progress_def split: prod.split cong: option.case_cong)

lemma vals_ok_upd [simp]:
  "vals_ok (g\<lparr>last_update := t\<rparr>) = vals_ok g"
  "vals_ok (g\<lparr>fired_until := t\<rparr>) = vals_ok g"
  "vals_ok (g\<lparr>seen := xs\<rparr>) = vals_ok g"
  "vals_ok (g\<lparr>wm := ws\<rparr>) = vals_ok g"
  "vals_ok (g\<lparr>wm_max_ts := t\<rparr>) = vals_ok g"
  "vals_ok (g\<lparr>distinct_set := d\<rparr>) = vals_ok g"
  "vals_ok (g\<lparr>merge_n := k\<rparr>) = vals_ok g"
  "vals_ok (g\<lparr>merge_sum := m\<rparr>) = vals_ok g"
  "vals_ok (g\<lparr>merge_seen := b\<rparr>) = vals_ok g"
  "vals_ok (g\<lparr>merge_remote := c\<rparr>) = vals_ok g"
  "vals_ok (set_progress s g) = vals_ok g"
  "vals_ok (g\<lparr>bbuckets := bb\<rparr>) = vals_ok g"
  by (simp_all add: vals_ok_def ring_ok_def set_progress_def split: prod.split cong: option.case_cong)

lemma hist_ok_upd [simp]:
  "hist_ok r (g\<lparr>last_update := t\<rparr>) = hist_ok r g"
  "hist_ok r (g\<lparr>fired_until := t\<rparr>) = hist_ok r g"
  "hist_ok r (g\<lparr>seen := xs\<rparr>) = hist_ok r g"
  "hist_ok r (g\<lparr>wm := ws\<rparr>) = hist_ok r g"
  "hist_ok r (g\<lparr>wm_max_ts := t\<rparr>) = hist_ok r g"
  "hist_ok r (g\<lparr>distinct_set := d\<rparr>) = hist_ok r g"
  "hist_ok r (g\<lparr>merge_n := k\<rparr>) = hist_ok r g"
  "hist_ok r (g\<lparr>merge_sum := m\<rparr>) = hist_ok r g"
  "hist_ok r (g\<lparr>merge_seen := b\<rparr>) = hist_ok r g"
  "hist_ok r (g\<lparr>merge_remote := c\<rparr>) = hist_ok r g"
  "hist_ok r (set_progress s g) = hist_ok r g"
  by (simp_all add: hist_ok_def set_progress_def split: prod.split cong: option.case_cong)

lemma samples_upd [simp]:
  "samples (g\<lparr>last_update := t\<rparr>) = samples g"
  "samples (g\<lparr>fired_until := t\<rparr>) = samples g"
  "samples (g\<lparr>seen := xs\<rparr>) = samples g"
  "samples (g\<lparr>wm := ws\<rparr>) = samples g"
  "samples (g\<lparr>wm_max_ts := t\<rparr>) = samples g"
  "samples (g\<lparr>distinct_set := d\<rparr>) = samples g"
  "samples (g\<lparr>merge_n := k\<rparr>) = samples g"
  "samples (g\<lparr>merge_sum := m\<rparr>) = samples g"
  "samples (g\<lparr>merge_seen := b\<rparr>) = samples g"
  "samples (g\<lparr>merge_remote := c\<rparr>) = samples g"
  "samples (set_progress s g) = samples g"
  "samples (g\<lparr>bbuckets := bb\<rparr>) = samples g"
  by (simp_all add: samples_def ring_times_def ring_vals_def live_def set_progress_def split: prod.split cong: option.case_cong)

lemma keeps_ring: "ring_only g g' \<Longrightarrow> keeps g g'"
  using ring_onlyD [of g g'] by (simp add: keeps_def)

lemma group_ok_ring:
  assumes "group_ok r caps g" "ring_only g g'" "ring_ok g'" "numeric r \<longrightarrow> vals_ok g'"
  shows "group_ok r caps g'"
  using assms ring_onlyD [OF assms(2)] by (simp add: group_ok_def hist_ok_def)

lemma group_new_ok:
  assumes "caps_ok caps" "r_base r \<noteq> []"
  shows "group_ok r caps (group_new (max_events_per_group caps))" "local_ok r (group_new (max_events_per_group caps))"
proof -
  let ?g = "group_new (max_events_per_group caps)"
  have c: "max_events_per_group caps \<noteq> 0" "unat (max_events_per_group caps) \<le> 2 ^ 28" "0 < unat (max_distinct caps)"
    using assms(1) by (auto simp: caps_ok_def)
  have v: "vals_ok ?g" using c by (simp add: vals_ok_def ring_ok_def group_new_def Let_def unat_gt_0)
  then show "group_ok r caps ?g"
    using c dset_init_rep assms(2) by (auto simp: group_ok_def vals_ok_def group_new_def hist_ok_def Let_def rule_order_def)
  have "samples ?g = []" using vals_nonempty [OF v] by (simp add: group_new_def Let_def)
  then show "local_ok r ?g" by (simp add: local_ok_def group_new_def Let_def)
qed

lemma group_ok_upd [simp]:
  "group_ok r caps (g\<lparr>last_update := t\<rparr>) = group_ok r caps g"
  "group_ok r caps (g\<lparr>fired_until := t\<rparr>) = group_ok r caps g"
  "group_ok r caps (g\<lparr>wm_max_ts := t\<rparr>) = group_ok r caps g"
  "group_ok r caps (g\<lparr>merge_n := k\<rparr>) = group_ok r caps g"
  "group_ok r caps (g\<lparr>merge_sum := m\<rparr>) = group_ok r caps g"
  "group_ok r caps (g\<lparr>merge_seen := b\<rparr>) = group_ok r caps g"
  "group_ok r caps (g\<lparr>merge_remote := c\<rparr>) = group_ok r caps g"
  by (simp_all add: group_ok_def)

lemma local_ok_upd [simp]:
  "local_ok r (g\<lparr>last_update := t\<rparr>) = local_ok r g"
  "local_ok r (g\<lparr>fired_until := t\<rparr>) = local_ok r g"
  by (simp_all add: local_ok_def)

subsection \<open>The tables of the temporal correlations\<close>

lemma refresh_seen_length: "refresh_seen rid now xs = Some ys \<Longrightarrow> length ys = length xs"
  by (induction xs arbitrary: ys) (auto split: if_splits)

lemma record_seen_shape:
  assumes "length (seen g) \<le> 64"
  obtains xs stats' where "temporal_record_seen hits now ws g stats = (g\<lparr>seen := xs\<rparr>, stats')" "length xs \<le> 64"
proof -
  have "length (fst (fold (record_hit now) hits (ys, st))) \<le> 64" if "length ys \<le> 64" for ys st
    using that
  proof (induction hits arbitrary: ys st)
    case (Cons h hits)
    obtain zs st1 where z: "record_hit now h (ys, st) = (zs, st1)" by (cases "record_hit now h (ys, st)")
    then have "length zs \<le> 64"
      using Cons.prems refresh_seen_length by (fastforce simp: record_hit_def split: option.splits if_splits)
    from Cons.IH [OF this] show ?case by (simp add: z)
  qed simp
  from this [OF assms, of stats] obtain zs st where z: "fold (record_hit now) hits (seen g, stats) = (zs, st)" "length zs \<le> 64"
    by (cases "fold (record_hit now) hits (seen g, stats)") auto
  have "length (filter (\<lambda>(_, t). f64_le ws t) zs) \<le> 64" using z(2) length_filter_le le_trans by blast
  then show ?thesis using that z(1) by (simp add: temporal_record_seen_def)
qed

lemma group_ok_seen: "group_ok r caps g \<Longrightarrow> length xs \<le> 64 \<Longrightarrow> group_ok r caps (g\<lparr>seen := xs\<rparr>)"
  by (simp add: group_ok_def)

lemma local_ok_other [simp]:
  "local_ok r (g\<lparr>seen := xs\<rparr>) = local_ok r g" "local_ok r (g\<lparr>wm := ws\<rparr>) = local_ok r g"
  "local_ok r (g\<lparr>wm_max_ts := t\<rparr>) = local_ok r g" "local_ok r (set_progress s g) = local_ok r g"
  "local_ok r (g\<lparr>distinct_set := d\<rparr>) = local_ok r g" "local_ok r (g\<lparr>bbuckets := b\<rparr>) = local_ok r g"
  by (simp_all add: local_ok_def) (simp_all add: set_progress_def split: prod.split)

lemma keeps_other [simp]:
  "keeps g (g\<lparr>seen := xs\<rparr>)" "keeps g (g\<lparr>wm := ws\<rparr>)" "keeps g (g\<lparr>wm_max_ts := t\<rparr>)" "keeps g (set_progress s g)"
  "keeps g (g\<lparr>distinct_set := d\<rparr>)" "keeps g (g\<lparr>bbuckets := b\<rparr>)" "keeps g g"
  by (simp_all add: keeps_def set_progress_def split: prod.split)

lemma keeps_trans: "keeps g h \<Longrightarrow> keeps h k \<Longrightarrow> keeps g k"
  by (simp add: keeps_def)

lemma group_ok_wm: "group_ok r caps g \<Longrightarrow> length xs \<le> 32 \<Longrightarrow> group_ok r caps (g\<lparr>wm := xs\<rparr>)"
  by (simp add: group_ok_def)

lemma ordered_shape:
  assumes "group_ok r caps g"
  shows "\<exists>f s. eval_temporal_ordered r hits now ws et g = (f, set_progress s g) \<and> group_ok r caps (set_progress s g)"
proof (cases "rule_order r = []")
  case True
  have "set_progress (ordered_progress g, ordered_anchor_ts g, ordered_last_ts g) g = g" by (simp add: set_progress_def)
  moreover have "eval_temporal_ordered r hits now ws et g = (False, g)" using True by (simp add: eval_temporal_ordered_def)
  ultimately show ?thesis using assms by metis
next
  case False
  have ok: "group_ok r caps (set_progress (p, a, b) g)" if "unat p < length (rule_order r)" for p a b
    using assms that unfolding group_ok_def ring_ok_upd vals_ok_upd hist_ok_upd by (simp add: set_progress_def)
  have twice: "set_progress s (set_progress s' g) = set_progress s g" for s s'
    by (simp add: set_progress_def split: prod.split)
  define g1 where "g1 = (if ordered_progress g > 0 \<and> f64_lt (ordered_anchor_ts g) ws then set_progress (0, Fin 0, Fin 0) g else g)"
  obtain p a b where s: "ordered_advance et hits now (drop (unat (ordered_progress g1)) (rule_order r))
      (ordered_progress g1, ordered_anchor_ts g1, ordered_last_ts g1) = (p, a, b)" by (rule prod_cases3)
  have g1: "set_progress s g1 = set_progress s g" for s by (simp add: g1_def twice)
  have "eval_temporal_ordered r hits now ws et g =
      (if unat p \<ge> length (rule_order r) then (True, set_progress (0, Fin 0, Fin 0) g) else (False, set_progress (p, a, b) g))"
    using False by (simp add: eval_temporal_ordered_def Let_def g1_def [symmetric] s g1)
  moreover have "group_ok r caps (set_progress (0, Fin 0, Fin 0) g)" using False by (intro ok) simp
  moreover have "group_ok r caps (set_progress (p, a, b) g)" if "\<not> unat p \<ge> length (rule_order r)" using that by (intro ok) simp
  ultimately show ?thesis by metis
qed

lemma wm_evict_length: "length xs = 32 \<Longrightarrow> length (wm_evict xs) = 31"
  by (simp add: wm_evict_def Let_def)

lemma wm_place_length [simp]: "length (wm_place ts rid xs) = Suc (length xs)"
  by (simp add: wm_place_def Let_def)

lemma wm_inserts:
  assumes "group_ok r caps g"
  shows "\<exists>g' st'. fold (wm_insert now) hits (g, st) = (g', st') \<and> group_ok r caps g' \<and> keeps g g' \<and> (local_ok r g \<longrightarrow> local_ok r g')"
  using assms
proof (induction hits arbitrary: g st)
  case (Cons h hits)
  have l: "length (wm g) \<le> 32" using Cons.prems by (simp add: group_ok_def)
  obtain xs t st1 where i: "wm_insert now h (g, st) = (g\<lparr>wm := xs, wm_max_ts := t\<rparr>, st1)" "length xs \<le> 32"
  proof -
    have "length (wm_place now h (if 32 \<le> length (wm g) then wm_evict (wm g) else wm g)) \<le> 32"
      using l wm_evict_length [of "wm g"] by (cases "32 \<le> length (wm g)") simp_all
    then show ?thesis using that by (simp add: wm_insert_def Let_def)
  qed
  have "group_ok r caps (g\<lparr>wm := xs, wm_max_ts := t\<rparr>)" unfolding group_ok_upd by (rule group_ok_wm [OF Cons.prems i(2)])
  from Cons.IH [OF this, of st1] show ?case by (auto simp: i(1) keeps_def)
qed simp

lemma wm_replays:
  assumes "group_ok r caps g" "length kept + length xs \<le> 32"
  shows "\<exists>f' kept' g'. fold (wm_replay r ws cutoff) xs (f, kept, g) = (f', kept', g') \<and> group_ok r caps g' \<and> keeps g g' \<and>
    (local_ok r g \<longrightarrow> local_ok r g') \<and> length kept' \<le> 32"
  using assms
proof (induction xs arbitrary: f kept g)
  case (Cons x xs)
  obtain t rid where x: "x = (t, rid)" by (cases x)
  show ?case
  proof (cases "f64_le t cutoff")
    case True
    obtain f1 s where o: "eval_temporal_ordered r [rid] t ws True g = (f1, set_progress s g)" "group_ok r caps (set_progress s g)"
      using ordered_shape [OF Cons.prems(1)] by blast
    have "length kept + length xs \<le> 32" using Cons.prems(2) by simp
    from Cons.IH [OF o(2) this, of "f \<or> f1"] show ?thesis
      by (auto simp: x wm_replay_def True o(1) dest: keeps_trans [OF keeps_other(4)])
  next
    case False
    have "length (kept @ [(t, rid)]) + length xs \<le> 32" using Cons.prems(2) by simp
    from Cons.IH [OF Cons.prems(1) this, of f] show ?thesis by (auto simp: x wm_replay_def False)
  qed
qed auto

lemma ordered_wm_shape:
  assumes "group_ok r caps g"
  shows "\<exists>f g' st'. eval_temporal_ordered_wm r hits now ws slack g st = (f, g', st') \<and> group_ok r caps g' \<and> keeps g g' \<and>
    (local_ok r g \<longrightarrow> local_ok r g')"
proof (cases "f64_lt (Fin 0) (wm_max_ts g) \<and> f64_lt (f64_add now slack) (wm_max_ts g)")
  case True
  obtain f s where "eval_temporal_ordered r hits now ws True g = (f, set_progress s g)" "group_ok r caps (set_progress s g)"
    using ordered_shape [OF assms] by blast
  with True show ?thesis by (simp add: eval_temporal_ordered_wm_def)
next
  case False
  obtain g1 st1 where 1: "fold (wm_insert now) hits (g, st) = (g1, st1)" "group_ok r caps g1" "keeps g g1" "local_ok r g \<longrightarrow> local_ok r g1"
    using wm_inserts [OF assms] by blast
  define g2 where "g2 = (if f64_lt (wm_max_ts g1) now then g1\<lparr>wm_max_ts := now\<rparr> else g1)"
  have 2: "group_ok r caps g2" "keeps g1 g2" "local_ok r g1 \<longrightarrow> local_ok r g2" using 1(2) by (simp_all add: g2_def)
  have "length [] + length (wm g2) \<le> 32" using 2(1) by (simp add: group_ok_def)
  from wm_replays [OF 2(1) this, of ws "f64_sub (wm_max_ts g2) slack" False] obtain f kept g3 where
    3: "fold (wm_replay r ws (f64_sub (wm_max_ts g2) slack)) (wm g2) (False, [], g2) = (f, kept, g3)" "group_ok r caps g3" "keeps g2 g3"
    "local_ok r g2 \<longrightarrow> local_ok r g3" "length kept \<le> 32" by blast
  have "eval_temporal_ordered_wm r hits now ws slack g st = (f, g3\<lparr>wm := kept\<rparr>, st1)"
    unfolding eval_temporal_ordered_wm_def if_not_P [OF False] by (simp add: 1(1) g2_def [symmetric] 3(1) Let_def)
  moreover have "keeps g (g3\<lparr>wm := kept\<rparr>)" using 1(3) 2(2) 3(3) by (simp add: keeps_def)
  ultimately show ?thesis using group_ok_wm [OF 3(2,5)] 1(4) 2(3) 3(4) by simp
qed

section \<open>Every evaluation returns\<close>

text \<open>The field of a numeric rule holds no number, or a moderate one.\<close>

definition value_ok :: "corr_rule \<Rightarrow> (bytes \<Rightarrow> bytes option) \<Rightarrow> bool" where
  "value_ok r field_fn \<longleftrightarrow> (numeric r \<longrightarrow>
     (\<forall>v. Option.bind (Option.bind (r_value_field r) field_fn) sg_to_f64 = Some v \<longrightarrow> moderate v))"

lemma next_samples_moderate:
  assumes "\<forall>v \<in> snd ` set xs. moderate v" "\<And>v. Option.bind vv sg_to_f64 = Some v \<Longrightarrow> moderate v"
  shows "\<forall>v \<in> snd ` set (next_samples vv cap now ws xs). moderate v"
proof -
  have "set (next_samples vv cap now ws xs) \<subseteq> set xs \<union> {(now, v) |v. Option.bind vv sg_to_f64 = Some v}"
    using set_tl_subset [of xs]
    by (auto simp: next_samples_def push_newest_def dest!: set_dropWhileD split: option.splits if_splits)
  then show ?thesis using assms by fastforce
qed

text \<open>An evaluation returned, in the invariant, with an observed count when it fired.\<close>

definition group_result :: "corr_rule \<Rightarrow> corr_caps \<Rightarrow> bool \<Rightarrow> group \<Rightarrow> (bool \<times> f64 \<times> group \<times> corr_stats) option \<Rightarrow> bool" where
  "group_result r caps plain g res \<longleftrightarrow> (\<exists>f agg g' stats'. res = Some (f, agg, g', stats') \<and> group_ok r caps g' \<and> keeps g g' \<and>
     (local_ok r g \<and> plain \<longrightarrow> local_ok r g' \<and> (numeric r \<longrightarrow> f \<longrightarrow> f64_trunc (- (2 ^ 63)) (2 ^ 63 - 1) agg \<noteq> None)))"

lemma group_resultI:
  assumes "res = Some (f, agg, g', stats')" "group_ok r caps g'" "keeps g g'"
    "local_ok r g \<Longrightarrow> plain \<Longrightarrow> local_ok r g'" "local_ok r g \<Longrightarrow> plain \<Longrightarrow> numeric r \<Longrightarrow> f \<Longrightarrow> f64_trunc (- (2 ^ 63)) (2 ^ 63 - 1) agg \<noteq> None"
  shows "group_result r caps plain g res"
  using assms unfolding group_result_def by blast

lemma local_ok_plain: "\<not> numeric r \<Longrightarrow> keeps g g' \<Longrightarrow> local_ok r g \<Longrightarrow> local_ok r g'"
  by (simp add: local_ok_def keeps_def)

lemma value_count_result:
  assumes "group_ok r caps g" "caps_ok caps"
  shows "\<exists>f g' st'. eval_value_count r vv (max_distinct caps) now ws g st = Some (f, g', st') \<and> group_ok r caps g' \<and> keeps g g' \<and>
    (local_ok r g \<longrightarrow> local_ok r g')"
proof (cases vv)
  case None
  have "eval_value_count r vv (max_distinct caps) now ws g st = Some (False, g, st)" using None by (simp add: eval_value_count_def)
  then show ?thesis using assms(1) keeps_other(7) by blast
next
  case (Some v)
  obtain vs where vs: "dset_rep (distinct_set g) vs" "length vs \<le> unat (max_distinct caps)" using assms(1) by (auto simp: group_ok_def)
  have c: "0 < unat (max_distinct caps)" "unat (max_distinct caps) \<le> 2 ^ 28" using assms(2) by (simp_all add: caps_ok_def)
  obtain k d st' where d: "dset_observe (distinct_set g) v now ws (max_distinct caps) st = Some (k, d, st')"
    "dset_rep d (observe v now ws (unat (max_distinct caps)) vs)"
    using dset_observe_ok [OF vs(1) c vs(2), of v now ws st] by blast
  have "group_ok r caps (g\<lparr>distinct_set := d\<rparr>)"
    using assms(1) d(2) observe_length [OF vs(2) c(1), of v now ws] by (auto simp: group_ok_def)
  then show ?thesis using Some d(1) by (simp add: eval_value_count_def)
qed

lemma sum_avg_result:
  assumes "group_ok r caps g" "numeric r" "\<And>v. plain \<Longrightarrow> Option.bind vv sg_to_f64 = Some v \<Longrightarrow> moderate v"
  shows "group_result r caps plain g (eval_value_sum_avg r vv is_avg now ws g st)"
proof -
  have ok: "vals_ok g" using assms(1,2) by (simp add: group_ok_def)
  define xs where "xs = next_samples vv (unat (ev_cap g)) now ws (samples g)"
  define a where "a = agg_of is_avg (map snd xs) (merge_sum g) (merge_n g)"
  obtain g' st' where e: "eval_value_sum_avg r vv is_avg now ws g st =
      Some (case a of None \<Rightarrow> False | Some a \<Rightarrow> cond_satisfied_f (r_op r) a (f64_of_int (r_count r)),
        case a of None \<Rightarrow> Fin 0 | Some a \<Rightarrow> a, g', st')"
    "vals_ok g'" "samples g' = xs" "ring_only g g'"
    unfolding a_def xs_def by (rule eval_value_sum_avg_ok [OF ok])
  have rk: "ring_ok g'" using e(2) by (simp add: vals_ok_def)
  have len: "length xs \<le> 2 ^ 28"
    using length_ring_vals [OF e(2)] ring_okD(3,5) [OF rk] by (simp flip: e(3) add: samples_def)
  show ?thesis
  proof (rule group_resultI [OF e(1)])
    show "group_ok r caps g'" by (rule group_ok_ring [OF assms(1) e(4) rk]) (simp add: e(2))
    show k: "keeps g g'" by (rule keeps_ring [OF e(4)])
    assume lo: "local_ok r g" plain
    then have m: "\<forall>v \<in> snd ` set xs. moderate v"
      unfolding xs_def using assms(2,3) by (intro next_samples_moderate) (auto simp: local_ok_def)
    with lo k show "local_ok r g'" by (simp add: local_ok_def keeps_def e(3))
    assume "case a of None \<Rightarrow> False | Some a \<Rightarrow> cond_satisfied_f (r_op r) a (f64_of_int (r_count r))"
    then obtain b where b: "a = Some b" by (cases a) auto
    have "agg_of is_avg (map snd xs) (Fin 0) 0 = Some b" using b lo(1) by (simp add: a_def local_ok_def)
    from moderate_agg [OF _ _ this] show "f64_trunc (- (2 ^ 63)) (2 ^ 63 - 1) (case a of None \<Rightarrow> Fin 0 | Some a \<Rightarrow> a) \<noteq> None"
      using m len by (simp add: b)
  qed
qed

lemma moderate_trunc: "moderate a \<Longrightarrow> f64_trunc (- (2 ^ 63)) (2 ^ 63 - 1) a \<noteq> None"
proof -
  assume "moderate a"
  then obtain b where b: "a = Fin b" "\<bar>b\<bar> \<le> 2 ^ 31" by (auto simp: moderate_def)
  then have "\<bar>b\<bar> \<le> 2 ^ 59" by simp
  from int64_fits [OF this] show ?thesis by (simp only: b(1) simp_thms)
qed

lemma percentile_result:
  assumes "group_ok r caps g" "numeric r" "max_events_per_group caps \<le> pct"
    "\<And>v. plain \<Longrightarrow> Option.bind vv sg_to_f64 = Some v \<Longrightarrow> moderate v"
  shows "group_result r caps plain g (eval_value_percentile r vv now ws g st pct)"
proof -
  have ok: "vals_ok g" and cap: "ev_cap g \<le> pct" using assms(1-3) by (simp_all add: group_ok_def)
  define xs where "xs = next_samples vv (unat (ev_cap g)) now ws (samples g)"
  define a where "a = sort (map snd xs) ! (nearest_rank (nat (rule_percent r)) (length xs) - 1)"
  obtain g' st' where e: "eval_value_percentile r vv now ws g st pct =
      Some (xs \<noteq> [] \<and> cond_satisfied_f (r_op r) a (f64_of_int (r_count r)), if xs = [] then Fin 0 else a, g', st')"
    "vals_ok g'" "samples g' = xs" "ring_only g g'"
    unfolding a_def xs_def by (rule eval_value_percentile_ok [OF ok cap])
  have rk: "ring_ok g'" using e(2) by (simp add: vals_ok_def)
  show ?thesis
  proof (rule group_resultI [OF e(1)])
    show "group_ok r caps g'" by (rule group_ok_ring [OF assms(1) e(4) rk]) (simp add: e(2))
    show k: "keeps g g'" by (rule keeps_ring [OF e(4)])
    assume lo: "local_ok r g" plain
    then have m: "\<forall>v \<in> snd ` set xs. moderate v"
      unfolding xs_def using assms(2,4) by (intro next_samples_moderate) (auto simp: local_ok_def)
    with lo k show "local_ok r g'" by (simp add: local_ok_def keeps_def e(3))
    assume "xs \<noteq> [] \<and> cond_satisfied_f (r_op r) a (f64_of_int (r_count r))"
    then have ne: "xs \<noteq> []" by simp
    have "1 \<le> nat (rule_percent r)" "nat (rule_percent r) \<le> 100" using rule_percent_range [of r] by simp_all
    then have "nearest_rank (nat (rule_percent r)) (length xs) \<le> length xs"
      using ne by (intro nearest_rank_bounds(2)) simp_all
    then have "nearest_rank (nat (rule_percent r)) (length xs) - 1 < length (sort (map snd xs))"
      using ne by (cases xs) simp_all
    then have "a \<in> set (sort (map snd xs))" unfolding a_def by (rule nth_mem)
    then have "moderate a" using m by auto
    with ne show "f64_trunc (- (2 ^ 63)) (2 ^ 63 - 1) (if xs = [] then Fin 0 else a) \<noteq> None"
      using moderate_trunc by simp
  qed
qed

text \<open>What the admission of rules guarantees, with an \<open>int32_t\<close> window.\<close>

lemma rule_validD:
  assumes "rule_valid r"
  shows "r_base r \<noteq> []" "0 < r_timespan r" "length (r_group_by r) \<le> 8"
    "r_alias r \<noteq> [] \<Longrightarrow> length (r_alias r) = length (r_base r)"
    "r_type r = CORR_BEACONING \<Longrightarrow> 0 < r_cv_permille r \<and> 3 \<le> r_count r \<and> 0 \<le> r_n_buckets r \<and>
       (0 < r_n_buckets r \<longrightarrow> r_n_buckets r \<le> 1024 \<and> r_n_buckets r \<le> r_timespan r)"
  using assms by (auto simp: rule_valid_def split: if_splits)

lemma beaconing_result:
  assumes "group_ok r caps g" "rule_valid r" "r_type r = CORR_BEACONING" "r_timespan r \<le> 2 ^ 31" "clock_ok now"
  shows "\<exists>f g' st'. eval_beaconing r now ws g st = Some (f, g', st') \<and> group_ok r caps g' \<and> keeps g g'"
proof (cases "r_n_buckets r > 0")
  case True
  have h: "hist_ok r g" using assms(1) by (simp add: group_ok_def)
  have v: "1 \<le> r_n_buckets r" "r_n_buckets r \<le> 1024" "r_n_buckets r \<le> r_timespan r" using rule_validD(5) [OF assms(2,3)] True by simp_all
  obtain f b where b: "eval_beaconing_bucketed r now g = Some (f, g\<lparr>bbuckets := Some b\<rparr>)" "int (length b) = r_n_buckets r"
    using eval_beaconing_bucketed_total [OF v assms(4) h assms(5)] by blast
  have "group_ok r caps (g\<lparr>bbuckets := Some b\<rparr>)" using assms(1) b(2) by (simp add: group_ok_def hist_ok_def)
  then show ?thesis using True b(1) by (simp add: eval_beaconing_def)
next
  case False
  have ok: "ring_ok g" and nn: "\<not> numeric r" using assms(1,3) by (simp_all add: group_ok_def numeric_def)
  obtain g' st' where e: "eval_beaconing_raw r now ws g st = Some (raw_beacon r (window_push (unat (ev_cap g)) ws now (ring_times g)), g', st')"
    "ring_ok g'" "ring_only g g'" by (rule eval_beaconing_raw_ok [OF ok])
  have "group_ok r caps g'" using nn by (intro group_ok_ring [OF assms(1) e(3,2)]) simp
  then show ?thesis using False e(1) keeps_ring [OF e(3)] by (simp add: eval_beaconing_def)
qed

lemma eval_group_result:
  assumes "group_ok r caps g" "rule_valid r" "r_timespan r \<le> 2 ^ 31" "caps_ok caps" "max_events_per_group caps \<le> pct" "clock_ok ts"
  shows "group_result r caps (value_ok r field_fn) g (eval_group r caps pct field_fn hits ts ws g st)"
proof -
  have val: "moderate v" if "value_ok r field_fn" "Option.bind (Option.bind (r_value_field r) field_fn) sg_to_f64 = Some v" "numeric r" for v
    using that by (simp add: value_ok_def)
  have res: "group_result r caps (value_ok r field_fn) g (Some (f, agg, g', st'))"
    if "group_ok r caps g'" "keeps g g'" "\<not> numeric r" for f agg g' st'
    by (rule group_resultI [OF refl that(1,2)]) (use that local_ok_plain in auto)
  show ?thesis
  proof (cases "r_type r")
    case CORR_EVENT_COUNT
    have ok: "ring_ok g" and nn: "\<not> numeric r" using assms(1) CORR_EVENT_COUNT by (simp_all add: group_ok_def numeric_def)
    obtain f g' st' where e: "eval_event_count r ts ws g st = Some (f, g', st')" "ring_ok g'" "ring_only g g'"
      by (rule eval_event_count_ok [OF ok, where now = ts and ws = ws and r = r and stats = st]) blast
    have "group_ok r caps g'" using nn by (intro group_ok_ring [OF assms(1) e(3,2)]) simp
    then show ?thesis using CORR_EVENT_COUNT res [OF _ keeps_ring [OF e(3)] nn] by (simp add: eval_group_def e(1))
  next
    case CORR_VALUE_COUNT
    have nn: "\<not> numeric r" using CORR_VALUE_COUNT by (simp add: numeric_def)
    obtain f g' st' where e: "eval_value_count r (Option.bind (r_value_field r) field_fn) (max_distinct caps) ts ws g st = Some (f, g', st')"
      "group_ok r caps g'" "keeps g g'" using value_count_result [OF assms(1,4)] by blast
    show ?thesis using CORR_VALUE_COUNT res [OF e(2,3) nn] by (simp add: eval_group_def e(1))
  next
    case CORR_TEMPORAL
    have l: "length (seen g) \<le> 64" and nn: "\<not> numeric r" using assms(1) CORR_TEMPORAL by (simp_all add: group_ok_def numeric_def)
    obtain xs st' where e: "temporal_record_seen hits ts ws g st = (g\<lparr>seen := xs\<rparr>, st')" "length xs \<le> 64"
      by (rule record_seen_shape [OF l])
    show ?thesis
      using CORR_TEMPORAL res [OF group_ok_seen [OF assms(1) e(2)] _ nn] by (simp add: eval_group_def eval_temporal_def e(1) Let_def)
  next
    case CORR_TEMPORAL_ORDERED
    have l: "length (seen g) \<le> 64" and nn: "\<not> numeric r" using assms(1) CORR_TEMPORAL_ORDERED by (simp_all add: group_ok_def numeric_def)
    obtain g1 st1 where 1: "(if r_cond r \<noteq> [] then temporal_record_seen hits ts ws g st else (g, st)) = (g1, st1)" "group_ok r caps g1" "keeps g g1"
    proof -
      obtain xs st' where "temporal_record_seen hits ts ws g st = (g\<lparr>seen := xs\<rparr>, st')" "length xs \<le> 64" by (rule record_seen_shape [OF l])
      then show ?thesis using that assms(1) group_ok_seen by (cases "r_cond r = []") simp_all
    qed
    obtain f g2 st2 where 2: "(if f64_lt (Fin 0) (watermark_s caps) \<and> event_time_ordering caps
        then eval_temporal_ordered_wm r hits ts ws (watermark_s caps) g1 st1
        else (let (f, g) = eval_temporal_ordered r hits ts ws (event_time_ordering caps) g1 in (f, g, st1))) = (f, g2, st2)"
      "group_ok r caps g2" "keeps g1 g2"
    proof (cases "f64_lt (Fin 0) (watermark_s caps) \<and> event_time_ordering caps")
      case True
      then show ?thesis using that ordered_wm_shape [OF 1(2), of hits ts ws "watermark_s caps" st1] by auto
    next
      case False
      obtain f s where "eval_temporal_ordered r hits ts ws (event_time_ordering caps) g1 = (f, set_progress s g1)" "group_ok r caps (set_progress s g1)"
        using ordered_shape [OF 1(2)] by blast
      then show ?thesis using that False by auto
    qed
    show ?thesis
      using CORR_TEMPORAL_ORDERED res [OF 2(2) keeps_trans [OF 1(3) 2(3)] nn] by (simp add: eval_group_def 1(1) 2(1) Let_def)
  next
    case CORR_BEACONING
    have nn: "\<not> numeric r" using CORR_BEACONING by (simp add: numeric_def)
    obtain f g' st' where e: "eval_beaconing r ts ws g st = Some (f, g', st')" "group_ok r caps g'" "keeps g g'"
      using beaconing_result [OF assms(1,2) CORR_BEACONING assms(3,6)] by blast
    show ?thesis using CORR_BEACONING res [OF e(2,3) nn] by (simp add: eval_group_def e(1))
  next
    case CORR_TYPE_MAX
    have "\<not> numeric r" using CORR_TYPE_MAX by (simp add: numeric_def)
    moreover have "keeps g g" by (simp add: keeps_def)
    ultimately show ?thesis using CORR_TYPE_MAX res [OF assms(1)] by (simp add: eval_group_def)
  next
    case CORR_VALUE_SUM
    then have nn: "numeric r" by (simp add: numeric_def)
    show ?thesis unfolding eval_group_def CORR_VALUE_SUM corr_type.case Let_def
      by (rule sum_avg_result [OF assms(1) nn]) (rule val [OF _ _ nn])
  next
    case CORR_VALUE_AVG
    then have nn: "numeric r" by (simp add: numeric_def)
    show ?thesis unfolding eval_group_def CORR_VALUE_AVG corr_type.case Let_def
      by (rule sum_avg_result [OF assms(1) nn]) (rule val [OF _ _ nn])
  next
    case CORR_VALUE_PERCENTILE
    then have nn: "numeric r" by (simp add: numeric_def)
    show ?thesis unfolding eval_group_def CORR_VALUE_PERCENTILE corr_type.case Let_def
      by (rule percentile_result [OF assms(1) nn assms(5)]) (rule val [OF _ _ nn])
  next
    case CORR_VALUE_MEDIAN
    then have nn: "numeric r" by (simp add: numeric_def)
    show ?thesis unfolding eval_group_def CORR_VALUE_MEDIAN corr_type.case Let_def
      by (rule percentile_result [OF assms(1) nn assms(5)]) (rule val [OF _ _ nn])
  qed
qed

section \<open>Property\<close>

text \<open>
  C35. Every evaluation keeps a group well formed, whatever the type of the rule, the event and
  the values: the ring indices stay inside the ring, the arrays keep their lengths, the distinct
  set stays a well-formed table below its cap, the seen table and the reorder buffer stay inside
  their 64 and 32 entries, the activity histogram keeps its length, and the progress of an
  ordered rule stays below its length. The evaluation itself reads and writes in range.
\<close>

theorem eval_group_well_formed:
  assumes "group_ok r caps g" "rule_valid r" "r_timespan r \<le> 2 ^ 31" "caps_ok caps" "max_events_per_group caps \<le> pct" "clock_ok ts"
  shows "\<exists>f agg g' stats'. eval_group r caps pct field_fn hits ts ws g stats = Some (f, agg, g', stats') \<and> group_ok r caps g'"
  using eval_group_result [OF assms, of field_fn hits ws stats] unfolding group_result_def by blast

theorem eval_group_well_formed_witness:
  "\<exists>f agg g' stats'. eval_group sample_rule sample_caps 4 (\<lambda>_. None) [7] (Fin 5) (Fin 2) (group_new 4) zero_stats = Some (f, agg, g', stats') \<and>
     group_ok sample_rule sample_caps g'"
proof -
  have c: "caps_ok sample_caps" by (simp add: caps_ok_def)
  have v: "rule_valid sample_rule" by (simp add: sample_rule_def rule_valid_def is_empty_str_def lit_def)
  have "group_ok sample_rule sample_caps (group_new 4)" using group_new_ok(1) [OF c, of sample_rule] by simp
  from eval_group_well_formed [OF this v _ c] show ?thesis by (simp add: clock_ok_def)
qed

end
