(* ===== verification/Index_Spec.thy ===== *)
theory Index_Spec
  imports Corr_Engine
begin

text \<open>
  The index from base rules to correlations: after the engine is built, looking up a rule
  returns exactly the correlations that watch it, in their order, and the table size is the
  least power of two that suffices.
\<close>

section \<open>Powers of two\<close>

definition smear :: "u32 \<Rightarrow> u32" where
  "smear v =
     (let v = v OR drop_bit 1 v; v = v OR drop_bit 2 v; v = v OR drop_bit 4 v; v = v OR drop_bit 8 v in v OR drop_bit 16 v)"

text \<open>Each step doubles the span of bits that a bit is smeared over.\<close>

lemma or_shift:
  fixes v w :: u32
  assumes "\<And>i. bit w i \<longleftrightarrow> (\<exists>j < n. bit v (i + j))"
  shows "bit (w OR drop_bit n w) i \<longleftrightarrow> (\<exists>j < n + n. bit v (i + j))"
proof -
  have "(\<exists>j < n + n. P j) \<longleftrightarrow> (\<exists>j < n. P j) \<or> (\<exists>j < n. P (n + j))" for P :: "nat \<Rightarrow> bool"
  proof
    assume "\<exists>j < n + n. P j"
    then obtain j where j: "j < n + n" "P j" by blast
    show "(\<exists>j < n. P j) \<or> (\<exists>j < n. P (n + j))"
    proof (cases "j < n")
      case False
      then have "j - n < n" "P (n + (j - n))" using j by simp_all
      then show ?thesis by blast
    qed (use j in blast)
  next
    assume "(\<exists>j < n. P j) \<or> (\<exists>j < n. P (n + j))"
    then show "\<exists>j < n + n. P j"
    proof
      assume "\<exists>j < n. P j"
      then show ?thesis by (meson trans_less_add1)
    next
      assume "\<exists>j < n. P (n + j)"
      then show ?thesis by (meson add_less_cancel_left)
    qed
  qed
  then show ?thesis by (simp add: bit_or_iff bit_drop_bit_eq assms ac_simps)
qed

lemma smear_bit: "bit (smear v) i \<longleftrightarrow> (\<exists>j < 32. bit v (i + j))"
proof -
  have 1: "bit (v OR drop_bit 1 v) i \<longleftrightarrow> (\<exists>j < 1 + 1. bit v (i + j))" for i by (rule or_shift) simp
  note 2 = or_shift [OF 1 [unfolded one_add_one]]
  note 4 = or_shift [OF 2 [simplified]]
  note 8 = or_shift [OF 4 [simplified]]
  note 16 = or_shift [OF 8 [simplified]]
  show ?thesis using 16 by (simp add: smear_def Let_def)
qed

lemma word_top_bit:
  fixes v :: u32
  assumes "v \<noteq> 0"
  obtains k where "bit v k" "\<And>j. bit v j \<Longrightarrow> j \<le> k" "k < 32" "2 ^ k \<le> unat v" "unat v < 2 ^ Suc k"
proof -
  let ?B = "{k. bit v k}"
  have fin: "finite ?B" by (rule finite_subset [of _ "{..<32}"]) (auto dest: bit_imp_le_length)
  have ne: "?B \<noteq> {}" using assms by (metis bit_eqI bit_0_eq bot_apply bot_bool_def empty_Collect_eq)
  define k where "k = Max ?B"
  have k: "bit v k" using Max_in [OF fin ne] by (simp add: k_def)
  have top: "j \<le> k" if "bit v j" for j using Max_ge [OF fin] that by (simp add: k_def)
  have "bit (unat v) k" using k bit_imp_le_length [OF k] by (simp add: bit_unsigned_iff)
  then have "unat v div 2 ^ k \<noteq> 0" by (metis bit_iff_odd dvd_0_right)
  then have "2 ^ k \<le> unat v" by (metis div_less not_le)
  moreover have "take_bit (Suc k) v = v" using top by (intro bit_word_eqI) (auto simp: bit_take_bit_iff less_Suc_eq_le)
  then have "unat v < 2 ^ Suc k" by (metis take_bit_nat_less_exp unsigned_take_bit_eq)
  ultimately show ?thesis using that k top bit_imp_le_length [OF k] by simp
qed

lemma next_pow2_smear: "next_pow2 v = (if v < 8 then 8 else smear (v - 1) + 1)"
  by (simp add: next_pow2_def smear_def Let_def)

lemma next_pow2_least:
  assumes "8 \<le> unat v" "unat v \<le> 2 ^ 31"
  obtains k where "unat (next_pow2 v) = 2 ^ k" "unat v \<le> 2 ^ k" "2 ^ k < 2 * unat v" "k < 32"
proof -
  have v1: "unat (v - 1) = unat v - 1" using assms(1) by (cases "v = 0") (auto simp: unat_minus_one)
  then have nz: "v - 1 \<noteq> 0" using assms(1) by auto
  obtain k where k: "bit (v - 1) k" "\<And>j. bit (v - 1) j \<Longrightarrow> j \<le> k" "k < 32" "2 ^ k \<le> unat (v - 1)" "unat (v - 1) < 2 ^ Suc k"
    by (rule word_top_bit [OF nz]) blast
  have k31: "Suc k < 32"
  proof (rule ccontr)
    assume "\<not> Suc k < 32"
    then have "(2 :: nat) ^ 31 \<le> 2 ^ k" by (intro power_increasing) simp_all
    then show False using k(4) v1 assms by simp
  qed
  have "smear (v - 1) = mask (Suc k)"
  proof (rule bit_word_eqI)
    fix i :: nat assume "i < LENGTH(32)"
    then have i: "i < 32" by simp
    have "(\<exists>j < 32. bit (v - 1) (i + j)) \<longleftrightarrow> i \<le> k"
    proof
      assume "\<exists>j < 32. bit (v - 1) (i + j)"
      then show "i \<le> k" using k(2) by fastforce
    next
      assume "i \<le> k"
      then have "k - i < 32" "bit (v - 1) (i + (k - i))" using k(1,3) by simp_all
      then show "\<exists>j < 32. bit (v - 1) (i + j)" by blast
    qed
    then show "bit (smear (v - 1)) i \<longleftrightarrow> bit (mask (Suc k) :: u32) i" using i by (simp add: smear_bit bit_mask_iff less_Suc_eq_le)
  qed
  then have "next_pow2 v = mask (Suc k) + 1" using assms(1) by (auto simp: next_pow2_smear word_less_nat_alt)
  also have "\<dots> = 2 ^ Suc k" by (simp add: mask_eq_exp_minus_1)
  finally have np: "next_pow2 v = 2 ^ Suc k" .
  have "unat (next_pow2 v) = 2 ^ Suc k"
  proof -
    have "(2 :: nat) ^ Suc k < 2 ^ 32" using k31 by (intro power_strict_increasing) simp_all
    moreover have "next_pow2 v = of_nat (2 ^ Suc k)" unfolding np by simp
    ultimately show ?thesis by (simp only: unat_of_nat) simp
  qed
  moreover have "unat v \<le> 2 ^ Suc k" "2 ^ Suc k < 2 * unat v" using k(4,5) v1 assms(1) by simp_all
  ultimately show ?thesis using that k31 by blast
qed

section \<open>The contents of the index\<close>

text \<open>The correlations that watch a rule.\<close>

definition watchers :: "corr_state list \<Rightarrow> u32 \<Rightarrow> nat list" where
  "watchers sts rid = filter (\<lambda>i. rid \<in> set (r_base (st_rule (sts ! i)))) [0..<length sts]"

definition entry :: "nat list \<Rightarrow> u32 list option" where
  "entry ws = (if ws = [] then None else Some (map of_nat ws))"

definition index_exact :: "corr_engine \<Rightarrow> bool" where
  "index_exact e \<longleftrightarrow> (\<forall>rid. rid_index_find e rid = Some (entry (watchers (e_states e) rid)))"

definition table_ok :: "corr_engine \<Rightarrow> bool" where
  "table_ok e \<longleftrightarrow> length (e_rid_buckets e) = unat (e_n_rid_buckets e) \<and> e_n_rid_buckets e \<noteq> 0"

lemma rid_bucket_lt: "n \<noteq> 0 \<Longrightarrow> rid_bucket n rid < unat n"
proof -
  assume n: "n \<noteq> 0"
  have "rid AND (n - 1) \<le> n - 1" by (rule word_and_le1)
  then have "unat (rid AND (n - 1)) \<le> unat (n - 1)" by (simp add: word_le_nat_alt)
  also have "\<dots> < unat n" using n unat_gt_0 [of n] by (simp add: unat_minus_one)
  finally show ?thesis by (simp add: rid_bucket_def)
qed

lemma watch_chain_map:
  "(case watch_chain rid ci ws of Some vs \<Rightarrow> vs | None \<Rightarrow> (rid, watch ci []) # ws) = vs \<Longrightarrow>
    map_of vs = (map_of ws)(rid \<mapsto> watch ci (case map_of ws rid of Some cs \<Rightarrow> cs | None \<Rightarrow> []))"
proof -
  have "case watch_chain rid ci ws of
      Some us \<Rightarrow> map_of us = (map_of ws)(rid \<mapsto> watch ci (case map_of ws rid of Some cs \<Rightarrow> cs | None \<Rightarrow> []))
    | None \<Rightarrow> map_of ws rid = None"
  proof (induction ws)
    case (Cons w ws)
    obtain q cs where w: "w = (q, cs)" by (cases w)
    show ?case using Cons by (cases "q = rid"; cases "watch_chain rid ci ws") (auto simp: w fun_upd_twist)
  qed simp
  then show "(case watch_chain rid ci ws of Some vs \<Rightarrow> vs | None \<Rightarrow> (rid, watch ci []) # ws) = vs \<Longrightarrow> ?thesis"
    by (auto split: option.splits)
qed

text \<open>Adding a watch to a rule only changes what that rule finds.\<close>

lemma rid_index_add_find:
  assumes "table_ok e"
  obtains e' where "rid_index_add rid ci e = Some e'" "table_ok e'" "e' = e\<lparr>e_rid_buckets := e_rid_buckets e'\<rparr>"
    "\<And>q. rid_index_find e' q = (if q = rid then Some (Some (watch ci (case rid_index_find e rid of Some (Some cs) \<Rightarrow> cs | _ \<Rightarrow> [])))
       else rid_index_find e q)"
proof -
  let ?n = "e_n_rid_buckets e"
  have len: "length (e_rid_buckets e) = unat ?n" and lt: "\<And>q. rid_bucket ?n q < length (e_rid_buckets e)"
    using assms rid_bucket_lt by (simp_all add: table_ok_def)
  define b where "b = rid_bucket ?n rid"
  define vs where "vs = (case watch_chain rid ci (e_rid_buckets e ! b) of Some vs \<Rightarrow> vs | None \<Rightarrow> (rid, watch ci []) # e_rid_buckets e ! b)"
  define e' where "e' = e\<lparr>e_rid_buckets := (e_rid_buckets e)[b := vs]\<rparr>"
  have m: "map_of vs = (map_of (e_rid_buckets e ! b))(rid \<mapsto> watch ci (case map_of (e_rid_buckets e ! b) rid of Some cs \<Rightarrow> cs | None \<Rightarrow> []))"
    by (rule watch_chain_map) (simp add: vs_def)
  have fe: "rid_index_find e q = Some (map_of (e_rid_buckets e ! rid_bucket ?n q) q)" for q
    using lt [of q] by (simp add: rid_index_find_def)
  have fe': "rid_index_find e' q = Some (map_of ((e_rid_buckets e)[b := vs] ! rid_bucket ?n q) q)" for q
    using lt [of q] by (simp add: rid_index_find_def e'_def)
  have "rid_index_add rid ci e = Some e'"
    using lt [of rid] by (simp add: rid_index_add_def b_def [symmetric] vs_def e'_def Let_def)
  moreover have "table_ok e'" using assms by (simp add: table_ok_def e'_def)
  moreover have "rid_index_find e' q = (if q = rid then Some (Some (watch ci (case rid_index_find e rid of Some (Some cs) \<Rightarrow> cs | _ \<Rightarrow> [])))
       else rid_index_find e q)" for q
  proof (cases "rid_bucket ?n q = b")
    case True
    then show ?thesis using lt [of q] m
      by (auto simp: fe fe' b_def split: option.split)
  next
    case False
    then show ?thesis using lt [of q] by (auto simp: fe fe' b_def)
  qed
  ultimately show ?thesis using that by (simp add: e'_def)
qed

text \<open>The index while correlation \<open>i\<close> is being entered, the rules \<open>bs\<close> of it done.\<close>

definition entered :: "corr_state list \<Rightarrow> nat \<Rightarrow> u32 list \<Rightarrow> u32 \<Rightarrow> nat list" where
  "entered sts i bs rid = filter (\<lambda>j. rid \<in> set (r_base (st_rule (sts ! j)))) [0..<i] @ (if rid \<in> set bs then [i] else [])"

lemma watch_entered:
  assumes "i < 2 ^ 32"
  shows "watch (of_nat i) (case entry (entered sts i bs rid) of Some cs \<Rightarrow> cs | None \<Rightarrow> []) = map of_nat (entered sts i (bs @ [rid]) rid)"
proof -
  have "(of_nat i :: u32) \<noteq> of_nat j" if "j < i" for j
  proof
    assume "(of_nat i :: u32) = of_nat j"
    then have "unat (of_nat i :: u32) = unat (of_nat j :: u32)" by simp
    then show False using that assms by (simp add: unat_of_nat)
  qed
  then have "(of_nat i :: u32) \<notin> of_nat ` set (filter (\<lambda>j. rid \<in> set (r_base (st_rule (sts ! j)))) [0..<i])" by auto
  then show ?thesis by (auto simp: entered_def entry_def watch_def)
qed

lemma enter_rule:
  assumes "table_ok e" "i < 2 ^ 32" "\<And>q. rid_index_find e q = Some (entry (entered sts i [] q))"
  shows "\<exists>e'. mfold (\<lambda>rid. rid_index_add rid (of_nat i)) bs e = Some e' \<and> table_ok e' \<and> e' = e\<lparr>e_rid_buckets := e_rid_buckets e'\<rparr> \<and>
    (\<forall>q. rid_index_find e' q = Some (entry (entered sts i bs q)))"
proof (induction bs rule: rev_induct)
  case Nil
  show ?case using assms by simp
next
  case (snoc b bs)
  then obtain e1 where 1: "mfold (\<lambda>rid. rid_index_add rid (of_nat i)) bs e = Some e1" "table_ok e1" "e1 = e\<lparr>e_rid_buckets := e_rid_buckets e1\<rparr>"
    "\<And>q. rid_index_find e1 q = Some (entry (entered sts i bs q))" by blast
  obtain e2 where 2: "rid_index_add b (of_nat i) e1 = Some e2" "table_ok e2" "e2 = e1\<lparr>e_rid_buckets := e_rid_buckets e2\<rparr>"
    "\<And>q. rid_index_find e2 q = (if q = b then Some (Some (watch (of_nat i) (case rid_index_find e1 b of Some (Some cs) \<Rightarrow> cs | _ \<Rightarrow> [])))
       else rid_index_find e1 q)" by (rule rid_index_add_find [OF 1(2), where rid = b and ci = "of_nat i"]) blast
  have "rid_index_find e2 q = Some (entry (entered sts i (bs @ [b]) q))" for q
  proof (cases "q = b")
    case True
    have "entry (entered sts i (bs @ [b]) b) = Some (map of_nat (entered sts i (bs @ [b]) b))" by (simp add: entry_def entered_def)
    then show ?thesis using True watch_entered [OF assms(2), of sts bs b] by (simp add: 2(4) 1(4))
  next
    case False
    then show ?thesis by (simp add: 2(4) 1(4) entered_def)
  qed
  moreover have "e2 = e\<lparr>e_rid_buckets := e_rid_buckets e2\<rparr>"
  proof -
    obtain x y where "e1 = e\<lparr>e_rid_buckets := x\<rparr>" "e2 = e1\<lparr>e_rid_buckets := y\<rparr>" using 1(3) 2(3) by blast
    then show ?thesis by simp
  qed
  ultimately show ?case using 1(1) 2(1,2) by (simp add: mfold_append)
qed

section \<open>Building the engine\<close>

text \<open>The admitted rules.\<close>

definition admitted :: "corr_rule \<Rightarrow> bool" where
  "admitted r \<longleftrightarrow> rule_valid r \<and> \<not> (r_cond r \<noteq> [] \<and> length (r_base r) > 64)"

lemma admit_rules:
  "\<exists>st'. fold admit_rule rules (sts, st) = (sts @ map (\<lambda>r. \<lparr>st_rule = r, st_map = lm_new 16\<rparr>) (filter admitted rules), st') \<and>
    rules_rejected st' = rules_rejected st + of_nat (length (filter (\<lambda>r. \<not> admitted r) rules))"
proof (induction rules arbitrary: sts st)
  case (Cons r rules)
  obtain sts1 st1 where 1: "admit_rule r (sts, st) = (sts1, st1)" by (cases "admit_rule r (sts, st)")
  have "sts1 = sts @ (if admitted r then [\<lparr>st_rule = r, st_map = lm_new 16\<rparr>] else [])"
    "rules_rejected st1 = rules_rejected st + (if admitted r then 0 else 1)"
    using 1 by (auto simp: admit_rule_def admitted_def split: if_splits)
  with 1 Cons [of sts1 st1] show ?case by (auto simp: algebra_simps)
qed simp

lemma corr_engine_new_ok:
  assumes "length (filter admitted rules) < 2 ^ 28"
  obtains e where "corr_engine_new rules caps = Some e" "index_exact e" "table_ok e"
    "e_states e = map (\<lambda>r. \<lparr>st_rule = r, st_map = lm_new 16\<rparr>) (filter admitted rules)"
    "e_caps e = sane_caps caps" "e_pct_cap e = max_events_per_group (sane_caps caps)" "e_sweep_seen e = False"
    "rules_rejected (e_stats e) = of_nat (length (filter (\<lambda>r. \<not> admitted r) rules))"
proof -
  define sts where "sts = map (\<lambda>r. \<lparr>st_rule = r, st_map = (lm_new 16 :: cstate_map)\<rparr>) (filter admitted rules)"
  obtain st where st: "fold admit_rule rules ([], zero_stats) = (sts, st)"
    "rules_rejected st = of_nat (length (filter (\<lambda>r. \<not> admitted r) rules))"
    using admit_rules [of rules "[]" zero_stats] by (auto simp: sts_def zero_stats_def)
  have len: "length sts < 2 ^ 28" using assms by (simp add: sts_def)
  define nb where "nb = next_pow2 (of_nat (length sts * 4 + 8))"
  have nz: "nb \<noteq> 0"
  proof -
    have u: "unat (of_nat (length sts * 4 + 8) :: u32) = length sts * 4 + 8" unfolding unat_of_nat using len by simp
    have "8 \<le> unat (of_nat (length sts * 4 + 8) :: u32)" "unat (of_nat (length sts * 4 + 8) :: u32) \<le> 2 ^ 31" unfolding u using len by simp_all
    then obtain k where "unat nb = 2 ^ k" unfolding nb_def by (rule next_pow2_least)
    then show ?thesis by auto
  qed
  define e0 where "e0 = \<lparr>e_states = sts, e_caps = sane_caps caps, e_last_sweep = Fin 0, e_sweep_seen = False,
    e_rid_buckets = replicate (unat nb) [], e_n_rid_buckets = nb, e_stats = st, e_pct_cap = max_events_per_group (sane_caps caps)\<rparr>"
  have t0: "table_ok e0" using nz by (simp add: table_ok_def e0_def)
  have f0: "rid_index_find e0 q = Some None" for q using rid_bucket_lt [OF nz] by (simp add: rid_index_find_def e0_def)
  have "n \<le> length sts \<Longrightarrow> \<exists>e. mfold (\<lambda>i. mfold (\<lambda>rid. rid_index_add rid (of_nat i)) (r_base (st_rule (sts ! i)))) [0..<n] e0 = Some e \<and>
      table_ok e \<and> e = e0\<lparr>e_rid_buckets := e_rid_buckets e\<rparr> \<and> (\<forall>q. rid_index_find e q = Some (entry (entered sts n [] q)))" for n
  proof (induction n)
    case 0
    show ?case using t0 f0 by (simp add: entry_def entered_def)
  next
    case (Suc n)
    then obtain e1 where 1: "mfold (\<lambda>i. mfold (\<lambda>rid. rid_index_add rid (of_nat i)) (r_base (st_rule (sts ! i)))) [0..<n] e0 = Some e1"
      "table_ok e1" "e1 = e0\<lparr>e_rid_buckets := e_rid_buckets e1\<rparr>" "\<And>q. rid_index_find e1 q = Some (entry (entered sts n [] q))" by auto
    have "n < 2 ^ 32" using Suc.prems len by simp
    from enter_rule [OF 1(2) this 1(4), of "r_base (st_rule (sts ! n))"] obtain e2 where
      2: "mfold (\<lambda>rid. rid_index_add rid (of_nat n)) (r_base (st_rule (sts ! n))) e1 = Some e2" "table_ok e2"
      "e2 = e1\<lparr>e_rid_buckets := e_rid_buckets e2\<rparr>" "\<And>q. rid_index_find e2 q = Some (entry (entered sts n (r_base (st_rule (sts ! n))) q))" by blast
    have "entered sts n (r_base (st_rule (sts ! n))) q = entered sts (Suc n) [] q" for q by (simp add: entered_def)
    moreover obtain x y where "e1 = e0\<lparr>e_rid_buckets := x\<rparr>" "e2 = e1\<lparr>e_rid_buckets := y\<rparr>" using 1(3) 2(3) by blast
    then have "e2 = e0\<lparr>e_rid_buckets := e_rid_buckets e2\<rparr>" by simp
    ultimately show ?case using 1(1) 2 by (simp add: mfold_append)
  qed
  from this [of "length sts"] obtain e where e: "mfold (\<lambda>i. mfold (\<lambda>rid. rid_index_add rid (of_nat i)) (r_base (st_rule (sts ! i)))) [0..<length sts] e0 = Some e"
    "table_ok e" "e = e0\<lparr>e_rid_buckets := e_rid_buckets e\<rparr>" "\<And>q. rid_index_find e q = Some (entry (entered sts (length sts) [] q))" by auto
  have same: "e_states e = sts" "e_caps e = sane_caps caps" "e_pct_cap e = max_events_per_group (sane_caps caps)" "e_sweep_seen e = False" "e_stats e = st"
    by (subst e(3); simp add: e0_def)+
  have "index_exact e" using e(4) by (simp add: index_exact_def same(1) watchers_def entered_def)
  moreover have "corr_engine_new rules caps = Some e"
    unfolding corr_engine_new_def Let_def st(1) prod.case nb_def [symmetric] using e(1) by (simp add: e0_def)
  ultimately show ?thesis using that e(2) same st(2) unfolding sts_def by blast
qed

section \<open>Properties\<close>

text \<open>
  C36. The engine built from fewer than \<open>2\<^sup>2\<^sup>8\<close> usable rules runs exactly the rules that the admission
  checks accept, in their order, each with an empty group map; the others are counted. Its
  index answers every rule id with exactly the correlations that have it as a base rule, in
  order, and answers nothing for the other ids.
\<close>

theorem corr_engine_new_correct:
  assumes "length (filter admitted rules) < 2 ^ 28"
  shows "\<exists>e. corr_engine_new rules caps = Some e \<and>
    e_states e = map (\<lambda>r. \<lparr>st_rule = r, st_map = lm_new 16\<rparr>) (filter admitted rules) \<and>
    rules_rejected (e_stats e) = of_nat (length (filter (\<lambda>r. \<not> admitted r) rules)) \<and>
    (\<forall>rid. rid_index_find e rid =
      Some (let ws = filter (\<lambda>i. rid \<in> set (r_base (filter admitted rules ! i))) [0..<length (filter admitted rules)] in
        if ws = [] then None else Some (map of_nat ws)))"
proof -
  obtain e where e: "corr_engine_new rules caps = Some e" "index_exact e"
    "e_states e = map (\<lambda>r. \<lparr>st_rule = r, st_map = lm_new 16\<rparr>) (filter admitted rules)"
    "rules_rejected (e_stats e) = of_nat (length (filter (\<lambda>r. \<not> admitted r) rules))"
    by (rule corr_engine_new_ok [OF assms])
  have "watchers (e_states e) rid = filter (\<lambda>i. rid \<in> set (r_base (filter admitted rules ! i))) [0..<length (filter admitted rules)]" for rid
    unfolding watchers_def e(3) length_map by (rule filter_cong) simp_all
  then show ?thesis using e by (auto simp: index_exact_def entry_def Let_def)
qed

theorem corr_engine_new_correct_witness:
  "\<exists>e. corr_engine_new [sample_rule] sample_caps = Some e \<and> length (e_states e) = 1 \<and>
     rid_index_find e 7 = Some (Some [0]) \<and> rid_index_find e 8 = Some None"
proof -
  have "filter admitted [sample_rule] = [sample_rule]"
    by (simp add: admitted_def sample_rule_def rule_valid_def is_empty_str_def lit_def)
  then show ?thesis using corr_engine_new_correct [of "[sample_rule]" sample_caps] by auto
qed

end
