(* ===== verification/Event_Spec.thy ===== *)
theory Event_Spec
  imports Group_Spec Index_Spec
begin

text \<open>
  The correlation engine on one event: the index finds the correlations that watch a matched
  base rule, each of them is evaluated once on its own groups, and the fires are reported in the
  order of the matched rules.
\<close>

section \<open>The counters do not influence the evaluation\<close>

text \<open>A result without its counters.\<close>

abbreviation quiet2 :: "('a \<times> corr_stats) option \<Rightarrow> 'a option" where
  "quiet2 res \<equiv> map_option (\<lambda>(a, _). a) res"

abbreviation quiet3 :: "('a \<times> 'b \<times> corr_stats) option \<Rightarrow> ('a \<times> 'b) option" where
  "quiet3 res \<equiv> map_option (\<lambda>(a, b, _). (a, b)) res"

abbreviation quiet4 :: "('a \<times> 'b \<times> 'c \<times> corr_stats) option \<Rightarrow> ('a \<times> 'b \<times> 'c) option" where
  "quiet4 res \<equiv> map_option (\<lambda>(a, b, c, _). (a, b, c)) res"

lemma event_count_quiet: "quiet3 (eval_event_count r now ws g s) = quiet3 (eval_event_count r now ws g t)"
  by (cases "ring_put now g") (auto simp: eval_event_count_def split: bind_split prod.split)

lemma dset_observe_quiet: "quiet3 (dset_observe d v now ws cap s) = quiet3 (dset_observe d v now ws cap t)"
  by (auto simp: dset_observe_def Let_def split: bind_split prod.split option.split)

lemma value_count_quiet: "quiet3 (eval_value_count r vv cap now ws g s) = quiet3 (eval_value_count r vv cap now ws g t)"
proof (cases vv)
  case (Some v)
  show ?thesis
    using dset_observe_quiet [of "distinct_set g" v now ws cap s t]
    by (cases "dset_observe (distinct_set g) v now ws cap s"; cases "dset_observe (distinct_set g) v now ws cap t")
      (auto simp: eval_value_count_def Some)
qed (simp add: eval_value_count_def)

lemma take_value_quiet: "quiet2 (ev_take_value vv now ws g s) = quiet2 (ev_take_value vv now ws g t)"
  by (auto simp: ev_take_value_def ev_push_val_def Let_def split: bind_split prod.split option.split)

lemma sum_avg_quiet: "quiet4 (eval_value_sum_avg r vv a now ws g s) = quiet4 (eval_value_sum_avg r vv a now ws g t)"
  using take_value_quiet [of vv now ws g s t]
  by (cases "ev_take_value vv now ws g s"; cases "ev_take_value vv now ws g t")
    (auto simp: eval_value_sum_avg_def split: bind_split option.split)

lemma percentile_quiet: "quiet4 (eval_value_percentile r vv now ws g s cap) = quiet4 (eval_value_percentile r vv now ws g t cap)"
  using take_value_quiet [of vv now ws g s t]
  by (cases "ev_take_value vv now ws g s"; cases "ev_take_value vv now ws g t")
    (auto simp: eval_value_percentile_def Let_def split: bind_split option.split)

lemma beaconing_quiet: "quiet3 (eval_beaconing r now ws g s) = quiet3 (eval_beaconing r now ws g t)"
proof (cases "0 < r_n_buckets r")
  case True
  then show ?thesis by (cases "eval_beaconing_bucketed r now g") (auto simp: eval_beaconing_def)
next
  case False
  then show ?thesis
    by (cases "ring_put now g") (auto simp: eval_beaconing_def eval_beaconing_raw_def Let_def option.map_comp comp_def split: bind_split prod.split)
qed

lemma record_seen_quiet: "fst (temporal_record_seen hits now ws g s) = fst (temporal_record_seen hits now ws g t)"
proof -
  have one: "fst (record_hit now h (xs, s)) = fst (record_hit now h (xs, t))" for h xs s t
    by (simp add: record_hit_def split: option.split)
  have "fst (fold (record_hit now) hits (xs, s)) = fst (fold (record_hit now) hits (xs, t))" for xs s t
  proof (induction hits arbitrary: xs s t)
    case (Cons h hits)
    obtain ys s1 t1 where "record_hit now h (xs, s) = (ys, s1)" "record_hit now h (xs, t) = (ys, t1)"
      using one [of h xs s t] by (metis prod.collapse)
    then show ?case using Cons.IH [of ys s1 t1] by simp
  qed simp
  from this [of "seen g" s t] show ?thesis by (simp add: temporal_record_seen_def split_beta)
qed

lemma wm_inserts_quiet: "fst (fold (wm_insert now) hits (g, s)) = fst (fold (wm_insert now) hits (g, t))"
proof (induction hits arbitrary: g s t)
  case (Cons h hits)
  obtain g' s' t' where "wm_insert now h (g, s) = (g', s')" "wm_insert now h (g, t) = (g', t')" by (simp add: wm_insert_def Let_def)
  then show ?case using Cons [of g' s' t'] by simp
qed simp

lemma ordered_wm_quiet:
  "quiet3 (Some (eval_temporal_ordered_wm r hits now ws slack g s)) = quiet3 (Some (eval_temporal_ordered_wm r hits now ws slack g t))"
proof -
  obtain g' s' t' where "fold (wm_insert now) hits (g, s) = (g', s')" "fold (wm_insert now) hits (g, t) = (g', t')"
    using wm_inserts_quiet [of now hits g s t] by (metis prod.collapse)
  then show ?thesis by (simp add: eval_temporal_ordered_wm_def Let_def split_beta)
qed

lemma temporal_quiet: "quiet3 (Some (eval_temporal r hits now ws g s)) = quiet3 (Some (eval_temporal r hits now ws g t))"
  using record_seen_quiet [of hits now ws g s t] by (simp add: eval_temporal_def split_beta Let_def)

lemma eval_group_quiet:
  "quiet4 (eval_group r caps pct field_fn hits ts ws g s) = quiet4 (eval_group r caps pct field_fn hits ts ws g t)"
proof (cases "r_type r")
  case CORR_TEMPORAL_ORDERED
  obtain g1 s1 t1 where 1: "(if r_cond r \<noteq> [] then temporal_record_seen hits ts ws g s else (g, s)) = (g1, s1)"
    "(if r_cond r \<noteq> [] then temporal_record_seen hits ts ws g t else (g, t)) = (g1, t1)"
    using record_seen_quiet [of hits ts ws g s t] by (metis prod.collapse)
  obtain f g2 s2 t2 where "eval_temporal_ordered_wm r hits ts ws (watermark_s caps) g1 s1 = (f, g2, s2)"
    "eval_temporal_ordered_wm r hits ts ws (watermark_s caps) g1 t1 = (f, g2, t2)"
    using ordered_wm_quiet [of r hits ts ws "watermark_s caps" g1 s1 t1]
    by (cases "eval_temporal_ordered_wm r hits ts ws (watermark_s caps) g1 s1"; cases "eval_temporal_ordered_wm r hits ts ws (watermark_s caps) g1 t1") auto
  then show ?thesis by (simp add: eval_group_def CORR_TEMPORAL_ORDERED 1 split_beta Let_def)
next
  case CORR_EVENT_COUNT
  with event_count_quiet [of r ts ws g s t] show ?thesis
    by (cases "eval_event_count r ts ws g s"; cases "eval_event_count r ts ws g t") (auto simp: eval_group_def)
next
  case CORR_VALUE_COUNT
  let ?e = "\<lambda>s. eval_value_count r (Option.bind (r_value_field r) field_fn) (max_distinct caps) ts ws g s"
  show ?thesis
    using value_count_quiet [of r "Option.bind (r_value_field r) field_fn" "max_distinct caps" ts ws g s t] CORR_VALUE_COUNT
    by (cases "?e s"; cases "?e t") (auto simp: eval_group_def)
next
  case CORR_BEACONING
  with beaconing_quiet [of r ts ws g s t] show ?thesis
    by (cases "eval_beaconing r ts ws g s"; cases "eval_beaconing r ts ws g t") (auto simp: eval_group_def)
next
  case CORR_TEMPORAL
  with temporal_quiet [of r hits ts ws g s t] show ?thesis by (simp add: eval_group_def split_beta)
qed (simp_all add: eval_group_def sum_avg_quiet [of _ _ _ _ _ _ s t] percentile_quiet [of _ _ _ _ _ s _ t])

lemma event_hits_eq: "fst (event_hits r rids s) = take 64 (filter (\<lambda>b. b \<in> set rids) (r_base r))"
proof -
  define F :: "u32 \<Rightarrow> u32 list \<times> corr_stats \<Rightarrow> u32 list \<times> corr_stats" where "F = (\<lambda>want (hits, stats).
         if want \<in> set rids
         then (if length hits < 64 then (hits @ [want], stats) else (hits, stats\<lparr>hits_truncated := hits_truncated stats + 1\<rparr>))
         else (hits, stats))"
  have "fst (fold F bs (hits, s)) = take 64 (hits @ filter (\<lambda>b. b \<in> set rids) bs)" if "length hits \<le> 64" for bs hits s
    using that
  proof (induction bs arbitrary: hits s)
    case (Cons b bs)
    consider "b \<notin> set rids" | "b \<in> set rids" "length hits < 64" | "b \<in> set rids" "length hits = 64" using Cons.prems by linarith
    then show ?case
    proof cases
      case 1
      then have "F b (hits, s) = (hits, s)" by (simp add: F_def)
      with 1 Cons.IH [OF Cons.prems] show ?thesis by (simp del: take_append)
    next
      case 2
      then have "F b (hits, s) = (hits @ [b], s)" "length (hits @ [b]) \<le> 64" by (simp_all add: F_def)
      with 2 Cons.IH [of "hits @ [b]"] show ?thesis by (simp del: take_append)
    next
      case 3
      then obtain s1 where "F b (hits, s) = (hits, s1)" by (simp add: F_def)
      with 3 Cons.IH [of hits s1] show ?thesis by simp
    qed
  qed simp
  from this [of "[]" "r_base r" s] show ?thesis by (simp add: event_hits_def F_def)
qed

text \<open>The group and the fire of an event, whatever the counters.\<close>

lemma step_group_quiet:
  "map_option (\<lambda>(g, _, f). (g, f)) (step_group r caps pct field_fn rids ts g s) =
    map_option (\<lambda>(g, _, f). (g, f)) (step_group r caps pct field_fn rids ts g t)"
proof -
  obtain hits s1 t1 where h: "event_hits r rids s = (hits, s1)" "event_hits r rids t = (hits, t1)"
    using event_hits_eq [of r rids s] event_hits_eq [of r rids t] by (metis prod.collapse)
  let ?e = "eval_group r caps pct field_fn hits ts (f64_sub ts (f64_of_int (r_timespan r))) (g\<lparr>last_update := ts\<rparr>)"
  show ?thesis
    using eval_group_quiet [of r caps pct field_fn hits ts "f64_sub ts (f64_of_int (r_timespan r))" "g\<lparr>last_update := ts\<rparr>" s1 t1]
    by (cases "?e s1"; cases "?e t1") (auto simp: step_group_def h Let_def split: bind_split)
qed

section \<open>One group\<close>

text \<open>The end of the silence after a fire at \<open>ts\<close>.\<close>

definition deadline :: "corr_rule \<Rightarrow> f64 \<Rightarrow> f64" where
  "deadline r ts = f64_add ts (f64_mul (f64_of_int (r_timespan r)) (Fin 1))"

text \<open>The conditions on an event under which nothing is undefined.\<close>

definition rule_fits :: "bool \<Rightarrow> (bytes \<Rightarrow> bytes option) \<Rightarrow> corr_rule \<Rightarrow> bool" where
  "rule_fits loc field_fn r \<longleftrightarrow> (numeric r \<longrightarrow> loc \<and> value_ok r field_fn)"

text \<open>The invariant of a group; \<open>loc\<close> when no remote partial was ever merged.\<close>

definition group_inv :: "bool \<Rightarrow> corr_rule \<Rightarrow> corr_caps \<Rightarrow> group \<Rightarrow> bool" where
  "group_inv loc r caps g \<longleftrightarrow> group_ok r caps g \<and> (loc \<longrightarrow> local_ok r g)"

text \<open>Admitted, with an \<open>int32_t\<close> window and as many names in each alias as in the group-by.\<close>

definition rule_inv :: "corr_rule \<Rightarrow> bool" where
  "rule_inv r \<longleftrightarrow> rule_valid r \<and> r_timespan r \<le> 2 ^ 31 \<and> (\<forall>fs. Some fs \<in> set (r_alias r) \<longrightarrow> length fs = length (r_group_by r))"

lemma observed_plain: "\<not> numeric r \<Longrightarrow> observed_of r g agg \<noteq> None"
  by (cases "r_type r") (simp_all add: observed_of_def numeric_def)

lemma observed_numeric: "numeric r \<Longrightarrow> observed_of r g agg = f64_trunc (- (2 ^ 63)) (2 ^ 63 - 1) agg"
  by (cases "r_type r") (simp_all add: observed_of_def numeric_def)

lemma step_group_ok:
  assumes "group_inv loc r caps g" "rule_inv r" "caps_ok caps" "max_events_per_group caps \<le> pct" "clock_ok ts" "rule_fits loc field_fn r"
  shows "\<exists>g' st' fire. step_group r caps pct field_fn rids ts g s = Some (g', st', fire) \<and> group_inv loc r caps g' \<and> last_update g' = ts \<and>
    (case fire of None \<Rightarrow> fired_until g' = fired_until g
     | Some _ \<Rightarrow> \<not> f64_lt ts (fired_until g) \<and> fired_until g' = deadline r ts \<and> corr_rule_hits r rids)"
proof -
  define g0 where "g0 = g\<lparr>last_update := ts\<rparr>"
  have g0: "group_ok r caps g0" "loc \<longrightarrow> local_ok r g0" "last_update g0 = ts" "fired_until g0 = fired_until g"
    using assms(1) by (simp_all add: g0_def group_inv_def)
  obtain hits s1 where h: "event_hits r rids s = (hits, s1)" by (cases "event_hits r rids s")
  have hr: "corr_rule_hits r rids" if "hits \<noteq> []"
  proof -
    have "filter (\<lambda>b. b \<in> set rids) (r_base r) \<noteq> []" using event_hits_eq [of r rids s] h that by auto
    then show ?thesis by (auto simp: filter_empty_conv corr_rule_hits_def)
  qed
  have rv: "rule_valid r" "r_timespan r \<le> 2 ^ 31" using assms(2) by (simp_all add: rule_inv_def)
  obtain f agg g1 s2 where e: "eval_group r caps pct field_fn hits ts (f64_sub ts (f64_of_int (r_timespan r))) g0 s1 = Some (f, agg, g1, s2)"
    "group_ok r caps g1" "keeps g0 g1"
    "local_ok r g0 \<and> value_ok r field_fn \<longrightarrow> local_ok r g1 \<and> (numeric r \<longrightarrow> f \<longrightarrow> f64_trunc (- (2 ^ 63)) (2 ^ 63 - 1) agg \<noteq> None)"
    using eval_group_result [OF g0(1) rv assms(3-5), of field_fn hits "f64_sub ts (f64_of_int (r_timespan r))" s1]
    unfolding group_result_def by blast
  have l1: "loc \<longrightarrow> local_ok r g1"
  proof (cases "numeric r")
    case True
    then show ?thesis using e(4) g0(2) assms(6) by (simp add: rule_fits_def)
  next
    case False
    then show ?thesis using local_ok_plain [OF False e(3)] g0(2) by blast
  qed
  have k: "last_update g1 = ts" "fired_until g1 = fired_until g" using e(3) g0(3,4) by (simp_all add: keeps_def)
  define g2 where "g2 = g1\<lparr>fired_until := deadline r ts\<rparr>"
  have obs: "observed_of r g2 agg \<noteq> None" if f
  proof (cases "numeric r")
    case True
    then show ?thesis using e(4) g0(2) assms(6) that by (simp add: rule_fits_def observed_numeric)
  qed (rule observed_plain)
  note def = step_group_def g0_def [symmetric] deadline_def [symmetric] Let_def
  consider "hits = []" | "hits \<noteq> []" "\<not> f" | "hits \<noteq> []" f "f64_lt ts (fired_until g)" | "hits \<noteq> []" f "\<not> f64_lt ts (fired_until g)" by blast
  then show ?thesis
  proof cases
    case 1
    then show ?thesis using g0 by (simp add: def h group_inv_def)
  next
    case 2
    then show ?thesis using e(1,2) l1 k by (simp add: def h group_inv_def)
  next
    case 3
    then show ?thesis using e(1,2) l1 k by (simp add: def h group_inv_def)
  next
    case 4
    obtain n where n: "observed_of r g2 agg = Some n" using obs 4(2) by blast
    have "step_group r caps pct field_fn rids ts g s = Some (g2, s2, Some (n, merge_remote g2))"
      using 4 e(1) k(2) n by (simp add: def h g2_def [symmetric])
    moreover have "group_inv loc r caps g2" using e(2) l1 by (simp add: group_inv_def g2_def)
    moreover have "last_update g2 = ts" "fired_until g2 = deadline r ts" using k by (simp_all add: g2_def)
    ultimately show ?thesis using 4(3) hr [OF 4(1)] by simp
  qed
qed

text \<open>An aggregate from \<open>2\<^sup>6\<^sup>3\<close> on cannot be converted to the observed count.\<close>

lemma observed_overflow: "numeric r \<Longrightarrow> observed_of r g (Fin (2 ^ 63)) = None \<and> observed_of r g (Inf s) = None"
  by (simp add: observed_numeric f64_trunc_def)

section \<open>One correlation\<close>

text \<open>What an event does to the groups of a correlation, and the fire it wants to report.\<close>

definition corr_step ::
  "corr_rule \<Rightarrow> corr_caps \<Rightarrow> u32 \<Rightarrow> (bytes \<Rightarrow> bytes option) \<Rightarrow> u32 list \<Rightarrow> f64 \<Rightarrow> bytes list \<Rightarrow> (bytes list \<times> group) list \<Rightarrow>
    ((bytes list \<times> group) list \<times> (int \<times> bool) option) option" where
  "corr_step r caps pct field_fn rids ts k gs =
     map_option (\<lambda>(g, _, fire). (others caps k gs @ [(k, g)], fire))
       (step_group r caps pct field_fn rids ts (the_group caps k gs) zero_stats)"

definition groups_inv :: "bool \<Rightarrow> corr_rule \<Rightarrow> corr_caps \<Rightarrow> (bytes list \<times> group) list \<Rightarrow> bool" where
  "groups_inv loc r caps gs \<longleftrightarrow> length gs \<le> unat (max_groups caps) \<and> distinct (map fst gs) \<and> (\<forall>g \<in> snd ` set gs. group_inv loc r caps g)"

lemma others_sub: "set (others caps k gs) \<subseteq> set gs"
  using set_tl_subset [of gs] by (auto simp: others_def split: option.split)

lemma others_length:
  assumes "length gs \<le> unat (max_groups caps)" "0 < unat (max_groups caps)"
  shows "length (others caps k gs) < unat (max_groups caps)"
proof (cases "map_of gs k")
  case None
  then show ?thesis using assms by (cases gs) (auto simp: others_def)
next
  case (Some g)
  then have "length (filter (\<lambda>(x, _). x \<noteq> k) gs) < length gs" by (intro length_filter_less [of "(k, g)"]) (auto dest: map_of_SomeD)
  then show ?thesis using Some assms(1) by (simp add: others_def)
qed

lemma others_distinct:
  assumes "distinct (map fst gs)"
  shows "distinct (map fst (others caps k gs))" "k \<notin> fst ` set (others caps k gs)"
proof -
  show "distinct (map fst (others caps k gs))"
    using assms by (auto simp: others_def distinct_map_filter map_tl distinct_tl split: option.split)
  show "k \<notin> fst ` set (others caps k gs)"
    using set_tl_subset [of gs] by (auto simp: others_def map_of_eq_None_iff split: option.splits)
qed

lemma the_group_inv:
  assumes "groups_inv loc r caps gs" "caps_ok caps" "rule_inv r"
  shows "group_inv loc r caps (the_group caps k gs)"
proof (cases "map_of gs k")
  case None
  then show ?thesis
    using group_new_ok [OF assms(2)] rule_validD(1) assms(3) by (simp add: the_group_def group_inv_def rule_inv_def)
next
  case (Some g)
  then have "(k, g) \<in> set gs" by (rule map_of_SomeD)
  then have "g \<in> snd ` set gs" by force
  with assms(1) have "group_inv loc r caps g" unfolding groups_inv_def by blast
  then show ?thesis using Some by (simp add: the_group_def)
qed

lemma corr_step_ok:
  assumes "groups_inv loc r caps gs" "rule_inv r" "caps_ok caps" "max_events_per_group caps \<le> pct" "clock_ok ts" "rule_fits loc field_fn r"
  obtains g fire where "corr_step r caps pct field_fn rids ts k gs = Some (others caps k gs @ [(k, g)], fire)"
    "groups_inv loc r caps (others caps k gs @ [(k, g)])" "last_update g = ts"
    "case fire of None \<Rightarrow> fired_until g = fired_until (the_group caps k gs)
     | Some _ \<Rightarrow> \<not> f64_lt ts (fired_until (the_group caps k gs)) \<and> fired_until g = deadline r ts \<and> corr_rule_hits r rids"
proof -
  obtain g st fire where g: "step_group r caps pct field_fn rids ts (the_group caps k gs) zero_stats = Some (g, st, fire)"
    "group_inv loc r caps g" "last_update g = ts"
    "case fire of None \<Rightarrow> fired_until g = fired_until (the_group caps k gs)
     | Some _ \<Rightarrow> \<not> f64_lt ts (fired_until (the_group caps k gs)) \<and> fired_until g = deadline r ts \<and> corr_rule_hits r rids"
    using step_group_ok [OF the_group_inv [OF assms(1,3,2)] assms(2-6)] by blast
  have gs: "length gs \<le> unat (max_groups caps)" "distinct (map fst gs)" "\<forall>g \<in> snd ` set gs. group_inv loc r caps g"
    using assms(1) by (simp_all add: groups_inv_def)
  have "groups_inv loc r caps (others caps k gs @ [(k, g)])"
    using others_length [OF gs(1), of k] others_distinct(1) [OF gs(2), of caps k] others_distinct(2) [OF gs(2), of k caps] others_sub [of caps k gs] gs(3) g(2) assms(3)
    by (fastforce simp: groups_inv_def caps_ok_def)
  then show ?thesis using that g by (simp add: corr_step_def)
qed

text \<open>The pointer structure takes the same step.\<close>

lemma eval_state_step:
  assumes "groups_rep m gs" "groups_inv loc r caps gs" "caps_ok caps" "corr_step r caps pct field_fn rids ts k gs = Some (gs', fire)"
  shows "\<exists>m' s'. eval_state r caps pct field_fn rids ts k m s = Some (m', s', fire) \<and> groups_rep m' gs'"
proof -
  have l: "length gs \<le> unat (max_groups caps)" using assms(2) by (simp add: groups_inv_def)
  obtain g s1 where z: "step_group r caps pct field_fn rids ts (the_group caps k gs) zero_stats = Some (g, s1, fire)"
    "gs' = others caps k gs @ [(k, g)]" using assms(4) by (auto simp: corr_step_def)
  then obtain s2 where "step_group r caps pct field_fn rids ts (the_group caps k gs) (count_evict caps k gs s) = Some (g, s2, fire)"
    using step_group_quiet [of r caps pct field_fn rids ts "the_group caps k gs" zero_stats "count_evict caps k gs s"]
    by (cases "step_group r caps pct field_fn rids ts (the_group caps k gs) (count_evict caps k gs s)") auto
  with eval_state_refines [OF assms(1,3) l, of r pct field_fn rids ts k s] z(2) show ?thesis by auto
qed

section \<open>Group keys\<close>

text \<open>All values, when each is there.\<close>

definition all_some :: "'a option list \<Rightarrow> 'a list option" where
  "all_some xs = (if None \<in> set xs then None else Some (map the xs))"

lemma resolve_group_eq:
  "n \<le> length names \<Longrightarrow> resolve_group field_fn names n = Some (all_some (map (\<lambda>f. Option.bind f field_fn) (take n names)))"
proof (induction n)
  case (Suc n)
  then have "resolve_group field_fn names n = Some (all_some (map (\<lambda>f. Option.bind f field_fn) (take n names)))" by simp
  with Suc.prems show ?case
    by (cases "Option.bind (names ! n) field_fn")
      (auto simp: resolve_group_def mfold_append take_Suc_conv_app_nth all_some_def split: option.splits)
qed (simp add: resolve_group_def all_some_def)

lemma alias_fields_in: "alias_fields rid bs as = Some fs \<Longrightarrow> Some fs \<in> set as"
  by (induction rid bs as rule: alias_fields.induct) (auto split: if_splits)

lemma group_fields_length: "rule_inv r \<Longrightarrow> length (corr_group_fields r rid) = length (r_group_by r)"
  by (auto simp: corr_group_fields_def rule_inv_def dest: alias_fields_in split: option.split)

text \<open>
  The key of an event for a correlation: the values of the fields that the first matched base
  rule of the correlation names, when all are present and the caller wants the correlation.
\<close>

definition key_by :: "corr_input \<Rightarrow> corr_rule \<Rightarrow> u32 \<Rightarrow> bytes list option" where
  "key_by inp r rid =
     Option.bind (all_some (map (\<lambda>f. Option.bind f (i_field inp)) (corr_group_fields r rid)))
       (\<lambda>k. if i_apply inp r k then Some k else None)"

definition key_of :: "corr_input \<Rightarrow> corr_rule \<Rightarrow> bytes list option" where
  "key_of inp r = Option.bind (find (\<lambda>rid. rid \<in> set (r_base r)) (i_rids inp)) (key_by inp r)"

section \<open>One event\<close>

type_synonym group_lists = "(bytes list \<times> group) list list"

definition engine_inv :: "bool \<Rightarrow> corr_engine \<Rightarrow> group_lists \<Rightarrow> bool" where
  "engine_inv loc e G \<longleftrightarrow> caps_ok (e_caps e) \<and> max_events_per_group (e_caps e) \<le> e_pct_cap e \<and> index_exact e \<and>
     length (e_states e) < 2 ^ 32 \<and> length G = length (e_states e) \<and>
     (\<forall>i < length (e_states e). rule_inv (st_rule (e_states e ! i)) \<and> groups_rep (st_map (e_states e ! i)) (G ! i) \<and>
        groups_inv loc (st_rule (e_states e ! i)) (e_caps e) (G ! i))"

text \<open>The groups left by an event and the fire, correlation by correlation.\<close>

definition effect :: "corr_input \<Rightarrow> corr_engine \<Rightarrow> group_lists \<Rightarrow> nat \<Rightarrow> (bytes list \<times> group) list \<times> (int \<times> bool) option" where
  "effect inp e G i =
     (let r = st_rule (e_states e ! i) in
      case key_of inp r of
        None \<Rightarrow> (G ! i, None)
      | Some k \<Rightarrow> the (corr_step r (e_caps e) (e_pct_cap e) (i_field inp) (i_rids inp) (i_ts inp) k (G ! i)))"

text \<open>The correlations in the order in which the event reaches them.\<close>

definition reached :: "corr_input \<Rightarrow> corr_engine \<Rightarrow> nat list" where
  "reached inp e = first_occ (concat (map (watchers (e_states e)) (i_rids inp)))"

definition event_input_ok :: "bool \<Rightarrow> corr_input \<Rightarrow> corr_engine \<Rightarrow> bool" where
  "event_input_ok loc inp e \<longleftrightarrow> clock_ok (i_ts inp) \<and> (\<forall>st \<in> set (e_states e). rule_fits loc (i_field inp) (st_rule st))"

text \<open>A fire without its evidence, and the expected one of a correlation.\<close>

definition bare :: "corr_fire \<Rightarrow> corr_fire" where
  "bare f = f\<lparr>f_group := None\<rparr>"

definition fire_at :: "corr_input \<Rightarrow> corr_engine \<Rightarrow> group_lists \<Rightarrow> nat \<Rightarrow> corr_fire" where
  "fire_at inp e G i =
     (let r = st_rule (e_states e ! i); (obs, remote) = the (snd (effect inp e G i)) in mk_fire r None obs (observed_field r) remote)"

definition fires_of :: "corr_input \<Rightarrow> corr_engine \<Rightarrow> group_lists \<Rightarrow> nat list \<Rightarrow> nat list" where
  "fires_of inp e G is = filter (\<lambda>i. snd (effect inp e G i) \<noteq> None) is"

lemma effect_ok:
  assumes "engine_inv loc e G" "event_input_ok loc inp e" "i < length (e_states e)"
  shows "groups_inv loc (st_rule (e_states e ! i)) (e_caps e) (fst (effect inp e G i))"
    "key_of inp (st_rule (e_states e ! i)) = Some k \<Longrightarrow>
      corr_step (st_rule (e_states e ! i)) (e_caps e) (e_pct_cap e) (i_field inp) (i_rids inp) (i_ts inp) k (G ! i) = Some (effect inp e G i)"
proof -
  let ?r = "st_rule (e_states e ! i)"
  have e: "groups_inv loc ?r (e_caps e) (G ! i)" "rule_inv ?r" "caps_ok (e_caps e)" "max_events_per_group (e_caps e) \<le> e_pct_cap e"
    "clock_ok (i_ts inp)" "rule_fits loc (i_field inp) ?r"
    using assms by (simp_all add: engine_inv_def event_input_ok_def)
  have step: "corr_step ?r (e_caps e) (e_pct_cap e) (i_field inp) (i_rids inp) (i_ts inp) k (G ! i) = Some (effect inp e G i) \<and>
    groups_inv loc ?r (e_caps e) (fst (effect inp e G i))" if "key_of inp ?r = Some k" for k
    by (rule corr_step_ok [OF e, of "i_rids inp" k]) (simp add: effect_def that Let_def)
  then show "key_of inp ?r = Some k \<Longrightarrow>
      corr_step ?r (e_caps e) (e_pct_cap e) (i_field inp) (i_rids inp) (i_ts inp) k (G ! i) = Some (effect inp e G i)" by blast
  show "groups_inv loc ?r (e_caps e) (fst (effect inp e G i))"
    by (cases "key_of inp ?r") (use e(1) step in \<open>simp_all add: effect_def\<close>)
qed

subsection \<open>The loop over the watched correlations\<close>

text \<open>What no part of the loop changes.\<close>

definition same_frame :: "corr_engine \<Rightarrow> corr_engine \<Rightarrow> bool" where
  "same_frame e e' \<longleftrightarrow> e_caps e' = e_caps e \<and> e_pct_cap e' = e_pct_cap e \<and> e_rid_buckets e' = e_rid_buckets e \<and>
     e_n_rid_buckets e' = e_n_rid_buckets e \<and> e_last_sweep e' = e_last_sweep e \<and> e_sweep_seen e' = e_sweep_seen e \<and>
     map st_rule (e_states e') = map st_rule (e_states e)"

text \<open>The state of the call when the watch entries \<open>P\<close> are done.\<close>

definition call_inv :: "corr_input \<Rightarrow> corr_engine \<Rightarrow> group_lists \<Rightarrow> nat list \<Rightarrow> corr_call \<Rightarrow> bool" where
  "call_inv inp e G P c \<longleftrightarrow>
     same_frame e (c_engine c) \<and>
     c_visited c = map (\<lambda>i. i \<in> set P) [0..<length (e_states e)] \<and>
     (\<forall>i < length (e_states e). groups_rep (st_map (e_states (c_engine c) ! i)) (if i \<in> set P then fst (effect inp e G i) else G ! i)) \<and>
     c_fired c = length (fires_of inp e G (first_occ P)) \<and>
     map bare (c_out c) = take (o_max inp) (map (fire_at inp e G) (fires_of inp e G (first_occ P))) \<and>
     (\<forall>f \<in> set (c_out c). \<forall>k. f_group f = Some k \<longrightarrow> (\<exists>i \<in> set P. key_of inp (st_rule (e_states e ! i)) = Some k \<and> f_rule_id f = r_id (st_rule (e_states e ! i))))"

lemma call_invI:
  assumes "same_frame e (c_engine c)" "c_visited c = map (\<lambda>i. i \<in> set P) [0..<length (e_states e)]"
    "\<And>i. i < length (e_states e) \<Longrightarrow> groups_rep (st_map (e_states (c_engine c) ! i)) (if i \<in> set P then fst (effect inp e G i) else G ! i)"
    "c_fired c = length (fires_of inp e G (first_occ P))"
    "map bare (c_out c) = take (o_max inp) (map (fire_at inp e G) (fires_of inp e G (first_occ P)))"
    "\<And>f k. f \<in> set (c_out c) \<Longrightarrow> f_group f = Some k \<Longrightarrow>
      \<exists>i \<in> set P. key_of inp (st_rule (e_states e ! i)) = Some k \<and> f_rule_id f = r_id (st_rule (e_states e ! i))"
  shows "call_inv inp e G P c"
  using assms unfolding call_inv_def by blast

lemma same_frameD:
  assumes "same_frame e e'"
  shows "length (e_states e') = length (e_states e)" "i < length (e_states e) \<Longrightarrow> st_rule (e_states e' ! i) = st_rule (e_states e ! i)"
    "e_caps e' = e_caps e" "e_pct_cap e' = e_pct_cap e" "watchers (e_states e') = watchers (e_states e)" "rid_index_find e' rid = rid_index_find e rid"
proof -
  have m: "map st_rule (e_states e') = map st_rule (e_states e)" using assms by (simp add: same_frame_def)
  show l: "length (e_states e') = length (e_states e)" using m by (metis length_map)
  show n: "st_rule (e_states e' ! i) = st_rule (e_states e ! i)" if "i < length (e_states e)" for i using m l that by (metis nth_map)
  show "watchers (e_states e') = watchers (e_states e)" using n by (auto simp: fun_eq_iff watchers_def l intro: filter_cong)
qed (use assms in \<open>simp_all add: same_frame_def rid_index_find_def\<close>)

lemma same_frame_stats: "same_frame e (map_stats f e') = same_frame e e'" "e_states (map_stats f e') = e_states e'"
  by (simp_all add: same_frame_def map_stats_def)

text \<open>Reporting: one more fire, written when there is room.\<close>

lemma report_fire_ok:
  "\<exists>c' gr. report_fire inp r k (obs, remote) c = c' \<and> c_fired c' = Suc (c_fired c) \<and> c_visited c' = c_visited c \<and>
    same_frame e (c_engine c') = same_frame e (c_engine c) \<and> e_states (c_engine c') = e_states (c_engine c) \<and> (gr = None \<or> gr = Some k) \<and>
    c_out c' = (if c_fired c < o_max inp then c_out c @ [mk_fire r gr obs (observed_field r) remote] else c_out c)"
proof (cases "length (r_group_by r) > 0 \<and> (case o_slots inp of Some cap \<Rightarrow> c_used c + length (r_group_by r) \<le> cap | None \<Rightarrow> False)")
  case True
  then show ?thesis by (intro exI [of _ "report_fire inp r k (obs, remote) c"] exI [of _ "Some k"]) (simp add: report_fire_def same_frame_stats Let_def)
next
  case False
  then show ?thesis
    by (intro exI [of _ "report_fire inp r k (obs, remote) c"] exI [of _ None])
      (simp add: report_fire_def same_frame_stats Let_def if_not_P [OF False] del: length_greater_0_conv)
qed

lemma fires_snoc: "fires_of inp e G (is @ [i]) = fires_of inp e G is @ (if snd (effect inp e G i) = None then [] else [i])"
  by (simp add: fires_of_def)

lemma take_snoc: "take n (xs @ [x]) = take n xs @ (if length xs < n then [x] else [])"
  by (simp add: take_Cons')

text \<open>Two engines that agree up to their counters, the sweep clock and the group maps.\<close>

definition same_rules :: "corr_engine \<Rightarrow> corr_engine \<Rightarrow> bool" where
  "same_rules e e' \<longleftrightarrow> map st_rule (e_states e') = map st_rule (e_states e) \<and> e_caps e' = e_caps e \<and> e_pct_cap e' = e_pct_cap e \<and>
     e_rid_buckets e' = e_rid_buckets e \<and> e_n_rid_buckets e' = e_n_rid_buckets e"

lemma same_rulesD:
  assumes "same_rules e e'"
  shows "length (e_states e') = length (e_states e)" "i < length (e_states e) \<Longrightarrow> st_rule (e_states e' ! i) = st_rule (e_states e ! i)"
    "watchers (e_states e') = watchers (e_states e)" "index_exact e' = index_exact e"
proof -
  have m: "map st_rule (e_states e') = map st_rule (e_states e)" using assms by (simp add: same_rules_def)
  show l: "length (e_states e') = length (e_states e)" using m by (metis length_map)
  show n: "st_rule (e_states e' ! i) = st_rule (e_states e ! i)" if "i < length (e_states e)" for i using m l that by (metis nth_map)
  show w: "watchers (e_states e') = watchers (e_states e)" using n by (auto simp: fun_eq_iff watchers_def l intro: filter_cong)
  show "index_exact e' = index_exact e" using assms by (simp add: index_exact_def w rid_index_find_def same_rules_def)
qed

lemma engine_inv_same:
  assumes "engine_inv loc e G" "same_rules e e'" "length G' = length (e_states e)"
    "\<And>i. i < length (e_states e) \<Longrightarrow> groups_rep (st_map (e_states e' ! i)) (G' ! i) \<and> groups_inv loc (st_rule (e_states e ! i)) (e_caps e) (G' ! i)"
  shows "engine_inv loc e' G'"
  using assms same_rulesD [OF assms(2)] by (simp add: engine_inv_def same_rules_def)

text \<open>An entry of a correlation that is not visited yet, once the key is resolved.\<close>

lemma on_correlation_run:
  assumes "engine_inv loc (c_engine c) G" "length (c_visited c) = length (e_states (c_engine c))"
    "i < length (e_states (c_engine c))" "\<not> c_visited c ! i"
  defines "e \<equiv> c_engine c" and "r \<equiv> st_rule (e_states (c_engine c) ! i)" and "c1 \<equiv> c\<lparr>c_visited := (c_visited c)[i := True]\<rparr>"
  obtains gv where "key_by inp r rid = Option.bind gv (\<lambda>k. if i_apply inp r k then Some k else None)"
    "on_correlation inp rid (of_nat i) c =
      (case gv of
        None \<Rightarrow> Some (c1\<lparr>c_engine := map_stats (\<lambda>s. s\<lparr>event_skipped_missing_field := event_skipped_missing_field s + 1\<rparr>) e\<rparr>)
      | Some k \<Rightarrow>
          if \<not> i_apply inp r k then Some c1
          else do {
            (m, stats, fire) \<leftarrow> eval_state r (e_caps e) (e_pct_cap e) (i_field inp) (i_rids inp) (i_ts inp) k (st_map (e_states e ! i)) (e_stats e);
            let c = c1\<lparr>c_engine := e\<lparr>e_states := (e_states e)[i := (e_states e ! i)\<lparr>st_map := m\<rparr>], e_stats := stats\<rparr>\<rparr>;
            case fire of None \<Rightarrow> Some c | Some f \<Rightarrow> Some (report_fire inp r k f c) })"
proof -
  have "length (e_states e) < 2 ^ 32" using assms(1) by (simp add: engine_inv_def e_def)
  then have ui: "unat (of_nat i :: u32) = i" using assms(3) by (simp add: unat_of_nat e_def)
  have ri: "rule_inv r" using assms(1,3) by (simp add: engine_inv_def r_def)
  have gl: "length (r_group_by r) \<le> length (corr_group_fields r rid)" using group_fields_length [OF ri] by simp
  obtain gv where gv: "resolve_group (i_field inp) (corr_group_fields r rid) (length (r_group_by r)) = Some gv"
    "key_by inp r rid = Option.bind gv (\<lambda>k. if i_apply inp r k then Some k else None)"
    using resolve_group_eq [OF gl, of "i_field inp"] group_fields_length [OF ri, of rid] by (simp add: key_by_def)
  have u: "idx (c_visited c) (unat (of_nat i :: u32)) = Some False"
    "upd (c_visited c) (unat (of_nat i :: u32)) True = Some ((c_visited c)[i := True])"
    "idx (e_states e) (unat (of_nat i :: u32)) = Some (e_states e ! i)"
    unfolding ui using assms(2-4) by (simp_all add: e_def)
  have s1: "c\<lparr>c_visited := (c_visited c)[i := True]\<rparr> = c1" "c_engine c1 = e" "st_rule (e_states e ! i) = r"
    by (simp_all add: c1_def e_def r_def)
  show thesis
  proof (rule that [OF gv(2)])
    show "on_correlation inp rid (of_nat i) c =
      (case gv of
        None \<Rightarrow> Some (c1\<lparr>c_engine := map_stats (\<lambda>s. s\<lparr>event_skipped_missing_field := event_skipped_missing_field s + 1\<rparr>) e\<rparr>)
      | Some k \<Rightarrow>
          if \<not> i_apply inp r k then Some c1
          else do {
            (m, stats, fire) \<leftarrow> eval_state r (e_caps e) (e_pct_cap e) (i_field inp) (i_rids inp) (i_ts inp) k (st_map (e_states e ! i)) (e_stats e);
            let c = c1\<lparr>c_engine := e\<lparr>e_states := (e_states e)[i := (e_states e ! i)\<lparr>st_map := m\<rparr>], e_stats := stats\<rparr>\<rparr>;
            case fire of None \<Rightarrow> Some c | Some f \<Rightarrow> Some (report_fire inp r k f c) })"
      unfolding on_correlation_def u bind.bind_lunit Let_def if_False
      unfolding u bind.bind_lunit s1
      unfolding u bind.bind_lunit s1 gv(1)
      unfolding ui by (simp only: bind.bind_lunit)
  qed
qed

text \<open>The visit takes the correlation's step on the groups and reports its fire.\<close>

lemma visit_ok:
  assumes "engine_inv loc (c_engine c) G" "event_input_ok loc inp (c_engine c)" "length (c_visited c) = length (e_states (c_engine c))"
    "i < length (e_states (c_engine c))" "\<not> c_visited c ! i"
  defines "e \<equiv> c_engine c" and "r \<equiv> st_rule (e_states (c_engine c) ! i)"
  assumes key: "key_of inp r = key_by inp r rid"
  obtains c' fs where "on_correlation inp rid (of_nat i) c = Some c'" "c_visited c' = (c_visited c)[i := True]" "same_frame e (c_engine c')"
    "\<And>j. j < length (e_states e) \<Longrightarrow> groups_rep (st_map (e_states (c_engine c') ! j)) (if j = i then fst (effect inp e G i) else G ! j)"
    "c_fired c' = c_fired c + (if snd (effect inp e G i) = None then 0 else 1)" "c_out c' = c_out c @ fs"
    "map bare fs = (if snd (effect inp e G i) = None \<or> o_max inp \<le> c_fired c then [] else [fire_at inp e G i])"
    "\<And>f k. f \<in> set fs \<Longrightarrow> f_group f = Some k \<Longrightarrow> key_of inp r = Some k \<and> f_rule_id f = r_id r"
proof -
  define c1 where "c1 = c\<lparr>c_visited := (c_visited c)[i := True]\<rparr>"
  note eng = assms(1-2) [folded e_def] and lt = assms(4) [folded e_def]
  have rep: "groups_rep (st_map (e_states e ! j)) (G ! j)" if "j < length (e_states e)" for j
    using eng(1) that by (simp add: engine_inv_def)
  have frame: "same_frame e e" by (simp add: same_frame_def)
  have re: "st_rule (e_states e ! i) = r" by (simp add: r_def e_def)
  obtain gv where gv: "key_by inp r rid = Option.bind gv (\<lambda>k. if i_apply inp r k then Some k else None)"
    and run: "on_correlation inp rid (of_nat i) c =
      (case gv of
        None \<Rightarrow> Some (c1\<lparr>c_engine := map_stats (\<lambda>s. s\<lparr>event_skipped_missing_field := event_skipped_missing_field s + 1\<rparr>) e\<rparr>)
      | Some k \<Rightarrow>
          if \<not> i_apply inp r k then Some c1
          else do {
            (m, stats, fire) \<leftarrow> eval_state r (e_caps e) (e_pct_cap e) (i_field inp) (i_rids inp) (i_ts inp) k (st_map (e_states e ! i)) (e_stats e);
            let c = c1\<lparr>c_engine := e\<lparr>e_states := (e_states e)[i := (e_states e ! i)\<lparr>st_map := m\<rparr>], e_stats := stats\<rparr>\<rparr>;
            case fire of None \<Rightarrow> Some c | Some f \<Rightarrow> Some (report_fire inp r k f c) })"
    by (rule on_correlation_run [OF assms(1,3-5), of inp rid, folded e_def r_def c1_def])
  show thesis
  proof (cases "key_of inp r")
    case None
    then have ef: "effect inp e G i = (G ! i, None)" by (simp add: effect_def re)
    obtain c2 where c2: "on_correlation inp rid (of_nat i) c = Some c2" "c_visited c2 = (c_visited c)[i := True]" "c_fired c2 = c_fired c"
      "c_out c2 = c_out c" "same_frame e (c_engine c2)" "e_states (c_engine c2) = e_states e"
      using run None key gv frame by (auto simp: c1_def e_def same_frame_stats split: option.splits if_splits)
    show thesis by (rule that [OF c2(1,2,5), of "[]"]) (use c2 rep in \<open>simp_all add: ef\<close>)
  next
    case (Some k)
    then have gk: "gv = Some k" "i_apply inp r k" using gv key by (auto simp: bind_eq_Some_conv split: if_splits)
    obtain gs' fire where ef: "effect inp e G i = (gs', fire)" by (cases "effect inp e G i")
    have st: "corr_step r (e_caps e) (e_pct_cap e) (i_field inp) (i_rids inp) (i_ts inp) k (G ! i) = Some (gs', fire)"
      using effect_ok(2) [OF eng lt] Some ef by (simp add: re)
    have gi: "groups_inv loc r (e_caps e) (G ! i)" "caps_ok (e_caps e)" using eng(1) lt by (simp_all add: engine_inv_def re [symmetric])
    obtain m stats where m: "eval_state r (e_caps e) (e_pct_cap e) (i_field inp) (i_rids inp) (i_ts inp) k
        (st_map (e_states e ! i)) (e_stats e) = Some (m, stats, fire)" "groups_rep m gs'"
      using eval_state_step [OF rep [OF lt] gi st] by blast
    define c2 where "c2 = c1\<lparr>c_engine := e\<lparr>e_states := (e_states e)[i := (e_states e ! i)\<lparr>st_map := m\<rparr>], e_stats := stats\<rparr>\<rparr>"
    have r2: "on_correlation inp rid (of_nat i) c = (case fire of None \<Rightarrow> Some c2 | Some f \<Rightarrow> Some (report_fire inp r k f c2))"
      using run gk m(1) unfolding c2_def Let_def by simp
    have f2: "same_frame e (c_engine c2)" using lt by (simp add: same_frame_def c2_def map_update list_update_same_conv)
    have g2: "groups_rep (st_map (e_states (c_engine c2) ! j)) (if j = i then fst (effect inp e G i) else G ! j)" if "j < length (e_states e)" for j
      using rep [OF that] lt m(2) ef by (cases "j = i") (simp_all add: c2_def)
    have o2: "c_visited c2 = (c_visited c)[i := True]" "c_fired c2 = c_fired c" "c_out c2 = c_out c" by (simp_all add: c2_def c1_def)
    show thesis
    proof (cases fire)
      case None
      show thesis by (rule that [of c2 "[]"]) (use r2 f2 g2 o2 None in \<open>simp_all add: ef\<close>)
    next
      case (Some f)
      obtain obs remote where f: "f = (obs, remote)" by (cases f)
      obtain c3 gr where 3: "report_fire inp r k (obs, remote) c2 = c3" "c_fired c3 = Suc (c_fired c2)" "c_visited c3 = c_visited c2"
        "same_frame e (c_engine c3) = same_frame e (c_engine c2)" "e_states (c_engine c3) = e_states (c_engine c2)" "gr = None \<or> gr = Some k"
        "c_out c3 = (if c_fired c2 < o_max inp then c_out c2 @ [mk_fire r gr obs (observed_field r) remote] else c_out c2)"
        using report_fire_ok [of inp r k obs remote c2 e] by blast
      have fa: "fire_at inp e G i = bare (mk_fire r gr obs (observed_field r) remote)" for gr
        by (simp add: fire_at_def ef re Some f bare_def mk_fire_def Let_def)
      show thesis
        by (rule that [of c3 "if c_fired c2 < o_max inp then [mk_fire r gr obs (observed_field r) remote] else []"])
          (use r2 f2 g2 o2 3 Some f fa \<open>key_of inp r = Some k\<close> in \<open>auto simp: ef mk_fire_def Let_def\<close>)
    qed
  qed
qed

text \<open>In the loop the visits follow each other, each on the groups that the call found.\<close>

lemma same_frame_rules: "same_frame e e' \<Longrightarrow> same_rules e e'"
  by (simp add: same_frame_def same_rules_def)

lemma effect_same:
  assumes "same_rules e e'" "i < length (e_states e)" "G' ! i = G ! i"
  shows "effect inp e' G' i = effect inp e G i" "fire_at inp e' G' i = fire_at inp e G i"
proof -
  have c: "e_caps e' = e_caps e" "e_pct_cap e' = e_pct_cap e" using assms(1) by (simp_all add: same_rules_def)
  show ef: "effect inp e' G' i = effect inp e G i"
    unfolding effect_def same_rulesD(2) [OF assms(1,2)] c assms(3) by (rule refl)
  show "fire_at inp e' G' i = fire_at inp e G i"
    unfolding fire_at_def same_rulesD(2) [OF assms(1,2)] ef by (rule refl)
qed

lemma event_input_same: "same_rules e e' \<Longrightarrow> event_input_ok loc inp e \<Longrightarrow> event_input_ok loc inp e'"
proof -
  assume f: "same_rules e e'" and i: "event_input_ok loc inp e"
  have "st_rule ` set (e_states e') = st_rule ` set (e_states e)" using f unfolding same_rules_def by (metis list.set_map)
  moreover have "\<forall>r \<in> st_rule ` set (e_states e). rule_fits loc (i_field inp) r" using i by (simp add: event_input_ok_def)
  ultimately have "\<forall>r \<in> st_rule ` set (e_states e'). rule_fits loc (i_field inp) r" by simp
  then show ?thesis using i by (simp add: event_input_ok_def)
qed

lemma on_correlation_ok:
  assumes "engine_inv loc e G" "event_input_ok loc inp e" "call_inv inp e G P c" "i < length (e_states e)"
    "i \<notin> set P \<Longrightarrow> find (\<lambda>rid. rid \<in> set (r_base (st_rule (e_states e ! i)))) (i_rids inp) = Some rid"
  shows "\<exists>c'. on_correlation inp rid (of_nat i) c = Some c' \<and> call_inv inp e G (P @ [i]) c'"
proof -
  let ?n = "length (e_states e)" and ?r = "st_rule (e_states e ! i)"
  have c: "same_frame e (c_engine c)" "c_visited c = map (\<lambda>i. i \<in> set P) [0..<?n]"
    "\<And>i. i < ?n \<Longrightarrow> groups_rep (st_map (e_states (c_engine c) ! i)) (if i \<in> set P then fst (effect inp e G i) else G ! i)"
    "c_fired c = length (fires_of inp e G (first_occ P))"
    "map bare (c_out c) = take (o_max inp) (map (fire_at inp e G) (fires_of inp e G (first_occ P)))"
    "\<And>f k. f \<in> set (c_out c) \<Longrightarrow> f_group f = Some k \<Longrightarrow>
      \<exists>i \<in> set P. key_of inp (st_rule (e_states e ! i)) = Some k \<and> f_rule_id f = r_id (st_rule (e_states e ! i))"
    using assms(3) unfolding call_inv_def by blast+
  note fr = same_frameD [OF c(1)]
  show ?thesis
  proof (cases "i \<in> set P")
    case True
    have "?n < 2 ^ 32" using assms(1) by (simp add: engine_inv_def)
    then have "unat (of_nat i :: u32) = i" using assms(4) by (simp add: unat_of_nat)
    moreover have "idx (c_visited c) i = Some True" using assms(4) True by (simp add: c(2))
    moreover have "call_inv inp e G (P @ [i]) c" using assms(3) True by (auto simp: call_inv_def first_occ_snoc insert_absorb)
    ultimately show ?thesis by (simp add: on_correlation_def)
  next
    case new: False
    define G1 where "G1 = map (\<lambda>i. if i \<in> set P then fst (effect inp e G i) else G ! i) [0..<?n]"
    have G1: "G1 ! j = (if j \<in> set P then fst (effect inp e G j) else G ! j)" if "j < ?n" for j using that by (simp add: G1_def)
    note sr = same_frame_rules [OF c(1)]
    have inv: "engine_inv loc (c_engine c) G1"
    proof (rule engine_inv_same [OF assms(1) sr])
      show "groups_rep (st_map (e_states (c_engine c) ! j)) (G1 ! j) \<and> groups_inv loc (st_rule (e_states e ! j)) (e_caps e) (G1 ! j)"
        if "j < ?n" for j
        using c(3) [OF that] effect_ok(1) [OF assms(1,2) that] assms(1) that by (simp add: G1 engine_inv_def)
    qed (simp add: G1_def)
    note ef = effect_same [OF sr assms(4), of G1 G inp]
    have e1: "effect inp (c_engine c) G1 i = effect inp e G i" "fire_at inp (c_engine c) G1 i = fire_at inp e G i"
      using ef G1 [OF assms(4)] new by simp_all
    have key: "key_of inp ?r = key_by inp ?r rid" using assms(5) [OF new] by (simp add: key_of_def)
    note nl = fr(1) fr(2) [OF assms(4)]
    have pre: "length (c_visited c) = length (e_states (c_engine c))" "i < length (e_states (c_engine c))" "\<not> c_visited c ! i"
      "key_of inp (st_rule (e_states (c_engine c) ! i)) = key_by inp (st_rule (e_states (c_engine c) ! i)) rid"
      unfolding nl using assms(4) new key by (simp_all add: c(2))
    obtain c' fs where v: "on_correlation inp rid (of_nat i) c = Some c'" "c_visited c' = (c_visited c)[i := True]"
      "same_frame (c_engine c) (c_engine c')"
      "\<And>j. j < ?n \<Longrightarrow> groups_rep (st_map (e_states (c_engine c') ! j)) (if j = i then fst (effect inp e G i) else G1 ! j)"
      "c_fired c' = c_fired c + (if snd (effect inp e G i) = None then 0 else 1)" "c_out c' = c_out c @ fs"
      "map bare fs = (if snd (effect inp e G i) = None \<or> o_max inp \<le> c_fired c then [] else [fire_at inp e G i])"
      "\<And>f k. f \<in> set fs \<Longrightarrow> f_group f = Some k \<Longrightarrow> key_of inp ?r = Some k \<and> f_rule_id f = r_id ?r"
      by (rule visit_ok [OF inv event_input_same [OF sr assms(2)] pre, unfolded nl e1]) blast
    have fo: "fires_of inp e G (first_occ (P @ [i])) = fires_of inp e G (first_occ P) @ (if snd (effect inp e G i) = None then [] else [i])"
      using new by (simp add: first_occ_snoc fires_snoc)
    have "call_inv inp e G (P @ [i]) c'"
    proof (rule call_invI)
      show "same_frame e (c_engine c')" using c(1) v(3) by (simp add: same_frame_def)
      show "c_visited c' = map (\<lambda>j. j \<in> set (P @ [i])) [0..<?n]"
        unfolding v(2) c(2) using assms(4) by (intro nth_equalityI) (auto simp: nth_list_update)
      show "groups_rep (st_map (e_states (c_engine c') ! j)) (if j \<in> set (P @ [i]) then fst (effect inp e G j) else G ! j)" if "j < ?n" for j
        using v(4) [OF that] G1 [OF that] new by (cases "j = i") simp_all
      show "map bare (c_out c') = take (o_max inp) (map (fire_at inp e G) (fires_of inp e G (first_occ (P @ [i]))))"
        unfolding fo v(6) map_append v(7) c(5) c(4) by (simp add: take_Cons')
      show "\<exists>i \<in> set (P @ [i]). key_of inp (st_rule (e_states e ! i)) = Some k \<and> f_rule_id f = r_id (st_rule (e_states e ! i))"
        if "f \<in> set (c_out c')" "f_group f = Some k" for f k
        using that c(6) [of f k] v(8) [of f k] unfolding v(6) by auto
    qed (simp add: v(5) c(4) fo)
    then show ?thesis using v(1) by blast
  qed
qed

lemma watchers_lt: "i \<in> set (watchers sts rid) \<longleftrightarrow> i < length sts \<and> rid \<in> set (r_base (st_rule (sts ! i)))"
  by (auto simp: watchers_def)

lemma find_first:
  assumes "\<forall>y \<in> set ys. \<not> P y" "P x"
  shows "find P (ys @ x # zs) = Some x"
  using assms by (induction ys) auto

lemma on_watchers:
  assumes "engine_inv loc e G" "event_input_ok loc inp e" "i_rids inp = rs @ rid # rest"
    "call_inv inp e G (concat (map (watchers (e_states e)) rs)) c" "set ws \<subseteq> set (watchers (e_states e) rid)"
  shows "\<exists>c'. mfold (on_correlation inp rid) (map of_nat ws) c = Some c' \<and>
    call_inv inp e G (concat (map (watchers (e_states e)) rs) @ ws) c'"
  using assms(5)
proof (induction ws rule: rev_induct)
  case Nil
  then show ?case using assms(4) by simp
next
  case (snoc i ws)
  let ?P = "concat (map (watchers (e_states e)) rs)"
  obtain c1 where 1: "mfold (on_correlation inp rid) (map of_nat ws) c = Some c1" "call_inv inp e G (?P @ ws) c1"
    using snoc by auto
  have i: "i < length (e_states e)" "rid \<in> set (r_base (st_rule (e_states e ! i)))" using snoc.prems by (simp_all add: watchers_lt)
  have "find (\<lambda>rid. rid \<in> set (r_base (st_rule (e_states e ! i)))) (i_rids inp) = Some rid" if "i \<notin> set (?P @ ws)"
    unfolding assms(3) using that i by (intro find_first) (auto simp: watchers_lt)
  from on_correlation_ok [OF assms(1,2) 1(2) i(1) this] 1(1) show ?case by (auto simp: mfold_append)
qed

lemma on_rids:
  assumes "engine_inv loc e G" "event_input_ok loc inp e" "i_rids inp = rs @ rest" "call_inv inp e G [] c"
  shows "\<exists>c'. mfold (on_rid inp) rs c = Some c' \<and> call_inv inp e G (concat (map (watchers (e_states e)) rs)) c'"
  using assms(3)
proof (induction rs arbitrary: rest rule: rev_induct)
  case Nil
  then show ?case using assms(4) by simp
next
  case (snoc rid rs)
  obtain c1 where 1: "mfold (on_rid inp) rs c = Some c1" "call_inv inp e G (concat (map (watchers (e_states e)) rs)) c1"
    using snoc.IH [of "rid # rest"] snoc.prems by auto
  have "rid_index_find (c_engine c1) rid = Some (entry (watchers (e_states e) rid))"
  proof -
    have "same_frame e (c_engine c1)" "index_exact e" using 1(2) assms(1) by (simp_all add: call_inv_def engine_inv_def)
    then show ?thesis by (simp add: same_frameD(6) index_exact_def)
  qed
  then have r: "on_rid inp rid c1 = mfold (on_correlation inp rid) (map of_nat (watchers (e_states e) rid)) c1"
    by (simp add: on_rid_def entry_def)
  have "i_rids inp = rs @ rid # rest" using snoc.prems by simp
  from on_watchers [OF assms(1,2) this 1(2), of "watchers (e_states e) rid"] show ?case
    using 1(1) r by (auto simp: mfold_append)
qed

subsection \<open>The sweep\<close>

definition swept :: "f64 \<Rightarrow> corr_rule \<Rightarrow> (bytes list \<times> group) list \<Rightarrow> (bytes list \<times> group) list" where
  "swept now r gs = filter (\<lambda>(_, g). \<not> f64_lt (last_update g) (f64_sub now (f64_of_int (r_timespan r)))) gs"

definition sweep_due :: "f64 \<Rightarrow> corr_engine \<Rightarrow> bool" where
  "sweep_due now e \<longleftrightarrow> e_sweep_seen e \<and> \<not> f64_lt (f64_sub now (e_last_sweep e)) (sweep_interval_s (e_caps e))"

definition after_sweep :: "f64 \<Rightarrow> corr_engine \<Rightarrow> group_lists \<Rightarrow> group_lists" where
  "after_sweep now e G = (if sweep_due now e then map (\<lambda>i. swept now (st_rule (e_states e ! i)) (G ! i)) [0..<length G] else G)"

lemma groups_inv_filter: "groups_inv loc r caps gs \<Longrightarrow> groups_inv loc r caps (filter P gs)"
  using order_trans [OF length_filter_le [of P gs]] by (auto simp: groups_inv_def distinct_map_filter)

lemma sweep_state_ok:
  assumes "rule_inv (st_rule st)" "groups_rep (st_map st) gs"
  shows "\<exists>st'. sweep_state now st = Some st' \<and> st_rule st' = st_rule st \<and> groups_rep (st_map st') (swept now (st_rule st) gs)"
proof -
  have "0 < r_timespan (st_rule st)" using assms(1) rule_validD(2) by (simp add: rule_inv_def)
  then show ?thesis
    using cstate_drop_ok [OF assms(2), of "f64_sub now (f64_of_int (r_timespan (st_rule st)))"]
    by (auto simp: sweep_state_def swept_def)
qed

lemma sweep_ok:
  assumes "engine_inv loc e G"
  shows "\<exists>e'. sweep_if_due now e = Some e' \<and> same_rules e e' \<and> engine_inv loc e' (after_sweep now e G)"
proof (cases "sweep_due now e")
  case False
  let ?e = "if e_sweep_seen e then e else e\<lparr>e_last_sweep := now, e_sweep_seen := True\<rparr>"
  have "sweep_if_due now e = Some ?e" using False by (auto simp: sweep_if_due_def sweep_due_def)
  moreover have s: "same_rules e ?e" by (simp add: same_rules_def)
  moreover have "engine_inv loc ?e G"
    by (rule engine_inv_same [OF assms s]) (use assms in \<open>simp_all add: engine_inv_def\<close>)
  ultimately show ?thesis using False by (simp add: after_sweep_def)
next
  case True
  let ?n = "length (e_states e)"
  have inv: "rule_inv (st_rule (e_states e ! i))" "groups_rep (st_map (e_states e ! i)) (G ! i)"
    "groups_inv loc (st_rule (e_states e ! i)) (e_caps e) (G ! i)" if "i < ?n" for i using assms that by (simp_all add: engine_inv_def)
  have lG: "length G = ?n" using assms by (simp add: engine_inv_def)
  define I where "I = (\<lambda>(ys :: corr_state list) (sts :: corr_state list). length sts = length ys \<and>
      (\<forall>i < length ys. st_rule (sts ! i) = st_rule (e_states e ! i) \<and> groups_rep (st_map (sts ! i)) (swept now (st_rule (e_states e ! i)) (G ! i))))"
  have "\<exists>sts. mfold (\<lambda>st done. do { st' \<leftarrow> sweep_state now st; Some (done @ [st']) }) (e_states e) [] = Some sts \<and> I (e_states e) sts"
  proof (rule mfold_inv)
    show "I [] []" by (simp add: I_def)
    fix ys x zs sts assume xs: "e_states e = ys @ x # zs" and I: "I ys sts"
    have x: "x = e_states e ! length ys" "length ys < ?n" by (simp_all add: xs)
    obtain st' where "sweep_state now x = Some st'" "st_rule st' = st_rule x" "groups_rep (st_map st') (swept now (st_rule x) (G ! length ys))"
      using sweep_state_ok [OF inv(1,2) [OF x(2)], of now] x(1) by auto
    then show "\<exists>s'. (do { st' \<leftarrow> sweep_state now x; Some (sts @ [st']) }) = Some s' \<and> I (ys @ [x]) s'"
      using I x by (auto simp: I_def nth_append less_Suc_eq)
  qed
  then obtain sts where sts: "mfold (\<lambda>st done. do { st' \<leftarrow> sweep_state now st; Some (done @ [st']) }) (e_states e) [] = Some sts"
    "length sts = ?n" "\<And>i. i < ?n \<Longrightarrow> st_rule (sts ! i) = st_rule (e_states e ! i) \<and> groups_rep (st_map (sts ! i)) (swept now (st_rule (e_states e ! i)) (G ! i))"
    unfolding I_def by blast
  let ?e = "e\<lparr>e_last_sweep := now, e_states := sts\<rparr>"
  have "sweep_if_due now e = Some ?e" using True sts(1) by (simp add: sweep_if_due_def sweep_due_def)
  moreover have s: "same_rules e ?e" using sts by (simp add: same_rules_def list_eq_iff_nth_eq)
  moreover have "engine_inv loc ?e (after_sweep now e G)"
  proof (rule engine_inv_same [OF assms s])
    show "groups_rep (st_map (e_states ?e ! i)) (after_sweep now e G ! i) \<and> groups_inv loc (st_rule (e_states e ! i)) (e_caps e) (after_sweep now e G ! i)"
      if "i < ?n" for i
      using that True sts(3) [OF that] inv(3) [OF that] lG by (simp add: after_sweep_def swept_def groups_inv_filter)
  qed (simp add: after_sweep_def True lG)
  ultimately show ?thesis by blast
qed

subsection \<open>The call\<close>

lemma not_reached: "i \<notin> set (reached inp e) \<Longrightarrow> i < length (e_states e) \<Longrightarrow> effect inp e G i = (G ! i, None)"
proof -
  assume i: "i \<notin> set (reached inp e)" "i < length (e_states e)"
  then have "\<forall>rid \<in> set (i_rids inp). rid \<notin> set (r_base (st_rule (e_states e ! i)))" by (auto simp: reached_def watchers_lt)
  then have "find (\<lambda>rid. rid \<in> set (r_base (st_rule (e_states e ! i)))) (i_rids inp) = None" by (simp add: find_None_iff)
  then show ?thesis by (simp add: effect_def key_of_def)
qed

lemma call_start:
  "engine_inv loc e G \<Longrightarrow>
    call_inv inp e G [] \<lparr>c_engine = e, c_visited = replicate (length (e_states e)) False, c_out = [], c_fired = 0, c_used = 0\<rparr>"
  by (rule call_invI) (simp_all add: same_frame_def fires_of_def engine_inv_def map_replicate_const)

lemma event_call:
  assumes "engine_inv loc e G" "event_input_ok loc inp e" "i_rids inp \<noteq> []"
  defines "G1 \<equiv> after_sweep (i_ts inp) e G"
  shows "\<exists>e' out. corr_on_event_apply inp e = Some (e', out, length (fires_of inp e G1 (reached inp e))) \<and>
    same_rules e e' \<and> engine_inv loc e' (map (\<lambda>i. fst (effect inp e G1 i)) [0..<length (e_states e)]) \<and>
    map bare out = take (o_max inp) (map (fire_at inp e G1) (fires_of inp e G1 (reached inp e))) \<and>
    (\<forall>f \<in> set out. \<forall>k. f_group f = Some k \<longrightarrow>
      (\<exists>i < length (e_states e). key_of inp (st_rule (e_states e ! i)) = Some k \<and> f_rule_id f = r_id (st_rule (e_states e ! i))))"
proof (cases "e_states e = []")
  case True
  then have w: "watchers (e_states e) = (\<lambda>_. [])" by (simp add: fun_eq_iff watchers_def)
  have "concat (map (\<lambda>_. []) xs) = ([] :: nat list)" for xs :: "u32 list" by (induction xs) simp_all
  then have "reached inp e = []" unfolding reached_def w by (simp only: first_occ_Nil)
  moreover have "engine_inv loc e []" using assms(1) True by (simp add: engine_inv_def)
  ultimately show ?thesis using True by (simp add: corr_on_event_apply_def fires_of_def same_rules_def)
next
  case False
  obtain e1 where 1: "sweep_if_due (i_ts inp) e = Some e1" "same_rules e e1" "engine_inv loc e1 G1"
    using sweep_ok [OF assms(1)] unfolding G1_def by blast
  note sr = same_rulesD [OF 1(2)]
  have eff: "effect inp e1 G1 i = effect inp e G1 i" and fa: "fire_at inp e1 G1 i = fire_at inp e G1 i" if "i < length (e_states e)" for i
    using effect_same [OF 1(2) that] by simp_all
  have inp: "event_input_ok loc inp e1" by (rule event_input_same [OF 1(2) assms(2)])
  let ?c0 = "\<lparr>c_engine = e1, c_visited = replicate (length (e_states e1)) False, c_out = [], c_fired = 0, c_used = 0\<rparr>"
  let ?P = "concat (map (watchers (e_states e1)) (i_rids inp))"
  have "i_rids inp = i_rids inp @ []" by simp
  from on_rids [OF 1(3) inp this call_start [OF 1(3)]] obtain c where
    c: "mfold (on_rid inp) (i_rids inp) ?c0 = Some c" "call_inv inp e1 G1 ?P c" by blast
  have rch: "first_occ ?P = reached inp e" by (simp add: reached_def sr(3))
  have lt: "i < length (e_states e)" if "i \<in> set (reached inp e)" for i
    using that by (auto simp: reached_def watchers_lt)
  have fs: "fires_of inp e1 G1 (reached inp e) = fires_of inp e G1 (reached inp e)"
    unfolding fires_of_def using eff lt by (intro filter_cong) auto
  have fm: "map (fire_at inp e1 G1) (fires_of inp e G1 (reached inp e)) = map (fire_at inp e G1) (fires_of inp e G1 (reached inp e))"
    using fa lt by (simp add: fires_of_def)
  have ci: "same_frame e1 (c_engine c)" "c_fired c = length (fires_of inp e G1 (reached inp e))"
    "map bare (c_out c) = take (o_max inp) (map (fire_at inp e G1) (fires_of inp e G1 (reached inp e)))"
    "\<And>i. i < length (e_states e1) \<Longrightarrow> groups_rep (st_map (e_states (c_engine c) ! i)) (if i \<in> set ?P then fst (effect inp e1 G1 i) else G1 ! i)"
    "\<And>f k. f \<in> set (c_out c) \<Longrightarrow> f_group f = Some k \<Longrightarrow>
      \<exists>i \<in> set ?P. key_of inp (st_rule (e_states e1 ! i)) = Some k \<and> f_rule_id f = r_id (st_rule (e_states e1 ! i))"
    using c(2) unfolding call_inv_def rch fs fm by blast+
  have fin: "same_rules e1 (c_engine c)" by (rule same_frame_rules [OF ci(1)])
  have "same_rules e (c_engine c)" using fin 1(2) by (simp add: same_rules_def)
  moreover have "engine_inv loc (c_engine c) (map (\<lambda>i. fst (effect inp e G1 i)) [0..<length (e_states e)])"
  proof (rule engine_inv_same [OF 1(3) fin])
    fix i assume i: "i < length (e_states e1)"
    then have ie: "i < length (e_states e)" by (simp add: sr(1))
    have "(if i \<in> set ?P then fst (effect inp e1 G1 i) else G1 ! i) = fst (effect inp e G1 i)"
      using eff [OF ie] not_reached [OF _ ie, of inp G1] rch [symmetric] by auto
    then show "groups_rep (st_map (e_states (c_engine c) ! i)) (map (\<lambda>i. fst (effect inp e G1 i)) [0..<length (e_states e)] ! i) \<and>
        groups_inv loc (st_rule (e_states e1 ! i)) (e_caps e1) (map (\<lambda>i. fst (effect inp e G1 i)) [0..<length (e_states e)] ! i)"
      using ci(4) [OF i] effect_ok(1) [OF 1(3) inp i] eff [OF ie] ie by simp
  qed (simp add: sr(1))
  moreover have "corr_on_event_apply inp e = Some (c_engine c, c_out c, length (fires_of inp e G1 (reached inp e)))"
    using False assms(3) 1(1) c(1) ci(2) by (simp add: corr_on_event_apply_def)
  moreover have "\<exists>i < length (e_states e). key_of inp (st_rule (e_states e ! i)) = Some k \<and> f_rule_id f = r_id (st_rule (e_states e ! i))"
    if w: "f \<in> set (c_out c)" "f_group f = Some k" for f k
  proof -
    obtain i where i: "i \<in> set ?P" "key_of inp (st_rule (e_states e1 ! i)) = Some k" "f_rule_id f = r_id (st_rule (e_states e1 ! i))"
      using ci(5) [OF w] by blast
    have "i \<in> set (reached inp e)" using i(1) rch by (metis set_first_occ)
    from lt [OF this] i(2,3) sr(2) show ?thesis by auto
  qed
  ultimately show ?thesis using ci(3) by blast
qed

end
