(* ===== verification/Engine_Spec.thy ===== *)
theory Engine_Spec
  imports Event_Spec
begin

text \<open>
  The engine over its life: it starts with empty groups and an exact index, every event and
  every contribution keeps the invariant, a correlation stays silent on a group for one window
  after it fired there, and the caps bound the memory.
\<close>

section \<open>The new engine\<close>

text \<open>Rules within the C types, with aliases as long as the group-by, and caps that fit.\<close>

definition rules_fit :: "corr_rule list \<Rightarrow> bool" where
  "rules_fit rules \<longleftrightarrow> length rules < 2 ^ 28 \<and>
     (\<forall>r \<in> set rules. r_timespan r \<le> 2 ^ 31 \<and> (\<forall>fs. Some fs \<in> set (r_alias r) \<longrightarrow> length fs = length (r_group_by r)))"

definition caps_fit :: "corr_caps \<Rightarrow> bool" where
  "caps_fit caps \<longleftrightarrow> unat (max_groups caps) \<le> 2 ^ 28 \<and> unat (max_distinct caps) \<le> 2 ^ 28 \<and> unat (max_events_per_group caps) \<le> 2 ^ 28"

lemma sane_caps_ok: "caps_fit caps \<Longrightarrow> caps_ok (sane_caps caps)"
  by (auto simp: caps_fit_def caps_ok_def sane_caps_def unat_gt_0)

lemma engine_new_inv:
  assumes "rules_fit rules" "caps_fit caps"
  obtains e where "corr_engine_new rules caps = Some e" "engine_inv True e (map (\<lambda>_. []) (filter admitted rules))"
    "map st_rule (e_states e) = filter admitted rules" "e_caps e = sane_caps caps" "\<not> e_sweep_seen e"
proof -
  have len: "length (filter admitted rules) < 2 ^ 28" using assms(1) length_filter_le [of admitted rules] unfolding rules_fit_def by linarith
  obtain e where e: "corr_engine_new rules caps = Some e" "index_exact e"
    "e_states e = map (\<lambda>r. \<lparr>st_rule = r, st_map = lm_new 16\<rparr>) (filter admitted rules)"
    "e_caps e = sane_caps caps" "e_pct_cap e = max_events_per_group (sane_caps caps)" "e_sweep_seen e = False"
    by (rule corr_engine_new_ok [OF len])
  have rep: "groups_rep (lm_new 16) []" using lm_new_rep [of 16 hash_group_key] by (auto simp: groups_rep_def)
  have inv: "rule_inv r" if "r \<in> set (filter admitted rules)" for r
    using that assms(1) by (auto simp: rules_fit_def rule_inv_def admitted_def)
  have "engine_inv True e (map (\<lambda>_. []) (filter admitted rules))"
    using e(2-5) len sane_caps_ok [OF assms(2)] inv [OF nth_mem] rep by (simp add: engine_inv_def groups_inv_def)
  moreover have "map st_rule (e_states e) = filter admitted rules" by (simp add: e(3) comp_def)
  ultimately show ?thesis using that e by blast
qed

section \<open>Memory\<close>

text \<open>The groups of all correlations together.\<close>

lemma total_groups:
  assumes "engine_inv loc e G"
  shows "corr_engine_total_groups e = sum_list (map length G)"
    "corr_engine_total_groups e \<le> corr_engine_rule_count e * unat (max_groups (e_caps e))"
proof -
  have inv: "length G = length (e_states e)" "\<And>i. i < length (e_states e) \<Longrightarrow> unat (lm_count (st_map (e_states e ! i))) = length (G ! i)"
    "\<And>i. i < length (e_states e) \<Longrightarrow> length (G ! i) \<le> unat (max_groups (e_caps e))"
    using assms groups_count by (auto simp: engine_inv_def groups_inv_def)
  have f: "fold (\<lambda>st tot. tot + unat (lm_count (st_map st))) sts n = n + sum_list (map (\<lambda>st. unat (lm_count (st_map st))) sts)" for sts n
    by (induction sts arbitrary: n) simp_all
  have "map (\<lambda>st. unat (lm_count (st_map st))) (e_states e) = map length G"
    using inv(1,2) by (intro nth_equalityI) simp_all
  then show t: "corr_engine_total_groups e = sum_list (map length G)" by (simp add: corr_engine_total_groups_def f)
  have "sum_list (map length G) \<le> sum_list (map (\<lambda>_. unat (max_groups (e_caps e))) G)"
    using inv(1,3) by (intro sum_list_mono) (auto simp: in_set_conv_nth)
  then show "corr_engine_total_groups e \<le> corr_engine_rule_count e * unat (max_groups (e_caps e))"
    by (simp add: t inv(1) corr_engine_rule_count_def sum_list_triv)
qed

section \<open>Contributions\<close>

text \<open>A remote partial for a correlation whose observed value is not a converted aggregate.\<close>

definition contrib_ok :: "corr_contrib \<Rightarrow> corr_engine \<Rightarrow> bool" where
  "contrib_ok c e \<longleftrightarrow> ct_kind c \<noteq> CORR_CONTRIB_EVENT \<and>
     (\<forall>st \<in> set (e_states e). ct_corr_id c = r_id (st_rule st) \<longrightarrow> r_type (st_rule st) \<notin> {CORR_VALUE_SUM, CORR_VALUE_AVG})"

lemma merge_group_ok:
  assumes "group_ok r caps g" "caps_ok caps" "r_type r \<notin> {CORR_VALUE_SUM, CORR_VALUE_AVG}"
  shows "\<exists>f g' st'. merge_group r caps c ws g st = Some (f, Fin 0, g', st') \<and> group_ok r caps g' \<and> fired_until g' = fired_until g"
proof -
  have prune: "\<exists>g'. ev_prune ws h = Some g' \<and> group_ok r caps g' \<and> fired_until g' = fired_until h" if h: "group_ok r caps h" for h
  proof -
    have ok: "ring_ok h" using h by (simp add: group_ok_def)
    note p = ev_prune_ok [OF ok, of ws]
    have "numeric r \<longrightarrow> vals_ok (dropped (expired ws (ring_times h)) h)"
    proof
      assume "numeric r"
      then have "vals_ok h" using h by (simp add: group_ok_def)
      then obtain g' where "ev_prune ws h = Some g'" "vals_ok g'" by (rule ev_prune_vals)
      then show "vals_ok (dropped (expired ws (ring_times h)) h)" using p(1) by simp
    qed
    then show ?thesis using p(1) group_ok_ring [OF h p(4,2)] ring_onlyD(9) [OF p(4)] by blast
  qed
  show ?thesis
  proof (cases "ct_kind c")
    case CORR_CONTRIB_EVENT
    then have "merge_group r caps c ws g st = Some (False, Fin 0, g, st)" by (simp add: merge_group_def)
    then show ?thesis using assms(1) by blast
  next
    case CORR_CONTRIB_COUNT
    have "group_ok r caps (g\<lparr>merge_n := merge_n g + (if ct_count c \<noteq> 0 then ct_count c else 1)\<rparr>)" using assms(1) by simp
    from prune [OF this] show ?thesis using CORR_CONTRIB_COUNT by (auto simp: merge_group_def Let_def)
  next
    case CORR_CONTRIB_SUM
    have "group_ok r caps (g\<lparr>merge_sum := f64_add (merge_sum g) (ct_numeric c), merge_n := merge_n g + (if ct_count c \<noteq> 0 then ct_count c else 1)\<rparr>)"
      using assms(1) by simp
    from prune [OF this] show ?thesis using CORR_CONTRIB_SUM assms(3) by (auto simp: merge_group_def Let_def)
  next
    case CORR_CONTRIB_DISTINCT
    obtain f g' st' where v: "eval_value_count r (ct_value c) (max_distinct caps) (ct_ts c) ws g st = Some (f, g', st')" "group_ok r caps g'" "keeps g g'"
      using value_count_result [OF assms(1,2)] by blast
    show ?thesis
    proof (cases "r_type r = CORR_VALUE_COUNT \<and> ct_value c \<noteq> None")
      case True
      then show ?thesis using CORR_CONTRIB_DISTINCT v by (simp add: merge_group_def keeps_def)
    next
      case False
      then have "merge_group r caps c ws g st = Some (False, Fin 0, g, st)" using CORR_CONTRIB_DISTINCT by (auto simp: merge_group_def)
      then show ?thesis using assms(1) by blast
    qed
  next
    case CORR_CONTRIB_SEEN
    let ?g = "g\<lparr>merge_seen := merge_seen g OR ct_seen_mask c\<rparr>"
    have ok: "group_ok r caps ?g" "length (seen ?g) \<le> 64" using assms(1) by (simp_all add: group_ok_def)
    obtain xs st' where "temporal_record_seen [] (ct_ts c) ws ?g st = (?g\<lparr>seen := xs\<rparr>, st')" "length xs \<le> 64"
      by (rule record_seen_shape [OF ok(2)])
    then have t: "eval_temporal r [] (ct_ts c) ws ?g st =
        (if r_cond r \<noteq> [] then corr_cond_eval (r_cond r) (corr_seen_mask r (?g\<lparr>seen := xs\<rparr>))
         else (\<forall>i \<in> set [0..<min (length (r_base r)) 64]. corr_seen_mask r (?g\<lparr>seen := xs\<rparr>) AND push_bit i 1 \<noteq> 0), ?g\<lparr>seen := xs\<rparr>, st')"
      by (simp add: eval_temporal_def Let_def)
    show ?thesis
    proof (cases "r_type r = CORR_TEMPORAL")
      case True
      have "group_ok r caps (?g\<lparr>seen := xs\<rparr>)" by (rule group_ok_seen [OF ok(1)]) fact
      then show ?thesis using CORR_CONTRIB_SEEN True t by (simp add: merge_group_def Let_def)
    next
      case False
      then have "merge_group r caps c ws g st = Some (False, Fin 0, ?g, st)" using CORR_CONTRIB_SEEN by (simp add: merge_group_def Let_def)
      then show ?thesis using ok(1) by fastforce
    qed
  qed
qed

lemma merge_state_ok:
  assumes "groups_rep m gs" "groups_inv loc r caps gs" "caps_ok caps" "rule_inv r" "r_type r \<notin> {CORR_VALUE_SUM, CORR_VALUE_AVG}"
  shows "\<exists>m' st' fire gs'. merge_state r caps c k m st = Some (m', st', fire) \<and> groups_rep m' gs' \<and> groups_inv False r caps gs' \<and>
    (fire \<noteq> None \<longrightarrow> \<not> f64_lt (ct_ts c) (fired_until (the_group caps k gs)))"
proof -
  have gi: "length gs \<le> unat (max_groups caps)" "distinct (map fst gs)" "\<forall>g \<in> snd ` set gs. group_inv loc r caps g"
    using assms(2) by (simp_all add: groups_inv_def)
  have c: "0 < unat (max_groups caps)" "unat (max_groups caps) \<le> 2 ^ 28" using assms(3) by (simp_all add: caps_ok_def)
  obtain a m1 where get: "cstate_get_or_create caps k m st = Some (a, m1, count_evict caps k gs st)"
    and last: "at_last a m1 (others caps k gs @ [(k, the_group caps k gs)])"
    using cstate_get_ok [OF assms(1) c gi(1), of k st] unfolding get_group_eq count_evict_def by blast
  obtain n where n: "lm_heap m1 a = Some n" "n_val n = the_group caps k gs" by (rule at_last_read [OF last])
  define g0 where "g0 = (the_group caps k gs)\<lparr>last_update := ct_ts c, merge_remote := True\<rparr>"
  have "group_ok r caps g0" using the_group_inv [OF assms(2,3,4), of k] by (simp add: g0_def group_inv_def)
  from merge_group_ok [OF this assms(3,5), of c "f64_sub (ct_ts c) (f64_of_int (r_timespan r))" "count_evict caps k gs st"] obtain f g1 st1 where
    1: "merge_group r caps c (f64_sub (ct_ts c) (f64_of_int (r_timespan r))) g0 (count_evict caps k gs st) = Some (f, Fin 0, g1, st1)"
    "group_ok r caps g1" "fired_until g1 = fired_until g0" by blast
  have fu: "fired_until g1 = fired_until (the_group caps k gs)" using 1(3) by (simp add: g0_def)
  have inv: "groups_inv False r caps (others caps k gs @ [(k, g)])" if "group_ok r caps g" for g
    using others_length [OF gi(1) c(1), of k] others_distinct(1) [OF gi(2), of caps k] others_distinct(2) [OF gi(2), of k caps]
      others_sub [of caps k gs] gi(3) that by (fastforce simp: groups_inv_def group_inv_def)
  have wr: "\<exists>m'. set_val a g m1 = Some m' \<and> groups_rep m' (others caps k gs @ [(k, g)])" for g
    using at_last_write [OF last, of g] at_last_rep by metis
  have obs: "merge_observed r g agg \<noteq> None" for g agg using assms(5) by (cases "r_type r") (simp_all add: merge_observed_def)
  define g2 where "g2 = g1\<lparr>fired_until := deadline r (ct_ts c)\<rparr>"
  note def = merge_state_def get n g0_def [symmetric] deadline_def [symmetric] Let_def
  consider "\<not> f" | f "f64_lt (ct_ts c) (fired_until g1)" | f "\<not> f64_lt (ct_ts c) (fired_until g1)" by blast
  then show ?thesis
  proof cases
    case 1
    obtain m' where "set_val a g1 m1 = Some m'" "groups_rep m' (others caps k gs @ [(k, g1)])" using wr by blast
    then show ?thesis using 1 \<open>merge_group _ _ _ _ _ _ = _\<close> inv [OF \<open>group_ok r caps g1\<close>] by (auto simp: def)
  next
    case 2
    obtain m' where "set_val a g1 m1 = Some m'" "groups_rep m' (others caps k gs @ [(k, g1)])" using wr by blast
    then show ?thesis using 2 \<open>merge_group _ _ _ _ _ _ = _\<close> inv [OF \<open>group_ok r caps g1\<close>] by (auto simp: def)
  next
    case 3
    obtain m' where m': "set_val a g2 m1 = Some m'" "groups_rep m' (others caps k gs @ [(k, g2)])" using wr by blast
    obtain o1 where "merge_observed r g2 (Fin 0) = Some o1" using obs by blast
    moreover have "group_ok r caps g2" using \<open>group_ok r caps g1\<close> by (simp add: g2_def)
    ultimately show ?thesis using 3 m' \<open>merge_group _ _ _ _ _ _ = _\<close> inv [of g2] fu by (auto simp: def g2_def [symmetric])
  qed
qed

text \<open>A contribution keeps the invariant and fires at most once.\<close>

lemma contribution_call:
  assumes "engine_inv loc e G" "contrib_ok c e"
  shows "\<exists>e' out n G'. corr_on_contribution c field_fn max_out slots e = Some (e', out, n) \<and> same_rules e e' \<and> engine_inv False e' G' \<and>
    n \<le> 1 \<and> length out = min n max_out"
proof -
  have weak: "engine_inv False e' G'" if "engine_inv loc e' G'" for e' G'
    using that by (auto simp: engine_inv_def groups_inv_def group_inv_def)
  have ret: ?thesis if "corr_on_contribution c field_fn max_out slots e = Some (e', [], 0)" "same_rules e e'" "engine_inv loc e' G'" for e' G'
    using that weak [OF that(3)] by (intro exI [of _ e'] exI [of _ "[]"] exI [of _ 0] exI [of _ G']) simp
  have kind: "ct_kind c \<noteq> CORR_CONTRIB_EVENT" using assms(2) by (simp add: contrib_ok_def)
  have self: "same_rules e e" by (simp add: same_rules_def)
  show ?thesis
  proof (cases "ct_corr_id c = None \<or> ct_corr_id c = Some []")
    case True
    then have "corr_on_contribution c field_fn max_out slots e = Some (e, [], 0)" using kind by (auto simp: corr_on_contribution_def)
    from ret [OF this self assms(1)] show ?thesis .
  next
    case False
    then obtain cid where cid: "ct_corr_id c = Some cid" "cid \<noteq> []" by auto
    obtain e1 where 1: "sweep_if_due (ct_ts c) e = Some e1" "same_rules e e1" "engine_inv loc e1 (after_sweep (ct_ts c) e G)"
      using sweep_ok [OF assms(1)] by blast
    show ?thesis
    proof (cases "find_state cid e1")
      case None
      then have "corr_on_contribution c field_fn max_out slots e = Some (e1, [], 0)" using kind cid 1(1) by (simp add: corr_on_contribution_def Let_def)
      from ret [OF this 1(2,3)] show ?thesis .
    next
      case (Some i)
      then have i: "i < length (e_states e1)" "same_id cid (e_states e1 ! i)" by (auto simp: find_state_def find_Some_iff)
      let ?r = "st_rule (e_states e1 ! i)" and ?gs = "after_sweep (ct_ts c) e G ! i"
      have ty: "r_type ?r \<notin> {CORR_VALUE_SUM, CORR_VALUE_AVG}"
      proof -
        have "i < length (e_states e)" "st_rule (e_states e ! i) = ?r" using i(1) same_rulesD(1,2) [OF 1(2)] by simp_all
        then show ?thesis using assms(2) i(2) cid(1) unfolding contrib_ok_def same_id_def by (metis nth_mem)
      qed
      have iv: "rule_inv ?r" "groups_rep (st_map (e_states e1 ! i)) ?gs" "groups_inv loc ?r (e_caps e1) ?gs" "caps_ok (e_caps e1)"
        using 1(3) i(1) by (simp_all add: engine_inv_def)
      let ?skip = "map_stats (\<lambda>s. s\<lparr>event_skipped_missing_field := event_skipped_missing_field s + 1\<rparr>) e1"
      have sk: "same_rules e ?skip" "engine_inv loc ?skip (after_sweep (ct_ts c) e G)"
        using 1(2,3) by (simp_all add: same_rules_def map_stats_def engine_inv_def index_exact_def rid_index_find_def)
      show ?thesis
      proof (cases "length (ct_group_vals c) \<noteq> length (r_group_by ?r) \<or> None \<in> set (ct_group_vals c)")
        case True
        then have "corr_on_contribution c field_fn max_out slots e = Some (?skip, [], 0)"
          using kind cid 1(1) Some by (simp add: corr_on_contribution_def Let_def)
        from ret [OF this sk] show ?thesis .
      next
        case False
        let ?k = "map the (ct_group_vals c)"
        obtain m st fire gs' where m: "merge_state ?r (e_caps e1) c ?k (st_map (e_states e1 ! i)) (e_stats e1) = Some (m, st, fire)"
          "groups_rep m gs'" "groups_inv False ?r (e_caps e1) gs'"
          using merge_state_ok [OF iv(2,3,4,1) ty] by blast
        define e2 where "e2 = e1\<lparr>e_states := (e_states e1)[i := (e_states e1 ! i)\<lparr>st_map := m\<rparr>], e_stats := st\<rparr>"
        have s2: "same_rules e1 e2" using i(1) by (simp add: same_rules_def e2_def map_update list_update_same_conv)
        have "engine_inv False e2 ((after_sweep (ct_ts c) e G)[i := gs'])"
        proof (rule engine_inv_same [OF weak [OF 1(3)] s2])
          fix j assume j: "j < length (e_states e1)"
          have l: "length (after_sweep (ct_ts c) e G) = length (e_states e1)" using 1(3) by (simp add: engine_inv_def)
          show "groups_rep (st_map (e_states e2 ! j)) ((after_sweep (ct_ts c) e G)[i := gs'] ! j) \<and>
              groups_inv False (st_rule (e_states e1 ! j)) (e_caps e1) ((after_sweep (ct_ts c) e G)[i := gs'] ! j)"
            using weak [OF 1(3)] j m(2,3) i(1) l by (cases "j = i") (simp_all add: e2_def engine_inv_def)
        qed (use 1(3) in \<open>simp add: engine_inv_def\<close>)
        moreover have "same_rules e e2" using 1(2) s2 by (simp add: same_rules_def)
        moreover have st: "same_rules e (map_stats f e2) = same_rules e e2" "engine_inv False (map_stats f e2) G' = engine_inv False e2 G'" for f G'
          by (simp_all add: same_rules_def map_stats_def engine_inv_def index_exact_def rid_index_find_def)
        moreover have "corr_on_contribution c field_fn max_out slots e =
            (case fire of None \<Rightarrow> Some (e2, [], 0)
             | Some obs \<Rightarrow>
                 if max_out = 0 then Some (map_stats (\<lambda>s. s\<lparr>fires_truncated := fires_truncated s + 1\<rparr>) e2, [], 1)
                 else if length (r_group_by ?r) > 0 \<and> (case slots of Some cap \<Rightarrow> length (r_group_by ?r) \<le> cap | None \<Rightarrow> False)
                 then Some (e2, [mk_fire ?r (Some ?k) obs (merge_field ?r) True], 1)
                 else Some (if length (r_group_by ?r) > 0 then map_stats (\<lambda>s. s\<lparr>group_evidence_dropped := group_evidence_dropped s + 1\<rparr>) e2 else e2,
                            [mk_fire ?r None obs (merge_field ?r) True], 1))"
          using False kind cid 1(1) Some m(1) unfolding corr_on_contribution_def Let_def e2_def by simp
        ultimately show ?thesis by (cases fire; cases "max_out = 0") (auto split: if_splits intro!: exI)
      qed
    qed
  qed
qed

section \<open>Sessions\<close>

text \<open>An engine built from \<open>rules\<close> and used since; \<open>loc\<close> as long as there was no contribution.\<close>

inductive served :: "corr_rule list \<Rightarrow> corr_caps \<Rightarrow> bool \<Rightarrow> corr_engine \<Rightarrow> bool" for rules caps where
  built: "corr_engine_new rules caps = Some e \<Longrightarrow> served rules caps True e"
| event: "served rules caps loc e \<Longrightarrow> event_input_ok loc inp e \<Longrightarrow> corr_on_event_apply inp e = Some (e', out, n) \<Longrightarrow>
    served rules caps loc e'"
| contribution: "served rules caps loc e \<Longrightarrow> contrib_ok c e \<Longrightarrow>
    corr_on_contribution c field_fn max_out slots e = Some (e', out, n) \<Longrightarrow> served rules caps False e'"

lemma same_rules_trans: "same_rules e e1 \<Longrightarrow> same_rules e1 e2 \<Longrightarrow> same_rules e e2"
  by (simp add: same_rules_def)

lemma event_defined:
  assumes "engine_inv loc e G" "event_input_ok loc inp e"
  shows "\<exists>e' out n G'. corr_on_event_apply inp e = Some (e', out, n) \<and> same_rules e e' \<and> engine_inv loc e' G' \<and>
    length out = min n (o_max inp) \<and> n \<le> corr_engine_rule_count e"
proof (cases "i_rids inp = []")
  case True
  then show ?thesis using assms(1) by (simp add: corr_on_event_apply_def same_rules_def) blast
next
  case False
  let ?G = "after_sweep (i_ts inp) e G" and ?n = "length (e_states e)"
  let ?fires = "fires_of inp e ?G (reached inp e)"
  obtain e' out where e': "corr_on_event_apply inp e = Some (e', out, length ?fires)" "same_rules e e'"
    "engine_inv loc e' (map (\<lambda>i. fst (effect inp e ?G i)) [0..<?n])" "map bare out = take (o_max inp) (map (fire_at inp e ?G) ?fires)"
    using event_call [OF assms False] by blast
  have "length out = min (length ?fires) (o_max inp)" using arg_cong [OF e'(4), of length] by simp
  moreover have "length ?fires \<le> ?n"
  proof -
    have "distinct (reached inp e)" by (simp add: reached_def first_occ_def)
    moreover have "set (reached inp e) \<subseteq> {..<?n}" by (auto simp: reached_def watchers_lt)
    ultimately have "length (reached inp e) \<le> ?n" by (metis card_lessThan card_mono distinct_card finite_lessThan)
    then show ?thesis using length_filter_le le_trans unfolding fires_of_def by blast
  qed
  ultimately show ?thesis using e' by (auto simp: corr_engine_rule_count_def)
qed

lemma served_inv:
  assumes "rules_fit rules" "caps_fit caps" "served rules caps loc e"
  shows "\<exists>G. engine_inv loc e G \<and> map st_rule (e_states e) = filter admitted rules \<and> e_caps e = sane_caps caps"
  using assms(3)
proof (induction rule: served.induct)
  case (built e)
  then show ?case using engine_new_inv [OF assms(1,2)] by fastforce
next
  case (event loc e inp e' out n)
  then obtain G where "engine_inv loc e G" "map st_rule (e_states e) = filter admitted rules" "e_caps e = sane_caps caps" by blast
  with event_defined [OF this(1) event(2)] event(3) show ?case by (auto simp: same_rules_def)
next
  case (contribution loc e c field_fn max_out slots e' out n)
  then obtain G where "engine_inv loc e G" "map st_rule (e_states e) = filter admitted rules" "e_caps e = sane_caps caps" by blast
  with contribution_call [OF this(1) contribution(2), of field_fn max_out slots] contribution(3) show ?case by (auto simp: same_rules_def)
qed

section \<open>Silence after a fire\<close>

text \<open>
  One correlation over time: events on its groups and sweeps, in the order of their times,
  without evictions by the cap. The log \<open>fl\<close> holds the key and the time of each fire, latest first.
\<close>

inductive timeline :: "bool \<Rightarrow> corr_rule \<Rightarrow> corr_caps \<Rightarrow> u32 \<Rightarrow> f64 \<Rightarrow> (bytes list \<times> group) list \<Rightarrow> (bytes list \<times> f64) list \<Rightarrow> bool"
  for loc r caps pct where
  start: "timeline loc r caps pct t [] []"
| event: "timeline loc r caps pct t gs fl \<Longrightarrow> f64_le t ts \<Longrightarrow> f64_ok ts \<Longrightarrow> clock_ok ts \<Longrightarrow> rule_fits loc field_fn r \<Longrightarrow>
    \<not> get_evicts (unat (max_groups caps)) k gs \<Longrightarrow> corr_step r caps pct field_fn rids ts k gs = Some (gs', fire) \<Longrightarrow>
    timeline loc r caps pct ts gs' (if fire = None then fl else (k, ts) # fl)"
| sweep: "timeline loc r caps pct t gs fl \<Longrightarrow> f64_le t ts \<Longrightarrow> f64_ok ts \<Longrightarrow> clock_ok ts \<Longrightarrow> timeline loc r caps pct ts (swept ts r gs) fl"

text \<open>Before its deadline a time cannot look expired: the two roundings agree.\<close>

lemma not_expired:
  assumes "f64_ok u" "f64_ok t" "clock_ok u" "clock_ok t" "0 < r_timespan r" "r_timespan r \<le> 2 ^ 31" "f64_lt t (deadline r u)" "f64_le u v"
  shows "\<not> f64_lt v (f64_sub t (f64_of_int (r_timespan r)))"
proof -
  obtain a b where ab: "u = Fin a" "t = Fin b" "0 \<le> a" "a \<le> 2 ^ 32 - 1" "0 \<le> b" "b \<le> 2 ^ 32 - 1" using assms(3,4) by (auto simp: clock_ok_def)
  define T where "T = (of_int (r_timespan r) :: rat)"
  have T: "f64_of_int (r_timespan r) = Fin T" "0 \<le> T" "T \<le> 2 ^ 31"
    using assms(5,6) of_int_le_iff [of "r_timespan r" "2 ^ 31", where ?'a = rat] by (simp_all add: f64_of_int_def T_def rnd_of_int)
  have T1: "rnd T = Fin T" using T(1) by (simp add: f64_of_int_def T_def)
  have rep: "rnd a = Fin a" "rnd b = Fin b" using assms(1,2) by (simp_all add: f64_ok_def ab)
  have "b \<le> a + T"
  proof (rule ccontr)
    assume "\<not> b \<le> a + T"
    then have "f64_le (rnd (a + T)) (rnd b)" by (intro rnd_mono) simp
    moreover have "f64_lt (Fin b) (rnd (a + T))" using assms(7) by (simp add: deadline_def T(1) T1 ab)
    ultimately show False using rep(2) f64_le_lt_trans f64_lt_irrefl by metis
  qed
  then have "f64_le (rnd (b - T)) (rnd a)" by (intro rnd_mono) simp
  then have "f64_le (f64_sub t (f64_of_int (r_timespan r))) u" by (simp add: f64_sub_def T(1) ab rep(1))
  then have "f64_le (f64_sub t (f64_of_int (r_timespan r))) v" using assms(8) f64_le_trans by blast
  then show ?thesis using f64_le_lt_trans f64_lt_irrefl by metis
qed

lemma map_of_others:
  assumes "distinct (map fst gs)" "\<not> get_evicts (unat (max_groups caps)) k gs" "x \<noteq> k"
  shows "map_of (others caps k gs @ [(k, g)]) x = map_of gs x"
proof (cases "map_of gs k")
  case None
  then show ?thesis using assms by (simp add: others_def get_evicts_def map_add_def split: option.split)
next
  case (Some h)
  have "map_of (filter (\<lambda>(y, _). y \<noteq> k) gs) x = map_of gs x" using assms(3) by (induction gs) auto
  then show ?thesis using Some assms(3) by (simp add: others_def map_add_def split: option.split)
qed

lemma map_of_others_self:
  assumes "distinct (map fst gs)"
  shows "map_of (others caps k gs @ [(k, g)]) k = Some g"
proof -
  have "map_of (others caps k gs) k = None" using others_distinct(2) [OF assms, of k caps] by (simp add: map_of_eq_None_iff)
  then show ?thesis by (simp add: map_add_def)
qed

text \<open>Every fire whose silence lasts is remembered by its group; older fires of a key are past it.\<close>

definition remembered :: "corr_rule \<Rightarrow> f64 \<Rightarrow> (bytes list \<times> group) list \<Rightarrow> (bytes list \<times> f64) list \<Rightarrow> bool" where
  "remembered r t gs fl \<longleftrightarrow> (\<forall>(k, u) \<in> set fl. f64_ok u \<and> clock_ok u \<and> f64_le u t \<and>
     (f64_lt t (deadline r u) \<longrightarrow> (\<exists>g. map_of gs k = Some g \<and> f64_le (deadline r u) (fired_until g) \<and> f64_le u (last_update g))))"

definition spaced :: "corr_rule \<Rightarrow> (bytes list \<times> f64) list \<Rightarrow> bool" where
  "spaced r fl \<longleftrightarrow> sorted_wrt (\<lambda>(k, u) (k', u'). k = k' \<longrightarrow> \<not> f64_lt u (deadline r u')) fl"

lemma timeline_inv:
  assumes "timeline loc r caps pct t gs fl" "rule_inv r" "caps_ok caps" "max_events_per_group caps \<le> pct"
  shows "groups_inv loc r caps gs \<and> remembered r t gs fl \<and> spaced r fl"
  using assms(1)
proof (induction rule: timeline.induct)
  case (start t)
  show ?case by (simp add: groups_inv_def remembered_def spaced_def)
next
  case (event t gs fl ts field_fn k rids gs' fire)
  then have inv: "groups_inv loc r caps gs" "remembered r t gs fl" "spaced r fl" by simp_all
  have ds: "distinct (map fst gs)" using inv(1) by (simp add: groups_inv_def)
  obtain g fire' where g: "corr_step r caps pct field_fn rids ts k gs = Some (others caps k gs @ [(k, g)], fire')"
    "groups_inv loc r caps (others caps k gs @ [(k, g)])" "last_update g = ts"
    "case fire' of None \<Rightarrow> fired_until g = fired_until (the_group caps k gs)
     | Some _ \<Rightarrow> \<not> f64_lt ts (fired_until (the_group caps k gs)) \<and> fired_until g = deadline r ts \<and> corr_rule_hits r rids"
    by (rule corr_step_ok [OF inv(1) assms(2-4) event(4,5)])
  have gs': "gs' = others caps k gs @ [(k, g)]" "fire' = fire" using g(1) event(7) by simp_all
  have nn: "ts \<noteq> NaN" using event(4) by (auto simp: clock_ok_def)
  have old: "f64_ok u \<and> clock_ok u \<and> f64_le u ts" if "(k', u) \<in> set fl" for k' u
    using inv(2) that f64_le_trans [OF _ event(2)] by (auto simp: remembered_def)
  have live: "\<exists>h. map_of gs k' = Some h \<and> f64_le (deadline r u) (fired_until h) \<and> f64_le u (last_update h)"
    if m: "(k', u) \<in> set fl" and l: "f64_lt ts (deadline r u)" for k' u
  proof -
    have "f64_lt t (deadline r u)" using f64_le_lt_trans [OF event(2) l] .
    then show ?thesis using inv(2) m by (auto simp: remembered_def)
  qed
  have quiet: "\<not> f64_lt ts (deadline r u)" if m: "(k, u) \<in> set fl" and f: "fire \<noteq> None" for u
  proof
    assume l: "f64_lt ts (deadline r u)"
    obtain h where h: "map_of gs k = Some h" "f64_le (deadline r u) (fired_until h)" using live [OF m l] by blast
    then have "f64_lt ts (fired_until (the_group caps k gs))" using f64_lt_le_trans [OF l] by (simp add: the_group_def)
    then show False using g(4) f gs'(2) by auto
  qed
  have rem: "remembered r ts gs' fl"
    unfolding remembered_def
  proof (safe)
    fix k' u assume m: "(k', u) \<in> set fl"
    show "f64_ok u" "clock_ok u" "f64_le u ts" using old [OF m] by simp_all
    assume l: "f64_lt ts (deadline r u)"
    obtain h where h: "map_of gs k' = Some h" "f64_le (deadline r u) (fired_until h)" "f64_le u (last_update h)" using live [OF m l] by blast
    show "\<exists>h. map_of gs' k' = Some h \<and> f64_le (deadline r u) (fired_until h) \<and> f64_le u (last_update h)"
    proof (cases "k' = k")
      case False
      then show ?thesis using map_of_others [OF ds event(6) False, of g] h by (simp add: gs'(1))
    next
      case True
      then have "fire = None" using quiet m l by blast
      then have "fired_until g = fired_until h" using g(4) gs'(2) h(1) True by (simp add: the_group_def)
      then show ?thesis using map_of_others_self [OF ds, of caps k g] h(2) old [OF m] g(3) True by (simp add: gs'(1))
    qed
  qed
  show ?case
  proof (cases fire)
    case None
    then show ?thesis using g(2) gs' rem inv(3) by simp
  next
    case (Some f)
    have "f64_le (deadline r ts) (fired_until g)" if "f64_lt ts (deadline r ts)"
      using g(4) gs'(2) Some that by (cases "deadline r ts") auto
    then have "remembered r ts gs' ((k, ts) # fl)"
      using rem event(3,4) nn map_of_others_self [OF ds, of caps k g] g(3) by (simp add: remembered_def gs'(1))
    moreover have "spaced r ((k, ts) # fl)" using inv(3) quiet Some by (auto simp: spaced_def)
    ultimately show ?thesis using g(2) gs' Some by simp
  qed
next
  case (sweep t gs fl ts)
  then have inv: "groups_inv loc r caps gs" "remembered r t gs fl" "spaced r fl" by simp_all
  have ri: "0 < r_timespan r" "r_timespan r \<le> 2 ^ 31" using assms(2) rule_validD(2) by (simp_all add: rule_inv_def)
  have ds: "distinct (map fst gs)" using inv(1) by (simp add: groups_inv_def)
  have "remembered r ts (swept ts r gs) fl"
    unfolding remembered_def
  proof (safe)
    fix k u assume m: "(k, u) \<in> set fl"
    show o: "f64_ok u" "clock_ok u" "f64_le u ts" using inv(2) m f64_le_trans [OF _ sweep(2)] by (auto simp: remembered_def)
    assume l: "f64_lt ts (deadline r u)"
    have "f64_lt t (deadline r u)" using f64_le_lt_trans [OF sweep(2) l] .
    then obtain g where g: "map_of gs k = Some g" "f64_le (deadline r u) (fired_until g)" "f64_le u (last_update g)"
      using inv(2) m by (auto simp: remembered_def)
    have "\<not> f64_lt (last_update g) (f64_sub ts (f64_of_int (r_timespan r)))"
      by (rule not_expired [OF o(1) sweep(3) o(2) sweep(4) ri l g(3)])
    then have "(k, g) \<in> set (swept ts r gs)" using map_of_SomeD [OF g(1)] by (simp add: swept_def)
    moreover have "distinct (map fst (swept ts r gs))" using ds by (simp add: swept_def distinct_map_filter)
    ultimately have "map_of (swept ts r gs) k = Some g" by (rule map_of_is_SomeI [rotated])
    then show "\<exists>g. map_of (swept ts r gs) k = Some g \<and> f64_le (deadline r u) (fired_until g) \<and> f64_le u (last_update g)" using g by blast
  qed
  then show ?case using groups_inv_filter [OF inv(1)] inv(3) by (simp add: swept_def)
qed

text \<open>
  The same over the code's own map of groups: an event whose group is found, or for which there
  is room, and a sweep, from the empty map on.
\<close>

definition has_room :: "corr_caps \<Rightarrow> bytes list \<Rightarrow> cstate_map \<Rightarrow> bool" where
  "has_room caps k m \<longleftrightarrow> cstate_find k (hash_group_key k) m \<noteq> Some None \<or> lm_count m < max_groups caps"

inductive history :: "bool \<Rightarrow> corr_rule \<Rightarrow> corr_caps \<Rightarrow> u32 \<Rightarrow> f64 \<Rightarrow> cstate_map \<Rightarrow> (bytes list \<times> f64) list \<Rightarrow> bool"
  for loc r caps pct where
  start: "history loc r caps pct t (lm_new 16) []"
| event: "history loc r caps pct t m fl \<Longrightarrow> f64_le t ts \<Longrightarrow> f64_ok ts \<Longrightarrow> clock_ok ts \<Longrightarrow> rule_fits loc field_fn r \<Longrightarrow>
    has_room caps k m \<Longrightarrow> eval_state r caps pct field_fn rids ts k m stats = Some (m', stats', fire) \<Longrightarrow>
    history loc r caps pct ts m' (if fire = None then fl else (k, ts) # fl)"
| sweep: "history loc r caps pct t m fl \<Longrightarrow> f64_le t ts \<Longrightarrow> f64_ok ts \<Longrightarrow> clock_ok ts \<Longrightarrow>
    sweep_state ts \<lparr>st_rule = r, st_map = m\<rparr> = Some st \<Longrightarrow> history loc r caps pct ts (st_map st) fl"

lemma has_room_iff:
  assumes "groups_rep m gs" "unat (max_groups caps) \<le> 2 ^ 28"
  shows "has_room caps k m \<longleftrightarrow> \<not> get_evicts (unat (max_groups caps)) k gs"
proof -
  obtain xs where xs: "lm_rep hash_group_key m xs" "map snd xs = gs" using assms(1) by (auto simp: groups_rep_def)
  then have st: "stored hash_group_key m xs" by (simp add: lm_rep_def)
  have "map_of gs k = None \<longleftrightarrow> cstate_find k (hash_group_key k) m = Some None"
  proof
    assume "map_of gs k = None"
    then have "(a, k, v) \<notin> set xs" for a v using xs(2) by (force simp: map_of_eq_None_iff)
    then show "cstate_find k (hash_group_key k) m = Some None" unfolding cstate_find_def by (intro lm_find_out [OF st])
  next
    assume f: "cstate_find k (hash_group_key k) m = Some None"
    show "map_of gs k = None"
    proof (rule ccontr)
      assume "map_of gs k \<noteq> None"
      then obtain g where "(k, g) \<in> set gs" by (auto dest: map_of_SomeD)
      then obtain a where "(a, k, g) \<in> set xs" using xs(2) by auto
      from lm_find_in [OF st this] show False using f by (simp add: cstate_find_def)
    qed
  qed
  moreover have "lm_count m < max_groups caps \<longleftrightarrow> length gs < unat (max_groups caps)"
    by (simp add: word_less_nat_alt groups_count [OF assms(1)])
  ultimately show ?thesis by (auto simp: has_room_def get_evicts_def)
qed

lemma history_timeline:
  assumes "history loc r caps pct t m fl" "rule_inv r" "caps_ok caps" "max_events_per_group caps \<le> pct"
  shows "\<exists>gs. groups_rep m gs \<and> timeline loc r caps pct t gs fl"
  using assms(1)
proof (induction rule: history.induct)
  case (start t)
  have "groups_rep (lm_new 16) []" using lm_new_rep [of 16 hash_group_key] by (auto simp: groups_rep_def)
  then show ?case using timeline.start by blast
next
  case (event t m fl ts field_fn k rids stats m' stats' fire)
  then obtain gs where gs: "groups_rep m gs" "timeline loc r caps pct t gs fl" by blast
  have inv: "groups_inv loc r caps gs" using timeline_inv [OF gs(2) assms(2-4)] by simp
  have "\<not> get_evicts (unat (max_groups caps)) k gs"
    using has_room_iff [OF gs(1), of caps k] event(6) assms(3) by (simp add: caps_ok_def)
  obtain g fire' where s: "corr_step r caps pct field_fn rids ts k gs = Some (others caps k gs @ [(k, g)], fire')"
    by (rule corr_step_ok [OF inv assms(2-4) event(4,5)])
  with eval_state_step [OF gs(1) inv assms(3) s, of stats] event(7)
  have "groups_rep m' (others caps k gs @ [(k, g)])" "fire' = fire" by auto
  then show ?case using timeline.event [OF gs(2) event(2-5) \<open>\<not> get_evicts _ _ _\<close> s] by blast
next
  case (sweep t m fl ts st)
  then obtain gs where gs: "groups_rep m gs" "timeline loc r caps pct t gs fl" by blast
  then have "groups_rep (st_map st) (swept ts r gs)"
    using sweep_state_ok [of "\<lparr>st_rule = r, st_map = m\<rparr>" gs ts] assms(2) sweep(5) by auto
  then show ?case using timeline.sweep [OF gs(2) sweep(2-4)] by blast
qed

end
