(* ===== verification/Corr_Demo.thy ===== *)
theory Corr_Demo
  imports Engine_Spec
begin

text \<open>
  A small instance of the correlation engine: one rule that fires on the first event of a user,
  one event that matches its base rule. The properties are applied to it.
\<close>

definition demo_corr :: corr_rule where
  "demo_corr = \<lparr>r_id = Some (lit ''c1''), r_title = None, r_type = CORR_EVENT_COUNT, r_base = [7], r_ordered = [],
     r_group_by = [Some (lit ''user'')], r_alias = [], r_value_field = None, r_op = CORR_OP_GTE, r_count = 1, r_timespan = 3,
     r_level = Some (lit ''high''), r_mitre = None, r_cond = [], r_cv_permille = 0, r_n_buckets = 0, r_percentile = 0\<rparr>"

definition demo_caps :: corr_caps where
  "demo_caps = \<lparr>max_groups = 4, max_distinct = 4, max_events_per_group = 2, sweep_interval_s = Fin 30,
     event_time_ordering = False, watermark_s = Fin 0\<rparr>"

definition demo_event :: corr_input where
  "demo_event = \<lparr>i_field = (\<lambda>f. if f = lit ''user'' then Some (lit ''bob'') else None), i_rids = [7], i_ts = Fin 5,
     i_apply = (\<lambda>_ _. True), o_max = 8, o_slots = Some 8\<rparr>"

lemma demo_admitted: "filter admitted [demo_corr] = [demo_corr]"
  by (simp add: admitted_def demo_corr_def rule_valid_def is_empty_str_def lit_def)

lemma demo_fits: "rules_fit [demo_corr]" "caps_fit demo_caps" "sane_caps demo_caps = demo_caps"
  by (simp_all add: rules_fit_def caps_fit_def demo_corr_def demo_caps_def sane_caps_def)

lemma demo_engine:
  obtains e where "corr_engine_new [demo_corr] demo_caps = Some e" "engine_inv True e [[]]" "map st_rule (e_states e) = [demo_corr]"
    "e_caps e = demo_caps" "\<not> e_sweep_seen e"
  using engine_new_inv [OF demo_fits(1,2)] unfolding demo_admitted demo_fits(3) by auto

lemma demo_input_ok: "map st_rule (e_states e) = [demo_corr] \<Longrightarrow> event_input_ok True demo_event e"
  by (cases "e_states e") (auto simp: event_input_ok_def demo_event_def clock_ok_def rule_fits_def numeric_def demo_corr_def)

lemma demo_sub: "f64_sub (Fin 5) (Fin 3) = Fin 2"
  using rnd_of_int [of 2] by (simp add: f64_sub_def)

lemma demo_step:
  "\<exists>gs. corr_step demo_corr demo_caps pct (i_field demo_event) [7] (Fin 5) [lit ''bob''] [] = Some (gs, Some (1, False))"
proof -
  have T: "f64_of_int 3 = Fin 3" using rnd_of_int [of 3] by (simp add: f64_of_int_def)
  have two: "replicate 2 x = [x, x]" for x :: f64 by (simp add: numeral_2_eq_2)
  show ?thesis
    by (simp add: corr_step_def step_group_def the_group_def group_new_def demo_corr_def demo_caps_def demo_event_def T demo_sub
      event_hits_def eval_group_def eval_event_count_def ring_put_def ring_slot_def upd_def count_overwrite_def ev_prune_def ev_prune_loop.simps
      idx_def observed_of_def two)
qed

text \<open>The first event of the user.\<close>

lemma demo_call:
  assumes "map st_rule (e_states e) = [demo_corr]" "e_caps e = demo_caps" "\<not> e_sweep_seen e"
  defines "G1 \<equiv> after_sweep (i_ts demo_event) e [[]]"
  shows "length (e_states e) = 1" "fires_of demo_event e G1 (reached demo_event e) = [0]"
    "fire_at demo_event e G1 0 = mk_fire demo_corr None 1 None False"
proof -
  obtain st where st: "e_states e = [st]" "st_rule st = demo_corr" using assms(1) by auto
  then show "length (e_states e) = 1" by simp
  have g: "G1 = [[]]" using assms(3) by (simp add: G1_def after_sweep_def sweep_due_def)
  have k: "key_of demo_event demo_corr = Some [lit ''bob'']"
    by (simp add: key_of_def key_by_def corr_group_fields_def demo_event_def demo_corr_def all_some_def)
  have ev: "i_rids demo_event = [7]" "i_ts demo_event = Fin 5" by (simp_all add: demo_event_def)
  obtain gs where "effect demo_event e G1 0 = (gs, Some (1, False))"
    using demo_step [of "e_pct_cap e"] by (auto simp: effect_def st k g assms(2) ev)
  moreover have "watchers (e_states e) 7 = [0]" by (simp add: watchers_def st demo_corr_def)
  then have "reached demo_event e = [0]" by (simp add: reached_def ev first_occ_def)
  ultimately show "fires_of demo_event e G1 (reached demo_event e) = [0]"
    "fire_at demo_event e G1 0 = mk_fire demo_corr None 1 None False"
    by (auto simp: fires_of_def fire_at_def st demo_corr_def observed_field_def)
qed

lemma demo_rule_inv: "rule_inv demo_corr"
  by (simp add: rule_inv_def demo_corr_def rule_valid_def is_empty_str_def lit_def)

lemma demo_caps_ok: "caps_ok demo_caps"
  by (simp add: caps_ok_def demo_caps_def)

lemma demo_history: "\<exists>m. history True demo_corr demo_caps 2 (Fin 5) m [([lit ''bob''], Fin 5)]"
proof -
  have rep: "groups_rep (lm_new 16) []" using lm_new_rep [of 16 hash_group_key] by (auto simp: groups_rep_def)
  obtain gs where "corr_step demo_corr demo_caps 2 (i_field demo_event) [7] (Fin 5) [lit ''bob''] [] = Some (gs, Some (1, False))"
    using demo_step by blast
  then obtain m' s where ev: "eval_state demo_corr demo_caps 2 (i_field demo_event) [7] (Fin 5) [lit ''bob''] (lm_new 16) zero_stats =
      Some (m', s, Some (1, False))"
    using eval_state_step [OF rep, of True demo_corr demo_caps 2 "i_field demo_event" "[7]" "Fin 5" "[lit ''bob'']"] demo_caps_ok
    by (fastforce simp: groups_inv_def)
  have "has_room demo_caps [lit ''bob''] (lm_new 16)" by (simp add: has_room_def lm_new_def demo_caps_def)
  moreover have "f64_ok (Fin 5)" using f64_ok_int [of 5] by simp
  moreover have "rule_fits True (i_field demo_event) demo_corr" by (simp add: rule_fits_def numeric_def demo_corr_def)
  ultimately show ?thesis
    using history.event [OF history.start [of True demo_corr demo_caps 2 "Fin 0"] _ _ _ _ _ ev] by (auto simp: clock_ok_def)
qed

end
