(* ===== verification/Cli_Spec.thy ===== *)
theory Cli_Spec
  imports Sigma_Cli Corr_Demo Demo_Db
begin

text \<open>
  The two engines together: a line of input goes through the rules and, with the ids of the
  rules that matched, through the correlations.
\<close>

section \<open>Events from lines\<close>

text \<open>The tokenizer cuts at the tabs and drops the empty pieces.\<close>

lemma tab_split_join: "concat (tab_split cur cs) = cur @ filter (\<lambda>c. c \<noteq> 9) cs"
  by (induction cur cs rule: tab_split.induct) auto

lemma tab_split_pieces: "9 \<notin> set cur \<Longrightarrow> t \<in> set (tab_split cur cs) \<Longrightarrow> t \<noteq> [] \<and> 9 \<notin> set t"
  by (induction cur cs rule: tab_split.induct) (auto split: if_splits)

lemma parse_tokens_length: "length e \<le> 64 \<Longrightarrow> length (parse_tokens ts e) \<le> 64"
  by (induction ts e rule: parse_tokens.induct) auto

section \<open>Fires of an event\<close>

text \<open>Every fire is of a correlation with a base rule that matched.\<close>

lemma fires_watch:
  assumes "engine_inv loc e G" "event_input_ok loc inp e" "corr_on_event_apply inp e = Some (e', out, n)" "f \<in> set out"
  shows "\<exists>r \<in> st_rule ` set (e_states e). f_rule_id f = r_id r \<and> corr_rule_hits r (i_rids inp)"
proof (cases "i_rids inp = []")
  case True
  then show ?thesis using assms(3,4) by (simp add: corr_on_event_apply_def)
next
  case False
  let ?G = "after_sweep (i_ts inp) e G"
  have "map bare out = take (o_max inp) (map (fire_at inp e ?G) (fires_of inp e ?G (reached inp e)))"
    using event_call [OF assms(1,2) False] assms(3) by auto
  moreover have "bare f \<in> set (map bare out)" using assms(4) by simp
  ultimately have "bare f \<in> fire_at inp e ?G ` set (reached inp e)"
    using in_set_takeD by (fastforce simp: fires_of_def)
  then obtain i where i: "bare f = fire_at inp e ?G i" "i \<in> set (reached inp e)" by blast
  then obtain rid where rid: "rid \<in> set (i_rids inp)" "i < length (e_states e)" "rid \<in> set (r_base (st_rule (e_states e ! i)))"
    by (auto simp: reached_def watchers_lt)
  have "f_rule_id f = f_rule_id (bare f)" by (simp add: bare_def)
  also have "\<dots> = r_id (st_rule (e_states e ! i))" by (simp add: i(1) fire_at_def mk_fire_def Let_def split: prod.split)
  finally show ?thesis using rid by (auto simp: corr_rule_hits_def)
qed

section \<open>One line\<close>

text \<open>The rules in scope that match an event of a line.\<close>

definition matches :: "'re sigma_lib \<Rightarrow> sigma_db \<Rightarrow> kv_event \<Rightarrow> nat list" where
  "matches x d kvs = firing x d (ev_lookup kvs) (scope d (ev_lookup kvs))"

definition matched_ids :: "'re sigma_lib \<Rightarrow> sigma_db \<Rightarrow> kv_event \<Rightarrow> u32 list" where
  "matched_ids x d kvs = map (\<lambda>ri. hit_rule_id (hit_sem d (db_rules d ! ri))) (matches x d kvs)"

lemma cli_event_ok:
  assumes "ready x d dv" "session x d dv e" "e_prefilter_on e = 0 \<or> cnf_necessary x d (ev_lookup kvs) \<and> postings_scoped d"
    "rules_fit rules" "caps_fit caps" "served rules caps loc ce"
    "clock_ok (event_ts kvs lno)" "\<forall>r \<in> set (filter admitted rules). rule_fits loc (corr_lookup kvs) r"
    "length (matches x d kvs) \<le> 64"
  shows "\<exists>e' ce' fires. cli_event x d dv kvs lno (e, Some ce) =
      Some ((e', Some ce'), map (\<lambda>ri. hit_sem d (db_rules d ! ri)) (matches x d kvs), fires) \<and>
    session x d dv e' \<and> served rules caps loc ce' \<and> length fires \<le> 16 \<and>
    (\<forall>f \<in> set fires. \<exists>r \<in> set (filter admitted rules). f_rule_id f = r_id r \<and> corr_rule_hits r (matched_ids x d kvs))"
proof -
  let ?ev = "ev_lookup kvs"
  let ?hits = "map (\<lambda>ri. hit_sem d (db_rules d ! ri)) (matches x d kvs)"
  have "hits_of x d ?ev (Some 64) (scope d ?ev) = ?hits" using assms(9) by (simp add: hits_of_def buffered_def matches_def)
  then obtain e' where e': "sigma_eval_run x d dv ?ev (Some 64) e = Some (e', ?hits, length (matches x d kvs))" "session x d dv e'"
    using run_result_ok [OF assms(1) session_ok [OF assms(1,2)] assms(3), of "Some 64"] session.ran [OF assms(2,3)]
    unfolding run_result_def matches_def by metis
  show ?thesis
  proof (cases "matches x d kvs = []")
    case True
    then show ?thesis using e' assms(6) by (simp add: cli_event_def)
  next
    case False
    define inp where "inp = \<lparr>i_field = corr_lookup kvs, i_rids = map hit_rule_id ?hits, i_ts = event_ts kvs lno,
      i_apply = (\<lambda>_ _. True), o_max = 16, o_slots = Some (64 * 8)\<rparr>"
    obtain G where G: "engine_inv loc ce G" "map st_rule (e_states ce) = filter admitted rules" using served_inv [OF assms(4-6)] by blast
    have st: "st_rule ` set (e_states ce) = set (filter admitted rules)" using G(2) by (metis list.set_map)
    have "\<forall>r \<in> st_rule ` set (e_states ce). rule_fits loc (corr_lookup kvs) r" using assms(8) unfolding st .
    then have ok: "event_input_ok loc inp ce" using assms(7) by (simp add: event_input_ok_def inp_def)
    obtain ce' out n where c: "corr_on_event_apply inp ce = Some (ce', out, n)" "length out = min n 16"
      using event_defined [OF G(1) ok] by (auto simp: inp_def)
    have "corr_on_event inp ce = Some (ce', out, n)" using c(1) by (simp add: corr_on_event_def inp_def)
    then have run: "cli_event x d dv kvs lno (e, Some ce) = Some ((e', Some ce'), ?hits, out)"
      using False assms(9) e'(1) by (simp add: cli_event_def inp_def)
    have "i_rids inp = matched_ids x d kvs" by (simp add: inp_def matched_ids_def)
    then have "\<forall>f \<in> set out. \<exists>r \<in> set (filter admitted rules). f_rule_id f = r_id r \<and> corr_rule_hits r (matched_ids x d kvs)"
      using fires_watch [OF G(1) ok c(1)] unfolding st by metis
    then show ?thesis using run e'(2) served.event [OF assms(6) ok c(1)] c(2) by (intro exI conjI) auto
  qed
qed

text \<open>More than 64 matches: the engine is handed a count beyond the array of ids.\<close>

lemma cli_event_overread:
  assumes "ready x d dv" "session x d dv e" "e_prefilter_on e = 0 \<or> cnf_necessary x d (ev_lookup kvs) \<and> postings_scoped d"
    "64 < length (matches x d kvs)"
  shows "cli_event x d dv kvs lno (e, Some ce) = None"
proof -
  let ?ev = "ev_lookup kvs"
  obtain e' where "sigma_eval_run x d dv ?ev (Some 64) e = Some (e', hits_of x d ?ev (Some 64) (scope d ?ev), length (matches x d kvs))"
    using run_result_ok [OF assms(1) session_ok [OF assms(1,2)] assms(3), of "Some 64"] unfolding run_result_def matches_def by metis
  then show ?thesis using assms(4) by (auto simp: cli_event_def)
qed

end
