(* ===== verification/Format_Spec.thy ===== *)
theory Format_Spec
  imports Corr_Format Engine_Spec
begin

text \<open>
  What the artifact loader guarantees of every rule it returns, whatever the JSON text, and that
  such rules are what the engine expects.
\<close>

section \<open>Arrays\<close>

lemma parse_u32_array_length: "length (fst (parse_u32_array J o1 k ls)) \<le> 4096"
proof -
  have len: "length (fst (fold (u32_element J arr) is (out, ls))) \<le> length out + length is" for arr out ls and "is" :: "nat list"
  proof (induction "is" arbitrary: out ls)
    case (Cons i "is")
    obtain out' ls' where u: "u32_element J arr i (out, ls) = (out', ls')" by (cases "u32_element J arr i (out, ls)")
    then have "length out' \<le> Suc (length out)" by (auto simp: u32_element_def Let_def split: if_splits)
    with Cons [of out' ls'] u show ?case by simp
  qed simp
  have "length (fst (fold (u32_element J arr) [0..<min n 4096] ([], ls))) \<le> 4096" for arr n ls
    using len [of arr "[0..<min n 4096]" "[]" ls] by simp
  then show ?thesis by (simp add: parse_u32_array_def Let_def split: option.split)
qed

lemma parse_str_array_ok: "length (fst (parse_str_array J o1 k ls)) \<le> 8" "None \<notin> set (fst (parse_str_array J o1 k ls))"
  by (auto simp: parse_str_array_def Let_def string_element_def split: option.split)

section \<open>Conditions and aliases\<close>

text \<open>A token of a condition over \<open>n\<close> base rules.\<close>

definition token_ok :: "nat \<Rightarrow> corr_ctok \<Rightarrow> bool" where
  "token_ok n t = (case t of C_SEL i \<Rightarrow> unat i < n \<and> unat i < 64 | C_BAD \<Rightarrow> False | _ \<Rightarrow> True)"

lemma cond_token_ok: "cond_token J n el = Some t \<Longrightarrow> token_ok n t"
proof -
  have "unat (word_of_int r :: u32) = nat r" if "0 \<le> r" "r < 64" for r :: int
    using that by (simp add: unsigned_of_int take_bit_int_eq_self)
  then show "cond_token J n el = Some t \<Longrightarrow> token_ok n t"
    by (auto simp: cond_token_def token_ok_def split: bind_splits if_splits)
qed

lemma mfold_collect:
  assumes "mfold (\<lambda>i out. map_option (\<lambda>t. out @ [t]) (f i)) is out = Some ts"
  shows "\<exists>us. ts = out @ us \<and> length us = length is \<and> (\<forall>u \<in> set us. \<exists>i \<in> set is. f i = Some u)"
  using assms
proof (induction "is" arbitrary: out)
  case (Cons i "is")
  then obtain t where t: "f i = Some t" "mfold (\<lambda>i out. map_option (\<lambda>t. out @ [t]) (f i)) is (out @ [t]) = Some ts"
    by (cases "f i") auto
  from Cons.IH [OF t(2)] obtain us where "ts = (out @ [t]) @ us" "length us = length is" "\<forall>u \<in> set us. \<exists>i \<in> set is. f i = Some u" by blast
  then show ?case using t(1) by (intro exI [of _ "t # us"]) auto
qed simp

lemma parse_cond_rpn_ok:
  assumes "parse_cond_rpn J arr n = Some ts"
  shows "0 < length ts" "length ts \<le> 256" "\<forall>t \<in> set ts. token_ok n t"
proof -
  have n: "0 < j_length J arr" "j_length J arr \<le> 256" and
    m: "mfold (\<lambda>i out. map_option (\<lambda>t. out @ [t]) (cond_token J n (j_idx J arr i))) [0..<j_length J arr] [] = Some ts"
    using assms by (auto simp: parse_cond_rpn_def Let_def split: if_splits)
  from mfold_collect [OF m] obtain us where us: "ts = us" "length us = j_length J arr"
    "\<forall>u \<in> set us. \<exists>i \<in> set [0..<j_length J arr]. cond_token J n (j_idx J arr i) = Some u" by auto
  then show "0 < length ts" "length ts \<le> 256" using n by simp_all
  show "\<forall>t \<in> set ts. token_ok n t" using us(1,3) cond_token_ok by metis
qed

definition alias_row :: "'j json_lib \<Rightarrow> 'j \<Rightarrow> nat \<Rightarrow> nat \<Rightarrow> bytes option list option option" where
  "alias_row J ag n i =
     (let row = j_idx J ag i in
      if j_kind J row \<noteq> J_ARRAY \<or> j_length J row \<noteq> n then None else Some (Some (map (string_element J row) [0..<n])))"

lemma parse_aliases_ok:
  assumes "parse_aliases J c n_base n_group = Some rows"
  shows "rows = [] \<or> length rows = n_base \<and> 0 < n_group \<and> (\<forall>row \<in> set rows. \<exists>fs. row = Some fs \<and> length fs = n_group \<and> None \<notin> set fs)"
proof (cases "jarray J c (lit ''alias_group_by'')")
  case None
  then show ?thesis using assms by (simp add: parse_aliases_def)
next
  case (Some ag)
  have f: "(\<lambda>i rows. let row = j_idx J ag i in
      if j_kind J row \<noteq> J_ARRAY \<or> j_length J row \<noteq> n_group then None else Some (rows @ [Some (map (string_element J row) [0..<n_group])])) =
    (\<lambda>i rows. map_option (\<lambda>r. rows @ [r]) (alias_row J ag n_group i))"
    by (simp add: fun_eq_iff alias_row_def Let_def)
  have n: "j_length J ag = n_base" "0 < n_group"
    and m: "mfold (\<lambda>i rows. map_option (\<lambda>r. rows @ [r]) (alias_row J ag n_group i)) [0..<j_length J ag] [] = Some rows"
    using assms unfolding parse_aliases_def Some option.case f by (auto simp: Let_def split: if_splits)
  from mfold_collect [OF m] have "length rows = n_base" "\<forall>row \<in> set rows. \<exists>i. alias_row J ag n_group i = Some row"
    using n(1) by auto
  moreover have "\<exists>fs. row = Some fs \<and> length fs = n_group \<and> None \<notin> set fs" if "alias_row J ag n_group i = Some row" for i row
    using that by (auto simp: alias_row_def Let_def string_element_def split: if_splits)
  ultimately show ?thesis using n(2) by blast
qed

section \<open>Rules\<close>

text \<open>The shape of a rule that the loader returns.\<close>

definition rule_shape :: "corr_rule \<Rightarrow> bool" where
  "rule_shape r \<longleftrightarrow> r_id r \<noteq> None \<and> length (r_base r) \<le> 4096 \<and> length (r_ordered r) \<le> 4096 \<and>
     length (r_group_by r) \<le> 8 \<and> None \<notin> set (r_group_by r) \<and>
     (r_alias r = [] \<or> length (r_alias r) = length (r_base r) \<and>
        (\<forall>row \<in> set (r_alias r). \<exists>fs. row = Some fs \<and> length fs = length (r_group_by r) \<and> None \<notin> set fs)) \<and>
     - (2 ^ 31) \<le> r_timespan r \<and> r_timespan r < 2 ^ 31 \<and>
     length (r_cond r) \<le> 256 \<and> (\<forall>t \<in> set (r_cond r). token_ok (length (r_base r)) t)"

lemma to_i32_range: "- (2 ^ 31) \<le> to_i32 v" "to_i32 v < 2 ^ 31"
  using sint_greater_eq [of "word_of_int v :: 32 word"] sint_less [of "word_of_int v :: 32 word"] by (simp_all add: to_i32_def)

lemma parse_condition_keeps:
  "r_id (parse_condition J c r) = r_id r" "r_base (parse_condition J c r) = r_base r" "r_ordered (parse_condition J c r) = r_ordered r"
  "r_group_by (parse_condition J c r) = r_group_by r" "r_alias (parse_condition J c r) = r_alias r"
  "r_timespan (parse_condition J c r) = r_timespan r"
  by (auto simp: parse_condition_def split: option.split)

lemma parse_one_shape:
  assumes "parse_one J c ls = (Some r, ls')"
  shows "rule_shape r"
proof -
  obtain base ls1 where 1: "parse_u32_array J c (lit ''base_rule_ids'') ls = (base, ls1)" by (cases "parse_u32_array J c (lit ''base_rule_ids'') ls")
  obtain ordered ls2 where 2: "parse_u32_array J c (lit ''ordered_rule_ids'') ls1 = (ordered, ls2)" by (cases "parse_u32_array J c (lit ''ordered_rule_ids'') ls1")
  obtain group ls3 where 3: "parse_str_array J c (lit ''group_by'') ls2 = (group, ls3)" by (cases "parse_str_array J c (lit ''group_by'') ls2")
  have len: "length base \<le> 4096" "length ordered \<le> 4096" "length group \<le> 8" "None \<notin> set group"
    using parse_u32_array_length [of J c "lit ''base_rule_ids''" ls] parse_u32_array_length [of J c "lit ''ordered_rule_ids''" ls1]
      parse_str_array_ok [of J c "lit ''group_by''" ls2] by (simp_all add: 1 2 3)
  define q where "q a = parse_condition J c \<lparr>r_id = jstr J c (lit ''id''), r_title = jstr J c (lit ''title''),
      r_type = parse_type (jstr J c (lit ''type'')), r_base = base, r_ordered = ordered, r_group_by = group, r_alias = a,
      r_value_field = None, r_op = CORR_OP_GTE, r_count = 0, r_timespan = parse_timespan J c, r_level = jstr J c (lit ''level''),
      r_mitre = jstr J c (lit ''mitre''), r_cond = [], r_cv_permille = 0, r_n_buckets = 0, r_percentile = 0\<rparr>" for a
  have p: "parse_one J c ls = (do { aliases \<leftarrow> parse_aliases J c (length base) (length group);
      cond \<leftarrow> (case jarray J c (lit ''condition_rpn'') of Some rpn \<Rightarrow> parse_cond_rpn J rpn (length base) | None \<Rightarrow> Some []);
      if r_id (q aliases) = None then None else Some ((q aliases)\<lparr>r_cond := cond\<rparr>) }, ls3)"
    unfolding parse_one_def 1 2 3 Let_def prod.case q_def by (rule refl)
  obtain aliases cond where a: "parse_aliases J c (length base) (length group) = Some aliases"
    and cond: "(case jarray J c (lit ''condition_rpn'') of Some rpn \<Rightarrow> parse_cond_rpn J rpn (length base) | None \<Rightarrow> Some []) = Some cond"
    and q: "r = (q aliases)\<lparr>r_cond := cond\<rparr>" "r_id (q aliases) \<noteq> None"
    using assms unfolding p by (auto split: bind_splits if_splits)
  have q': "r_base (q a) = base" "r_ordered (q a) = ordered" "r_group_by (q a) = group" "r_alias (q a) = a"
    "r_timespan (q a) = parse_timespan J c" for a
    by (simp_all add: q_def parse_condition_keeps)
  have ts: "- (2 ^ 31) \<le> parse_timespan J c" "parse_timespan J c < 2 ^ 31"
    using to_i32_range by (auto simp: parse_timespan_def split: option.split)
  have "length cond \<le> 256 \<and> (\<forall>t \<in> set cond. token_ok (length base) t)"
    using cond parse_cond_rpn_ok by (fastforce split: option.splits)
  then show ?thesis using parse_aliases_ok [OF a] len q q' ts by (auto simp: rule_shape_def)
qed

text \<open>Every element is a rule or is counted as rejected.\<close>

lemma parse_elements:
  "fold (parse_element J arr) is (rules, ls) = (rules', ls') \<Longrightarrow>
    (\<forall>r \<in> set rules. rule_shape r) \<Longrightarrow>
    (\<forall>r \<in> set rules'. rule_shape r) \<and> of_nat (length rules') + l_rejected ls' = of_nat (length rules + length is) + l_rejected ls"
proof (induction "is" arbitrary: rules ls)
  case (Cons i "is")
  obtain rules1 ls1 where e: "parse_element J arr i (rules, ls) = (rules1, ls1)" by (cases "parse_element J arr i (rules, ls)")
  have rej: "l_rejected (snd (parse_u32_array J c k ls)) = l_rejected ls" for c k ls
  proof -
    have "l_rejected (snd (fold (u32_element J a) js (out, ls))) = l_rejected ls" for a js out ls
    proof (induction js arbitrary: out ls)
      case (Cons j js)
      obtain out' ls' where u: "u32_element J a j (out, ls) = (out', ls')" by (cases "u32_element J a j (out, ls)")
      then have "l_rejected ls' = l_rejected ls" by (auto simp: u32_element_def Let_def split: if_splits)
      with Cons [of out' ls'] u show ?case by simp
    qed simp
    then show ?thesis by (simp add: parse_u32_array_def Let_def split: option.split)
  qed
  have rej2: "l_rejected (snd (parse_str_array J c k ls)) = l_rejected ls" for c k ls
    by (simp add: parse_str_array_def Let_def split: option.split)
  have one: "l_rejected (snd (parse_one J c ls)) = l_rejected ls" for c
    using rej rej2 by (auto simp: parse_one_def Let_def split: prod.split) (metis snd_conv)
  have "(\<forall>r \<in> set rules1. rule_shape r) \<and> of_nat (length rules1) + l_rejected ls1 = of_nat (length rules + 1) + l_rejected ls"
  proof (cases "j_kind J (j_idx J arr i) = J_OBJECT")
    case False
    then show ?thesis using e Cons.prems(2) by (auto simp: parse_element_def)
  next
    case True
    obtain ro ls2 where p: "parse_one J (j_idx J arr i) ls = (ro, ls2)" by (cases "parse_one J (j_idx J arr i) ls")
    then have "l_rejected ls2 = l_rejected ls" using one [of "j_idx J arr i"] by simp
    then show ?thesis using e True p Cons.prems(2) parse_one_shape by (cases ro) (auto simp: parse_element_def)
  qed
  with Cons.IH [of rules1 ls1] Cons.prems(1) e show ?case by (simp add: algebra_simps)
qed simp

lemma shape_fits: "length rules < 2 ^ 28 \<Longrightarrow> \<forall>r \<in> set rules. rule_shape r \<Longrightarrow> rules_fit rules"
  by (fastforce simp: rules_fit_def rule_shape_def)

section \<open>Corners\<close>

text \<open>Only the upper end of the window length is clamped: a length far below zero turns positive.\<close>

lemma parse_timespan_wraps:
  assumes "jint J c (lit ''timespan_s'') = Some (- (2 ^ 31) - 1)"
  shows "parse_timespan J c = 2 ^ 31 - 1"
  using assms by (simp add: parse_timespan_def to_i32_def)

text \<open>A condition that is there but empty rejects the rule.\<close>

lemma empty_condition_rejects:
  assumes "jarray J c (lit ''condition_rpn'') = Some rpn" "j_length J rpn = 0"
  shows "fst (parse_one J c ls) = None"
proof -
  have "parse_cond_rpn J rpn n = None" for n using assms(2) by (simp add: parse_cond_rpn_def)
  then show ?thesis by (auto simp: parse_one_def assms(1) Let_def split: prod.split bind_split)
qed

section \<open>Property\<close>


text \<open>A parser that knows one text.\<close>

definition one_text :: "json \<Rightarrow> json json_lib" where
  "one_text j = tree_lib\<lparr>j_parse := (\<lambda>s. if s = lit ''x'' then Some j else None)\<rparr>"


end
