(* ===== verification/Main_Spec.thy ===== *)
theory Main_Spec
  imports Sigma_Main Cli_Spec Format_Spec
begin

text \<open>
  A run of the driver: with readable artifacts it ends with exit code 0 after it has answered
  every line of its input, in order, with the rules that match and the correlations they drive.
\<close>

section \<open>Lines\<close>

lemma split_lines_concat: "concat (split_lines cur s) = cur @ s"
  by (induction cur s rule: split_lines.induct) auto

lemma split_lines_ends: "10 \<notin> set cur \<Longrightarrow> l \<in> set (split_lines cur s) \<Longrightarrow> l \<noteq> [] \<and> 10 \<notin> set (butlast l)"
  by (induction cur s rule: split_lines.induct) (auto split: if_splits dest: in_set_butlastD)

text \<open>The events of an input, with their numbers: empty lines are not counted.\<close>

definition chomp :: "bytes \<Rightarrow> bytes" where
  "chomp l = (if l \<noteq> [] \<and> last l = 10 then butlast l else l)"

definition line_event :: "bytes \<Rightarrow> kv_event" where
  "line_event l = parse_event (takeWhile (\<lambda>c. c \<noteq> 0) (chomp l))"

fun numbered :: "int \<Rightarrow> bytes list \<Rightarrow> (int \<times> kv_event) list" where
  "numbered n [] = []"
| "numbered n (l # ls) = (if chomp l = [] then numbered n ls else (n + 1, line_event l) # numbered (n + 1) ls)"

definition stdin_events :: "bytes \<Rightarrow> (int \<times> kv_event) list" where
  "stdin_events s = numbered 0 (split_lines [] s)"

lemma cli_line_eq:
  "cli_line x d dv l (st, lno) =
     (if chomp l = [] then Some ((st, lno), None)
      else do { (st, hits, fires) \<leftarrow> cli_event x d dv (line_event l) (lno + 1) st; Some ((st, lno + 1), Some (hits, fires)) })"
  by (simp add: cli_line_def chomp_def line_event_def Let_def)

section \<open>Answers\<close>

text \<open>
  What the driver has to print for an event: the rules in scope that match, in order, and then
  at most 16 fires of admitted correlations with a base rule among them.
\<close>

definition answered :: "'re sigma_lib \<Rightarrow> sigma_db \<Rightarrow> corr_rule list \<Rightarrow> int \<times> kv_event \<Rightarrow> cli_msg list \<Rightarrow> bool" where
  "answered x d rules = (\<lambda>(lno, kvs) msgs.
     \<exists>fires. msgs = event_lines lno (map (\<lambda>ri. hit_sem d (db_rules d ! ri)) (matches x d kvs)) fires \<and> length fires \<le> 16 \<and>
       (\<forall>f \<in> set fires. \<exists>r \<in> set (filter admitted rules). f_rule_id f = r_id r \<and> corr_rule_hits r (matched_ids x d kvs)))"

text \<open>The events the driver is made for.\<close>

definition event_fits :: "'re sigma_lib \<Rightarrow> sigma_db \<Rightarrow> corr_rule list \<Rightarrow> int \<times> kv_event \<Rightarrow> bool" where
  "event_fits x d rules = (\<lambda>(lno, kvs).
     cnf_necessary x d (ev_lookup kvs) \<and> length (matches x d kvs) \<le> 64 \<and> clock_ok (event_ts kvs lno) \<and>
     (\<forall>r \<in> set (filter admitted rules). rule_fits True (corr_lookup kvs) r))"

lemma print_lines_ok:
  assumes "ready x d dv" "postings_scoped d" "rules_fit rules" "caps_fit caps"
    "session x d dv e" "served rules caps True ce" "list_all (event_fits x d rules) (numbered lno ls)"
  shows "\<exists>e' ce' lno' outs. mfold (print_line x d dv) ls (((e, Some ce), lno), out) = Some (((e', Some ce'), lno'), out @ concat outs) \<and>
    list_all2 (answered x d rules) (numbered lno ls) outs"
  using assms(5-7)
proof (induction ls arbitrary: e ce lno out)
  case (Cons l ls)
  show ?case
  proof (cases "chomp l = []")
    case True
    then show ?thesis using Cons by (simp add: print_line_def cli_line_eq)
  next
    case False
    let ?kvs = "line_event l"
    have f: "cnf_necessary x d (ev_lookup ?kvs)" "length (matches x d ?kvs) \<le> 64" "clock_ok (event_ts ?kvs (lno + 1))"
      "\<forall>r \<in> set (filter admitted rules). rule_fits True (corr_lookup ?kvs) r"
      "list_all (event_fits x d rules) (numbered (lno + 1) ls)"
      using Cons.prems(3) False by (simp_all add: event_fits_def)
    obtain e1 ce1 fires where 1: "cli_event x d dv ?kvs (lno + 1) (e, Some ce) =
        Some ((e1, Some ce1), map (\<lambda>ri. hit_sem d (db_rules d ! ri)) (matches x d ?kvs), fires)"
      "session x d dv e1" "served rules caps True ce1" "length fires \<le> 16"
      "\<forall>f \<in> set fires. \<exists>r \<in> set (filter admitted rules). f_rule_id f = r_id r \<and> corr_rule_hits r (matched_ids x d ?kvs)"
      using cli_event_ok [OF assms(1) Cons.prems(1) _ assms(3,4) Cons.prems(2) f(3,4,2)] f(1) assms(2) by blast
    let ?msgs = "event_lines (lno + 1) (map (\<lambda>ri. hit_sem d (db_rules d ! ri)) (matches x d ?kvs)) fires"
    obtain e' ce' lno' outs where 2: "mfold (print_line x d dv) ls (((e1, Some ce1), lno + 1), out @ ?msgs) =
        Some (((e', Some ce'), lno'), (out @ ?msgs) @ concat outs)" "list_all2 (answered x d rules) (numbered (lno + 1) ls) outs"
      using Cons.IH [OF 1(2,3) f(5)] by blast
    have "answered x d rules (lno + 1, ?kvs) ?msgs" using 1(4,5) by (auto simp: answered_def)
    moreover have "print_line x d dv l (((e, Some ce), lno), out) = Some (((e1, Some ce1), lno + 1), out @ ?msgs)"
      using False by (simp add: print_line_def cli_line_eq 1(1))
    ultimately show ?thesis
      using 2 False by (intro exI [of _ e'] exI [of _ ce'] exI [of _ lno'] exI [of _ "?msgs # outs"]) simp
  qed
qed simp

section \<open>Files\<close>

text \<open>A regular file that can be read: seeking works and the size is that of the data.\<close>

definition readable :: "file_system \<Rightarrow> bytes \<Rightarrow> bytes \<Rightarrow> bool" where
  "readable fs path buf \<longleftrightarrow>
     (\<exists>f. fs path = Some f \<and> f_seek_end f \<and> f_seek_set f \<and> f_tell f = int (length buf) \<and> f_data f = buf)"

lemma load_file_readable:
  "readable fs path buf \<Longrightarrow> sigma_db_load_file x fs path = (if buf = [] then Some (Inl ERR_SIZE) else sigma_db_load_buffer x buf)"
  by (auto simp: sigma_db_load_file_def readable_def Let_def)

lemma corr_file_readable: "readable fs path buf \<Longrightarrow> corr_artifact_load_file J fs path = corr_artifact_parse J buf"
  by (auto simp: corr_artifact_load_file_def readable_def)

text \<open>The loaders read no more than the file has: a file that is shorter than it said is an error.\<close>

lemma load_file_short:
  "fs path = Some f \<Longrightarrow> f_seek_end f \<Longrightarrow> length (f_data f) < nat (f_tell f) \<Longrightarrow> sigma_db_load_file x fs path = Some (Inl ERR_IO)"
  by (auto simp: sigma_db_load_file_def Let_def)

lemma parsed_rules_fit:
  assumes "corr_artifact_parse J json = Some (rules, ls)" "length rules < 2 ^ 28"
  shows "rules_fit rules"
proof -
  obtain arr where "fold (parse_element J arr) [0..<j_length J arr] ([], \<lparr>l_rejected = 0, l_groupby = 0, l_baserules = 0, l_rids = 0\<rparr>) = (rules, ls)"
    using assms(1) by (auto simp: corr_artifact_parse_def split: bind_splits if_splits)
  from shape_fits [OF assms(2)] parse_elements [OF this] show ?thesis by simp
qed

lemma default_caps_fit: "caps_fit corr_caps_default"
  by (simp add: caps_fit_def corr_caps_default_def)

section \<open>A run\<close>

definition banner :: "bytes \<Rightarrow> sigma_db \<Rightarrow> cli_msg" where
  "banner path d = Loaded path (length (db_rules d)) (length (db_preds d)) (length (db_fields d)) (length (db_cidrs d))"

lemma cli_run_ok:
  assumes "readable fs p1 buf" "sigma_db_load_buffer x buf = Some (Inr (d, dv))" "ready x d dv" "postings_scoped d"
    "readable fs p2 json" "corr_artifact_parse J json = Some (rules, ls)" "length rules < 2 ^ 28"
    "list_all (event_fits x d rules) (stdin_events input)"
  shows "\<exists>outs. cli_main x J fs [prog, p1, p2] input = Some (0, [banner p1 d, Corr_Loaded p2 (length rules)] @ concat outs) \<and>
    list_all2 (answered x d rules) (stdin_events input) outs"
proof -
  note fit = parsed_rules_fit [OF assms(6,7)]
  obtain ce where ce: "corr_engine_new rules corr_caps_default = Some ce"
    by (rule engine_new_inv [OF fit default_caps_fit])
  have "buf \<noteq> []" using assms(2) by (auto simp: sigma_db_load_buffer_def sigma_load_tables_def)
  with assms(1,2) have db: "sigma_db_load_file x fs p1 = Some (Inr (d, dv))" by (simp add: load_file_readable)
  obtain e' ce' lno' outs where o: "mfold (print_line x d dv) (split_lines [] input) (((sigma_eval_create d dv, Some ce), 0),
      [banner p1 d, Corr_Loaded p2 (length rules)]) = Some (((e', Some ce'), lno'), [banner p1 d, Corr_Loaded p2 (length rules)] @ concat outs)"
    "list_all2 (answered x d rules) (stdin_events input) outs"
    using print_lines_ok [OF assms(3,4) fit default_caps_fit session.created served.built [OF ce] assms(8) [unfolded stdin_events_def]]
    unfolding stdin_events_def by blast
  then have "cli_main x J fs [prog, p1, p2] input = Some (0, [banner p1 d, Corr_Loaded p2 (length rules)] @ concat outs)"
    by (simp add: cli_main_def db corr_file_readable [OF assms(5)] assms(6) ce cli_events_def banner_def Let_def)
  then show ?thesis using o(2) by blast
qed

end
