(* ===== verification/Corr_Workers.thy ===== *)
theory Corr_Workers
  imports Corr_Engine
begin

text \<open>
  Several workers on one engine: \<open>corr_on_event_apply\<close> of \<open>src/src/classify_corr.c\<close> cut at its locks.
  A worker holds a lock of one correlation for one visit or one sweep of that correlation, and
  the sweep lock from its \<open>trylock\<close> on; what it does outside of the locks reads only what never
  changes (the rules, the index, the event) or its own storage, so each step of a worker is one
  action on the shared engine. The counters are updated atomically. The percentile scratch
  buffer is shared by all correlations without a lock of its own: the steps of two percentile
  correlations are atomic only while no two workers are in one at a time.
\<close>

datatype phase =
    Ready
  | Checking
  | Sweeping "nat list"
  | Visiting "u32 list" "(u32 \<times> u32) list"
  | Finished

record worker =
  w_inp :: corr_input
  w_phase :: phase
  w_visited :: "bool list"
  w_out :: "corr_fire list"
  w_fired :: nat
  w_used :: nat

record pool =
  p_engine :: corr_engine
  p_sweeper :: "nat option"
  p_workers :: "worker list"

definition spawn :: "corr_input \<Rightarrow> worker" where
  "spawn inp = \<lparr>w_inp = inp, w_phase = Ready, w_visited = [], w_out = [], w_fired = 0, w_used = 0\<rparr>"

definition new_pool :: "corr_engine \<Rightarrow> corr_input list \<Rightarrow> pool" where
  "new_pool e inps = \<lparr>p_engine = e, p_sweeper = None, p_workers = map spawn inps\<rparr>"

text \<open>After the sweep: the visited marks are allocated, and the loop starts.\<close>

definition begin_visits :: "corr_engine \<Rightarrow> worker \<Rightarrow> worker" where
  "begin_visits e w = w\<lparr>w_phase := Visiting (i_rids (w_inp w)) [], w_visited := replicate (length (e_states e)) False\<rparr>"

definition call_of :: "corr_engine \<Rightarrow> worker \<Rightarrow> corr_call" where
  "call_of e w = \<lparr>c_engine = e, c_visited = w_visited w, c_out = w_out w, c_fired = w_fired w, c_used = w_used w\<rparr>"

text \<open>
  One step of worker \<open>k\<close>, on the engine and the holder of the sweep lock. \<open>Checking\<close> holds the
  sweep lock and decides whether a sweep is due, \<open>Sweeping\<close> has the correlations still to sweep,
  \<open>Visiting\<close> the matched rules still to look up and the watch entries of the last one still to do.
\<close>

definition worker_step :: "nat \<Rightarrow> worker \<Rightarrow> corr_engine \<Rightarrow> nat option \<Rightarrow> (corr_engine \<times> nat option \<times> worker) option" where
  "worker_step k w e lock =
     (let inp = w_inp w; now = i_ts inp in
      case w_phase w of
        Ready \<Rightarrow>
          (if e_states e = [] \<or> i_rids inp = [] then Some (e, lock, w\<lparr>w_phase := Finished\<rparr>)
           else case lock of
               Some _ \<Rightarrow> Some (e, lock, begin_visits e w)
             | None \<Rightarrow> Some (e, Some k, w\<lparr>w_phase := Checking\<rparr>))
      | Checking \<Rightarrow>
          (if \<not> e_sweep_seen e then Some (e\<lparr>e_last_sweep := now, e_sweep_seen := True\<rparr>, None, begin_visits e w)
           else if f64_lt (f64_sub now (e_last_sweep e)) (sweep_interval_s (e_caps e)) then Some (e, None, begin_visits e w)
           else Some (e\<lparr>e_last_sweep := now\<rparr>, lock, w\<lparr>w_phase := Sweeping [0..<length (e_states e)]\<rparr>))
      | Sweeping [] \<Rightarrow> Some (e, None, begin_visits e w)
      | Sweeping (i # is) \<Rightarrow>
          do { st \<leftarrow> idx (e_states e) i;
               st \<leftarrow> sweep_state now st;
               Some (e\<lparr>e_states := (e_states e)[i := st]\<rparr>, lock, w\<lparr>w_phase := Sweeping is\<rparr>) }
      | Visiting rids ((rid, ci) # todo) \<Rightarrow>
          do { c \<leftarrow> on_correlation inp rid ci (call_of e w);
               Some (c_engine c, lock, w\<lparr>w_phase := Visiting rids todo, w_visited := c_visited c, w_out := c_out c,
                 w_fired := c_fired c, w_used := c_used c\<rparr>) }
      | Visiting (rid # rids) [] \<Rightarrow>
          do { ws \<leftarrow> rid_index_find e rid;
               Some (e, lock, w\<lparr>w_phase := Visiting rids (map (Pair rid) (case ws of None \<Rightarrow> [] | Some cs \<Rightarrow> cs))\<rparr>) }
      | Visiting [] [] \<Rightarrow> Some (e, lock, w\<lparr>w_phase := Finished\<rparr>)
      | Finished \<Rightarrow> Some (e, lock, w))"

text \<open>A schedule is the list of the workers in the order in which they take their steps.\<close>

definition pool_step :: "nat \<Rightarrow> pool \<Rightarrow> pool option" where
  "pool_step k p =
     do { w \<leftarrow> idx (p_workers p) k;
          (e, lock, w) \<leftarrow> worker_step k w (p_engine p) (p_sweeper p);
          Some \<lparr>p_engine = e, p_sweeper = lock, p_workers = (p_workers p)[k := w]\<rparr> }"

definition run_pool :: "nat list \<Rightarrow> pool \<Rightarrow> pool option" where
  "run_pool schedule p = mfold pool_step schedule p"

end
