(* ===== verification/Workers_Spec.thy ===== *)
theory Workers_Spec
  imports Corr_Workers Corr_Demo
begin

text \<open>
  Workers that share an engine behave as if each visit of a correlation and each sweep of one
  were a single action, in one order for all: every schedule is the replay of such a log, each
  worker visits the correlations its event reaches once and in order, and reports their fires.
\<close>

section \<open>Logs of actions\<close>

text \<open>Worker \<open>k\<close> visits correlation \<open>i\<close>, or sweeps it.\<close>

datatype act = Visit nat nat | Drop nat nat

fun replay :: "corr_engine \<Rightarrow> corr_input list \<Rightarrow> act \<Rightarrow> group_lists \<Rightarrow> group_lists" where
  "replay e inps (Visit k i) G = G[i := fst (effect (inps ! k) e G i)]"
| "replay e inps (Drop k i) G = G[i := swept (i_ts (inps ! k)) (st_rule (e_states e ! i)) (G ! i)]"

definition groups_after :: "corr_engine \<Rightarrow> corr_input list \<Rightarrow> act list \<Rightarrow> group_lists \<Rightarrow> group_lists" where
  "groups_after e inps acts G = fold (replay e inps) acts G"

lemma groups_after_snoc [simp]: "groups_after e inps (acts @ [a]) G = replay e inps a (groups_after e inps acts G)"
  by (simp add: groups_after_def)

text \<open>The correlations a worker visits, and the fires of its visits.\<close>

fun visit_of :: "nat \<Rightarrow> act \<Rightarrow> nat list" where
  "visit_of k (Visit j i) = (if j = k then [i] else [])"
| "visit_of k (Drop j i) = []"

definition visits :: "nat \<Rightarrow> act list \<Rightarrow> nat list" where
  "visits k acts = concat (map (visit_of k) acts)"

lemma visits_simps [simp]: "visits k [] = []" "visits k (acts @ [a]) = visits k acts @ visit_of k a"
  by (simp_all add: visits_def)

fun answers :: "corr_engine \<Rightarrow> corr_input list \<Rightarrow> nat \<Rightarrow> act list \<Rightarrow> group_lists \<Rightarrow> corr_fire list" where
  "answers e inps k [] G = []"
| "answers e inps k (a # acts) G =
     map (fire_at (inps ! k) e G) (fires_of (inps ! k) e G (visit_of k a)) @ answers e inps k acts (replay e inps a G)"

lemma answers_snoc:
  "answers e inps k (acts @ [a]) G = answers e inps k acts G @
     (let G' = groups_after e inps acts G in map (fire_at (inps ! k) e G') (fires_of (inps ! k) e G' (visit_of k a)))"
  by (induction acts arbitrary: G) (simp_all add: groups_after_def Let_def)

lemma answers_other:
  assumes "visit_of k a = []"
  shows "answers e inps k (acts @ [a]) G = answers e inps k acts G"
  by (simp add: answers_snoc assms fires_of_def)

section \<open>The invariant of a pool\<close>

text \<open>What a worker has written are the fires of its visits, with its own keys as evidence.\<close>

definition reported :: "corr_engine \<Rightarrow> corr_input \<Rightarrow> corr_fire list \<Rightarrow> worker \<Rightarrow> bool" where
  "reported e inp ans w \<longleftrightarrow> w_fired w = length ans \<and> map bare (w_out w) = take (o_max inp) ans \<and>
     (\<forall>f \<in> set (w_out w). \<forall>k. f_group f = Some k \<longrightarrow>
       (\<exists>i < length (e_states e). key_of inp (st_rule (e_states e ! i)) = Some k \<and> f_rule_id f = r_id (st_rule (e_states e ! i))))"

text \<open>The entries \<open>P\<close> of the event are done: they are marked and visited.\<close>

definition marked :: "corr_engine \<Rightarrow> nat list \<Rightarrow> nat list \<Rightarrow> worker \<Rightarrow> bool" where
  "marked e P vs w \<longleftrightarrow> w_visited w = map (\<lambda>i. i \<in> set P) [0..<length (e_states e)] \<and> vs = first_occ P"

text \<open>Where a worker is in its event, when it has visited the correlations \<open>vs\<close>.\<close>

definition progress :: "corr_engine \<Rightarrow> corr_input \<Rightarrow> nat list \<Rightarrow> worker \<Rightarrow> bool" where
  "progress e inp vs w \<longleftrightarrow>
     (case w_phase w of
        Ready \<Rightarrow> vs = []
      | Checking \<Rightarrow> vs = []
      | Sweeping is \<Rightarrow> vs = [] \<and> set is \<subseteq> {..<length (e_states e)}
      | Visiting rids todo \<Rightarrow>
          rids = i_rids inp \<and> todo = [] \<and> marked e [] vs w \<or>
          (\<exists>rs rid ws is. i_rids inp = rs @ rid # rids \<and> watchers (e_states e) rid = ws @ is \<and> todo = map (\<lambda>i. (rid, of_nat i)) is \<and>
             marked e (concat (map (watchers (e_states e)) rs) @ ws) vs w)
      | Finished \<Rightarrow> vs = reached inp e)"

text \<open>The steps a worker has still to take.\<close>

definition visits_left :: "corr_engine \<Rightarrow> u32 list \<Rightarrow> nat" where
  "visits_left e rids = 1 + length rids + length (concat (map (watchers (e_states e)) rids))"

definition work :: "corr_engine \<Rightarrow> worker \<Rightarrow> nat" where
  "work e w =
     (case w_phase w of
        Ready \<Rightarrow> length (e_states e) + 3 + visits_left e (i_rids (w_inp w))
      | Checking \<Rightarrow> length (e_states e) + 2 + visits_left e (i_rids (w_inp w))
      | Sweeping is \<Rightarrow> length is + 1 + visits_left e (i_rids (w_inp w))
      | Visiting rids todo \<Rightarrow> length todo + visits_left e rids
      | Finished \<Rightarrow> 0)"

definition holds_lock :: "worker \<Rightarrow> bool" where
  "holds_lock w \<longleftrightarrow> (case w_phase w of Checking \<Rightarrow> True | Sweeping _ \<Rightarrow> True | _ \<Rightarrow> False)"

text \<open>A worker after the actions so far, and what its step has to establish.\<close>

definition worker_inv :: "corr_engine \<Rightarrow> group_lists \<Rightarrow> corr_input list \<Rightarrow> act list \<Rightarrow> nat \<Rightarrow> nat option \<Rightarrow> worker \<Rightarrow> bool" where
  "worker_inv e G inps acts k lock w \<longleftrightarrow> w_inp w = inps ! k \<and>
     reported e (inps ! k) (answers e inps k acts G) w \<and> progress e (inps ! k) (visits k acts) w \<and> (holds_lock w \<longleftrightarrow> lock = Some k)"

definition engine_after :: "bool \<Rightarrow> corr_engine \<Rightarrow> group_lists \<Rightarrow> corr_input list \<Rightarrow> act list \<Rightarrow> corr_engine \<Rightarrow> bool" where
  "engine_after loc e G inps acts e' \<longleftrightarrow> same_rules e e' \<and> engine_inv loc e' (groups_after e inps acts G)"

definition own :: "nat \<Rightarrow> act list \<Rightarrow> bool" where
  "own k as \<longleftrightarrow> as = [] \<or> (\<exists>i. as = [Visit k i] \<or> as = [Drop k i])"

definition step_ok ::
  "bool \<Rightarrow> corr_engine \<Rightarrow> group_lists \<Rightarrow> corr_input list \<Rightarrow> act list \<Rightarrow> nat \<Rightarrow> nat option \<Rightarrow> worker \<Rightarrow>
    (corr_engine \<times> nat option \<times> worker) option \<Rightarrow> bool" where
  "step_ok loc e G inps acts k lock w r \<longleftrightarrow>
     (\<exists>e' lock' w' as. r = Some (e', lock', w') \<and> own k as \<and> engine_after loc e G inps (acts @ as) e' \<and>
        worker_inv e G inps (acts @ as) k lock' w' \<and> (w_phase w = Finished \<and> w_phase w' = Finished \<or> work e w' < work e w) \<and>
        (lock' = lock \<or> lock \<in> {None, Some k} \<and> lock' \<in> {None, Some k}))"

definition pool_inv :: "bool \<Rightarrow> corr_engine \<Rightarrow> group_lists \<Rightarrow> corr_input list \<Rightarrow> act list \<Rightarrow> pool \<Rightarrow> bool" where
  "pool_inv loc e G inps acts p \<longleftrightarrow>
     engine_after loc e G inps acts (p_engine p) \<and> length (p_workers p) = length inps \<and>
     (\<forall>k < length inps. worker_inv e G inps acts k (p_sweeper p) (p_workers p ! k))"

section \<open>The steps of one worker\<close>

text \<open>A step that leaves the groups alone.\<close>

lemma quiet_step:
  assumes "engine_after loc e G inps acts e1" "worker_inv e G inps acts k lock w"
    "same_rules e1 e'" "e_states e' = e_states e1" "w_inp w' = w_inp w" "w_out w' = w_out w" "w_fired w' = w_fired w"
    "progress e (inps ! k) (visits k acts) w'" "holds_lock w' \<longleftrightarrow> lock' = Some k"
    "w_phase w = Finished \<and> w_phase w' = Finished \<or> work e w' < work e w"
    "lock' = lock \<or> lock \<in> {None, Some k} \<and> lock' \<in> {None, Some k}"
  shows "step_ok loc e G inps acts k lock w (Some (e', lock', w'))"
proof -
  have inv: "engine_inv loc e1 (groups_after e inps acts G)" using assms(1) by (simp add: engine_after_def)
  have "engine_inv loc e' (groups_after e inps acts G)"
    by (rule engine_inv_same [OF inv assms(3)]) (use inv assms(4) in \<open>simp_all add: engine_inv_def\<close>)
  then have "engine_after loc e G inps acts e'" using assms(1,3) by (simp add: engine_after_def same_rules_def)
  moreover have "worker_inv e G inps acts k lock' w'"
    using assms(2) unfolding worker_inv_def reported_def assms(5-7) using assms(8,9) by blast
  ultimately show ?thesis
    unfolding step_ok_def using assms(10,11) by (intro exI [of _ e'] exI [of _ lock'] exI [of _ w'] exI [of _ "[]"]) (simp add: own_def)
qed

lemma begin_visits_ok:
  "visits k acts = [] \<Longrightarrow> same_rules e e1 \<Longrightarrow> w_inp w = inp \<Longrightarrow> progress e inp (visits k acts) (begin_visits e1 w)"
  using same_rulesD(1) [of e e1] by (simp add: progress_def begin_visits_def marked_def map_replicate_const)

lemma begin_visits_simps [simp]:
  "w_inp (begin_visits e w) = w_inp w" "w_out (begin_visits e w) = w_out w" "w_fired (begin_visits e w) = w_fired w"
  "w_phase (begin_visits e w) = Visiting (i_rids (w_inp w)) []" "\<not> holds_lock (begin_visits e w)"
  "work e0 (begin_visits e w) = visits_left e0 (i_rids (w_inp w))"
  by (simp_all add: begin_visits_def holds_lock_def work_def)


lemma start_step:
  assumes "engine_after loc e G inps acts e1" "worker_inv e G inps acts k lock w" "w_phase w = Ready"
  shows "step_ok loc e G inps acts k lock w (worker_step k w e1 lock)"
proof -
  have w: "w_inp w = inps ! k" "visits k acts = []" "lock \<noteq> Some k"
    using assms(2,3) by (simp_all add: worker_inv_def progress_def holds_lock_def)
  have sr: "same_rules e e1" and id: "same_rules e1 e1" using assms(1) by (simp_all add: engine_after_def same_rules_def)
  have n: "length (e_states e1) = length (e_states e)" by (rule same_rulesD(1) [OF sr])
  note quiet = quiet_step [OF assms(1,2) id refl]
  show ?thesis
  proof (cases "e_states e1 = [] \<or> i_rids (w_inp w) = []")
    case True
    have "set (reached (w_inp w) e) = {}" using True n by (auto simp: reached_def watchers_def)
    then have "reached (w_inp w) e = []" by simp
    then have "step_ok loc e G inps acts k lock w (Some (e1, lock, w\<lparr>w_phase := Finished\<rparr>))"
      using w assms(3) by (intro quiet) (simp_all add: progress_def holds_lock_def work_def)
    then show ?thesis using True assms(3) by (simp add: worker_step_def Let_def)
  next
    case False
    show ?thesis
    proof (cases lock)
      case None
      have "step_ok loc e G inps acts k lock w (Some (e1, Some k, w\<lparr>w_phase := Checking\<rparr>))"
        using w assms(3) None by (intro quiet) (simp_all add: progress_def holds_lock_def work_def)
      then show ?thesis using False None assms(3) by (simp add: worker_step_def Let_def)
    next
      case (Some j)
      have "step_ok loc e G inps acts k lock w (Some (e1, lock, begin_visits e1 w))"
        using begin_visits_ok [OF w(2) sr w(1)] w(3) assms(3) by (intro quiet) (simp_all add: w(1) work_def)
      then show ?thesis using False Some assms(3) by (simp add: worker_step_def Let_def)
    qed
  qed
qed

lemma check_step:
  assumes "engine_after loc e G inps acts e1" "worker_inv e G inps acts k lock w" "w_phase w = Checking"
  shows "step_ok loc e G inps acts k lock w (worker_step k w e1 lock)"
proof -
  let ?now = "i_ts (w_inp w)"
  have w: "w_inp w = inps ! k" "visits k acts = []" "lock = Some k"
    using assms(2,3) by (simp_all add: worker_inv_def progress_def holds_lock_def)
  have sr: "same_rules e e1" using assms(1) by (simp add: engine_after_def)
  have n: "length (e_states e1) = length (e_states e)" by (rule same_rulesD(1) [OF sr])
  have go: "step_ok loc e G inps acts k lock w (Some (e', None, begin_visits e1 w))" if "same_rules e1 e'" "e_states e' = e_states e1" for e'
    using that begin_visits_ok [OF w(2) sr w(1)] assms(3)
    by (intro quiet_step [OF assms(1,2)]) (simp_all add: w work_def)
  have "step_ok loc e G inps acts k lock w (Some (e1\<lparr>e_last_sweep := ?now\<rparr>, lock, w\<lparr>w_phase := Sweeping [0..<length (e_states e1)]\<rparr>))"
    using w assms(3) by (intro quiet_step [OF assms(1,2)]) (auto simp: n same_rules_def progress_def holds_lock_def work_def)
  then show ?thesis
    using assms(3) go [of e1] go [of "e1\<lparr>e_last_sweep := ?now, e_sweep_seen := True\<rparr>"]
    by (simp add: worker_step_def Let_def same_rules_def)
qed

lemma groups_after_length: "length (groups_after e inps acts G) = length G"
proof -
  have "length (replay e inps a H) = length H" for a H by (cases a) simp_all
  then show ?thesis by (induction acts rule: rev_induct) (simp_all add: groups_after_def)
qed

lemma sweep_step:
  assumes "engine_after loc e G inps acts e1" "worker_inv e G inps acts k lock w" "w_phase w = Sweeping is"
  shows "step_ok loc e G inps acts k lock w (worker_step k w e1 lock)"
proof (cases "is")
  case Nil
  have w: "w_inp w = inps ! k" "visits k acts = []" "lock = Some k"
    using assms(2,3) by (simp_all add: worker_inv_def progress_def holds_lock_def)
  have sr: "same_rules e e1" and id: "same_rules e1 e1" using assms(1) by (simp_all add: engine_after_def same_rules_def)
  have "step_ok loc e G inps acts k lock w (Some (e1, None, begin_visits e1 w))"
    using begin_visits_ok [OF w(2) sr w(1)] assms(3) Nil
    by (intro quiet_step [OF assms(1,2) id refl]) (simp_all add: w work_def)
  then show ?thesis using assms(3) Nil by (simp add: worker_step_def Let_def)
next
  case (Cons i rest)
  let ?G = "groups_after e inps acts G" and ?now = "i_ts (w_inp w)"
  have w: "w_inp w = inps ! k" "visits k acts = []" "lock = Some k" "i < length (e_states e)" "set rest \<subseteq> {..<length (e_states e)}"
    "reported e (inps ! k) (answers e inps k acts G) w"
    using assms(2,3) Cons by (simp_all add: worker_inv_def progress_def holds_lock_def)
  have sr: "same_rules e e1" and inv: "engine_inv loc e1 ?G" using assms(1) by (simp_all add: engine_after_def)
  note s = same_rulesD [OF sr]
  have i1: "i < length (e_states e1)" using w(4) by (simp add: s(1))
  have lG: "length ?G = length (e_states e1)" using inv by (simp add: engine_inv_def)
  have st: "rule_inv (st_rule (e_states e1 ! j))" "groups_rep (st_map (e_states e1 ! j)) (?G ! j)"
    "groups_inv loc (st_rule (e_states e1 ! j)) (e_caps e1) (?G ! j)" if "j < length (e_states e1)" for j
    using inv that by (simp_all add: engine_inv_def)
  obtain st' where st': "sweep_state ?now (e_states e1 ! i) = Some st'" "st_rule st' = st_rule (e_states e1 ! i)"
    "groups_rep (st_map st') (swept ?now (st_rule (e_states e1 ! i)) (?G ! i))"
    using sweep_state_ok [OF st(1,2) [OF i1], of ?now] by blast
  let ?e = "e1\<lparr>e_states := (e_states e1)[i := st']\<rparr>"
  have sr1: "same_rules e1 ?e" using i1 st'(2) by (simp add: same_rules_def map_update list_update_same_conv)
  have "engine_inv loc ?e (replay e inps (Drop k i) ?G)"
  proof (rule engine_inv_same [OF inv sr1])
    fix j assume j: "j < length (e_states e1)"
    show "groups_rep (st_map (e_states ?e ! j)) (replay e inps (Drop k i) ?G ! j) \<and>
        groups_inv loc (st_rule (e_states e1 ! j)) (e_caps e1) (replay e inps (Drop k i) ?G ! j)"
      using st(2,3) [OF j] st'(3) s(2) [OF w(4)] i1 w(1) lG
      by (cases "j = i") (simp_all add: swept_def groups_inv_filter)
  qed (simp add: lG)
  then have "engine_after loc e G inps (acts @ [Drop k i]) ?e" using sr sr1 by (simp add: engine_after_def same_rules_def)
  moreover have "worker_inv e G inps (acts @ [Drop k i]) k lock (w\<lparr>w_phase := Sweeping rest\<rparr>)"
    using w by (simp add: worker_inv_def reported_def progress_def holds_lock_def answers_other)
  moreover have "worker_step k w e1 lock = Some (?e, lock, w\<lparr>w_phase := Sweeping rest\<rparr>)"
    using assms(3) Cons st'(1) i1 by (simp add: worker_step_def Let_def)
  moreover have "work e (w\<lparr>w_phase := Sweeping rest\<rparr>) < work e w" using assms(3) Cons by (simp add: work_def)
  ultimately show ?thesis unfolding step_ok_def by (intro exI conjI) (auto simp: own_def)
qed


lemma finish_step:
  assumes "engine_after loc e G inps acts e1" "worker_inv e G inps acts k lock w" "w_phase w = Visiting [] []"
  shows "step_ok loc e G inps acts k lock w (worker_step k w e1 lock)"
proof -
  have w: "lock \<noteq> Some k" "progress e (inps ! k) (visits k acts) w" using assms(2,3) by (simp_all add: worker_inv_def holds_lock_def)
  have id: "same_rules e1 e1" by (simp add: same_rules_def)
  have "visits k acts = reached (inps ! k) e" using w(2) assms(3) by (auto simp: progress_def marked_def reached_def)
  then have "step_ok loc e G inps acts k lock w (Some (e1, lock, w\<lparr>w_phase := Finished\<rparr>))"
    using w assms(3) by (intro quiet_step [OF assms(1,2) id refl]) (simp_all add: progress_def holds_lock_def work_def visits_left_def)
  then show ?thesis using assms(3) by (simp add: worker_step_def Let_def)
qed

lemma lookup_step:
  assumes "engine_after loc e G inps acts e1" "worker_inv e G inps acts k lock w" "w_phase w = Visiting (rid # rids) []"
  shows "step_ok loc e G inps acts k lock w (worker_step k w e1 lock)"
proof -
  let ?ws = "watchers (e_states e) rid"
  have w: "lock \<noteq> Some k" "progress e (inps ! k) (visits k acts) w" using assms(2,3) by (simp_all add: worker_inv_def holds_lock_def)
  have sr: "same_rules e e1" and id: "same_rules e1 e1" and inv: "engine_inv loc e1 (groups_after e inps acts G)"
    using assms(1) by (simp_all add: engine_after_def same_rules_def)
  have "rid_index_find e1 rid = Some (entry ?ws)"
    using inv same_rulesD(3) [OF sr] by (simp add: engine_inv_def index_exact_def)
  then have step: "worker_step k w e1 lock = Some (e1, lock, w\<lparr>w_phase := Visiting rids (map (\<lambda>i. (rid, of_nat i)) ?ws)\<rparr>)"
    using assms(3) by (simp add: worker_step_def entry_def Let_def)
  obtain rs where "i_rids (inps ! k) = rs @ rid # rids" "marked e (concat (map (watchers (e_states e)) rs)) (visits k acts) w"
  proof (cases "rid # rids = i_rids (inps ! k) \<and> marked e [] (visits k acts) w")
    case True
    then show thesis using that [of "[]"] by simp
  next
    case False
    then obtain rs q ws where "i_rids (inps ! k) = rs @ q # rid # rids" "watchers (e_states e) q = ws"
      "marked e (concat (map (watchers (e_states e)) rs) @ ws) (visits k acts) w" using w(2) assms(3) by (auto simp: progress_def)
    then show thesis using that [of "rs @ [q]"] by simp
  qed
  then have "progress e (inps ! k) (visits k acts) (w\<lparr>w_phase := Visiting rids (map (\<lambda>i. (rid, of_nat i)) ?ws)\<rparr>)"
    unfolding progress_def by (simp, intro disjI2 exI [of _ rs] exI [of _ rid] exI [of _ "[]"] exI [of _ ?ws]) (simp add: marked_def)
  then show ?thesis
    unfolding step using w assms(3)
    by (intro quiet_step [OF assms(1,2) id refl]) (simp_all add: holds_lock_def work_def visits_left_def)
qed

lemma visiting_step:
  "w_phase w = Visiting rids ((rid, ci) # todo) \<Longrightarrow> worker_step k w e lock =
     do { c \<leftarrow> on_correlation (w_inp w) rid ci (call_of e w);
          Some (c_engine c, lock, w\<lparr>w_phase := Visiting rids todo, w_visited := c_visited c, w_out := c_out c,
            w_fired := c_fired c, w_used := c_used c\<rparr>) }"
  by (cases rids) (simp_all add: worker_step_def Let_def)

lemma visit_step:
  assumes "engine_after loc e G inps acts e1" "worker_inv e G inps acts k lock w" "w_phase w = Visiting rids ((rid, ci) # todo)"
    "event_input_ok loc (inps ! k) e"
  shows "step_ok loc e G inps acts k lock w (worker_step k w e1 lock)"
proof -
  let ?G = "groups_after e inps acts G" and ?inp = "inps ! k" and ?n = "length (e_states e)"
  have w: "w_inp w = ?inp" "lock \<noteq> Some k" "reported e ?inp (answers e inps k acts G) w"
    using assms(2,3) by (simp_all add: worker_inv_def holds_lock_def)
  obtain rs ws i rest where t: "i_rids ?inp = rs @ rid # rids" "watchers (e_states e) rid = ws @ i # rest" "ci = of_nat i"
    "todo = map (\<lambda>i. (rid, of_nat i)) rest" "marked e (concat (map (watchers (e_states e)) rs) @ ws) (visits k acts) w"
    using assms(2,3) by (auto simp: worker_inv_def progress_def)
  let ?P = "concat (map (watchers (e_states e)) rs) @ ws"
  have m: "w_visited w = map (\<lambda>i. i \<in> set ?P) [0..<?n]" "visits k acts = first_occ ?P" using t(5) by (simp_all add: marked_def)
  have "i \<in> set (watchers (e_states e) rid)" by (simp add: t(2))
  then have i: "i < ?n" "rid \<in> set (r_base (st_rule (e_states e ! i)))" by (simp_all add: watchers_lt)
  have sr: "same_rules e e1" and inv: "engine_inv loc e1 ?G" using assms(1) by (simp_all add: engine_after_def)
  note s = same_rulesD [OF sr]
  have on: "progress e ?inp vs w'" if "w_phase w' = Visiting rids todo" "marked e (?P @ [i]) vs w'" for w' vs
    unfolding progress_def that(1) using that(2) t
    by (simp, intro disjI2 exI [of _ rs] exI [of _ rid] exI [of _ "ws @ [i]"] exI [of _ rest]) simp
  have fewer: "work e w' < work e w" if "w_phase w' = Visiting rids todo" for w'
    using that assms(3) by (simp add: work_def)
  show ?thesis
  proof (cases "i \<in> set ?P")
    case True
    have "?n < 2 ^ 32" using inv by (simp add: engine_inv_def s(1))
    then have "unat (of_nat i :: u32) = i" using i(1) by (simp add: unat_of_nat)
    moreover have "idx (w_visited w) i = Some True" unfolding m(1) using i(1) True by simp
    ultimately have "on_correlation ?inp rid ci (call_of e1 w) = Some (call_of e1 w)" by (simp add: on_correlation_def t(3) call_of_def)
    then have step: "worker_step k w e1 lock = Some (e1, lock, w\<lparr>w_phase := Visiting rids todo\<rparr>)"
      unfolding visiting_step [OF assms(3)] w(1) by (simp add: call_of_def)
    have id: "same_rules e1 e1" by (simp add: same_rules_def)
    have "marked e (?P @ [i]) (visits k acts) (w\<lparr>w_phase := Visiting rids todo\<rparr>)"
      using m True by (simp add: marked_def first_occ_snoc [of ?P i, simplified] insert_absorb)
    then show ?thesis
      unfolding step using w(2) on [of "w\<lparr>w_phase := Visiting rids todo\<rparr>"] fewer [of "w\<lparr>w_phase := Visiting rids todo\<rparr>"]
      by (intro quiet_step [OF assms(1,2) id refl]) (simp_all add: holds_lock_def)
  next
    case new: False
    let ?c = "call_of e1 w" and ?r = "st_rule (e_states e ! i)"
    have c: "c_engine ?c = e1" "c_visited ?c = w_visited w" "c_fired ?c = w_fired w" "c_out ?c = w_out w" by (simp_all add: call_of_def)
    have "find (\<lambda>rid. rid \<in> set (r_base ?r)) (i_rids ?inp) = Some rid"
      unfolding t(1) using new i by (intro find_first) (auto simp: watchers_lt)
    then have key: "key_of ?inp ?r = key_by ?inp ?r rid" by (simp add: key_of_def)
    have pre: "length (w_visited w) = length (e_states e1)" "i < length (e_states e1)" "\<not> w_visited w ! i"
      "key_of ?inp (st_rule (e_states e1 ! i)) = key_by ?inp (st_rule (e_states e1 ! i)) rid"
      unfolding s(1) s(2) [OF i(1)] using i(1) new key by (simp_all add: m(1))
    note ef = effect_same [OF sr i(1), of ?G ?G ?inp, OF refl]
    obtain c' fs where v: "on_correlation ?inp rid (of_nat i) ?c = Some c'" "c_visited c' = (w_visited w)[i := True]" "same_frame e1 (c_engine c')"
      "\<And>j. j < length (e_states e1) \<Longrightarrow> groups_rep (st_map (e_states (c_engine c') ! j)) (if j = i then fst (effect ?inp e ?G i) else ?G ! j)"
      "c_fired c' = w_fired w + (if snd (effect ?inp e ?G i) = None then 0 else 1)" "c_out c' = w_out w @ fs"
      "map bare fs = (if snd (effect ?inp e ?G i) = None \<or> o_max ?inp \<le> w_fired w then [] else [fire_at ?inp e ?G i])"
      "\<And>f q. f \<in> set fs \<Longrightarrow> f_group f = Some q \<Longrightarrow> key_of ?inp ?r = Some q \<and> f_rule_id f = r_id ?r"
      by (rule visit_ok [of loc ?c ?G ?inp i rid, unfolded c, OF inv event_input_same [OF sr assms(4)] pre, unfolded ef s(2) [OF i(1)]]) blast
    let ?acts = "acts @ [Visit k i]"
    let ?w = "w\<lparr>w_phase := Visiting rids todo, w_visited := c_visited c', w_out := c_out c', w_fired := c_fired c', w_used := c_used c'\<rparr>"
    have step: "worker_step k w e1 lock = Some (c_engine c', lock, ?w)"
      unfolding visiting_step [OF assms(3)] w(1) using v(1) by (simp add: t(3))
    have sr1: "same_rules e1 (c_engine c')" by (rule same_frame_rules [OF v(3)])
    have "engine_inv loc (c_engine c') (groups_after e inps ?acts G)"
    proof (rule engine_inv_same [OF inv sr1])
      fix j assume j: "j < length (e_states e1)"
      show "groups_rep (st_map (e_states (c_engine c') ! j)) (groups_after e inps ?acts G ! j) \<and>
          groups_inv loc (st_rule (e_states e1 ! j)) (e_caps e1) (groups_after e inps ?acts G ! j)"
        using v(4) [OF j] effect_ok(1) [OF inv event_input_same [OF sr assms(4)] j] ef(1) inv j
        by (cases "j = i") (simp_all add: engine_inv_def)
    qed (use inv in \<open>simp add: engine_inv_def\<close>)
    then have eng: "engine_after loc e G inps ?acts (c_engine c')" using sr sr1 by (simp add: engine_after_def same_rules_def)
    have ans: "answers e inps k ?acts G = answers e inps k acts G @ (if snd (effect ?inp e ?G i) = None then [] else [fire_at ?inp e ?G i])"
      by (simp add: answers_snoc fires_of_def Let_def)
    have rep: "reported e ?inp (answers e inps k ?acts G) ?w"
    proof -
      have o: "w_fired w = length (answers e inps k acts G)" "map bare (w_out w) = take (o_max ?inp) (answers e inps k acts G)"
        "\<And>f q. f \<in> set (w_out w) \<Longrightarrow> f_group f = Some q \<Longrightarrow>
          \<exists>i < ?n. key_of ?inp (st_rule (e_states e ! i)) = Some q \<and> f_rule_id f = r_id (st_rule (e_states e ! i))"
        using w(3) unfolding reported_def by blast+
      have "map bare (c_out c') = take (o_max ?inp) (answers e inps k ?acts G)"
        unfolding ans v(6) map_append v(7) o(1,2) by (simp add: take_Cons')
      moreover have "\<exists>i < ?n. key_of ?inp (st_rule (e_states e ! i)) = Some q \<and> f_rule_id f = r_id (st_rule (e_states e ! i))"
        if "f \<in> set (c_out c')" "f_group f = Some q" for f q
        using that o(3) [of f q] v(8) [of f q] i(1) unfolding v(6) by auto
      ultimately show ?thesis using o(1) v(5) by (simp add: reported_def ans)
    qed
    have "marked e (?P @ [i]) (visits k ?acts) ?w"
      unfolding marked_def
    proof
      show "w_visited ?w = map (\<lambda>j. j \<in> set (?P @ [i])) [0..<?n]"
        using i(1) by (simp add: v(2) m(1)) (intro nth_equalityI, auto simp: nth_list_update)
      show "visits k ?acts = first_occ (?P @ [i])" using new m(2) unfolding first_occ_snoc by simp
    qed
    then have "worker_inv e G inps ?acts k lock ?w"
      using w(1,2) rep by (simp add: worker_inv_def on holds_lock_def)
    then show ?thesis
      unfolding step_ok_def step using eng fewer [of ?w]
      by (intro exI [of _ "c_engine c'"] exI [of _ lock] exI [of _ ?w] exI [of _ "[Visit k i]"]) (simp add: own_def)
  qed
qed


lemma worker_step_ok:
  assumes "engine_after loc e G inps acts e1" "worker_inv e G inps acts k lock w" "event_input_ok loc (inps ! k) e"
  shows "step_ok loc e G inps acts k lock w (worker_step k w e1 lock)"
proof (cases "w_phase w")
  case Ready
  then show ?thesis by (rule start_step [OF assms(1,2)])
next
  case Checking
  then show ?thesis by (rule check_step [OF assms(1,2)])
next
  case (Sweeping "is")
  then show ?thesis by (rule sweep_step [OF assms(1,2)])
next
  case (Visiting rids todo)
  show ?thesis
  proof (cases todo)
    case Nil
    then show ?thesis using Visiting finish_step [OF assms(1,2)] lookup_step [OF assms(1,2)] by (cases rids) simp_all
  next
    case (Cons t todo')
    then show ?thesis using Visiting visit_step [OF assms(1,2) _ assms(3)] by (cases t) simp
  qed
next
  case Finished
  have "same_rules e1 e1" by (simp add: same_rules_def)
  then have "step_ok loc e G inps acts k lock w (Some (e1, lock, w))"
    using assms(2) Finished by (intro quiet_step [OF assms(1,2)]) (simp_all add: worker_inv_def)
  then show ?thesis using Finished by (simp add: worker_step_def Let_def)
qed

section \<open>The pool\<close>

lemma other_worker:
  assumes "worker_inv e G inps acts j lock w" "j \<noteq> k" "own k as" "lock' = lock \<or> lock \<in> {None, Some k} \<and> lock' \<in> {None, Some k}"
  shows "worker_inv e G inps (acts @ as) j lock' w"
proof -
  have "visits j (acts @ as) = visits j acts \<and> answers e inps j (acts @ as) G = answers e inps j acts G"
    using assms(2,3) by (auto simp: own_def answers_other)
  then show ?thesis using assms(1,2,4) by (auto simp: worker_inv_def)
qed

lemma work_Finished: "work e w = 0 \<longleftrightarrow> w_phase w = Finished"
  by (simp add: work_def visits_left_def split: phase.split)

lemma pool_step_ok:
  assumes "pool_inv loc e G inps acts p" "k < length inps" "event_input_ok loc (inps ! k) e"
  obtains p' as where "pool_step k p = Some p'" "pool_inv loc e G inps (acts @ as) p'"
    "work e (p_workers p' ! k) \<le> work e (p_workers p ! k) - 1" "\<And>j. j \<noteq> k \<Longrightarrow> p_workers p' ! j = p_workers p ! j"
proof -
  have p: "engine_after loc e G inps acts (p_engine p)" "length (p_workers p) = length inps"
    "\<And>j. j < length inps \<Longrightarrow> worker_inv e G inps acts j (p_sweeper p) (p_workers p ! j)"
    using assms(1) by (simp_all add: pool_inv_def)
  from worker_step_ok [OF p(1) p(3) [OF assms(2)] assms(3)] obtain e' lock' w' as where
    s: "worker_step k (p_workers p ! k) (p_engine p) (p_sweeper p) = Some (e', lock', w')" "own k as" "engine_after loc e G inps (acts @ as) e'"
      "worker_inv e G inps (acts @ as) k lock' w'"
      "w_phase (p_workers p ! k) = Finished \<and> w_phase w' = Finished \<or> work e w' < work e (p_workers p ! k)"
      "lock' = p_sweeper p \<or> p_sweeper p \<in> {None, Some k} \<and> lock' \<in> {None, Some k}"
    unfolding step_ok_def by blast
  let ?p = "\<lparr>p_engine = e', p_sweeper = lock', p_workers = (p_workers p)[k := w']\<rparr>"
  show thesis
  proof (rule that [of ?p as])
    show "pool_step k p = Some ?p" using s(1) assms(2) p(2) by (simp add: pool_step_def)
    show "pool_inv loc e G inps (acts @ as) ?p"
      unfolding pool_inv_def
    proof (intro conjI allI impI)
      show "worker_inv e G inps (acts @ as) j (p_sweeper ?p) (p_workers ?p ! j)" if "j < length inps" for j
        using s(4) p(2) other_worker [OF p(3) [OF that] _ s(2,6)] that by (cases "j = k") simp_all
    qed (use s(3) p(2) in simp_all)
    show "work e (p_workers ?p ! k) \<le> work e (p_workers p ! k) - 1" using s(5) [folded work_Finished [of e]] assms(2) p(2) by auto
  qed simp
qed

lemma run_pool_ok:
  assumes "\<forall>inp \<in> set inps. event_input_ok loc inp e" "set schedule \<subseteq> {..<length inps}" "pool_inv loc e G inps acts p"
  shows "\<exists>p' acts'. run_pool schedule p = Some p' \<and> pool_inv loc e G inps acts' p' \<and>
    (\<forall>k. work e (p_workers p' ! k) \<le> work e (p_workers p ! k) - count_list schedule k)"
  using assms(2,3)
proof (induction schedule arbitrary: p acts)
  case (Cons k ks)
  have k: "k < length inps" "set ks \<subseteq> {..<length inps}" using Cons.prems(1) by simp_all
  then have "event_input_ok loc (inps ! k) e" using assms(1) by simp
  from pool_step_ok [OF Cons.prems(2) k(1) this] obtain p1 as where 1: "pool_step k p = Some p1" "pool_inv loc e G inps (acts @ as) p1"
    "work e (p_workers p1 ! k) \<le> work e (p_workers p ! k) - 1" "\<And>j. j \<noteq> k \<Longrightarrow> p_workers p1 ! j = p_workers p ! j" by blast
  obtain p2 acts2 where 2: "run_pool ks p1 = Some p2" "pool_inv loc e G inps acts2 p2"
    "\<And>j. work e (p_workers p2 ! j) \<le> work e (p_workers p1 ! j) - count_list ks j"
    using Cons.IH [OF k(2) 1(2)] by blast
  have "work e (p_workers p2 ! j) \<le> work e (p_workers p ! j) - count_list (k # ks) j" for j
    using 2(3) [of j] 1(3) 1(4) [of j] by (cases "j = k") auto
  then show ?case using 1(1) 2(1,2) by (auto simp: run_pool_def)
qed (auto simp: run_pool_def)

lemma new_pool_ok: "engine_inv loc e G \<Longrightarrow> pool_inv loc e G inps [] (new_pool e inps)"
  by (simp add: pool_inv_def new_pool_def engine_after_def groups_after_def same_rules_def worker_inv_def spawn_def reported_def
      progress_def holds_lock_def)

lemma first_occ_prefix: "\<exists>ys. first_occ (P @ Q) = first_occ P @ ys"
proof (induction Q rule: rev_induct)
  case (snoc q Q)
  then show ?case by (auto simp: first_occ_snoc [of "P @ Q" q, simplified])
qed simp

text \<open>Whatever it has done so far, a worker visited a beginning of what its event reaches.\<close>

lemma progress_prefix:
  assumes "progress e inp vs w"
  shows "\<exists>rest. reached inp e = vs @ rest"
proof (cases "w_phase w")
  case (Visiting rids todo)
  show ?thesis
  proof (cases "marked e [] vs w")
    case True
    then show ?thesis by (simp add: marked_def)
  next
    case False
    then obtain rs rid ws "is" where "i_rids inp = rs @ rid # rids" "watchers (e_states e) rid = ws @ is"
      "vs = first_occ (concat (map (watchers (e_states e)) rs) @ ws)" using assms Visiting by (auto simp: progress_def marked_def)
    then show ?thesis
      using first_occ_prefix [of "concat (map (watchers (e_states e)) rs) @ ws" "is @ concat (map (watchers (e_states e)) rids)"]
      by (simp add: reached_def)
  qed
qed (use assms in \<open>simp_all add: progress_def\<close>)

text \<open>The number of steps of one event.\<close>

definition event_steps :: "corr_engine \<Rightarrow> corr_input \<Rightarrow> nat" where
  "event_steps e inp = length (e_states e) + 3 + visits_left e (i_rids inp)"

lemma workers_linear:
  assumes "engine_inv loc e G" "\<forall>inp \<in> set inps. event_input_ok loc inp e" "set schedule \<subseteq> {..<length inps}"
  shows "\<exists>p acts. run_pool schedule (new_pool e inps) = Some p \<and>
    same_rules e (p_engine p) \<and> engine_inv loc (p_engine p) (groups_after e inps acts G) \<and>
    (\<forall>k < length inps. let inp = inps ! k; w = p_workers p ! k; fires = answers e inps k acts G in
       w_fired w = length fires \<and> map bare (w_out w) = take (o_max inp) fires \<and>
       (\<exists>rest. reached inp e = visits k acts @ rest) \<and> (holds_lock w \<longleftrightarrow> p_sweeper p = Some k) \<and>
       (event_steps e inp \<le> count_list schedule k \<longrightarrow> w_phase w = Finished \<and> visits k acts = reached inp e))"
proof -
  obtain p acts where r: "run_pool schedule (new_pool e inps) = Some p" "pool_inv loc e G inps acts p"
    "\<And>k. work e (p_workers p ! k) \<le> work e (p_workers (new_pool e inps) ! k) - count_list schedule k"
    using run_pool_ok [OF assms(2,3) new_pool_ok [OF assms(1)]] by blast
  have "w_phase (p_workers p ! k) = Finished" if "k < length inps" "event_steps e (inps ! k) \<le> count_list schedule k" for k
  proof -
    have "work e (spawn (inps ! k)) = event_steps e (inps ! k)" by (simp add: spawn_def work_def event_steps_def)
    then have "work e (p_workers p ! k) = 0" using that r(3) [of k] by (simp add: new_pool_def)
    then show ?thesis by (simp only: work_Finished)
  qed
  moreover have "worker_inv e G inps acts k (p_sweeper p) (p_workers p ! k)" if "k < length inps" for k
    using r(2) that by (simp add: pool_inv_def)
  moreover have "vs = reached inp e" if "w_phase w = Finished" "progress e inp vs w" for w inp vs
    using that by (simp add: progress_def)
  ultimately show ?thesis
    using r(1,2) progress_prefix unfolding pool_inv_def engine_after_def worker_inv_def reported_def Let_def
    by (intro exI [of _ p] exI [of _ acts] conjI) blast+
qed


section \<open>A worker alone\<close>

text \<open>The steps of a single worker add up to the call.\<close>

definition alone :: "corr_engine \<times> nat option \<times> worker \<Rightarrow> corr_engine \<times> nat option \<times> worker \<Rightarrow> bool" where
  "alone = (\<lambda>(e, lock, w) s. worker_step 0 w e lock = Some s)"

definition local_of :: "corr_call \<Rightarrow> phase \<Rightarrow> worker \<Rightarrow> worker" where
  "local_of c ph w = w\<lparr>w_phase := ph, w_visited := c_visited c, w_out := c_out c, w_fired := c_fired c, w_used := c_used c\<rparr>"

lemma local_of_simps [simp]:
  "w_inp (local_of c ph w) = w_inp w" "w_phase (local_of c ph w) = ph" "call_of (c_engine c) (local_of c ph w) = c"
  "(local_of c ph w)\<lparr>w_phase := ph', w_visited := c_visited c', w_out := c_out c', w_fired := c_fired c', w_used := c_used c'\<rparr> =
    local_of c' ph' w"
  "(local_of c ph w)\<lparr>w_visited := c_visited c', w_out := c_out c', w_fired := c_fired c', w_used := c_used c'\<rparr> = local_of c' ph w"
  "(local_of c ph w)\<lparr>w_phase := ph'\<rparr> = local_of c ph' w"
  by (simp_all add: local_of_def call_of_def)

lemma alone_run:
  "alone\<^sup>*\<^sup>* s (e', lock', w') \<Longrightarrow> s = (e, lock, w) \<Longrightarrow>
    \<exists>m. run_pool (replicate m 0) \<lparr>p_engine = e, p_sweeper = lock, p_workers = [w]\<rparr> = Some \<lparr>p_engine = e', p_sweeper = lock', p_workers = [w']\<rparr>"
proof (induction arbitrary: e lock w rule: converse_rtranclp_induct)
  case base
  then show ?case by (intro exI [of _ 0]) (simp add: run_pool_def)
next
  case (step s s1)
  obtain e1 lock1 w1 where 1: "s1 = (e1, lock1, w1)" by (cases s1)
  from step.IH [OF 1] obtain m where "run_pool (replicate m 0) \<lparr>p_engine = e1, p_sweeper = lock1, p_workers = [w1]\<rparr> =
      Some \<lparr>p_engine = e', p_sweeper = lock', p_workers = [w']\<rparr>" by blast
  moreover have "worker_step 0 w e lock = Some (e1, lock1, w1)" using step.hyps(1) 1 step.prems by (simp add: alone_def)
  ultimately show ?case by (intro exI [of _ "Suc m"]) (simp add: run_pool_def pool_step_def)
qed

lemma sweeps_alone:
  "mfold (\<lambda>st done. do { st' \<leftarrow> sweep_state (i_ts (w_inp w)) st; Some (done @ [st']) }) sts pre = Some fin \<Longrightarrow> e_states e = pre @ sts \<Longrightarrow>
    alone\<^sup>*\<^sup>* (e, lock, w\<lparr>w_phase := Sweeping [length pre..<length pre + length sts]\<rparr>) (e\<lparr>e_states := fin\<rparr>, lock, w\<lparr>w_phase := Sweeping []\<rparr>)"
proof (induction sts arbitrary: pre e)
  case Nil
  then have "e\<lparr>e_states := fin\<rparr> = e" by (cases e) auto
  then show ?case by simp
next
  case (Cons st sts)
  obtain st' where st': "sweep_state (i_ts (w_inp w)) st = Some st'"
    "mfold (\<lambda>st done. do { st' \<leftarrow> sweep_state (i_ts (w_inp w)) st; Some (done @ [st']) }) sts (pre @ [st']) = Some fin"
    using Cons.prems(1) by (auto split: bind_splits)
  let ?e = "e\<lparr>e_states := (pre @ [st']) @ sts\<rparr>"
  have u: "[length pre..<length pre + length (st # sts)] = length pre # [length (pre @ [st'])..<length (pre @ [st']) + length sts]"
    by (simp add: upt_conv_Cons del: upt_Suc)
  have "alone (e, lock, w\<lparr>w_phase := Sweeping [length pre..<length pre + length (st # sts)]\<rparr>)
      (?e, lock, w\<lparr>w_phase := Sweeping [length (pre @ [st'])..<length (pre @ [st']) + length sts]\<rparr>)"
    unfolding u using st'(1) Cons.prems(2) by (simp add: alone_def worker_step_def Let_def del: upt_Suc)
  from converse_rtranclp_into_rtranclp [of alone, OF this Cons.IH [OF st'(2)]] show ?case by simp
qed

lemma visits_alone:
  "mfold (on_correlation (w_inp w) rid) cs c = Some c' \<Longrightarrow>
    alone\<^sup>*\<^sup>* (c_engine c, lock, local_of c (Visiting rids (map (Pair rid) cs)) w) (c_engine c', lock, local_of c' (Visiting rids []) w)"
proof (induction cs arbitrary: c)
  case (Cons ci cs)
  then obtain c1 where 1: "on_correlation (w_inp w) rid ci c = Some c1" "mfold (on_correlation (w_inp w) rid) cs c1 = Some c'"
    by (auto split: bind_splits)
  have "alone (c_engine c, lock, local_of c (Visiting rids (map (Pair rid) (ci # cs))) w)
      (c_engine c1, lock, local_of c1 (Visiting rids (map (Pair rid) cs)) w)"
    using 1(1) by (simp add: alone_def visiting_step)
  from converse_rtranclp_into_rtranclp [of alone, OF this Cons.IH [OF 1(2)]] show ?case .
qed simp

lemma rids_alone:
  "mfold (on_rid (w_inp w)) rids c = Some c' \<Longrightarrow>
    alone\<^sup>*\<^sup>* (c_engine c, lock, local_of c (Visiting rids []) w) (c_engine c', lock, local_of c' (Visiting [] []) w)"
proof (induction rids arbitrary: c)
  case (Cons rid rids)
  then obtain c1 where 1: "on_rid (w_inp w) rid c = Some c1" "mfold (on_rid (w_inp w)) rids c1 = Some c'" by (auto split: bind_splits)
  then obtain ws where ws: "rid_index_find (c_engine c) rid = Some ws"
    "mfold (on_correlation (w_inp w) rid) (case ws of None \<Rightarrow> [] | Some cs \<Rightarrow> cs) c = Some c1"
    by (auto simp: on_rid_def split: bind_splits option.splits)
  have "alone (c_engine c, lock, local_of c (Visiting (rid # rids) []) w)
      (c_engine c, lock, local_of c (Visiting rids (map (Pair rid) (case ws of None \<Rightarrow> [] | Some cs \<Rightarrow> cs))) w)"
    using ws(1) by (simp add: alone_def worker_step_def Let_def)
  from converse_rtranclp_into_rtranclp [of alone, OF this visits_alone [OF ws(2)]] Cons.IH [OF 1(2)]
  show ?case by (rule rtranclp_trans)
qed simp

lemma call_alone:
  assumes "corr_on_event_apply inp e = Some (e', out, n)"
  obtains w where "alone\<^sup>*\<^sup>* (e, None, spawn inp) (e', None, w)" "w_phase w = Finished" "w_out w = out" "w_fired w = n"
proof (cases "e_states e = [] \<or> i_rids inp = []")
  case True
  then have "alone (e, None, spawn inp) (e, None, (spawn inp)\<lparr>w_phase := Finished\<rparr>)"
    by (simp add: alone_def worker_step_def spawn_def Let_def)
  then have "alone\<^sup>*\<^sup>* (e, None, spawn inp) (e, None, (spawn inp)\<lparr>w_phase := Finished\<rparr>)" by (rule r_into_rtranclp)
  moreover have "e' = e" "out = []" "n = 0" using True assms by (auto simp: corr_on_event_apply_def)
  ultimately show thesis using that [of "(spawn inp)\<lparr>w_phase := Finished\<rparr>"] by (simp add: spawn_def)
next
  case False
  let ?w = "spawn inp"
  let ?c0 = "\<lambda>e1. \<lparr>c_engine = e1, c_visited = replicate (length (e_states e1)) False, c_out = [], c_fired = 0, c_used = 0\<rparr>"
  obtain e1 c where 1: "sweep_if_due (i_ts inp) e = Some e1" "mfold (on_rid inp) (i_rids inp) (?c0 e1) = Some c"
    "e' = c_engine c" "out = c_out c" "n = c_fired c"
    using assms False by (auto simp: corr_on_event_apply_def split: bind_splits)
  have b: "begin_visits e1 (?w\<lparr>w_phase := ph\<rparr>) = local_of (?c0 e1) (Visiting (i_rids inp) []) ?w" for ph
    by (simp add: begin_visits_def local_of_def spawn_def)
  have start: "alone (e, None, ?w) (e, Some 0, ?w\<lparr>w_phase := Checking\<rparr>)"
    using False by (auto simp: alone_def worker_step_def spawn_def Let_def)
  have "alone\<^sup>*\<^sup>* (e, Some 0, ?w\<lparr>w_phase := Checking\<rparr>) (e1, None, local_of (?c0 e1) (Visiting (i_rids inp) []) ?w)"
  proof (cases "sweep_due (i_ts inp) e")
    case False
    then have "alone (e, Some 0, ?w\<lparr>w_phase := Checking\<rparr>) (e1, None, begin_visits e1 (?w\<lparr>w_phase := Checking\<rparr>))"
      using 1(1) by (auto simp: alone_def worker_step_def sweep_if_due_def sweep_due_def spawn_def begin_visits_def Let_def split: if_splits)
    then show ?thesis unfolding b by (rule r_into_rtranclp)
  next
    case True
    let ?e = "e\<lparr>e_last_sweep := i_ts inp\<rparr>"
    obtain sts where sts: "mfold (\<lambda>st done. do { st' \<leftarrow> sweep_state (i_ts (w_inp ?w)) st; Some (done @ [st']) }) (e_states ?e) [] = Some sts"
      "e1 = ?e\<lparr>e_states := sts\<rparr>"
      using 1(1) True by (auto simp: sweep_if_due_def sweep_due_def spawn_def split: bind_splits)
    have "alone (e, Some 0, ?w\<lparr>w_phase := Checking\<rparr>) (?e, Some 0, ?w\<lparr>w_phase := Sweeping [0..<length (e_states ?e)]\<rparr>)"
      using True by (simp add: alone_def worker_step_def sweep_due_def spawn_def Let_def)
    moreover have "alone\<^sup>*\<^sup>* (?e, Some 0, ?w\<lparr>w_phase := Sweeping [0..<length (e_states ?e)]\<rparr>) (e1, Some 0, ?w\<lparr>w_phase := Sweeping []\<rparr>)"
      using sweeps_alone [OF sts(1), of ?e "Some 0"] sts(2) by simp
    moreover have "alone (e1, Some 0, ?w\<lparr>w_phase := Sweeping []\<rparr>) (e1, None, begin_visits e1 (?w\<lparr>w_phase := Sweeping []\<rparr>))"
      by (simp add: alone_def worker_step_def spawn_def Let_def)
    ultimately show ?thesis unfolding b by (meson converse_rtranclp_into_rtranclp rtranclp.rtrancl_into_rtrancl)
  qed
  moreover have "alone\<^sup>*\<^sup>* (e1, None, local_of (?c0 e1) (Visiting (i_rids inp) []) ?w) (c_engine c, None, local_of c (Visiting [] []) ?w)"
    using rids_alone [of ?w "i_rids inp" "?c0 e1" c None] 1(2) by (simp add: spawn_def)
  moreover have "alone (c_engine c, None, local_of c (Visiting [] []) ?w) (c_engine c, None, local_of c Finished ?w)"
    by (simp add: alone_def worker_step_def Let_def)
  ultimately have "alone\<^sup>*\<^sup>* (e, None, ?w) (e', None, local_of c Finished ?w)"
    unfolding 1(3) using start by (meson converse_rtranclp_into_rtranclp rtranclp.rtrancl_into_rtrancl rtranclp_trans)
  then show thesis by (rule that) (simp_all add: local_of_def 1(4,5))
qed

lemma pool_of_one:
  assumes "corr_on_event_apply inp e = Some (e', out, n)"
  shows "\<exists>m w. run_pool (replicate m 0) (new_pool e [inp]) = Some \<lparr>p_engine = e', p_sweeper = None, p_workers = [w]\<rparr> \<and>
    w_phase w = Finished \<and> w_out w = out \<and> w_fired w = n"
proof -
  obtain w where "alone\<^sup>*\<^sup>* (e, None, spawn inp) (e', None, w)" "w_phase w = Finished" "w_out w = out" "w_fired w = n"
    by (rule call_alone [OF assms])
  with alone_run [OF this(1) refl] show ?thesis by (auto simp: new_pool_def)
qed


section \<open>Property\<close>



end
