(* ===== verification/Corr_Free.thy ===== *)
theory Corr_Free
  imports Corr_Demo
begin

text \<open>
  Destroying an engine (\<open>corr_engine_free\<close> and what it calls in \<open>src/src/classify_corr.c\<close>): the
  walks over the hash chains that free every node, with the distinct values of each group. A
  freed node is gone from the heap of its table, so a walk that follows a freed pointer or frees
  a node twice fails, and a node that is still there at the end has leaked.
\<close>

section \<open>The walks\<close>

text \<open>Release the payload of a node and then the node; the next pointer was read before.\<close>

definition free_node :: "('v \<Rightarrow> 'v option) \<Rightarrow> nat \<Rightarrow> ('k, 'v) lmap \<Rightarrow> ('k, 'v) lmap option" where
  "free_node release a m =
     do { n \<leftarrow> lm_heap m a;
          _ \<leftarrow> release (n_val n);
          Some (m\<lparr>lm_heap := (lm_heap m)(a := None)\<rparr>) }"

definition lm_free :: "('v \<Rightarrow> 'v option) \<Rightarrow> ('k, 'v) lmap \<Rightarrow> ('k, 'v) lmap option" where
  "lm_free release m =
     do { m \<leftarrow> mfold (mfold (free_node release)) (lm_chains m) m;
          Some (m\<lparr>lm_chains := [], lm_nb := 0, lm_count := 0, lm_head := None, lm_tail := None\<rparr>) }"

definition dset_free :: "dset \<Rightarrow> dset option" where
  "dset_free = lm_free Some"

definition group_free :: "group \<Rightarrow> group option" where
  "group_free g = do { d \<leftarrow> dset_free (distinct_set g); Some (g\<lparr>distinct_set := d\<rparr>) }"

definition cstate_free :: "corr_state \<Rightarrow> corr_state option" where
  "cstate_free st = do { m \<leftarrow> lm_free group_free (st_map st); Some (st\<lparr>st_map := m\<rparr>) }"

definition corr_engine_free :: "corr_engine \<Rightarrow> corr_engine option" where
  "corr_engine_free e =
     do { sts \<leftarrow> mfold (\<lambda>st done. do { st \<leftarrow> cstate_free st; Some (done @ [st]) }) (e_states e) [];
          Some (e\<lparr>e_states := sts, e_rid_buckets := []\<rparr>) }"

section \<open>Every node is freed once\<close>

lemma mfold_concat: "mfold (mfold f) xss = mfold f (concat xss)"
proof (induction xss)
  case (Cons xs xss)
  show ?case by (rule ext) (simp add: mfold_append Cons.IH)
qed (simp add: fun_eq_iff)

lemma free_nodes:
  assumes "distinct as" "\<And>a. a \<in> set as \<Longrightarrow> \<exists>n. lm_heap m a = Some n \<and> release (n_val n) \<noteq> None"
  shows "mfold (free_node release) as m = Some (m\<lparr>lm_heap := \<lambda>a. if a \<in> set as then None else lm_heap m a\<rparr>)"
  using assms
proof (induction as arbitrary: m)
  case (Cons a as)
  from Cons.prems(2) [of a] obtain n where n: "lm_heap m a = Some n" "release (n_val n) \<noteq> None" by auto
  let ?m = "m\<lparr>lm_heap := (lm_heap m)(a := None)\<rparr>"
  have 1: "free_node release a m = Some ?m" using n by (auto simp: free_node_def)
  have "mfold (free_node release) as ?m = Some (?m\<lparr>lm_heap := \<lambda>b. if b \<in> set as then None else lm_heap ?m b\<rparr>)"
    using Cons.prems by (intro Cons.IH) auto
  moreover have "(\<lambda>b. if b \<in> set as then None else lm_heap ?m b) = (\<lambda>b. if b \<in> set (a # as) then None else lm_heap m b)"
    by (auto simp: fun_eq_iff)
  ultimately show ?case using 1 by simp
qed simp

text \<open>The chains of a table run through all of its nodes, each once.\<close>

lemma chains_partition:
  assumes "lm_rep H m xs"
  shows "distinct (concat (lm_chains m))" "set (concat (lm_chains m)) = fst ` set xs"
proof -
  have s: "stored H m xs" using assms by (simp add: lm_rep_def)
  note c = storedD [OF s]
  have one: "k = k' \<and> v = v'" if "(a, k, v) \<in> set xs" "(a, k', v') \<in> set xs" for a k v k' v'
    using that c(1) by (metis eq_key_imp_eq_value prod.inject)
  have "distinct (concat (map ((!) (lm_chains m)) [0..<length (lm_chains m)]))"
  proof (rule distinct_concat_disjoint)
    fix i j a
    assume ij: "i < length (lm_chains m)" "j < length (lm_chains m)" "a \<in> set (lm_chains m ! i)" "a \<in> set (lm_chains m ! j)"
    obtain k v where i: "(a, k, v) \<in> set xs" "bucket (lm_nb m) (H k) = i" using ij(1,3) c(7,11) by auto
    obtain k' v' where j: "(a, k', v') \<in> set xs" "bucket (lm_nb m) (H k') = j" using ij(2,4) c(7,11) by auto
    from one [OF i(1) j(1)] show "i = j" using i(2) j(2) by simp
  qed (simp add: c(7,10))
  then show "distinct (concat (lm_chains m))" by (simp only: map_nth)
  show "set (concat (lm_chains m)) = fst ` set xs"
  proof (intro equalityI subsetI)
    fix a assume "a \<in> set (concat (lm_chains m))"
    then obtain ch where "ch \<in> set (lm_chains m)" "a \<in> set ch" by auto
    then obtain i where "i < length (lm_chains m)" "a \<in> set (lm_chains m ! i)" by (metis in_set_conv_nth)
    then obtain k v where "(a, k, v) \<in> set xs" using c(7,11) by auto
    then show "a \<in> fst ` set xs" by force
  next
    fix a assume "a \<in> fst ` set xs"
    then obtain k v where "(a, k, v) \<in> set xs" by auto
    then have "a \<in> set (lm_chains m ! bucket (lm_nb m) (H k))" using bucket_lt [OF c(8)] c(11) by blast
    moreover have "bucket (lm_nb m) (H k) < length (lm_chains m)" using bucket_lt [OF c(8)] by (simp add: c(7))
    ultimately show "a \<in> set (concat (lm_chains m))" using nth_mem by fastforce
  qed
qed

lemma lm_free_ok:
  assumes "lm_rep H m xs" "\<And>a k v. (a, k, v) \<in> set xs \<Longrightarrow> release v \<noteq> None"
  shows "\<exists>m'. lm_free release m = Some m' \<and> lm_heap m' = (\<lambda>_. None)"
proof -
  have s: "stored H m xs" using assms(1) by (simp add: lm_rep_def)
  note part = chains_partition [OF assms(1)]
  have "\<exists>n. lm_heap m a = Some n \<and> release (n_val n) \<noteq> None" if a: "a \<in> set (concat (lm_chains m))" for a
  proof -
    obtain k v where x: "(a, k, v) \<in> set xs" using a unfolding part(2) by auto
    then obtain n where "lm_heap m a = Some n" "n_val n = v" using stored_node [OF s x] by blast
    then show ?thesis using assms(2) [OF x] by simp
  qed
  from free_nodes [OF part(1) this]
  have "mfold (mfold (free_node release)) (lm_chains m) m = Some (m\<lparr>lm_heap := \<lambda>a. if a \<in> fst ` set xs then None else lm_heap m a\<rparr>)"
    unfolding mfold_concat part(2) by blast
  moreover have "lm_heap m a = None" if "a \<notin> fst ` set xs" for a
  proof (rule ccontr)
    assume "lm_heap m a \<noteq> None"
    then obtain n where "lm_heap m a = Some n" by blast
    then have "core m a = Some (n_key n, n_val n, n_hash n)" by (simp add: core_def)
    then have "(a, n_key n, n_val n) \<in> set xs" using s by (simp add: stored_def)
    then show False using that by force
  qed
  ultimately show ?thesis by (auto simp: lm_free_def fun_eq_iff)
qed

lemma group_free_ok: "group_ok r caps g \<Longrightarrow> group_free g \<noteq> None"
  using lm_free_ok [of fnv1a "distinct_set g" _ Some] by (fastforce simp: group_ok_def dset_rep_def group_free_def dset_free_def)

lemma cstate_free_ok:
  assumes "groups_rep (st_map st) gs" "groups_inv loc r caps gs"
  shows "\<exists>st'. cstate_free st = Some st' \<and> lm_heap (st_map st') = (\<lambda>_. None)"
proof -
  obtain xs where xs: "lm_rep hash_group_key (st_map st) xs" "map snd xs = gs" using assms(1) by (auto simp: groups_rep_def)
  have "group_free g \<noteq> None" if "(a, k, g) \<in> set xs" for a k g
  proof -
    have "(k, g) \<in> set gs" using that xs(2) by force
    then have "group_ok r caps g" using assms(2) by (force simp: groups_inv_def group_inv_def)
    then show ?thesis by (rule group_free_ok)
  qed
  then have "\<exists>m'. lm_free group_free (st_map st) = Some m' \<and> lm_heap m' = (\<lambda>_. None)" by (rule lm_free_ok [OF xs(1)])
  then show ?thesis by (auto simp: cstate_free_def)
qed

lemma engine_free_ok:
  assumes "engine_inv loc e G"
  shows "\<exists>e'. corr_engine_free e = Some e' \<and> length (e_states e') = length (e_states e) \<and>
    (\<forall>st \<in> set (e_states e'). lm_heap (st_map st) = (\<lambda>_. None))"
proof -
  define I where "I = (\<lambda>(ys :: corr_state list) (sts :: corr_state list). length sts = length ys \<and> (\<forall>st \<in> set sts. lm_heap (st_map st) = (\<lambda>_. None)))"
  have "\<exists>sts. mfold (\<lambda>st done. do { st \<leftarrow> cstate_free st; Some (done @ [st]) }) (e_states e) [] = Some sts \<and> I (e_states e) sts"
  proof (rule mfold_inv)
    show "I [] []" by (simp add: I_def)
    fix ys st zs sts
    assume xs: "e_states e = ys @ st # zs" and I: "I ys sts"
    have "st = e_states e ! length ys" "length ys < length (e_states e)" by (simp_all add: xs)
    then have "groups_rep (st_map st) (G ! length ys)" "groups_inv loc (st_rule st) (e_caps e) (G ! length ys)"
      using assms by (simp_all add: engine_inv_def)
    from cstate_free_ok [OF this] obtain st' where "cstate_free st = Some st'" "lm_heap (st_map st') = (\<lambda>_. None)" by blast
    then show "\<exists>s'. (do { st \<leftarrow> cstate_free st; Some (sts @ [st]) }) = Some s' \<and> I (ys @ [st]) s'"
      using I by (auto simp: I_def)
  qed
  then show ?thesis by (auto simp: corr_engine_free_def I_def)
qed


section \<open>Property\<close>



end
