(* ===== verification/Distinct_Spec.thy ===== *)
theory Distinct_Spec
  imports Temporal_Spec
begin

text \<open>
  Distinct values over a stream: with room for all of them, the set of the code holds exactly
  the values last seen inside the window, so the rule compares their number.
\<close>

text \<open>Times and values of the events of one group, fed to an empty set.\<close>

definition distinct_stream :: "corr_rule \<Rightarrow> u32 \<Rightarrow> (f64 \<times> bytes) list \<Rightarrow> group \<Rightarrow> corr_stats \<Rightarrow> (bool \<times> group \<times> corr_stats) option" where
  "distinct_stream r cap evs g stats =
     mfold (\<lambda>(t, v) (_, g, stats). eval_value_count r (Some v) cap t (window_of r t) g stats) evs (False, g, stats)"

definition values_in_window :: "f64 \<Rightarrow> (f64 \<times> bytes) list \<Rightarrow> bytes set" where
  "values_in_window ws evs = {v. \<exists>t. (t, v) \<in> set evs \<and> f64_le ws t}"

definition value_events :: "(f64 \<times> bytes) list \<Rightarrow> bool" where
  "value_events evs \<longleftrightarrow> nondecreasing (map fst evs) \<and> (\<forall>t \<in> fst ` set evs. time_ok t)"

text \<open>When a value was last seen.\<close>

definition last_seen :: "bytes \<Rightarrow> (f64 \<times> bytes) list \<Rightarrow> f64 option" where
  "last_seen v evs = last_hit v (map (\<lambda>(t, v). (t, [v])) evs)"

lemma last_seen_snoc: "last_seen x (evs @ [(t, v)]) = (if x = v then Some t else last_seen x evs)"
  by (simp add: last_seen_def last_hit_snoc)

lemma value_events_snoc:
  assumes "value_events (evs @ [(t, v)])"
  shows "value_events evs" "time_ok t" "\<And>u w. (u, w) \<in> set evs \<Longrightarrow> f64_le u t \<and> time_ok u"
  using assms by (force simp: value_events_def nondecreasing_def sorted_wrt_append)+

lemma in_window_iff:
  assumes "value_events evs"
  shows "v \<in> values_in_window ws evs \<longleftrightarrow> (\<exists>t. last_seen v evs = Some t \<and> f64_le ws t)"
proof -
  let ?evs = "map (\<lambda>(t, v). (t, [v])) evs"
  have m: "map fst ?evs = map fst evs" by auto
  have "nondecreasing (map fst ?evs)" unfolding m using assms by (simp add: value_events_def)
  moreover have "\<forall>(t, hits) \<in> set ?evs. t \<noteq> NaN" using assms by (auto simp: value_events_def time_ok_def)
  ultimately show ?thesis using last_hit_latest [of ?evs v ws] by (force simp: values_in_window_def last_seen_def)
qed

text \<open>One more observation, with room for a new value.\<close>

lemma observe_room:
  assumes "distinct (map fst vs)" "length vs \<le> cap" "val \<notin> fst ` set vs \<longrightarrow> length vs < cap"
  shows "map_of (observe val ts ws cap vs) x =
    (if x = val then Some ts else case map_of vs x of Some t \<Rightarrow> if f64_lt t ws then None else Some t | None \<Rightarrow> None)"
proof (cases "length vs < cap")
  case True
  then show ?thesis by (rule observe_map_of [OF assms(1)])
next
  case False
  define live where "live = filter (\<lambda>(_, t). \<not> f64_lt t ws) vs"
  have "cap \<noteq> 0" using False assms(2,3) by (cases vs) auto
  then have "val \<in> fst ` set live \<or> length live < cap"
  proof -
    obtain t where t: "(val, t) \<in> set vs" using False assms(2,3) by force
    show ?thesis
    proof (cases "f64_lt t ws")
      case True
      then have "length live < length vs" unfolding live_def using t by (intro length_filter_less [of "(val, t)"]) simp_all
      then show ?thesis using assms(2) by simp
    next
      case False
      then show ?thesis using t by (force simp: live_def)
    qed
  qed
  moreover have "length live \<le> length vs" unfolding live_def by (rule length_filter_le)
  ultimately have "observe val ts ws cap vs = observe val ts ws (Suc (length vs)) vs"
    unfolding observe_def live_def [symmetric] Let_def by auto
  then show ?thesis using observe_map_of [OF assms(1), of "Suc (length vs)"] by simp
qed

lemma distinct_stream_map:
  assumes "dset_rep (distinct_set g) []" "value_events evs" "card (snd ` set evs) \<le> unat cap" "0 < unat cap" "unat cap \<le> 2 ^ 28"
    "0 < r_timespan r" "r_timespan r \<le> 2 ^ 31"
  shows "\<exists>f g' vs. distinct_stream r cap evs g stats = Some (f, g', stats) \<and> dset_rep (distinct_set g') vs \<and>
    distinct (map fst vs) \<and> fst ` set vs \<subseteq> snd ` set evs \<and>
    (evs \<noteq> [] \<longrightarrow> f = cmp_threshold (int (length vs)) (r_op r) (r_count r) \<and>
      (\<forall>x. map_of vs x = (case last_seen x evs of
          Some t \<Rightarrow> if f64_le (window_of r (fst (last evs))) t then Some t else None | None \<Rightarrow> None)))"
  using assms(2,3)
proof (induction evs rule: rev_induct)
  case Nil
  show ?case using assms(1) by (auto simp: distinct_stream_def)
next
  case (snoc e evs)
  obtain t v where e: "e = (t, v)" by (cases e)
  note ev = value_events_snoc [OF snoc.prems(1) [unfolded e]]
  have "card (snd ` set evs) \<le> card (snd ` set (evs @ [e]))" by (rule card_mono) auto
  then have card1: "card (snd ` set evs) \<le> unat cap" using snoc.prems(2) by simp
  obtain f1 g1 vs where 1: "distinct_stream r cap evs g stats = Some (f1, g1, stats)" "dset_rep (distinct_set g1) vs"
    "distinct (map fst vs)" "fst ` set vs \<subseteq> snd ` set evs"
    and old: "\<And>x. evs \<noteq> [] \<Longrightarrow> map_of vs x = (case last_seen x evs of
        Some t \<Rightarrow> if f64_le (window_of r (fst (last evs))) t then Some t else None | None \<Rightarrow> None)"
    using snoc.IH [OF ev(1) card1] by blast
  have len: "length vs = card (fst ` set vs)" using distinct_card [OF 1(3)] by simp
  have le: "length vs \<le> unat cap" using card_mono [OF _ 1(4)] card1 by (simp add: len)
  have room: "v \<notin> fst ` set vs \<longrightarrow> length vs < unat cap"
  proof
    assume "v \<notin> fst ` set vs"
    then have "Suc (length vs) = card (insert v (fst ` set vs))" by (simp add: len)
    also have "\<dots> \<le> card (snd ` set (evs @ [e]))" using 1(4) by (intro card_mono) (auto simp: e)
    finally show "length vs < unat cap" using snoc.prems(2) by simp
  qed
  let ?ws = "window_of r t" and ?vs = "observe v t (window_of r t) (unat cap) vs"
  note new = observe_room [OF 1(3) le room, of t ?ws]
  have noev: "\<not> observe_evicts v ?ws (unat cap) vs"
  proof
    let ?live = "filter (\<lambda>(_, t). \<not> f64_lt t ?ws) vs"
    assume "observe_evicts v ?ws (unat cap) vs"
    then have o: "v \<notin> fst ` set ?live" "unat cap \<le> length ?live" by (simp_all add: observe_evicts_def Let_def)
    have "length ?live \<le> length vs" by (rule length_filter_le)
    then have "length ?live = length vs" using le o(2) by linarith
    then have "?live = vs" by (metis filter_True length_filter_less less_irrefl)
    then show False using o room by simp
  qed
  obtain d where d: "dset_observe (distinct_set g1) v t ?ws cap stats = Some (of_nat (length ?vs), d, stats)" "dset_rep d ?vs"
    using dset_observe_ok [OF 1(2) assms(4,5) le, of v t ?ws stats] noev by auto
  have lenc: "length ?vs \<le> 2 ^ 28" using observe_length [OF le assms(4), of v t ?ws] assms(5) by simp
  then have cnt: "uint (of_nat (length ?vs) :: u32) = int (length ?vs)"
    by (simp add: uint_word_of_int take_bit_nat_eq_self uint_nat unat_of_nat)
  have run: "distinct_stream r cap (evs @ [e]) g stats =
      Some (cmp_threshold (int (length ?vs)) (r_op r) (r_count r), g1\<lparr>distinct_set := d\<rparr>, stats)"
    using 1(1) by (simp add: distinct_stream_def mfold_append e eval_value_count_def d(1) cnt)
  have seen: "map_of ?vs x = (case last_seen x (evs @ [e]) of
      Some t' \<Rightarrow> if f64_le ?ws t' then Some t' else None | None \<Rightarrow> None)" for x
  proof (cases "x = v")
    case True
    have "f64_le ?ws t" by (rule window_of_ok(2) [OF ev(2) assms(6,7)])
    then show ?thesis using True by (simp add: new e last_seen_snoc)
  next
    case False
    show ?thesis
    proof (cases "evs = []")
      case True
      then have "vs = []" using 1(4) by simp
      then show ?thesis using False True new [of x] by (simp add: e last_seen_def last_hit_def)
    next
      case ne: False
      obtain u w where l: "last evs = (u, w)" by (cases "last evs")
      then have "(u, w) \<in> set evs" using ne last_in_set [of evs] by simp
      then have "f64_le (window_of r u) ?ws" using ev(2,3) assms(6,7) by (intro window_of_mono) auto
      then have "f64_le (window_of r u) t'" if "f64_le ?ws t'" for t' using f64_le_trans that by blast
      moreover have "?ws \<noteq> NaN" using window_of_ok(1) [OF ev(2) assms(6,7)] by auto
      then have "\<not> f64_lt t' ?ws \<longleftrightarrow> f64_le ?ws t'" if "f64_le (window_of r u) t'" for t' using that by (cases t') (auto simp: f64_not_lt)
      ultimately show ?thesis using False new [of x] old [OF ne, of x] l
        by (auto simp: e last_seen_snoc split: option.splits)
    qed
  qed
  have keys: "fst ` set ?vs \<subseteq> snd ` set (evs @ [e])"
  proof -
    have "fst ` set ?vs = {x. map_of ?vs x \<noteq> None}" by (simp add: dom_map_of_conv_image_fst [symmetric] dom_def)
    also have "\<dots> \<subseteq> insert v (fst ` set vs)" by (auto simp: new map_of_eq_None_iff split: if_splits option.splits dest: map_of_SomeD)
    finally show ?thesis using 1(4) by (auto simp: e)
  qed
  have lst: "fst (last (evs @ [e])) = t" by (simp add: e)
  show ?case
    unfolding lst run using d(2) dset_rep_distinct [OF d(2)] keys seen
    by (intro exI [of _ ?vs] exI conjI impI allI) (rule refl, simp_all)
qed

lemma value_count_stream:
  assumes "dset_rep (distinct_set g) []" "value_events evs" "card (snd ` set evs) \<le> unat cap" "0 < unat cap" "unat cap \<le> 2 ^ 28"
    "0 < r_timespan r" "r_timespan r \<le> 2 ^ 31" "evs \<noteq> []"
  shows "\<exists>g'. distinct_stream r cap evs g stats =
    Some (cmp_threshold (int (card (values_in_window (window_of r (fst (last evs))) evs))) (r_op r) (r_count r), g', stats)"
proof -
  let ?ws = "window_of r (fst (last evs))"
  obtain f g' vs where s: "distinct_stream r cap evs g stats = Some (f, g', stats)" "distinct (map fst vs)"
    "f = cmp_threshold (int (length vs)) (r_op r) (r_count r)"
    and m: "\<And>x. map_of vs x = (case last_seen x evs of Some t \<Rightarrow> if f64_le ?ws t then Some t else None | None \<Rightarrow> None)"
    using distinct_stream_map [OF assms(1-7), of stats] assms(8) by blast
  have "fst ` set vs = {x. map_of vs x \<noteq> None}" by (simp add: dom_map_of_conv_image_fst [symmetric] dom_def)
  also have "\<dots> = values_in_window ?ws evs" using in_window_iff [OF assms(2)] by (auto simp: m split: option.splits)
  finally have "length vs = card (values_in_window ?ws evs)" using distinct_card [OF s(2)] by simp
  then show ?thesis using s(1,3) by simp
qed

section \<open>Property\<close>

lemma distinct_set_new: "dset_rep (distinct_set (group_new cap)) []"
  using dset_init_rep by (simp add: group_new_def Let_def)

text \<open>
  C15. A value count over any stream of events in time order, with room for all its values:
  at each event the rule compares the number of different values seen inside the window that
  ends there. The hash set that drops what it saw too long ago computes exactly that.
\<close>

theorem value_count_correct:
  assumes "value_events evs" "evs \<noteq> []" "card (snd ` set evs) \<le> unat cap" "unat cap \<le> 2 ^ 28"
    "0 < r_timespan r" "r_timespan r \<le> 2 ^ 31"
  shows "\<exists>g'. distinct_stream r cap evs (group_new n) stats =
    Some (cmp_threshold (int (card (values_in_window (window_of r (fst (last evs))) evs))) (r_op r) (r_count r), g', stats)"
proof -
  have "0 < unat cap" using assms(2,3) card_gt_0_iff [of "snd ` set evs"] by fastforce
  from value_count_stream [OF distinct_set_new assms(1,3) this assms(4-6,2)] show ?thesis .
qed

theorem value_count_correct_witness:
  "\<exists>g'. distinct_stream sample_rule 4 [(Fin 5, [1]), (Fin 7, [2])] (group_new 4) zero_stats = Some (True, g', zero_stats)"
proof -
  let ?evs = "[(Fin 5, [1 :: u8]), (Fin 7, [2])]"
  have e: "value_events ?evs" using f64_ok_int [of 5] f64_ok_int [of 7] by (simp add: value_events_def nondecreasing_def time_ok_def)
  have "window_of sample_rule (Fin 7) = Fin (- 3)" using rnd_of_int [of "- 3"] by (simp add: window_of_def f64_sub_def f64_ten)
  then have "values_in_window (window_of sample_rule (Fin 7)) ?evs = {[1], [2]}" by (auto simp: values_in_window_def)
  with value_count_correct [OF e, of 4 sample_rule 4 zero_stats] show ?thesis by simp
qed

end
