(* ===== verification/Beacon_Spec.thy ===== *)
theory Beacon_Spec
  imports Aggregate_Spec
begin

text \<open>
  Beaconing over a stream: a group whose events keep coming at one distance is reported as
  soon as enough of them are in the window.
\<close>

definition beacon_stream :: "corr_rule \<Rightarrow> f64 list \<Rightarrow> group \<Rightarrow> corr_stats \<Rightarrow> (bool \<times> group \<times> corr_stats) option" where
  "beacon_stream r ts g stats =
     mfold (\<lambda>t (_, g, stats). eval_beaconing r t (f64_sub t (f64_of_int (r_timespan r))) g stats) ts (False, g, stats)"

lemma beacon_stream_ring:
  assumes "ring_ok g" "r_n_buckets r \<le> 0"
  shows "\<exists>f g' stats'. beacon_stream r ts g stats = Some (f, g', stats') \<and> ring_ok g' \<and> ring_only g g' \<and>
    ring_times g' = fold (\<lambda>t. window_push (unat (ev_cap g)) (f64_sub t (f64_of_int (r_timespan r))) t) ts (ring_times g) \<and>
    (ts \<noteq> [] \<longrightarrow> f = raw_beacon r (ring_times g'))"
proof (induction ts rule: rev_induct)
  case Nil
  show ?case using assms by (auto simp: beacon_stream_def)
next
  case (snoc t ts)
  then obtain f g1 st1 where 1: "beacon_stream r ts g stats = Some (f, g1, st1)" "ring_ok g1" "ring_only g g1"
    "ring_times g1 = fold (\<lambda>t. window_push (unat (ev_cap g)) (f64_sub t (f64_of_int (r_timespan r))) t) ts (ring_times g)" by blast
  let ?ws = "f64_sub t (f64_of_int (r_timespan r))"
  obtain g2 st2 where 2: "eval_beaconing_raw r t ?ws g1 st1 = Some (raw_beacon r (window_push (unat (ev_cap g1)) ?ws t (ring_times g1)), g2, st2)"
    "ring_ok g2" "ring_times g2 = window_push (unat (ev_cap g1)) ?ws t (ring_times g1)" "ring_only g1 g2"
    by (rule eval_beaconing_raw_ok [OF 1(2), where now = t and ws = ?ws and r = r and stats = st1])
  show ?case
    using 1 2 ring_onlyD(1,2) [OF 1(3)] ring_only_trans [OF 1(3) 2(4)] assms(2)
    by (simp add: beacon_stream_def eval_beaconing_def mfold_append)
qed

lemma nondecreasing_every: "0 \<le> d \<Longrightarrow> nondecreasing (every t0 d n)"
  by (auto simp: nondecreasing_def every_def sorted_wrt_iff_nth_less intro: mult_right_mono)

lemma every_time_ok:
  assumes "0 \<le> t0" "0 \<le> d" "t0 + int n * d \<le> 2 ^ 52" "t \<in> set (every t0 d n)"
  shows "time_ok t" "\<exists>i < n. t = Fin (of_int (t0 + int i * d))"
proof -
  obtain i where i: "i < n" "t = Fin (of_int (t0 + int i * d))" using assms(4) by (auto simp: every_def)
  have "int i * d \<le> int n * d" "0 \<le> int i * d" using i(1) assms(2) by (auto intro: mult_right_mono)
  then have m: "0 \<le> t0 + int i * d" "t0 + int i * d \<le> 2 ^ 52" using assms(1,3) by linarith+
  then have "f64_ok t" by (simp only: i(2)) (rule f64_ok_int, simp)
  moreover have "(0 :: rat) \<le> of_int (t0 + int i * d)" "of_int (t0 + int i * d) \<le> (2 ^ 52 :: rat)"
    using m of_int_le_iff [of "t0 + int i * d" "2 ^ 52", where ?'a = rat] by (simp_all only: of_int_0_le_iff, simp)
  ultimately show "time_ok t" by (simp add: time_ok_def i(2) del: of_int_add of_int_mult)
  show "\<exists>i < n. t = Fin (of_int (t0 + int i * d))" using i by blast
qed

text \<open>The window of the last event reaches back to the first.\<close>

lemma every_in_window:
  assumes "0 \<le> t0" "0 < d" "t0 + int n * d \<le> 2 ^ 52" "int n * d \<le> r_timespan r" "r_timespan r \<le> 2 ^ 31"
    "t \<in> set (every t0 d (Suc n))"
  shows "f64_le (f64_sub (last (every t0 d (Suc n))) (f64_of_int (r_timespan r))) t"
proof -
  define l where "l = t0 + int n * d - r_timespan r"
  have "0 \<le> int n * d" using assms(2) by simp
  then have l: "l \<le> t0" "- (2 ^ 53) \<le> l" "0 \<le> r_timespan r" using assms(1,4,5) by (simp_all add: l_def)
  have "last (every t0 d (Suc n)) = Fin (of_int (t0 + int n * d))" by (simp add: every_def)
  moreover have "f64_of_int (r_timespan r) = Fin (of_int (r_timespan r))" using rnd_of_int [of "r_timespan r"] l(3) assms(5) by (simp add: f64_of_int_def)
  moreover have "\<bar>t0 + int n * d - r_timespan r\<bar> \<le> 2 ^ 53" using l assms(3) by (simp add: l_def)
  ultimately have s: "f64_sub (last (every t0 d (Suc n))) (f64_of_int (r_timespan r)) = Fin (of_int l)"
    by (simp only: f64_int_sub l_def)
  obtain i where i: "i < Suc n" "t = Fin (of_int (t0 + int i * d))" using assms(6) by (auto simp: every_def simp del: upt_Suc)
  have "0 \<le> int i * d" using assms(2) by simp
  then have "l \<le> t0 + int i * d" using l(1) by linarith
  then show ?thesis unfolding s i(2) by (simp only: f64_le.simps of_int_le_iff)
qed

lemma steady_beacon:
  assumes "ring_ok g" "ring_times g = []" "r_n_buckets r \<le> 0" "0 < r_cv_permille r" "r_cv_permille r \<le> 2 ^ 31"
    "3 \<le> n" "r_count r \<le> int n" "n \<le> unat (ev_cap g)" "n \<le> 2 ^ 28"
    "0 \<le> t0" "0 < d" "t0 + int n * d \<le> 2 ^ 52" "(int n - 1) * d \<le> r_timespan r" "r_timespan r \<le> 2 ^ 31"
  shows "\<exists>g' stats'. beacon_stream r (every t0 d n) g stats = Some (True, g', stats')"
proof -
  obtain k where k: "n = Suc k" using assms(6) by (cases n) auto
  let ?ts = "every t0 d n" and ?T = "f64_of_int (r_timespan r)"
  have kn: "int k * d \<le> int n * d" "0 \<le> int k * d" using assms(11) k by (auto intro: mult_right_mono)
  have kT: "int k * d \<le> r_timespan r" "t0 + int k * d \<le> 2 ^ 52" "0 \<le> r_timespan r" using assms(12,13) k kn by simp_all
  define T where "T = (of_int (r_timespan r) :: rat)"
  have T: "?T = Fin T" "0 \<le> T" "T \<le> 2 ^ 31"
    using kT(3) assms(14) of_int_le_iff [of "r_timespan r" "2 ^ 31", where ?'a = rat]
    by (simp_all add: f64_of_int_def T_def rnd_of_int)
  have ne: "?ts \<noteq> []" by (simp add: every_def k)
  have d0: "0 \<le> d" using assms(11) by simp
  note ok = every_time_ok(1) [OF assms(10) d0 assms(12)]
  obtain f g' stats' where b: "beacon_stream r ?ts g stats = Some (f, g', stats')"
    "ring_times g' = fold (\<lambda>t. window_push (unat (ev_cap g)) (f64_sub t (Fin T)) t) ?ts []"
    "f = raw_beacon r (ring_times g')"
    using beacon_stream_ring [OF assms(1,3), of ?ts stats] ne unfolding T(1) assms(2) by blast
  have "ring_times g' = filter (\<lambda>u. \<not> f64_lt u (f64_sub (last ?ts) (Fin T))) (newest (unat (ev_cap g)) ?ts)"
    unfolding b(2)
    using ne nondecreasing_every [OF d0] ok ring_okD(2) [OF assms(1)] time_sub T(2,3) time_sub_mono by (intro window_run) auto
  also have "newest (unat (ev_cap g)) ?ts = ?ts" using assms(8) by (simp add: newest_def every_def)
  also have "filter (\<lambda>u. \<not> f64_lt u (f64_sub (last ?ts) (Fin T))) ?ts = ?ts"
  proof (rule filter_True, rule ballI)
    fix u assume "u \<in> set ?ts"
    then have "f64_le (f64_sub (last ?ts) (Fin T)) u"
      using every_in_window [OF assms(10,11) kT(2,1) assms(14)] unfolding k T(1) by blast
    then show "\<not> f64_lt u (f64_sub (last ?ts) (Fin T))" using f64_le_lt_trans f64_lt_irrefl by metis
  qed
  finally have "f = raw_beacon r ?ts" using b(3) by simp
  moreover have "int n * d \<le> 2 ^ 53" using assms(10,12) by simp
  ultimately show ?thesis using b(1) raw_beacon_every [OF assms(6,7,11) _ assms(4,5,9)] by simp
qed

section \<open>Property\<close>

text \<open>
  C31. A steady beacon is caught: when the events of a fresh group come every \<open>d\<close> seconds, at
  least three and as many as the rule asks for, all inside the window and the ring, then the
  last of them fires, whatever the tolerated variation.
\<close>

theorem steady_beacon_fires:
  assumes "r_n_buckets r \<le> 0" "0 < r_cv_permille r" "r_cv_permille r \<le> 2 ^ 31"
    "3 \<le> n" "r_count r \<le> int n" "n \<le> unat cap" "unat cap \<le> 2 ^ 28"
    "0 \<le> t0" "0 < d" "t0 + int n * d \<le> 2 ^ 52" "(int n - 1) * d \<le> r_timespan r" "r_timespan r \<le> 2 ^ 31"
  shows "\<exists>g' stats'. beacon_stream r (every t0 d n) (group_new cap) stats = Some (True, g', stats')"
proof -
  have "0 < unat cap" using assms(4,6) by linarith
  note g = ring_ok_new [OF this assms(7)]
  show ?thesis by (rule steady_beacon [OF g(1,2) assms(1-5) _ _ assms(8-12)]) (use g(3) assms(6,7) in simp_all)
qed

theorem steady_beacon_fires_witness:
  "\<exists>g' stats'. beacon_stream sample_rule (every 1000 5 3) (group_new 8) zero_stats = Some (True, g', stats')"
  by (rule steady_beacon_fires) simp_all

end
