(* ===== verification/Ordered_Spec.thy ===== *)
theory Ordered_Spec
  imports Temporal_Spec
begin

text \<open>
  An ordered sequence that fires did occur: for every rule of the order there is an event that
  matched it, the events come in the order of the rules, the first is in the window of the last,
  and with event times on, their times never go back.
\<close>

text \<open>Positions of events for a prefix of the order; one event may serve several rules.\<close>

definition ordered_run :: "bool \<Rightarrow> hit_event list \<Rightarrow> u32 list \<Rightarrow> nat list \<Rightarrow> bool" where
  "ordered_run et evs order js \<longleftrightarrow> length js \<le> length order \<and> sorted js \<and>
     (\<forall>i < length js. js ! i < length evs \<and> order ! i \<in> set (snd (evs ! (js ! i)))) \<and>
     (et \<longrightarrow> sorted_wrt (\<lambda>i j. f64_le (fst (evs ! i)) (fst (evs ! j))) js)"

text \<open>What the group remembers of them.\<close>

definition progress_of :: "hit_event list \<Rightarrow> nat list \<Rightarrow> u32 \<times> f64 \<times> f64 \<Rightarrow> bool" where
  "progress_of evs js = (\<lambda>(p, a, l). unat p = length js \<and> (js \<noteq> [] \<longrightarrow> a = fst (evs ! hd js) \<and> l = fst (evs ! last js)))"

definition ordered_stream :: "corr_rule \<Rightarrow> bool \<Rightarrow> hit_event list \<Rightarrow> group \<Rightarrow> bool \<times> group" where
  "ordered_stream r et evs g = fold (\<lambda>(t, hits) (_, g). eval_temporal_ordered r hits t (window_of r t) et g) evs (False, g)"

lemma ordered_run_mono: "ordered_run et evs order js \<Longrightarrow> ordered_run et (evs @ [e]) order js"
proof -
  assume r: "ordered_run et evs order js"
  then have lt: "j < length evs" if "j \<in> set js" for j using that by (auto simp: ordered_run_def in_set_conv_nth)
  have "sorted_wrt (\<lambda>i j. f64_le (fst ((evs @ [e]) ! i)) (fst ((evs @ [e]) ! j))) js" if "et"
  proof (rule sorted_wrt_mono_rel [rotated])
    show "sorted_wrt (\<lambda>i j. f64_le (fst (evs ! i)) (fst (evs ! j))) js" using r that by (simp add: ordered_run_def)
  qed (simp add: nth_append lt)
  moreover have "js ! i < Suc (length evs)" if "i < length js" for i using lt [OF nth_mem [OF that]] by simp
  ultimately show ?thesis using r lt by (auto simp: ordered_run_def nth_append)
qed

lemma progress_mono: "ordered_run et evs order js \<Longrightarrow> progress_of evs js s \<Longrightarrow> progress_of (evs @ [e]) js s"
proof -
  assume r: "ordered_run et evs order js" and p: "progress_of evs js s"
  have lt: "j < length evs" if "j \<in> set js" for j using r that by (auto simp: ordered_run_def in_set_conv_nth)
  show ?thesis using p lt [OF hd_in_set] lt [OF last_in_set] by (auto simp: progress_of_def nth_append)
qed

lemma run_snoc:
  assumes "ordered_run et (evs @ [(t, hits)]) order js" "length js < length order" "order ! length js \<in> set hits"
    "progress_of (evs @ [(t, hits)]) js (p, a, l)" "js \<noteq> [] \<Longrightarrow> et \<Longrightarrow> f64_le l t" "length order < 2 ^ 32"
  shows "ordered_run et (evs @ [(t, hits)]) order (js @ [length evs])"
    "progress_of (evs @ [(t, hits)]) (js @ [length evs]) (p + 1, if js = [] then t else a, t)"
proof -
  let ?evs = "evs @ [(t, hits)]"
  have lt: "j < Suc (length evs)" if "j \<in> set js" for j using assms(1) that by (auto simp: ordered_run_def in_set_conv_nth)
  have "f64_le (fst (?evs ! i)) t" if e: "et" and i: "i \<in> set js" for i
  proof -
    have ne: "js \<noteq> []" using i by auto
    have l: "f64_le (fst (?evs ! last js)) t" using assms(4,5) ne e by (simp add: progress_of_def)
    obtain ks k where js: "js = ks @ [k]" using ne by (metis append_butlast_last_id)
    have "sorted_wrt (\<lambda>i j. f64_le (fst (?evs ! i)) (fst (?evs ! j))) (ks @ [k])" using assms(1) e js by (simp add: ordered_run_def)
    then show ?thesis using i l js f64_le_trans by (auto simp: sorted_wrt_append)
  qed
  moreover have "\<forall>j \<in> set js. j \<le> length evs" using lt by fastforce
  ultimately show "ordered_run et ?evs order (js @ [length evs])"
    using assms(1-3) by (auto simp: ordered_run_def sorted_wrt_append sorted_append nth_append less_Suc_eq)
  have "unat (p + 1) = Suc (length js)"
    using assms(2,4,6) by (simp add: progress_of_def unat_word_ariths(1) )
  then show "progress_of ?evs (js @ [length evs]) (p + 1, if js = [] then t else a, t)"
    using assms(4) by (auto simp: progress_of_def nth_append)
qed

lemma advance_run:
  assumes "ordered_run et (evs @ [(t, hits)]) order js" "progress_of (evs @ [(t, hits)]) js (p, a, l)"
    "es = drop (length js) order" "length order < 2 ^ 32" "t \<noteq> NaN"
  shows "\<exists>js'. ordered_run et (evs @ [(t, hits)]) order js' \<and>
    progress_of (evs @ [(t, hits)]) js' (ordered_advance et hits t es (p, a, l)) \<and>
    (js' \<noteq> [] \<longrightarrow> fst (snd (ordered_advance et hits t es (p, a, l))) = (if js = [] then t else a))"
  using assms(1-3)
proof (induction es arbitrary: js p a l)
  case Nil
  then show ?case by (intro exI [of _ js]) simp
next
  case (Cons e es)
  have lt: "length js < length order" "e = order ! length js" "es = drop (Suc (length js)) order"
    using Cons.prems(3) by (metis drop_eq_Nil list.distinct(1) not_le, metis hd_drop_conv_nth list.sel(1) drop_eq_Nil list.distinct(1) not_le,
      metis drop_Suc drop_tl list.sel(3))
  have p0: "p = 0 \<longleftrightarrow> js = []" using Cons.prems(2) by (auto simp: progress_of_def unat_eq_0)
  have stay: ?case if "ordered_advance et hits t (e # es) (p, a, l) = (p, a, l)"
    using Cons.prems(1,2) that by (intro exI [of _ js]) auto
  show ?case
  proof (cases "e \<in> set hits \<and> (js = [] \<or> \<not> et \<or> f64_le l t)")
    case False
    then show ?thesis using stay p0 by auto
  next
    case True
    note s = run_snoc [OF Cons.prems(1) lt(1) _ Cons.prems(2) _ assms(4)]
    have s: "ordered_run et (evs @ [(t, hits)]) order (js @ [length evs])"
      "progress_of (evs @ [(t, hits)]) (js @ [length evs]) (p + 1, if js = [] then t else a, t)"
      using s True lt(2) by auto
    have "ordered_advance et hits t (e # es) (p, a, l) = ordered_advance et hits t es (p + 1, if js = [] then t else a, t)"
      using True p0 by auto
    moreover have "es = drop (length (js @ [length evs])) order" using lt(3) by simp
    ultimately show ?thesis using Cons.IH [OF s] by simp
  qed
qed

text \<open>Between events the group remembers a proper prefix of the order.\<close>

lemma ordered_stream_run:
  assumes "ordered_progress g = 0" "rule_order r \<noteq> []" "length (rule_order r) < 2 ^ 32"
    "\<forall>(t, hits) \<in> set evs. time_ok t" "0 < r_timespan r" "r_timespan r \<le> 2 ^ 31"
  shows "\<exists>f g' js. ordered_stream r et evs g = (f, g') \<and> ordered_run et evs (rule_order r) js \<and> length js < length (rule_order r) \<and>
      progress_of evs js (ordered_progress g', ordered_anchor_ts g', ordered_last_ts g') \<and>
      (f \<longrightarrow> (\<exists>ks. ordered_run et evs (rule_order r) ks \<and> length ks = length (rule_order r) \<and>
        \<not> f64_lt (fst (evs ! hd ks)) (window_of r (fst (last evs)))))"
  using assms(4)
proof (induction evs rule: rev_induct)
  case Nil
  show ?case using assms(1-3) by (intro exI [of _ False] exI [of _ g] exI [of _ "[]"]) (simp add: ordered_stream_def ordered_run_def progress_of_def)
next
  case (snoc e evs)
  obtain t hits where e: "e = (t, hits)" by (cases e)
  let ?o = "rule_order r" and ?ws = "window_of r t" and ?evs = "evs @ [(t, hits)]"
  have tn: "t \<noteq> NaN" "time_ok t" using snoc.prems by (auto simp: e time_ok_def)
  obtain f g1 js where 1: "ordered_stream r et evs g = (f, g1)" "ordered_run et evs ?o js" "length js < length ?o"
    "progress_of evs js (ordered_progress g1, ordered_anchor_ts g1, ordered_last_ts g1)"
    using snoc.IH snoc.prems by auto
  define reset where "reset \<longleftrightarrow> ordered_progress g1 > 0 \<and> f64_lt (ordered_anchor_ts g1) ?ws"
  define js1 where "js1 = (if reset then [] else js)"
  define g2 where "g2 = (if reset then set_progress (0, Fin 0, Fin 0) g1 else g1)"
  have run: "ordered_run et ?evs ?o js1"
    using ordered_run_mono [OF 1(2), of "(t, hits)"] by (simp add: js1_def ordered_run_def)
  have prog: "progress_of ?evs js1 (ordered_progress g2, ordered_anchor_ts g2, ordered_last_ts g2)"
    using progress_mono [OF 1(2,4), of "(t, hits)"] by (simp add: js1_def g2_def progress_of_def set_progress_def)
  have len: "unat (ordered_progress g2) = length js1" using prog by (simp add: progress_of_def)
  have anchor: "\<not> f64_lt (ordered_anchor_ts g2) ?ws" if "js1 \<noteq> []"
  proof -
    have "\<not> reset" "js \<noteq> []" using that by (auto simp: js1_def split: if_splits)
    moreover have "ordered_progress g1 \<noteq> 0" using 1(4) \<open>js \<noteq> []\<close> by (auto simp: progress_of_def)
    ultimately show ?thesis by (simp add: reset_def g2_def word_gt_0)
  qed
  obtain js2 where 2: "ordered_run et ?evs ?o js2"
    "progress_of ?evs js2 (ordered_advance et hits t (drop (length js1) ?o) (ordered_progress g2, ordered_anchor_ts g2, ordered_last_ts g2))"
    "js2 \<noteq> [] \<longrightarrow> fst (snd (ordered_advance et hits t (drop (length js1) ?o) (ordered_progress g2, ordered_anchor_ts g2, ordered_last_ts g2))) =
      (if js1 = [] then t else ordered_anchor_ts g2)"
    using advance_run [OF run prog refl assms(3) tn(1)] by blast
  obtain p a l where s: "ordered_advance et hits t (drop (length js1) ?o) (ordered_progress g2, ordered_anchor_ts g2, ordered_last_ts g2) = (p, a, l)"
    by (rule prod_cases3)
  have p: "unat p = length js2" using 2(2) by (simp add: s progress_of_def)
  have le: "length js2 \<le> length ?o" using 2(1) by (simp add: ordered_run_def)
  have ev: "ordered_stream r et (evs @ [e]) g =
      (if length ?o \<le> length js2 then (True, set_progress (0, Fin 0, Fin 0) g2) else (False, set_progress (p, a, l) g2))"
    using 1(1) assms(2) s by (simp add: ordered_stream_def e eval_temporal_ordered_def Let_def g2_def [unfolded reset_def, symmetric] len p)
  have lst: "fst (last (evs @ [e])) = t" by (simp add: e)
  show ?case
  proof (cases "length ?o \<le> length js2")
    case False
    then show ?thesis unfolding ev using 2(1,2) by (intro exI [of _ js2] exI conjI) (auto simp: e s set_progress_def)
  next
    case True
    then have ne: "js2 \<noteq> []" using assms(2) by auto
    have "\<not> f64_lt t ?ws" using window_of_ok(2) [OF tn(2) assms(5,6)] f64_le_lt_trans f64_lt_irrefl by metis
    then have "\<not> f64_lt a ?ws" using 2(3) ne anchor by (simp add: s)
    moreover have "a = fst (?evs ! hd js2)" using 2(2) ne by (simp add: s progress_of_def)
    ultimately have "\<not> f64_lt (fst ((evs @ [e]) ! hd js2)) (window_of r (fst (last (evs @ [e]))))" unfolding lst by (simp add: e)
    then show ?thesis unfolding ev using True le 2(1) assms(2)
      by (intro exI [of _ "[]"] exI conjI) (auto simp: e set_progress_def ordered_run_def progress_of_def)
  qed
qed

section \<open>The reorder buffer loses its order\<close>

text \<open>
  Evicting from a full buffer puts the last entry in the place of the earliest, so a buffer in
  time order need not stay in time order, and the replay may see later times first.
\<close>

lemma wm_evict_unsorts: "wm_evict [(Fin 1, 7), (Fin 2, 8), (Fin 3, 9)] = [(Fin 3, 9), (Fin 2, 8)]"
  by (simp add: wm_evict_def)

section \<open>Property\<close>

text \<open>
  C17. No ordered fire without an ordered sequence: when the rule fires on the last event of a
  stream, every rule of the order has an event that matched it, the events follow each other in
  the order of the rules, the first of them is inside the window of the last, and with event
  times on, the times of the events never go back.
\<close>

theorem ordered_fire_sound:
  assumes "rule_order r \<noteq> []" "length (rule_order r) < 2 ^ 32" "\<forall>(t, hits) \<in> set evs. time_ok t" "0 < r_timespan r" "r_timespan r \<le> 2 ^ 31"
    "ordered_stream r et evs (group_new cap) = (True, g')"
  shows "\<exists>js. length js = length (rule_order r) \<and> sorted js \<and>
    (\<forall>i < length js. js ! i < length evs \<and> rule_order r ! i \<in> set (snd (evs ! (js ! i)))) \<and>
    (et \<longrightarrow> sorted_wrt (\<lambda>i j. f64_le (fst (evs ! i)) (fst (evs ! j))) js) \<and>
    \<not> f64_lt (fst (evs ! hd js)) (window_of r (fst (last evs)))"
proof -
  have "ordered_progress (group_new cap) = 0" by (simp add: group_new_def Let_def)
  from ordered_stream_run [OF this assms(1-5), of et] assms(6) show ?thesis unfolding ordered_run_def by auto
qed

theorem ordered_fire_sound_witness:
  "\<exists>js. length js = 2 \<and> sorted js \<and> js ! 0 < 2 \<and> 7 \<in> set (snd ([(Fin 5, [7 :: u32]), (Fin 6, [8])] ! (js ! 0)))"
proof -
  define r where "r = sample_rule\<lparr>r_base := [7, 8]\<rparr>"
  have r: "rule_order r = [7, 8]" "r_timespan r = 10" by (simp_all add: r_def rule_order_def)
  let ?evs = "[(Fin 5, [7 :: u32]), (Fin 6, [8])]"
  have w: "window_of r (Fin 6) = Fin (- 4)" using rnd_of_int [of "- 4"] r f64_ten by (simp add: window_of_def f64_sub_def)
  obtain g' where g': "ordered_stream r True ?evs (group_new 4) = (True, g')"
    using r w by (simp add: ordered_stream_def eval_temporal_ordered_def set_progress_def group_new_def Let_def)
  have t: "\<forall>(t, hits) \<in> set ?evs. time_ok t" using f64_ok_int [of 5] f64_ok_int [of 6] by (simp add: time_ok_def)
  have c: "rule_order r \<noteq> []" "length (rule_order r) < 2 ^ 32" "0 < r_timespan r" "r_timespan r \<le> 2 ^ 31" using r by simp_all
  obtain js where js: "length js = length (rule_order r)" "sorted js"
    "\<forall>i < length js. js ! i < length ?evs \<and> rule_order r ! i \<in> set (snd (?evs ! (js ! i)))"
    using ordered_fire_sound [OF c(1,2) t c(3,4) g'] by (elim exE conjE) (rule that; assumption)
  have "length js = 2" using js(1) r by simp
  moreover have "js ! 0 < 2" "7 \<in> set (snd (?evs ! (js ! 0)))" using js(3) [rule_format, of 0] r calculation by simp_all
  ultimately show ?thesis using js(2) by (intro exI [of _ js] conjI)
qed

end
