(* ===== verification/Corr_Wire.thy ===== *)
theory Corr_Wire
  imports Corr_Engine Corr_Owner Json_Api
begin

text \<open>
  The JSON form in which instances exchange partial results (\<open>src/src/contrib_wire.c\<close>). A C
  string holds no NUL; allocation succeeds.
\<close>

definition kind_name :: "contrib_kind \<Rightarrow> bytes option" where
  "kind_name k =
     (case k of
        CORR_CONTRIB_COUNT \<Rightarrow> Some (lit ''count'')
      | CORR_CONTRIB_SUM \<Rightarrow> Some (lit ''sum'')
      | CORR_CONTRIB_DISTINCT \<Rightarrow> Some (lit ''distinct'')
      | CORR_CONTRIB_SEEN \<Rightarrow> Some (lit ''seen'')
      | CORR_CONTRIB_EVENT \<Rightarrow> None)"

definition kind_parse :: "bytes \<Rightarrow> contrib_kind option" where
  "kind_parse s =
     (if s = lit ''count'' then Some CORR_CONTRIB_COUNT
      else if s = lit ''sum'' then Some CORR_CONTRIB_SUM
      else if s = lit ''distinct'' then Some CORR_CONTRIB_DISTINCT
      else if s = lit ''seen'' then Some CORR_CONTRIB_SEEN
      else None)"

text \<open>The length of the key, \<open>None\<close> when it would overflow a \<open>size_t\<close>.\<close>

fun key_length :: "bytes option list \<Rightarrow> nat \<Rightarrow> nat option" where
  "key_length [] len = Some len"
| "key_length (v # vs) len =
     (let gl = length (str_or_empty v) in
      if gl > 2 ^ 64 - 1 - 2 - len then None else key_length vs (len + (1 + gl)))"

text \<open>The id is not null or empty here, so a key of length 0 is the failure of \<open>corr_owner_key\<close>.\<close>

definition owner_key_json :: "'j json_lib \<Rightarrow> corr_contrib \<Rightarrow> 'j option" where
  "owner_key_json J c =
     do { len \<leftarrow> key_length (ct_group_vals c) (length (str_or_empty (ct_corr_id c)));
          if len > 2 ^ 31 - 1 then None
          else do {
            key \<leftarrow> corr_owner_key (len + 1) (ct_corr_id c) (ct_group_vals c);
            if length key \<noteq> len then None else Some (j_new_string J key) } }"

definition corr_contrib_to_json :: "'j json_lib \<Rightarrow> corr_contrib \<Rightarrow> bytes option \<Rightarrow> 'j option" where
  "corr_contrib_to_json J c origin =
     do { kn \<leftarrow> kind_name (ct_kind c);
          if ct_corr_id c = None \<or> ct_corr_id c = Some [] then None
          else do {
            let count = (if ct_count c \<noteq> 0 then uint (ct_count c) else 1);
            let j = j_add J (j_object J) (lit ''v'') (j_new_int J 1);
            let j = j_add J j (lit ''kind'') (j_new_string J kn);
            let j = j_add J j (lit ''corr_id'') (j_new_string J (str_or_empty (ct_corr_id c)));
            let j = j_add J j (lit ''ts'') (j_new_double J (ct_ts c));
            let j = j_add J j (lit ''group'') (string_array J (map str_or_empty (ct_group_vals c)));
            key \<leftarrow> owner_key_json J c;
            let j = j_add J j (lit ''key'') key;
            let j = (if ct_kind c = CORR_CONTRIB_COUNT then j_add J j (lit ''count'') (j_new_int J count) else j);
            let j = (if ct_kind c = CORR_CONTRIB_SUM
                     then j_add J (j_add J j (lit ''numeric'') (j_new_double J (ct_numeric c))) (lit ''count'') (j_new_int J count)
                     else j);
            let j = (if ct_kind c = CORR_CONTRIB_SEEN then j_add J j (lit ''seen_mask'') (j_new_int J (sint (ct_seen_mask c))) else j);
            let j = (if ct_kind c = CORR_CONTRIB_DISTINCT
                     then (case ct_value c of Some v \<Rightarrow> j_add J j (lit ''value'') (j_new_string J v) | None \<Rightarrow> j) else j);
            Some (case origin of
                Some s \<Rightarrow> if s \<noteq> [] then j_add J j (lit ''origin'') (j_new_string J s) else j
              | None \<Rightarrow> j) } }"

text \<open>The group values, at most as many as the caller has slots; a null element is empty.\<close>

definition wire_group :: "'j json_lib \<Rightarrow> 'j \<Rightarrow> nat \<Rightarrow> bytes option list" where
  "wire_group J j cap =
     (case j_get J j (lit ''group'') of
        Some f \<Rightarrow>
          if j_kind J f = J_ARRAY
          then map (\<lambda>i. let e = j_idx J f i in Some (if j_kind J e \<noteq> J_NULL then j_string J e else []))
                 [0..<min (j_length J f) cap]
          else []
      | None \<Rightarrow> [])"

definition string_field :: "'j json_lib \<Rightarrow> 'j \<Rightarrow> bytes \<Rightarrow> bytes option" where
  "string_field J j k = Option.bind (j_get J j k) (\<lambda>f. if j_kind J f = J_STRING then Some (j_string J f) else None)"

text \<open>\<open>None\<close> is the return value \<open>-1\<close>.\<close>

definition corr_contrib_from_json :: "'j json_lib \<Rightarrow> 'j \<Rightarrow> nat \<Rightarrow> corr_contrib option" where
  "corr_contrib_from_json J j cap =
     (if j_kind J j \<noteq> J_OBJECT then None
      else do {
        v \<leftarrow> j_get J j (lit ''v'');
        if j_kind J v \<noteq> J_INT \<or> j_int J v \<noteq> 1 then None
        else do {
          kn \<leftarrow> string_field J j (lit ''kind'');
          kind \<leftarrow> kind_parse kn;
          cid \<leftarrow> string_field J j (lit ''corr_id'');
          Some \<lparr>ct_kind = kind, ct_corr_id = Some cid, ct_rids = [],
            ct_group_vals = wire_group J j cap,
            ct_ts = (case j_get J j (lit ''ts'') of Some f \<Rightarrow> j_double J f | None \<Rightarrow> Fin 0),
            ct_value = string_field J j (lit ''value''),
            ct_numeric = (case j_get J j (lit ''numeric'') of Some f \<Rightarrow> j_double J f | None \<Rightarrow> Fin 0),
            ct_count = (case j_get J j (lit ''count'') of Some f \<Rightarrow> word_of_int (j_int64 J f) | None \<Rightarrow> 0),
            ct_seen_mask = (case j_get J j (lit ''seen_mask'') of Some f \<Rightarrow> word_of_int (j_int64 J f) | None \<Rightarrow> 0)\<rparr> } })"

end
