(* ===== verification/Wire_Spec.thy ===== *)
theory Wire_Spec
  imports Corr_Wire
begin

text \<open>
  A contribution survives the wire: decoding what was encoded gives the contribution up to what
  its kind does not use, and the peer's engine treats it as the sender's would.
\<close>

definition sent_count :: "corr_contrib \<Rightarrow> u32" where
  "sent_count c =
     (if ct_kind c = CORR_CONTRIB_COUNT \<or> ct_kind c = CORR_CONTRIB_SUM then (if ct_count c \<noteq> 0 then ct_count c else 1) else 0)"

definition sent :: "corr_contrib \<Rightarrow> nat \<Rightarrow> corr_contrib" where
  "sent c cap = c\<lparr>ct_rids := [], ct_group_vals := take cap (map (\<lambda>v. Some (str_or_empty v)) (ct_group_vals c)),
     ct_value := (if ct_kind c = CORR_CONTRIB_DISTINCT then ct_value c else None),
     ct_numeric := (if ct_kind c = CORR_CONTRIB_SUM then ct_numeric c else Fin 0),
     ct_count := sent_count c,
     ct_seen_mask := (if ct_kind c = CORR_CONTRIB_SEEN then ct_seen_mask c else 0)\<rparr>"

lemma key_length_ok:
  "len + length (concat (map (\<lambda>v. 9 # str_or_empty v) vs)) \<le> 2 ^ 31 \<Longrightarrow>
    key_length vs len = Some (len + length (concat (map (\<lambda>v. 9 # str_or_empty v) vs)))"
  by (induction vs arbitrary: len) (simp_all add: Let_def)

lemma owner_key_json_ok:
  assumes "length (full_key (ct_corr_id c) (ct_group_vals c)) < 2 ^ 31"
  shows "owner_key_json J c = Some (j_new_string J (full_key (ct_corr_id c) (ct_group_vals c)))"
proof -
  have "key_length (ct_group_vals c) (length (str_or_empty (ct_corr_id c))) = Some (length (full_key (ct_corr_id c) (ct_group_vals c)))"
    using key_length_ok [of "length (str_or_empty (ct_corr_id c))" "ct_group_vals c"] assms by (simp add: full_key_def)
  then show ?thesis using assms by (simp add: owner_key_json_def corr_owner_key_eq)
qed

lemma kind_parse_name: "kind_name k = Some s \<Longrightarrow> kind_parse s = Some k"
  by (cases k) (auto simp: kind_name_def kind_parse_def lit_def)

lemma wire_group_ok:
  assumes "json_ok J" "j_get J j (lit ''group'') = Some (string_array J ss)"
  shows "wire_group J j cap = take cap (map Some ss)"
proof -
  have a: "j_kind J (string_array J ss) = J_ARRAY" "j_length J (string_array J ss) = length ss"
    "\<And>i. i < length ss \<Longrightarrow> j_idx J (string_array J ss) i = j_new_string J (ss ! i)"
    using string_array_ok [OF assms(1)] by blast+
  have "wire_group J j cap = map (\<lambda>i. let e = j_idx J (string_array J ss) i in Some (if j_kind J e \<noteq> J_NULL then j_string J e else []))
      [0..<min (length ss) cap]"
    by (simp add: wire_group_def assms(2) a(1,2))
  also have "\<dots> = map (\<lambda>i. Some (ss ! i)) [0..<min (length ss) cap]"
    by (rule map_cong) (simp_all add: a(3) json_okD(14,15) [OF assms(1)])
  also have "\<dots> = take cap (map Some ss)" by (rule nth_equalityI) simp_all
  finally show ?thesis .
qed

lemma count_back: "(word_of_int (uint (n :: u32)) :: u32) = n" "- (2 ^ 63) \<le> uint n" "uint n < 2 ^ 63"
  using uint_lt2p [of n] order_trans [OF _ uint_nonnegative [of n], of "- (2 ^ 63)"] by simp_all

lemma mask_back: "(word_of_int (sint (m :: u64)) :: u64) = m" "- (2 ^ 63) \<le> sint m" "sint m < 2 ^ 63"
  using sint_greater_eq [of m] sint_less [of m] by simp_all

lemma wire_roundtrip:
  assumes "json_ok J" "ct_kind c \<noteq> CORR_CONTRIB_EVENT" "ct_corr_id c = Some cid" "cid \<noteq> []"
    "length (full_key (ct_corr_id c) (ct_group_vals c)) < 2 ^ 31"
  obtains j where "corr_contrib_to_json J c origin = Some j" "corr_contrib_from_json J j cap = Some (sent c cap)"
proof -
  obtain kn where kn: "kind_name (ct_kind c) = Some kn" using assms(2) by (cases "ct_kind c") (auto simp: kind_name_def)
  define key where "key = j_new_string J (full_key (ct_corr_id c) (ct_group_vals c))"
  define cnt where "cnt = (if ct_count c \<noteq> 0 then uint (ct_count c) else 1)"
  define j1 where "j1 = j_add J (j_add J (j_add J (j_add J (j_add J (j_add J (j_object J) (lit ''v'') (j_new_int J 1))
    (lit ''kind'') (j_new_string J kn)) (lit ''corr_id'') (j_new_string J cid)) (lit ''ts'') (j_new_double J (ct_ts c)))
    (lit ''group'') (string_array J (map str_or_empty (ct_group_vals c)))) (lit ''key'') key"
  define j2 where "j2 = (if ct_kind c = CORR_CONTRIB_COUNT then j_add J j1 (lit ''count'') (j_new_int J cnt) else j1)"
  define j3 where "j3 = (if ct_kind c = CORR_CONTRIB_SUM
    then j_add J (j_add J j2 (lit ''numeric'') (j_new_double J (ct_numeric c))) (lit ''count'') (j_new_int J cnt) else j2)"
  define j4 where "j4 = (if ct_kind c = CORR_CONTRIB_SEEN then j_add J j3 (lit ''seen_mask'') (j_new_int J (sint (ct_seen_mask c))) else j3)"
  define j5 where "j5 = (if ct_kind c = CORR_CONTRIB_DISTINCT
    then (case ct_value c of Some v \<Rightarrow> j_add J j4 (lit ''value'') (j_new_string J v) | None \<Rightarrow> j4) else j4)"
  define j6 where "j6 = (case origin of Some s \<Rightarrow> if s \<noteq> [] then j_add J j5 (lit ''origin'') (j_new_string J s) else j5 | None \<Rightarrow> j5)"
  note ok = json_okD [OF assms(1)]
  have id: "\<not> (ct_corr_id c = None \<or> ct_corr_id c = Some [])" "str_or_empty (ct_corr_id c) = cid"
    using assms(3,4) by (simp_all add: str_or_empty_def)
  note defs = j6_def j5_def j4_def j3_def j2_def j1_def
  have to: "corr_contrib_to_json J c origin = Some j6"
    unfolding corr_contrib_to_json_def kn bind.bind_lunit if_not_P [OF id(1)] Let_def owner_key_json_ok [OF assms(5)] id(2)
      key_def [symmetric] cnt_def [symmetric] defs [symmetric] by (rule refl)
  have k1: "j_kind J j1 = J_OBJECT" unfolding j1_def by (simp add: ok)
  have k2: "j_kind J j2 = J_OBJECT" using k1 by (simp add: j2_def ok)
  have k3: "j_kind J j3 = J_OBJECT" using k2 by (simp add: j3_def ok)
  have k4: "j_kind J j4 = J_OBJECT" using k3 by (simp add: j4_def ok)
  have k5: "j_kind J j5 = J_OBJECT" using k4 by (simp add: j5_def ok split: option.split)
  have k6: "j_kind J j6 = J_OBJECT" using k5 by (simp add: j6_def ok split: option.split)
  have g1: "j_get J j1 (lit ''v'') = Some (j_new_int J 1)" "j_get J j1 (lit ''kind'') = Some (j_new_string J kn)"
    "j_get J j1 (lit ''corr_id'') = Some (j_new_string J cid)" "j_get J j1 (lit ''ts'') = Some (j_new_double J (ct_ts c))"
    "j_get J j1 (lit ''group'') = Some (string_array J (map str_or_empty (ct_group_vals c)))"
    "j_get J j1 (lit ''count'') = None" "j_get J j1 (lit ''numeric'') = None" "j_get J j1 (lit ''seen_mask'') = None"
    "j_get J j1 (lit ''value'') = None"
    unfolding j1_def by (simp_all add: ok lit_def)
  have later: "j_get J j6 k = j_get J j1 k" if "k \<in> {lit ''v'', lit ''kind'', lit ''corr_id'', lit ''ts'', lit ''group''}" for k
    using that k1 k2 k3 k4 k5
    by (auto simp: j6_def j5_def j4_def j3_def j2_def ok lit_def split: option.split)
  have cnt: "- (2 ^ 63) \<le> cnt" "cnt < 2 ^ 63" "(word_of_int cnt :: u32) = (if ct_count c \<noteq> 0 then ct_count c else 1)"
    using count_back [of "ct_count c"] by (simp_all add: cnt_def)
  have opt: "(case j_get J j6 (lit ''count'') of Some f \<Rightarrow> word_of_int (j_int64 J f) | None \<Rightarrow> 0) = sent_count c"
    "(case j_get J j6 (lit ''numeric'') of Some f \<Rightarrow> j_double J f | None \<Rightarrow> Fin 0) = (if ct_kind c = CORR_CONTRIB_SUM then ct_numeric c else Fin 0)"
    "(case j_get J j6 (lit ''seen_mask'') of Some f \<Rightarrow> word_of_int (j_int64 J f) | None \<Rightarrow> 0) =
      (if ct_kind c = CORR_CONTRIB_SEEN then ct_seen_mask c else 0)"
    "string_field J j6 (lit ''value'') = (if ct_kind c = CORR_CONTRIB_DISTINCT then ct_value c else None)"
    using k1 k2 k3 k4 k5 g1(6-9) cnt mask_back [of "ct_seen_mask c"] assms(2)
    by (cases "ct_kind c"; auto simp: j6_def j5_def j4_def j3_def j2_def ok lit_def sent_count_def string_field_def split: option.split)+
  have "corr_contrib_from_json J j6 cap = Some (sent c cap)"
    unfolding corr_contrib_from_json_def opt string_field_def [of _ _ "lit ''kind''"] string_field_def [of _ _ "lit ''corr_id''"]
    using k6 kind_parse_name [OF kn] assms(3) wire_group_ok [OF assms(1), of j6 "map str_or_empty (ct_group_vals c)" cap]
    by (simp add: later g1 ok sent_def comp_def)
  with to show ?thesis by (rule that)
qed

text \<open>The receiving engine sees no difference.\<close>

lemma sent_same_effect:
  assumes "ct_kind c \<noteq> CORR_CONTRIB_EVENT" "None \<notin> set (ct_group_vals c)" "length (ct_group_vals c) \<le> cap"
  shows "corr_on_contribution (sent c cap) field_fn max_out slots e = corr_on_contribution c field_fn max_out slots e"
proof -
  have "map (\<lambda>v. Some (str_or_empty v)) vs = vs" if "None \<notin> set vs" for vs
  proof (rule map_idI)
    fix v assume "v \<in> set vs"
    then show "Some (str_or_empty v) = v" using that by (cases v rule: option.exhaust) (auto simp: str_or_empty_def)
  qed
  then have g: "ct_group_vals (sent c cap) = ct_group_vals c" using assms(2,3) by (simp add: sent_def)
  have f: "ct_kind (sent c cap) = ct_kind c" "ct_corr_id (sent c cap) = ct_corr_id c" "ct_ts (sent c cap) = ct_ts c"
    by (simp_all add: sent_def)
  have used: "ct_kind c = CORR_CONTRIB_DISTINCT \<Longrightarrow> ct_value (sent c cap) = ct_value c"
    "ct_kind c = CORR_CONTRIB_SUM \<Longrightarrow> ct_numeric (sent c cap) = ct_numeric c"
    "ct_kind c = CORR_CONTRIB_SEEN \<Longrightarrow> ct_seen_mask (sent c cap) = ct_seen_mask c"
    "ct_kind c \<in> {CORR_CONTRIB_COUNT, CORR_CONTRIB_SUM} \<Longrightarrow> ct_count (sent c cap) = (if ct_count c \<noteq> 0 then ct_count c else 1)"
    by (auto simp: sent_def sent_count_def)
  have "merge_group r caps (sent c cap) ws gr st = merge_group r caps c ws gr st" for r caps ws gr st
    using assms(1) by (cases "ct_kind c") (auto simp: merge_group_def f used Let_def)
  then have m: "merge_state r caps (sent c cap) k m st = merge_state r caps c k m st" for r caps k m st
    by (simp only: merge_state_def f)
  show ?thesis unfolding corr_on_contribution_def f g m if_not_P [OF assms(1)] by (rule refl)
qed

section \<open>Property\<close>

text \<open>
  C19. A partial result with an id and a key that fits an \<open>int\<close> has a JSON form, and decoding
  that form with enough group slots gives the contribution back, up to the parts its kind does
  not use and a count of 0 sent as 1; when no group value is null, every engine treats the
  decoded contribution exactly as the original.
\<close>

theorem contribution_wire_roundtrip:
  assumes "json_ok J" "ct_kind c \<noteq> CORR_CONTRIB_EVENT" "ct_corr_id c = Some cid" "cid \<noteq> []"
    "length (full_key (ct_corr_id c) (ct_group_vals c)) < 2 ^ 31" "length (ct_group_vals c) \<le> cap"
  shows "\<exists>j c'. corr_contrib_to_json J c origin = Some j \<and> corr_contrib_from_json J j cap = Some c' \<and>
    ct_kind c' = ct_kind c \<and> ct_corr_id c' = ct_corr_id c \<and> ct_ts c' = ct_ts c \<and>
    ct_group_vals c' = map (\<lambda>v. Some (str_or_empty v)) (ct_group_vals c) \<and>
    (None \<notin> set (ct_group_vals c) \<longrightarrow> (\<forall>field_fn max_out slots e.
      corr_on_contribution c' field_fn max_out slots e = corr_on_contribution c field_fn max_out slots e))"
proof -
  obtain j where j: "corr_contrib_to_json J c origin = Some j" "corr_contrib_from_json J j cap = Some (sent c cap)"
    by (rule wire_roundtrip [OF assms(1-5)])
  have "None \<notin> set (ct_group_vals c) \<longrightarrow> (\<forall>field_fn max_out slots e.
      corr_on_contribution (sent c cap) field_fn max_out slots e = corr_on_contribution c field_fn max_out slots e)"
    using sent_same_effect [OF assms(2) _ assms(6)] by blast
  moreover have "ct_kind (sent c cap) = ct_kind c" "ct_corr_id (sent c cap) = ct_corr_id c" "ct_ts (sent c cap) = ct_ts c"
    "ct_group_vals (sent c cap) = map (\<lambda>v. Some (str_or_empty v)) (ct_group_vals c)"
    using assms(6) by (simp_all add: sent_def)
  ultimately show ?thesis using j by blast
qed

definition sample_contrib :: corr_contrib where
  "sample_contrib = \<lparr>ct_kind = CORR_CONTRIB_COUNT, ct_corr_id = Some (lit ''c1''), ct_rids = [], ct_group_vals = [Some (lit ''bob'')],
     ct_ts = Fin 5, ct_value = None, ct_numeric = Fin 0, ct_count = 3, ct_seen_mask = 0\<rparr>"

theorem contribution_wire_roundtrip_witness:
  "\<exists>j c'. corr_contrib_to_json tree_lib sample_contrib None = Some j \<and> corr_contrib_from_json tree_lib j 8 = Some c' \<and>
     ct_group_vals c' = [Some (lit ''bob'')]"
proof -
  have "length (full_key (ct_corr_id sample_contrib) (ct_group_vals sample_contrib)) < 2 ^ 31"
    by (simp add: sample_contrib_def full_key_def str_or_empty_def lit_def)
  from contribution_wire_roundtrip [OF tree_lib_ok _ _ _ this, of "lit ''c1''" 8 None] show ?thesis
    by (auto simp: sample_contrib_def lit_def str_or_empty_def)
qed

end
