(* ===== verification/Spec2Isabelle.thy ===== *)
theory Spec2Isabelle
  imports Demo_Db Match_Laws Event_Time_Spec Corr_Engine Corr_Owner Aggregate_Spec Temporal_Spec Main_Spec Workers_Spec Corr_Free Distinct_Spec Beacon_Spec
    Ordered_Spec Wire_Spec Format_Spec
begin

text \<open>
  libsigma evaluates Sigma detection rules on events and correlates the rules that match. A
  compiler emits an artifact (\<open>.sigmac\<close>) with the rules; the library loads it, builds matchers
  from it, and evaluates one event at a time: a literal prefilter selects candidate rules, and
  the matcher decides them. The ids of the rules that matched drive the correlation engine,
  which keeps one window of state per correlation and group key, and can exchange partial
  results with other instances. A command line driver puts the two together.

  \<^bold>\<open>Shared vocabulary.\<close> Theory \<open>Sigma_Prelude\<close>: bytes, words, little-endian codecs, the checked
  fold \<open>mfold\<close>. A C buffer is a byte list and a fixed-width member of a structure is a word. A
  computation that may read or write out of range, or convert a number C leaves undefined, is an
  option, and \<open>None\<close> is the undefined behaviour; so "returns" is always \<open>= Some _\<close> in a property.
  An event is the function from field names to optional values that the field callback computes.

  \<^bold>\<open>Text, numbers, checksums.\<close> \<open>Text_Search\<close> (case fold, the scalar, SSE and NEON substring searches
  of \<open>sigma_simd.h\<close>, the string predicates of \<open>sigma_match.c\<close>; locale \<open>ci_search\<close> interpreted for
  each search), \<open>Crc32c\<close> (both loops; locale \<open>crc_instructions\<close>), \<open>Field_Numbers\<close> (the saturating
  integer parse, CIDR membership).

  \<^bold>\<open>The artifact.\<close> \<open>Sigma_Db\<close> (the structures of \<open>sigma_match.h\<close> and \<open>sigma_format.h\<close>), \<open>Codec\<close> (their
  byte layout; locale \<open>codec\<close>, interpreted for each), \<open>Sigma_Format\<close> (the serializer of
  \<open>sigma_format.c\<close>), \<open>Sigma_Loader\<close> (the validating loader). \<open>Loader_Safety\<close> shows what acceptance
  guarantees, \<open>Roundtrip\<close> that the two are inverse and that damaged copies are rejected.

  \<^bold>\<open>The prefilter's matcher.\<close> \<open>Teddy\<close> (\<open>sigma_teddy.h\<close>: both builds and the confirm pass; the chain
  walk runs on fuel \<open>n_needles + 1\<close>, enough because chains strictly descend),
  \<open>Teddy_Build\<close> (what the tables hold), \<open>Teddy_Confirm\<close> (each needle that occurs is reported once;
  locale \<open>teddy_client\<close> for the callback, interpreted on a trace and on the posting marks).

  \<^bold>\<open>Evaluation.\<close> \<open>Sigma_Match\<close> (field memo, predicates, selections, the deferred condition stack),
  \<open>Match_Spec\<close> and \<open>Match_Laws\<close> (the reference semantics, refinement, conditions as boolean
  expressions), \<open>Finalize\<close> and \<open>Finalize_Spec\<close> (\<open>sigma_db_finalize\<close>, \<open>sigma_db_load_buffer\<close>),
  \<open>Sigma_Eval\<close> (the scratch, hits, candidate masks, bucket routing, \<open>sigma_eval_run\<close> and
  \<open>sigma_eval_run_linear\<close>), \<open>Eval_Spec\<close>, \<open>Prefilter_Spec\<close>, \<open>Run_Spec\<close> (the hits, the soundness of the
  candidate set, sessions of calls on one scratch as an inductive relation). \<open>Demo_Db\<close> is the
  instance the witnesses use. The engine's properties assume \<open>ready\<close> (the database was accepted
  by the loader and finalized, which \<open>load_buffer_ready\<close> provides for artifacts with needles of at
  least two bytes and at most 65535 fields) and, with the prefilter on,
  \<open>cnf_necessary\<close>: the witness clauses in the artifact are necessary conditions of their rules,
  the contract of the compiler that wrote it, which no loader can check.

  \<^bold>\<open>Time and numbers of the correlation engine.\<close> \<open>Binary64\<close> (the type \<open>double\<close> over the rationals, round
  to nearest even), \<open>C_Stdlib\<close> (\<open>strtod\<close>, \<open>gmtime_r\<close>, character classes), \<open>Event_Time\<close> and
  \<open>Event_Time_Spec\<close> (\<open>event_time.c\<close>).

  \<^bold>\<open>The correlation engine\<close> (\<open>classify_corr.c\<close>, \<open>classify_corr.h\<close>). \<open>Corr_Model\<close> (rules, caps, tiers,
  hashes), \<open>Lru_Map\<close> (the intrusive hash table with recency list, at the level of its pointers;
  locale \<open>lru_table\<close> gives the abstract recency list, its interpretation \<open>chained\<close> proves it of the
  code's table), \<open>Corr_Dset\<close> and \<open>Corr_Groups\<close> (its two uses), \<open>Corr_Windows\<close> (counts, distinct
  values, sums, percentiles, beaconing), \<open>Corr_Temporal\<close> (conditions, ordered sequences, the
  reorder buffer), \<open>Corr_Engine\<close> (admission, the rule index, the sweep, \<open>corr_on_event\<close>,
  \<open>corr_on_contribution\<close>), \<open>Corr_Owner\<close> (which peer owns a group). About them: \<open>Window_Spec\<close>,
  \<open>Distinct_Spec\<close>, \<open>Aggregate_Spec\<close>, \<open>Beacon_Spec\<close>, \<open>Temporal_Spec\<close> and \<open>Ordered_Spec\<close> (each correlation
  type over a stream of events), \<open>Group_Spec\<close> (the invariant of a group), \<open>Index_Spec\<close> (the rule
  index), \<open>Event_Spec\<close> (one event refines one step of each watching correlation on an abstract
  list of groups), \<open>Engine_Spec\<close> (engines reached by any calls, histories of one correlation).
  \<open>Corr_Demo\<close> is the instance of the witnesses. \<open>Corr_Workers\<close> cuts an event at the locks of the code,
  and \<open>Workers_Spec\<close> shows that any schedule of several workers is the replay of one log of visits
  and sweeps, that they finish in \<open>event_steps\<close> of their own steps, and that one worker alone is
  the sequential call (\<open>pool_of_one\<close>). \<open>Corr_Free\<close> destroys an engine, each node once. The properties assume caps of at most \<open>2\<^sup>2\<^sup>8\<close>
  (\<open>caps_fit\<close>), and fewer rules than that with windows up to \<open>2\<^sup>3\<^sup>1\<close> seconds (\<open>rules_fit\<close>, which
  the rule loader guarantees), so that no table index wraps.

  \<^bold>\<open>JSON.\<close> \<open>Json_Api\<close> (the JSON library is a record of functions, \<open>json_ok\<close> its documented laws, and
  \<open>tree_lib\<close> an instance that satisfies them), \<open>Corr_Format\<close> and \<open>Format_Spec\<close> (\<open>corr_format.c\<close>, the
  loader of correlation rules), \<open>Corr_Wire\<close> and \<open>Wire_Spec\<close> (\<open>contrib_wire.c\<close>, partial results).

  \<^bold>\<open>The driver\<close> (\<open>sigma_cli.c\<close>). \<open>Sigma_Cli\<close> and \<open>Cli_Spec\<close> go from a line of text to hits and fires,
  \<open>Sigma_Main\<close> and \<open>Main_Spec\<close> from arguments, files and standard input to exit code and output; the
  file loaders \<open>sigma_db_load_file\<close> and \<open>corr_artifact_load_file\<close> read a \<open>c_file\<close>, which is what
  \<open>fopen\<close>, \<open>fseek\<close>, \<open>ftell\<close> and \<open>fread\<close> answer.
  This theory holds the properties that span components.

  \<^bold>\<open>Parameters.\<close> \<open>inet_pton\<close> and PCRE2 are fields of \<open>sigma_lib\<close>; the JSON library is \<open>json_lib\<close>; the
  CRC instructions are the locale's. A vector compare and its move-mask are the ascending list
  of the matching lanes.

  \<^bold>\<open>Bounds of the correlation properties.\<close> Times are in the range of a \<open>uint32_t\<close>, and the values a
  numeric correlation reads are at most \<open>2\<^sup>3\<^sup>1\<close> in size: outside of it the code's conversion of an
  aggregate or of a time to an integer is undefined (\<open>observed_overflow\<close> in \<open>Event_Spec\<close>), and the
  model says so by \<open>None\<close>.

  \<^bold>\<open>Where the code surprises.\<close> \<open>prefix_match_overread\<close> in \<open>Field_Numbers\<close>, \<open>event_time_overlong_month\<close> and
  \<open>event_time_nan\<close> in \<open>Event_Time_Spec\<close>, \<open>wm_evict_unsorts\<close> in \<open>Ordered_Spec\<close>, \<open>corr_owner_index_wraps\<close> in
  \<open>Corr_Owner\<close>, \<open>parse_timespan_wraps\<close> and \<open>empty_condition_rejects\<close> in \<open>Format_Spec\<close>, and
  \<open>cli_event_overread\<close> in \<open>Cli_Spec\<close> state behaviours of the code that a reader would not expect.

  \<^bold>\<open>Not modelled.\<close>
    \<^item> The characters that \<open>printf\<close> writes: a message is its values (\<open>cli_msg\<close>).
    \<^item> Failing allocation: every \<open>malloc\<close> succeeds, and the paths that free and report \<open>-2\<close> or
      count \<open>oom_dropped\<close> are left out, with the null checks of arguments. Of the free functions only those of the
      correlation engine are modelled, where pointers are walked; the others free what one
      pointer of a structure owns.
    \<^item> Races: a step between two locks is one action, the counters are updated atomically, and
      the percentile scratch buffer, which all correlations share without a lock, is not used by
      two workers at a time. Remote partials are not interleaved with events; \<open>served\<close> takes them
      one after the other.
    \<^item> \<open>bench_corpus.c\<close>, \<open>bench_sigma.c\<close>, the fuzzers, tests and Python files: they drive or check the
      library and hold no logic of it.
\<close>

section \<open>The evaluation engine\<close>

text \<open>
  C1. Evaluating an event returns, whatever happened on the scratch before: the output
  buffer holds, in order, one hit for each rule in scope that matches by the reference
  semantics, cut at its capacity, and the count is the number of matching rules. The
  literal prefilter loses no rule as long as the artifact's witness clauses are necessary.
\<close>

theorem sigma_eval_run_correct:
  assumes "ready x d dv" "session x d dv e"
    "e_prefilter_on e = 0 \<or> cnf_necessary x d ev \<and> postings_scoped d"
  shows "\<exists>e'. sigma_eval_run x d dv ev cap e =
      Some (e', hits_of x d ev cap (scope d ev), length (firing x d ev (scope d ev))) \<and>
    session x d dv e' \<and> e_prefilter_on e' = e_prefilter_on e"
  using run_result_ok [OF assms(1) session_ok [OF assms(1,2)] assms(3), of cap] session.ran [OF assms(2,3)]
  unfolding run_result_def by blast

lemma demo_session: "session demo_lib demo_db dv (sigma_eval_set_prefilter 2 (sigma_eval_create demo_db dv))"
  by (intro session.switched session.created)

theorem sigma_eval_run_correct_witness:
  "\<exists>dv e'. sigma_db_finalize demo_lib demo_db no_derived = Some (0, dv) \<and>
     sigma_eval_run demo_lib demo_db dv demo_ev (Some 4) (sigma_eval_set_prefilter 2 (sigma_eval_create demo_db dv))
       = Some (e', [demo_hit], 1)"
proof -
  obtain dv where dv: "sigma_db_finalize demo_lib demo_db no_derived = Some (0, dv)" "ready demo_lib demo_db dv"
    using demo_finalized by blast
  from sigma_eval_run_correct [OF dv(2) demo_session disjI2 [OF conjI [OF demo_contract]], of "Some 4"] dv(1)
  show ?thesis by (auto simp: demo_scope demo_hits)
qed

text \<open>
  The prefilter setting and the history of the scratch do not show: two runs of the same
  event on any two scratches of the same database give the same hits and the same count.
\<close>

theorem prefilter_transparent:
  assumes "ready x d dv" "session x d dv e1" "session x d dv e2" "e_prefilter_on e1 = 0"
    "cnf_necessary x d ev" "postings_scoped d"
  shows "map_option snd (sigma_eval_run x d dv ev cap e1) = map_option snd (sigma_eval_run x d dv ev cap e2)"
proof -
  have "run_result x d dv ev cap (scope d ev) (routing_calls d) e (sigma_eval_run x d dv ev cap e)"
    if "session x d dv e" for e
    using run_result_ok [OF assms(1) session_ok [OF assms(1) that]] assms(5,6) by blast
  from this [OF assms(2)] this [OF assms(3)] show ?thesis by (auto simp: run_result_def)
qed

theorem prefilter_transparent_witness:
  "\<exists>dv. sigma_db_finalize demo_lib demo_db no_derived = Some (0, dv) \<and>
     map_option snd (sigma_eval_run demo_lib demo_db dv demo_ev (Some 4)
         (sigma_eval_set_prefilter 0 (sigma_eval_create demo_db dv))) =
     map_option snd (sigma_eval_run demo_lib demo_db dv demo_ev (Some 4)
         (sigma_eval_set_prefilter 2 (sigma_eval_create demo_db dv)))"
proof -
  obtain dv where dv: "sigma_db_finalize demo_lib demo_db no_derived = Some (0, dv)" "ready demo_lib demo_db dv"
    using demo_finalized by blast
  have "session demo_lib demo_db dv (sigma_eval_set_prefilter 0 (sigma_eval_create demo_db dv))"
    by (intro session.switched session.created)
  from prefilter_transparent [OF dv(2) this demo_session _ demo_contract, of "Some 4"] dv(1)
  show ?thesis by (auto simp: sigma_eval_set_prefilter_def)
qed

text \<open>
  C4. The candidate set computed by the prefilter contains every rule of the chosen buckets
  that matches the event, and asking whether a rule is a candidate never leaves the arrays.
\<close>

theorem prefilter_candidates_sound:
  assumes "ready x d dv" "db_bucket_keys d \<noteq> []" "\<forall>b \<in> set bs. b < length (db_bucket_keys d)"
    "eval_ok d dv e" "memo_ok d ev e" "pf_stamped e = {}" "cnf_necessary x d ev" "postings_scoped d"
  shows "\<exists>pf e'. prefilter_candidates x d dv ev bs e = Some (pf, e') \<and>
    (pf \<longrightarrow> (\<forall>b \<in> set bs. \<forall>ri \<in> set (bucket_rules d b).
       \<exists>c. pf_is_candidate d e' ri = Some c \<and> (rule_sem x d ev (db_rules d ! ri) \<longrightarrow> c)))"
proof -
  have r: "match_env x d dv" "db_refs_ok d" "derived_ok x d dv" "needles_long d" "fields_small d"
    using assms(1) by (simp_all add: ready_def match_env_def)
  from prefilter_candidates_ok [OF r(1,4,5,3) assms(2,3,4,5,6)]
  obtain pf e' where p: "prefilter_candidates x d dv ev bs e = Some (pf, e')"
    "pf \<longrightarrow> pf_inv d dv ev e e' \<and> (\<forall>ri \<in> set (db_litav d). unat ri \<in> pf_stamped e') \<and>
      (\<forall>w \<in> set (db_fwit d). fwit_sem x d ev w \<longrightarrow> unat (w_rule w) \<in> pf_stamped e' \<and>
         unat (w_clause w) \<in> credits e' (unat (w_rule w))) \<and>
      (v_teddy dv \<noteq> None \<longrightarrow>
        (\<forall>f < length (db_fields d). scan_field d dv bs f = Some True \<longrightarrow> field_done d ev f e'))"
    by blast
  have "\<exists>c. pf_is_candidate d e' ri = Some c \<and> (rule_sem x d ev (db_rules d ! ri) \<longrightarrow> c)"
    if "pf" "b \<in> set bs" "ri \<in> set (bucket_rules d b)" for b ri
    using candidates_sound [OF r(2,5,3) assms(2,3) that(2,3) assms(7,8), of e e'] p(2) that(1) by simp
  with p(1) show ?thesis by auto
qed

theorem prefilter_candidates_sound_witness:
  "\<exists>dv e' c. sigma_db_finalize demo_lib demo_db no_derived = Some (0, dv) \<and>
     prefilter_candidates demo_lib demo_db dv demo_ev [0] (bump_eval_gen (sigma_eval_create demo_db dv)) = Some (c, e') \<and>
     (c \<longrightarrow> pf_is_candidate demo_db e' 0 = Some True)"
proof -
  obtain dv where dv: "sigma_db_finalize demo_lib demo_db no_derived = Some (0, dv)" "ready demo_lib demo_db dv"
    using demo_finalized by blast
  let ?e = "bump_eval_gen (sigma_eval_create demo_db dv)"
  note b = bump_fresh [OF create_ok [of demo_db dv]]
  have m: "memo_ok demo_db demo_ev ?e"
    by (simp add: memo_ok_def bump_eval_gen_def sigma_eval_create_def Let_def)
  have k: "db_bucket_keys demo_db \<noteq> []" "\<forall>b \<in> set [0]. b < length (db_bucket_keys demo_db)"
    "bucket_rules demo_db 0 = [0]" by (simp_all add: demo_db_def bucket_rules_def)
  from prefilter_candidates_sound [OF dv(2) k(1,2) b(1) m b(3) demo_contract] dv(1) demo_rule
  show ?thesis by (auto simp: k(3))
qed

text \<open>
  C26. During one run the field callback is called at most nine times by the routing loop and
  at most once for each distinct field of the database.
\<close>

theorem sigma_eval_run_callbacks:
  assumes "ready x d dv" "session x d dv e"
    "e_prefilter_on e = 0 \<or> cnf_necessary x d ev \<and> postings_scoped d"
  shows "\<exists>e' hits n fs. sigma_eval_run x d dv ev cap e = Some (e', hits, n) \<and>
    distinct fs \<and> set fs \<subseteq> {..<length (db_fields d)} \<and>
    mset (e_calls e') = mset (e_calls e) + routing_calls d + mset (map (field_name d) fs) \<and>
    size (routing_calls d) \<le> 9"
proof -
  from run_result_ok [OF assms(1) session_ok [OF assms(1,2)] assms(3), of cap] obtain e' hits n where
    r: "sigma_eval_run x d dv ev cap e = Some (e', hits, n)" "eval_ok d dv e'" "calls_ok d (e_calls e) (routing_calls d) e'"
    unfolding run_result_def by blast
  from r(2) have "length (e_memo e') = length (db_fields d)" by (simp add: eval_ok_def)
  from calls_ok_distinct [OF r(3) this] r(1) size_routing_calls show ?thesis by blast
qed

theorem sigma_eval_run_callbacks_witness:
  "\<exists>dv e' hits n. sigma_eval_run demo_lib demo_db dv demo_ev None
       (sigma_eval_set_prefilter 2 (sigma_eval_create demo_db dv)) = Some (e', hits, n) \<and> length (e_calls e') \<le> 11"
proof -
  obtain dv where dv: "ready demo_lib demo_db dv" using demo_finalized by blast
  let ?e = "sigma_eval_set_prefilter 2 (sigma_eval_create demo_db dv)"
  have e: "e_calls ?e = []" "length (db_fields demo_db) = 2"
    by (simp_all add: sigma_eval_set_prefilter_def sigma_eval_create_def demo_db_def Let_def)
  from sigma_eval_run_callbacks [OF dv demo_session disjI2 [OF conjI [OF demo_contract]], of None] obtain e' hits n fs where
    r: "sigma_eval_run demo_lib demo_db dv demo_ev None ?e = Some (e', hits, n)" "distinct fs"
      "set fs \<subseteq> {..<2}" "mset (e_calls e') = routing_calls demo_db + mset (map (field_name demo_db) fs)"
      "size (routing_calls demo_db) \<le> 9"
    unfolding e by (auto simp only: mset.simps(1) add_0)
  have "length fs \<le> card {..<2::nat}" using r(2,3) by (metis card_mono distinct_card finite_lessThan)
  moreover have "length (e_calls e') = size (routing_calls demo_db) + length fs"
    using arg_cong [OF r(4), of size] by simp
  ultimately show ?thesis using r(1,5) by fastforce
qed

text \<open>
  C27. The linear entry point returns the hits of all matching rules of the database in rule
  order, and a bucketed run of the same event reports only rules that it reports too.
\<close>

theorem sigma_eval_run_linear_correct:
  assumes "ready x d dv" "session x d dv e"
  shows "(\<exists>e'. sigma_eval_run_linear x d dv ev cap e =
      Some (e', hits_of x d ev cap [0..<length (db_rules d)],
        length (filter (\<lambda>ri. rule_sem x d ev (db_rules d ! ri)) [0..<length (db_rules d)]))) \<and>
    set (firing x d ev (scope d ev)) \<subseteq> set (firing x d ev [0..<length (db_rules d)])"
proof
  have "match_env x d dv" using assms(1) by (simp add: ready_def)
  from run_linear_result [OF this session_ok [OF assms]] show "\<exists>e'. sigma_eval_run_linear x d dv ev cap e =
      Some (e', hits_of x d ev cap [0..<length (db_rules d)],
        length (filter (\<lambda>ri. rule_sem x d ev (db_rules d ! ri)) [0..<length (db_rules d)]))"
    unfolding run_result_def by (fastforce simp: firing_def first_occ_distinct)
  have d: "db_refs_ok d" "av_bucket_ok d" using assms(1) by (simp_all add: ready_def match_env_def)
  have "set (bucket_rules d b) \<subseteq> {..<length (db_rules d)}" if "b \<in> set (selected d ev)" for b
    using bucket_rules_lt [OF d(1)] selected_lt [OF d] that by blast
  then have "set (scope d ev) \<subseteq> {..<length (db_rules d)}" by (auto simp: scope_def)
  then show "set (firing x d ev (scope d ev)) \<subseteq> set (firing x d ev [0..<length (db_rules d)])"
    by (auto simp: firing_def)
qed

theorem sigma_eval_run_linear_correct_witness:
  "\<exists>dv e'. sigma_eval_run_linear demo_lib demo_db dv demo_ev (Some 4) (sigma_eval_create demo_db dv)
     = Some (e', [demo_hit], 1)"
proof -
  obtain dv where dv: "ready demo_lib demo_db dv" using demo_finalized by blast
  have "[0..<length (db_rules demo_db)] = [0]" by (simp add: demo_db_def)
  with sigma_eval_run_linear_correct [OF dv session.created, of demo_ev "Some 4"] show ?thesis
    using demo_rule by (auto simp: demo_hits)
qed

section \<open>The rule matcher\<close>

lemma demo_env:
  "\<exists>dv. sigma_db_finalize demo_lib demo_db no_derived = Some (0, dv) \<and> match_env demo_lib demo_db dv"
  using demo_finalized by (auto simp: ready_def)

lemma demo_fresh: "memo_ok demo_db ev (sigma_eval_create demo_db dv)"
  by (simp add: memo_ok_def sigma_eval_create_def Let_def)

lemma demo_tables:
  "rule_ok demo_db (db_rules demo_db ! 0)" "sel_ok demo_db (db_sels demo_db ! 0)"
  "rule_toks demo_db (db_rules demo_db ! 0) = rpn_of (CSel 0)" "r_cond_count (db_rules demo_db ! 0) \<noteq> 0"
  "rule_sels demo_db (db_rules demo_db ! 0) = [db_sels demo_db ! 0]"
  "sel_preds demo_db (db_sels demo_db ! 0) = [db_preds demo_db ! 0]"
  by (simp_all add: demo_db_def rule_ok_def sel_ok_def str_ok_def rule_toks_def rule_sels_def sel_preds_def lit_def)

text \<open>
  C5. Matching a rule returns and computes the reference semantics of the rule, deferred
  selections and the field memo included, and leaves a memo that still agrees with the event.
\<close>

theorem rule_match_correct:
  assumes "match_env x d dv" "rule_ok d r" "memo_ok d ev e"
  shows "\<exists>e'. rule_match x d dv ev r e = Some (rule_sem x d ev r, e') \<and> memo_ok d ev e' \<and> evolves d e e'"
  using rule_match_reads [OF assms] by (simp add: reads_def)

theorem rule_match_correct_witness:
  "\<exists>dv e'. sigma_db_finalize demo_lib demo_db no_derived = Some (0, dv) \<and>
     rule_match demo_lib demo_db dv demo_ev (db_rules demo_db ! 0) (sigma_eval_create demo_db dv) = Some (True, e')"
  using demo_env rule_match_correct [OF _ demo_tables(1) demo_fresh] demo_rule by metis

text \<open>
  C28. A rule whose token list is the postfix form of a condition over its selections, with
  an operand stack of at most 64, matches exactly when the condition holds of the selections.
\<close>

theorem rule_match_condition:
  assumes "match_env x d dv" "rule_ok d r" "memo_ok d ev e" "rule_toks d r = rpn_of c" "r_cond_count r \<noteq> 0"
    "cond_sels c \<subseteq> {..<length (rule_sels d r)}" "stack_need c \<le> COND_STACK_MAX"
  shows "\<exists>e'. rule_match x d dv ev r e = Some (cond_sem (\<lambda>i. sel_sem x d ev (rule_sels d r ! i)) c, e') \<and> memo_ok d ev e'"
  by (rule rule_match_compiled [OF assms])

theorem rule_match_condition_witness:
  "\<exists>dv e'. rule_match demo_lib demo_db dv demo_ev (db_rules demo_db ! 0) (sigma_eval_create demo_db dv)
     = Some (sel_sem demo_lib demo_db demo_ev (db_sels demo_db ! 0), e')"
proof -
  obtain dv where "match_env demo_lib demo_db dv" using demo_env by blast
  from rule_match_condition [OF this demo_tables(1) demo_fresh [of demo_ev dv] demo_tables(3,4)] show ?thesis
    by (auto simp: demo_tables(5))
qed

text \<open>
  C29. A selection whose predicates are ordered by group id matches exactly when it has a
  predicate and every group has a predicate that holds.
\<close>

theorem sel_match_groups:
  assumes "match_env x d dv" "sel_ok d s" "memo_ok d ev e" "sorted (map p_group (sel_preds d s))"
  shows "\<exists>e'. sel_match x d dv ev s e =
      Some (sel_preds d s \<noteq> [] \<and>
        (\<forall>k \<in> p_group ` set (sel_preds d s). \<exists>p \<in> set (sel_preds d s). p_group p = k \<and> pred_sem x d ev p), e') \<and>
    memo_ok d ev e'"
  using sel_match_reads [OF assms(1-3)] unfolding reads_def sel_sem_def sel_sem_sorted [OF assms(4)] by blast

theorem sel_match_groups_witness:
  "\<exists>dv e'. sel_match demo_lib demo_db dv demo_ev (db_sels demo_db ! 0) (sigma_eval_create demo_db dv)
     = Some (pred_sem demo_lib demo_db demo_ev (db_preds demo_db ! 0), e')"
proof -
  obtain dv where "match_env demo_lib demo_db dv" using demo_env by blast
  from sel_match_groups [OF this demo_tables(2) demo_fresh [of demo_ev dv]] show ?thesis
    by (auto simp: demo_tables(6))
qed

section \<open>The multi-needle scan\<close>

text \<open>
  C6. A matcher built over needles of two bytes or more calls back exactly once for each
  needle that occurs in the buffer up to ASCII case and for no other, in every build, with
  any reused scratch; the subset build does the same for the chosen needles.
\<close>

theorem teddy_reports_exactly:
  assumes "ndl \<noteq> []" "length ndl < 2 ^ 32" "\<forall>i < length ndl. needle_fits ndl pool i"
    "scratch_ok (length ndl) scr" "ids \<noteq> []" "distinct ids" "set ids \<subseteq> {..<length ndl}"
  shows "(\<exists>t ms scr'. sigma_teddy_build ndl pool = Some (Some t) \<and>
      teddy_confirm arch t buf trace_mark (scr, []) = Some (scr', ms) \<and> scratch_ok (length ndl) scr' \<and>
      distinct ms \<and> set ms = {j. j < length ndl \<and> occurs sigma_lc buf (needle_at ndl pool j)}) \<and>
    (\<exists>t ms scr'. sigma_teddy_build_subset ndl pool ids = Some (Some t) \<and>
      teddy_confirm arch t buf trace_mark (scr, []) = Some (scr', ms) \<and> scratch_ok (length ndl) scr' \<and>
      distinct ms \<and> set ms = {j \<in> set ids. occurs sigma_lc buf (needle_at ndl pool j)})"
proof
  have l: "length ndl < 4294967296" using assms(2) by simp
  obtain t where t: "sigma_teddy_build ndl pool = Some (Some t)" "teddy_wf t ndl pool {..<length ndl}"
    using sigma_teddy_build_wf [OF assms(1) l assms(3)] by blast
  with teddy_trace [OF t(2) assms(1,4), of arch buf]
  show "\<exists>t ms scr'. sigma_teddy_build ndl pool = Some (Some t) \<and>
      teddy_confirm arch t buf trace_mark (scr, []) = Some (scr', ms) \<and> scratch_ok (length ndl) scr' \<and>
      distinct ms \<and> set ms = {j. j < length ndl \<and> occurs sigma_lc buf (needle_at ndl pool j)}" by auto
  have "\<forall>i \<in> set ids. needle_fits ndl pool i" using assms(3,7) by auto
  from sigma_teddy_build_subset_wf [OF assms(5) l assms(6) this] obtain t' where
    t': "sigma_teddy_build_subset ndl pool ids = Some (Some t')" "teddy_wf t' ndl pool (set ids)" by blast
  with teddy_trace [OF t'(2) assms(1,4), of arch buf]
  show "\<exists>t ms scr'. sigma_teddy_build_subset ndl pool ids = Some (Some t) \<and>
      teddy_confirm arch t buf trace_mark (scr, []) = Some (scr', ms) \<and> scratch_ok (length ndl) scr' \<and>
      distinct ms \<and> set ms = {j \<in> set ids. occurs sigma_lc buf (needle_at ndl pool j)}" by blast
qed

lemma distinct_single: "distinct ms \<Longrightarrow> set ms = {k} \<Longrightarrow> ms = [k]"
proof (cases ms)
  case (Cons a as)
  assume "distinct ms" "set ms = {k}"
  with Cons have "a = k" "set as \<subseteq> {k}" "a \<notin> set as" by auto
  then have "set as = {}" unfolding subset_singleton_iff by blast
  with Cons \<open>a = k\<close> show "ms = [k]" by simp
qed simp

theorem teddy_reports_exactly_witness:
  "\<exists>t scr'. sigma_teddy_build [\<lparr>st_off = 0, st_len = 4\<rparr>] (lit ''evil'') = Some (Some t) \<and>
     teddy_confirm NEON t (lit ''an EVIL act'') trace_mark (sigma_teddy_scratch_init 1, []) = Some (scr', [0])"
proof -
  let ?n = "[\<lparr>st_off = 0, st_len = 4\<rparr> :: sigma_str]"
  have n: "needle_at ?n (lit ''evil'') 0 = lit ''evil''" by (simp add: str_bytes_def rd_def lit_def)
  have f: "\<forall>i < length ?n. needle_fits ?n (lit ''evil'') i" by (simp add: needle_fits_def lit_def)
  have scr: "scratch_ok (length ?n) (sigma_teddy_scratch_init 1)" using scratch_init_ok [of 1] by simp
  have all: "{j. j < length ?n \<and> occurs sigma_lc (lit ''an EVIL act'') (needle_at ?n (lit ''evil'') j)} = {0}"
    using demo_occurs(1) n by auto
  have "?n \<noteq> []" "length ?n < 2 ^ 32" "[0 :: nat] \<noteq> []" "distinct [0 :: nat]" "set [0] \<subseteq> {..<length ?n}" by simp_all
  from teddy_reports_exactly [OF this(1,2) f scr this(3-5), of NEON "lit ''an EVIL act''", unfolded all]
  obtain t ms scr' where "sigma_teddy_build ?n (lit ''evil'') = Some (Some t)"
    "teddy_confirm NEON t (lit ''an EVIL act'') trace_mark (sigma_teddy_scratch_init 1, []) = Some (scr', ms)"
    "distinct ms" "set ms = {0}" by blast
  with distinct_single [OF this(3,4)] show ?thesis by blast
qed

section \<open>From bytes to a ready database\<close>



section \<open>The correlation engine\<close>

text \<open>
  C2. An event on a consistent engine returns. The groups \<open>G\<close> that the maps represent are
  swept when the interval is over; then each correlation that watches a matched rule takes one
  step of its group, in the order in which the event reaches them, and all the others stay. The
  fires are those of the steps, cut at the caller's buffer, the count is their number, and the
  evidence of a fire is the key of the event for that correlation.
\<close>

theorem corr_on_event_correct:
  assumes "engine_inv loc e G" "event_input_ok loc inp e" "i_rids inp \<noteq> []"
  shows "\<exists>e' out. let G1 = after_sweep (i_ts inp) e G; fires = fires_of inp e G1 (reached inp e) in
    corr_on_event_apply inp e = Some (e', out, length fires) \<and>
    engine_inv loc e' (map (\<lambda>i. fst (effect inp e G1 i)) [0..<length (e_states e)]) \<and>
    map bare out = take (o_max inp) (map (fire_at inp e G1) fires) \<and>
    (\<forall>f \<in> set out. \<forall>k. f_group f = Some k \<longrightarrow>
      (\<exists>i < length (e_states e). key_of inp (st_rule (e_states e ! i)) = Some k \<and> f_rule_id f = r_id (st_rule (e_states e ! i))))"
  unfolding Let_def using event_call [OF assms] by blast

theorem corr_on_event_correct_witness:
  "\<exists>e e' out. corr_engine_new [demo_corr] demo_caps = Some e \<and> corr_on_event_apply demo_event e = Some (e', out, 1) \<and>
     map bare out = [mk_fire demo_corr None 1 None False]"
proof -
  obtain e where e: "corr_engine_new [demo_corr] demo_caps = Some e" "engine_inv True e [[]]" "map st_rule (e_states e) = [demo_corr]"
    "e_caps e = demo_caps" "\<not> e_sweep_seen e" by (rule demo_engine)
  note d = demo_call [OF e(3-5)]
  have "i_rids demo_event \<noteq> []" by (simp add: demo_event_def)
  from corr_on_event_correct [OF e(2) demo_input_ok [OF e(3)] this] show ?thesis
    using e(1) d by (auto simp: Let_def demo_event_def [THEN arg_cong, of o_max])
qed





text \<open>
  C13. After a fire a correlation is silent on that key for its window: however the events and
  sweeps of a correlation follow each other in time, as long as no group is pushed out by the
  cap, no fire on a key comes before the deadline of an earlier fire on the same key.
\<close>

theorem corr_refire_spaced:
  assumes "history loc r caps pct t m fl" "rule_inv r" "caps_ok caps" "max_events_per_group caps \<le> pct"
  shows "sorted_wrt (\<lambda>(k, u) (k', u'). k = k' \<longrightarrow> \<not> f64_lt u (deadline r u')) fl"
  using history_timeline [OF assms] timeline_inv [OF _ assms(2-4)] unfolding spaced_def by blast

theorem corr_refire_spaced_witness:
  "\<exists>m. history True demo_corr demo_caps 2 (Fin 5) m [([lit ''bob''], Fin 5)] \<and>
     sorted_wrt (\<lambda>(k, u) (k', u'). k = k' \<longrightarrow> \<not> f64_lt u (deadline demo_corr u')) [([lit ''bob''], Fin 5)]"
proof -
  obtain m where m: "history True demo_corr demo_caps 2 (Fin 5) m [([lit ''bob''], Fin 5)]" using demo_history by blast
  from corr_refire_spaced [OF this demo_rule_inv demo_caps_ok] m show ?thesis by (auto simp: demo_caps_def)
qed

section \<open>The two engines together\<close>

text \<open>
  One line of the driver's input, on an engine state that calls of the library left: the
  hits printed are those of exactly the rules in scope that match the parsed event, in order;
  the correlations then run on their ids, print at most 16 fires, and only fires of admitted
  correlations with a base rule among the matches; and both engines stay in states that
  the calls of the library reach. It holds for events with at most 64 matches, times in the
  range of a \<open>uint32_t\<close> and moderate values of numeric correlations.
\<close>

theorem cli_line_correct:
  assumes "ready x d dv" "session x d dv e" "rules_fit rules" "caps_fit caps" "served rules caps loc ce"
    "text \<noteq> []" "last text \<noteq> 10" "kvs = parse_event (takeWhile (\<lambda>c. c \<noteq> 0) text)"
    "e_prefilter_on e = 0 \<or> cnf_necessary x d (ev_lookup kvs) \<and> postings_scoped d" "length (matches x d kvs) \<le> 64"
    "clock_ok (event_ts kvs (lno + 1))" "\<forall>r \<in> set (filter admitted rules). rule_fits loc (corr_lookup kvs) r"
  shows "\<exists>e' ce' fires. cli_line x d dv (text @ [10]) ((e, Some ce), lno) =
      Some (((e', Some ce'), lno + 1), Some (map (\<lambda>ri. hit_sem d (db_rules d ! ri)) (matches x d kvs), fires)) \<and>
    session x d dv e' \<and> served rules caps loc ce' \<and> length fires \<le> 16 \<and>
    (\<forall>f \<in> set fires. \<exists>r \<in> set (filter admitted rules). f_rule_id f = r_id r \<and> corr_rule_hits r (matched_ids x d kvs))"
  using cli_event_ok [OF assms(1,2,9,3-5,11,12,10)] assms(6-8) by (auto simp: cli_line_def)

theorem cli_line_correct_witness:
  "\<exists>dv ce e' ce' fires. sigma_db_finalize demo_lib demo_db no_derived = Some (0, dv) \<and> corr_engine_new [demo_corr] demo_caps = Some ce \<and>
     cli_line demo_lib demo_db dv (lit ''event.category=proc'' @ [9] @ lit ''cmd=an EVIL act'' @ [10])
       ((sigma_eval_set_prefilter 2 (sigma_eval_create demo_db dv), Some ce), 0) = Some (((e', Some ce'), 1), Some ([demo_hit], fires))"
proof -
  let ?text = "lit ''event.category=proc'' @ [9] @ lit ''cmd=an EVIL act''"
  let ?kvs = "[(lit ''event.category'', lit ''proc''), (lit ''cmd'', lit ''an EVIL act'')]"
  obtain dv where dv: "sigma_db_finalize demo_lib demo_db no_derived = Some (0, dv)" "ready demo_lib demo_db dv"
    using demo_finalized by blast
  obtain ce where ce: "corr_engine_new [demo_corr] demo_caps = Some ce" by (rule demo_engine)
  have k: "?kvs = parse_event (takeWhile (\<lambda>c. c \<noteq> 0) ?text)" by (simp add: parse_event_def lit_def)
  have t: "?text \<noteq> []" "last ?text \<noteq> 10" by (simp_all add: lit_def)
  have ev: "ev_lookup ?kvs = demo_ev" by (auto simp: fun_eq_iff demo_ev_def)
  have m: "matches demo_lib demo_db ?kvs = [0]" by (simp add: matches_def ev demo_scope demo_hits)
  have h: "hit_sem demo_db (db_rules demo_db ! 0) = demo_hit" by (simp add: demo_db_def demo_hit_def hit_sem_def rule_mitre_sem_def)
  have c: "clock_ok (event_ts ?kvs (0 + 1))"
    using rnd_of_int [of 1] by (simp add: event_ts_def lit_def f64_of_int_def clock_ok_def)
  have r: "\<forall>r \<in> set (filter admitted [demo_corr]). rule_fits True (corr_lookup ?kvs) r"
    by (simp add: rule_fits_def numeric_def demo_corr_def)
  have l: "length (matches demo_lib demo_db ?kvs) \<le> 64" by (simp add: m)
  have p: "e_prefilter_on (sigma_eval_set_prefilter 2 (sigma_eval_create demo_db dv)) = 0 \<or>
      cnf_necessary demo_lib demo_db (ev_lookup ?kvs) \<and> postings_scoped demo_db"
    unfolding ev using demo_contract by blast
  from cli_line_correct [OF dv(2) demo_session demo_fits(1,2) served.built [OF ce] t k p l c r] show ?thesis
    unfolding m using dv(1) ce by (fastforce simp: h)
qed

text \<open>
  C3. A whole run of the driver. With a readable rule artifact that loads and a readable
  correlation artifact, the program ends with exit code 0 and has printed the two banners and
  then, for every non-empty line of its input in order, the hits of exactly the rules in scope
  that match the parsed event, or that none does, and at most 16 fires, each of an admitted
  correlation with a base rule among those matches. It holds for inputs whose events match at
  most 64 rules, have times in the range of a \<open>uint32_t\<close>, moderate values of numeric
  correlations, and satisfy the witness clauses of the artifact.
\<close>

theorem cli_run_correct:
  assumes "readable fs p1 buf" "sigma_db_load_buffer x buf = Some (Inr (d, dv))" "ready x d dv" "postings_scoped d"
    "readable fs p2 json" "corr_artifact_parse J json = Some (rules, ls)" "length rules < 2 ^ 28"
    "list_all (event_fits x d rules) (stdin_events input)"
  shows "\<exists>outs. cli_main x J fs [prog, p1, p2] input = Some (0, [banner p1 d, Corr_Loaded p2 (length rules)] @ concat outs) \<and>
    list_all2 (answered x d rules) (stdin_events input) outs"
  by (rule cli_run_ok [OF assms])

text \<open>The correlation artifact of the demonstration, and its two files.\<close>

definition demo_json :: json where
  "demo_json = JObject [(lit ''version'', JInt 1), (lit ''correlations'', JArray [JObject [(lit ''id'', JString (lit ''c1'')),
     (lit ''type'', JString (lit ''event_count'')), (lit ''base_rule_ids'', JArray [JInt 7]), (lit ''timespan_s'', JInt 3),
     (lit ''condition'', JObject [(lit ''op'', JString (lit ''gte'')), (lit ''count'', JInt 1)])]])]"

definition demo_files :: file_system where
  "demo_files p =
     (if p = lit ''rules'' then Some \<lparr>f_seek_end = True, f_tell = int (length (sigma_db_serialize demo_db)), f_seek_set = True,
        f_data = sigma_db_serialize demo_db\<rparr>
      else if p = lit ''corr'' then Some \<lparr>f_seek_end = True, f_tell = 1, f_seek_set = True, f_data = lit ''x''\<rparr>
      else None)"

definition demo_rule_json :: corr_rule where
  "demo_rule_json = \<lparr>r_id = Some (lit ''c1''), r_title = None, r_type = CORR_EVENT_COUNT, r_base = [7], r_ordered = [],
     r_group_by = [], r_alias = [], r_value_field = None, r_op = CORR_OP_GTE, r_count = 1, r_timespan = 3, r_level = None,
     r_mitre = None, r_cond = [], r_cv_permille = 0, r_n_buckets = 0, r_percentile = 0\<rparr>"

lemma demo_json_parses: "\<exists>ls. corr_artifact_parse (one_text demo_json) (lit ''x'') = Some ([demo_rule_json], ls)"
  by (simp add: corr_artifact_parse_def one_text_def tree_lib_def demo_json_def demo_rule_json_def jarray_def jstr_def jint_def lit_def
    parse_element_def parse_one_def parse_u32_array_def parse_str_array_def u32_element_def parse_aliases_def parse_condition_def
    parse_timespan_def to_i32_def parse_type_def parse_op_def Let_def)

lemma demo_loads:
  obtains dv where "sigma_db_load_buffer demo_lib (sigma_db_serialize demo_db) = Some (Inr (demo_db, dv))" "ready demo_lib demo_db dv"
proof -
  have sh: "db_shape demo_db" by (rule refs_ok_shape [OF demo_refs(1)]) (simp add: demo_db_def)
  have size: "length (sigma_db_serialize demo_db) < 4294967296"
    unfolding length_serialize [OF sh] by (simp add: db_layout_def Let_def align8_def demo_db_def lit_def)
  have "db_cat_field_id demo_db = cat_field_of demo_db"
    by (simp add: demo_db_def cat_field_of_def lit_def rd_def)
  from load_serialize [OF demo_refs this _ size] have "sigma_load_tables (sigma_db_serialize demo_db) = Inr demo_db"
    by (simp add: demo_db_def)
  from load_ready [OF this demo_lib_ok demo_small(1,2)] show ?thesis using that demo_small(3) by auto
qed

lemma demo_line_event:
  "stdin_events (lit ''event.category=proc'' @ [9] @ lit ''cmd=an EVIL act'' @ [10]) =
     [(1, [(lit ''event.category'', lit ''proc''), (lit ''cmd'', lit ''an EVIL act'')])]"
  by (simp add: stdin_events_def chomp_def line_event_def parse_event_def lit_def)

theorem cli_run_correct_witness:
  "\<exists>fires. cli_main demo_lib (one_text demo_json) demo_files [lit ''sigma_cli'', lit ''rules'', lit ''corr'']
       (lit ''event.category=proc'' @ [9] @ lit ''cmd=an EVIL act'' @ [10]) =
     Some (0, [Loaded (lit ''rules'') 1 1 2 0, Corr_Loaded (lit ''corr'') 1] @ event_lines 1 [demo_hit] fires) \<and> length fires \<le> 16"
proof -
  let ?kvs = "[(lit ''event.category'', lit ''proc''), (lit ''cmd'', lit ''an EVIL act'')]"
  let ?in = "lit ''event.category=proc'' @ [9] @ lit ''cmd=an EVIL act'' @ [10]"
  obtain dv where dv: "sigma_db_load_buffer demo_lib (sigma_db_serialize demo_db) = Some (Inr (demo_db, dv))" "ready demo_lib demo_db dv"
    by (rule demo_loads)
  obtain ls where ls: "corr_artifact_parse (one_text demo_json) (lit ''x'') = Some ([demo_rule_json], ls)" using demo_json_parses by blast
  have files: "readable demo_files (lit ''rules'') (sigma_db_serialize demo_db)" "readable demo_files (lit ''corr'') (lit ''x'')"
    by (simp_all add: readable_def demo_files_def lit_def)
  have ev: "ev_lookup ?kvs = demo_ev" by (auto simp: fun_eq_iff demo_ev_def)
  have m: "matches demo_lib demo_db ?kvs = [0]" by (simp add: matches_def ev demo_scope demo_hits)
  have h: "hit_sem demo_db (db_rules demo_db ! 0) = demo_hit" by (simp add: demo_db_def demo_hit_def hit_sem_def rule_mitre_sem_def)
  have "clock_ok (event_ts ?kvs 1)"
    using rnd_of_int [of 1] by (simp add: event_ts_def lit_def f64_of_int_def clock_ok_def)
  moreover have "rule_fits True (corr_lookup ?kvs) demo_rule_json" by (simp add: rule_fits_def numeric_def demo_rule_json_def)
  ultimately have fits: "list_all (event_fits demo_lib demo_db [demo_rule_json]) (stdin_events ?in)"
    using demo_contract(1) unfolding demo_line_event by (simp add: event_fits_def ev m)
  have one: "length [demo_rule_json] < 2 ^ 28" by simp
  have b: "banner p demo_db = Loaded p 1 1 2 0" for p by (simp add: banner_def demo_db_def)
  from cli_run_correct [OF files(1) dv demo_contract(2) files(2) ls one fits, of "lit ''sigma_cli''"]
  show ?thesis unfolding demo_line_event by (auto simp: answered_def list_all2_Cons1 m h b)
qed

end
